(* ===== verification/Prelude.thy ===== *)
theory Prelude
  imports Main "HOL-Library.Word" "HOL-Library.List_Lexorder"
begin

unbundle bit_operations_syntax

text \<open>
  The vocabulary shared by all components: machine types, faults and results, C strings
  and the few functions of the C library that the sources use on them.

  The target is the one the repository is built for: x86-64 Linux with gcc, so \<open>char\<close>
  is signed, \<open>int\<close> has 32 bits, pointers and \<open>size_t\<close> have 64 bits, and integers are
  stored little-endian.
\<close>

section \<open>Machine types\<close>

type_synonym byte = "8 word"
type_synonym uint16 = "16 word"
type_synonym uint32 = "32 word"
type_synonym uint64 = "64 word"
type_synonym size_t = "64 word"

text \<open>An address; \<open>0\<close> is \<open>NULL\<close>.\<close>

type_synonym addr = "64 word"

text \<open>The contents of a C string, without the terminating \<open>NUL\<close>.\<close>

type_synonym cstring = "byte list"

section \<open>Results and faults\<close>

text \<open>
  A C function can do two things besides returning: block for ever on a mutex that is
  never released, and run into undefined behaviour (a null or wild pointer is
  dereferenced, an index is out of bounds, an indeterminate value is used). The C++ parts
  can also end the program, by an assertion or by an exception that no caller catches.
  All are values of \<open>fault\<close>; every operation that can do one of them returns a \<open>res\<close>.
\<close>

datatype fault = Deadlock | Undefined | Abort

type_synonym 'a res = "fault + 'a"

abbreviation ret :: "'a \<Rightarrow> 'a res" where
  "ret x \<equiv> Inr x"

abbreviation undef :: "'a res" where
  "undef \<equiv> Inl Undefined"

abbreviation deadlock :: "'a res" where
  "deadlock \<equiv> Inl Deadlock"

abbreviation abort :: "'a res" where
  "abort \<equiv> Inl Abort"

fun rbind :: "'a res \<Rightarrow> ('a \<Rightarrow> 'b res) \<Rightarrow> 'b res" where
  "rbind (Inl e) f = Inl e"
| "rbind (Inr x) f = f x"

named_theorems codec_simps \<open>lengths and round trips of the byte-level encoders\<close>

lemma rbind_eq_Inr [simp]: "rbind m f = Inr y \<longleftrightarrow> (\<exists>x. m = Inr x \<and> f x = Inr y)"
  by (cases m) auto

lemma rbind_eq_Inl: "rbind m f = Inl x \<longleftrightarrow> m = Inl x \<or> (\<exists>y. m = Inr y \<and> f y = Inl x)"
  by (cases m) auto

lemma rbind_assoc: "rbind (rbind m f) g = rbind m (\<lambda>x. rbind (f x) g)"
  by (cases m) auto

text \<open>
  Code on linked nodes is written with \<open>option\<close>: \<open>None\<close> means that a wild pointer was
  followed or that a loop does not end. For its callers that is undefined behaviour.
\<close>

definition or_undef :: "'a option \<Rightarrow> 'a res" where
  "or_undef m = (case m of None \<Rightarrow> undef | Some x \<Rightarrow> ret x)"

lemma or_undef_simps [simp]: "or_undef None = undef" "or_undef (Some x) = ret x"
  by (simp_all add: or_undef_def)

section \<open>C strings\<close>

text \<open>What a \<open>char *\<close> that is read as a string may contain: no \<open>NUL\<close>.\<close>

definition is_cstr :: "cstring \<Rightarrow> bool" where
  "is_cstr s \<longleftrightarrow> 0 \<notin> set s"

text \<open>A string literal of the source.\<close>

definition lit :: "string \<Rightarrow> cstring" where
  "lit s = map (\<lambda>c. word_of_nat (of_char c)) s"

text \<open>The string a byte buffer holds: everything up to its first \<open>NUL\<close>.\<close>

definition str_at :: "byte list \<Rightarrow> cstring" where
  "str_at bs = takeWhile (\<lambda>b. b \<noteq> 0) bs"

text \<open>
  \<open>strcmp\<close> compares the strings as sequences of \<open>unsigned char\<close>. Only the sign of the
  result is specified by the standard, and only the sign is used by the sources.
\<close>

fun strcmp :: "cstring \<Rightarrow> cstring \<Rightarrow> int" where
  "strcmp [] [] = 0"
| "strcmp [] (d # ds) = - 1"
| "strcmp (c # cs) [] = 1"
| "strcmp (c # cs) (d # ds) =
     (if c < d then - 1 else if d < c then 1 else strcmp cs ds)"

lemma strcmp_eq_0 [simp]: "strcmp s t = 0 \<longleftrightarrow> s = t"
  by (induction s t rule: strcmp.induct) auto

lemma strcmp_self [simp]: "strcmp s s = 0"
  by simp

lemma strcmp_neg [simp]: "strcmp s t < 0 \<longleftrightarrow> s < t"
  by (induction s t rule: strcmp.induct) auto

lemma strcmp_pos [simp]: "0 < strcmp s t \<longleftrightarrow> t < s"
  by (induction s t rule: strcmp.induct) auto

lemma is_cstr_Nil [simp]: "is_cstr []"
  by (simp add: is_cstr_def)

lemma is_cstr_Cons [simp]: "is_cstr (c # cs) \<longleftrightarrow> c \<noteq> 0 \<and> is_cstr cs"
  by (auto simp: is_cstr_def)

lemma is_cstr_append [simp]: "is_cstr (s @ t) \<longleftrightarrow> is_cstr s \<and> is_cstr t"
  by (auto simp: is_cstr_def)

lemma is_cstr_str_at [simp]: "is_cstr (str_at bs)"
  by (auto simp: is_cstr_def str_at_def dest: set_takeWhileD)

lemma str_at_id [simp]: "is_cstr s \<Longrightarrow> str_at s = s"
  by (auto simp: is_cstr_def str_at_def takeWhile_eq_all_conv)

lemma str_at_append_NUL [simp]: "is_cstr s \<Longrightarrow> str_at (s @ 0 # bs) = s"
  by (induction s) (auto simp: str_at_def)

lemma length_str_at: "length (str_at bs) \<le> length bs"
  by (simp add: str_at_def length_takeWhile_le)

section \<open>Pointers to heap-allocated strings\<close>

text \<open>
  A \<open>char *\<close> field that owns a block of the heap: null, a block with the string it
  holds, or a pointer whose block was given back while the field kept its value.
\<close>

datatype cptr = CNull | CStr addr cstring | CDangling addr

text \<open>Reading the string behind such a pointer.\<close>

fun cread :: "cptr \<Rightarrow> cstring res" where
  "cread CNull = undef"
| "cread (CStr a s) = ret s"
| "cread (CDangling a) = undef"

text \<open>The address \<open>free\<close> sees.\<close>

fun caddr :: "cptr \<Rightarrow> addr" where
  "caddr CNull = 0"
| "caddr (CStr a s) = a"
| "caddr (CDangling a) = a"

fun is_str :: "cptr \<Rightarrow> bool" where
  "is_str (CStr a s) = True"
| "is_str _ = False"

fun cstr_of :: "cptr \<Rightarrow> cstring" where
  "cstr_of (CStr a s) = s"
| "cstr_of _ = []"

lemma is_strE [elim]:
  assumes "is_str p" obtains a s where "p = CStr a s"
  using assms by (cases p) auto

lemma cread_is_str [simp]: "is_str p \<Longrightarrow> cread p = ret (cstr_of p)"
  by (cases p) auto

section \<open>Tables indexed by numbers\<close>

text \<open>A table is a function on the indices below a bound; its contents are a concatenation.\<close>

lemma concat_upt_split:
  "i < n \<Longrightarrow> concat (map f [0..<n]) = concat (map f [0..<i]) @ f i @ concat (map f [Suc i..<n])"
proof -
  assume "i < n"
  then have "[0..<n] = [0..<i] @ [i..<n]"
    using upt_add_eq_append [of 0 i "n - i"] by simp
  with \<open>i < n\<close> have "[0..<n] = [0..<i] @ i # [Suc i..<n]"
    by (simp add: upt_conv_Cons)
  then show ?thesis by simp
qed

lemma concat_upt_upd:
  "i < n \<Longrightarrow> concat (map (\<lambda>j. g ((t(i := x)) j)) [0..<n]) =
     concat (map (\<lambda>j. g (t j)) [0..<i]) @ g x @ concat (map (\<lambda>j. g (t j)) [Suc i..<n])"
proof -
  assume "i < n"
  moreover have "map (\<lambda>j. g ((t(i := x)) j)) [0..<i] = map (\<lambda>j. g (t j)) [0..<i]"
    and "map (\<lambda>j. g ((t(i := x)) j)) [Suc i..<n] = map (\<lambda>j. g (t j)) [Suc i..<n]"
    by simp_all
  ultimately show ?thesis
    using concat_upt_split [of i n "\<lambda>j. g ((t(i := x)) j)"] by (simp only: fun_upd_same)
qed

lemma concat_upt_upd_beyond:
  "n \<le> i \<Longrightarrow> concat (map (\<lambda>j. g ((t(i := x)) j)) [0..<n]) = concat (map (\<lambda>j. g (t j)) [0..<n])"
  by (auto intro!: arg_cong [of _ _ concat] map_cong)

section \<open>Association lists\<close>

lemma map_of_insert_mid:
  "k \<notin> fst ` set xs \<Longrightarrow> map_of (xs @ (k, v) # ys) = (map_of (xs @ ys))(k \<mapsto> v)"
  by (induction xs) (auto simp: fun_upd_twist)

lemma map_of_replace_mid:
  "k \<notin> fst ` set xs \<Longrightarrow> map_of (xs @ (k, w) # ys) = (map_of (xs @ (k, v) # ys))(k \<mapsto> w)"
  by (simp add: map_of_insert_mid del: map_of_append)

lemma map_of_delete_mid:
  "k \<notin> fst ` set xs \<Longrightarrow> k \<notin> fst ` set ys \<Longrightarrow>
   map_of (xs @ ys) = (map_of (xs @ (k, v) # ys))(k := None)"
  by (auto simp: map_of_insert_mid fun_upd_idem map_of_eq_None_iff image_Un simp del: map_of_append)

end
