(* ===== verification/Mempool.thy ===== *)
theory Mempool
  imports Prelude
begin

text \<open>
  The allocator: the fixed-size chunk pool of \<^verbatim>\<open>src/kv_mempool.c\<close> and, on top of it,
  \<open>kvs_malloc\<close> and \<open>kvs_free\<close> of \<^verbatim>\<open>src/kvstore.c\<close>.

  The heap is modelled as far as the allocator looks at it. The free list is threaded
  through the first pointer-sized cell of each free chunk, so \<open>cell\<close> maps an address to
  the pointer stored there. The system allocator is what the standard says it is, a
  function that returns null or a block: \<open>sys_malloc h n s\<close> is what the \<open>n\<close>-th call of
  \<open>malloc\<close> returns when it is asked for \<open>s\<close> bytes, so that a theorem about every heap
  covers every pattern of successes and failures.
\<close>

section \<open>The system allocator\<close>

record mem_pool =
  mp_addr :: addr
  free_list :: addr
  pool_data :: addr
  chunk_size :: size_t
  chunk_count :: size_t
  initialized :: bool

record heap =
  cell :: "addr \<Rightarrow> addr"
  global_pool :: "mem_pool option"
  sys_malloc :: "nat \<Rightarrow> size_t \<Rightarrow> addr"
  malloc_calls :: nat
  sys_blocks :: "(addr \<times> size_t) list"
  sys_freed :: "addr list"

definition malloc :: "size_t \<Rightarrow> heap \<Rightarrow> addr \<times> heap" where
  "malloc s h =
     (let p = sys_malloc h (malloc_calls h) s
      in (p, h\<lparr>malloc_calls := Suc (malloc_calls h),
               sys_blocks := (if p = 0 then sys_blocks h else (p, s) # sys_blocks h)\<rparr>))"

definition free :: "addr \<Rightarrow> heap \<Rightarrow> heap" where
  "free p h = (if p = 0 then h else h\<lparr>sys_freed := p # sys_freed h\<rparr>)"

section \<open>The chunk pool\<close>

definition align_up :: "size_t \<Rightarrow> size_t \<Rightarrow> size_t" where
  "align_up sz align = (sz + align - 1) AND NOT (align - 1)"

definition sizeof_ptr :: size_t where
  "sizeof_ptr = 8"

definition sizeof_mem_pool :: size_t where
  "sizeof_mem_pool = 40"

text \<open>The loop that links chunk \<open>i\<close> to chunk \<open>i + 1\<close>, \<open>n\<close> times from \<open>i\<close> on.\<close>

fun link_chunks :: "addr \<Rightarrow> size_t \<Rightarrow> size_t \<Rightarrow> nat \<Rightarrow> (addr \<Rightarrow> addr) \<Rightarrow> addr \<Rightarrow> addr" where
  "link_chunks d cs i 0 c = c"
| "link_chunks d cs i (Suc n) c =
     link_chunks d cs (i + 1) n (c(d + i * cs := d + (i + 1) * cs))"

definition kvs_mempool_create :: "size_t \<Rightarrow> size_t \<Rightarrow> heap \<Rightarrow> mem_pool option \<times> heap" where
  "kvs_mempool_create csize count h =
     (if csize = 0 \<or> count = 0 then (None, h)
      else let cs = align_up csize sizeof_ptr;
               (mp, h1) = malloc sizeof_mem_pool h
           in if mp = 0 then (None, h1)
              else let (d, h2) = malloc (cs * count) h1
                   in if d = 0 then (None, free mp h2)
                      else let c = link_chunks d cs 0 (unat (count - 1)) (cell h2);
                               c' = c(d + (count - 1) * cs := 0)
                           in (Some \<lparr>mp_addr = mp, free_list = d, pool_data = d,
                                     chunk_size = cs, chunk_count = count,
                                     initialized = True\<rparr>,
                               h2\<lparr>cell := c'\<rparr>))"

definition kvs_mempool_alloc :: "mem_pool option \<Rightarrow> heap \<Rightarrow> addr \<times> mem_pool option" where
  "kvs_mempool_alloc mpo h =
     (case mpo of
        None \<Rightarrow> (0, None)
      | Some mp \<Rightarrow>
          if \<not> initialized mp \<or> free_list mp = 0 then (0, Some mp)
          else (free_list mp, Some (mp\<lparr>free_list := cell h (free_list mp)\<rparr>)))"

definition kvs_mempool_free :: "mem_pool option \<Rightarrow> addr \<Rightarrow> heap \<Rightarrow> mem_pool option \<times> heap" where
  "kvs_mempool_free mpo p h =
     (case mpo of
        None \<Rightarrow> (None, h)
      | Some mp \<Rightarrow>
          if p = 0 then (Some mp, h)
          else (Some (mp\<lparr>free_list := p\<rparr>), h\<lparr>cell := (cell h)(p := free_list mp)\<rparr>))"

definition kvs_mempool_destory :: "mem_pool option \<Rightarrow> heap \<Rightarrow> heap" where
  "kvs_mempool_destory mpo h =
     (case mpo of
        None \<Rightarrow> h
      | Some mp \<Rightarrow> free (mp_addr mp) (if pool_data mp \<noteq> 0 then free (pool_data mp) h else h))"

section \<open>The engine's allocator\<close>

definition POOL_CHUNK_SIZE :: size_t where
  "POOL_CHUNK_SIZE = 64"

definition POOL_CHUNK_COUNT :: size_t where
  "POOL_CHUNK_COUNT = 100000"

definition kvs_malloc :: "size_t \<Rightarrow> heap \<Rightarrow> addr \<times> heap" where
  "kvs_malloc sz h =
     (if sz \<le> POOL_CHUNK_SIZE
      then let (p, mp) = kvs_mempool_alloc (global_pool h) h
           in if p \<noteq> 0 then (p, h\<lparr>global_pool := mp\<rparr>)
              else malloc sz h
      else malloc sz h)"

definition kvs_free :: "addr \<Rightarrow> heap \<Rightarrow> heap" where
  "kvs_free p h =
     (if p = 0 then h
      else case global_pool h of
             None \<Rightarrow> free p h
           | Some mp \<Rightarrow> (let (mp', h') = kvs_mempool_free (Some mp) p h
                         in h'\<lparr>global_pool := mp'\<rparr>))"

section \<open>The free list as a chain of chunks\<close>

fun chain :: "(addr \<Rightarrow> addr) \<Rightarrow> addr \<Rightarrow> addr list \<Rightarrow> bool" where
  "chain c p [] \<longleftrightarrow> p = 0"
| "chain c p (a # as) \<longleftrightarrow> p = a \<and> a \<noteq> 0 \<and> chain c (c a) as"

lemma chain_unique: "chain c p as \<Longrightarrow> chain c p bs \<Longrightarrow> as = bs"
proof (induction as arbitrary: p bs)
  case Nil
  then show ?case by (cases bs) auto
next
  case (Cons a as)
  then show ?case by (cases bs) auto
qed

lemma chain_append: "chain c p (as @ b # bs) \<Longrightarrow> chain c b (b # bs)"
  by (induction as arbitrary: p) auto

lemma chain_distinct: "chain c p as \<Longrightarrow> distinct as"
proof (induction as arbitrary: p)
  case Nil
  then show ?case by simp
next
  case (Cons a as)
  have "a \<notin> set as"
  proof
    assume "a \<in> set as"
    then obtain us vs where as: "as = us @ a # vs"
      by (meson split_list)
    with Cons.prems have "chain c a (a # us @ a # vs)" and "chain c a (a # vs)"
      using chain_append [of c p "a # us"] by auto
    then have "a # us @ a # vs = a # vs"
      by (rule chain_unique)
    then show False by simp
  qed
  with Cons show ?case by auto
qed

lemma chain_nonzero: "chain c p as \<Longrightarrow> 0 \<notin> set as"
  by (induction as arbitrary: p) auto

text \<open>The chain depends on the cells of its own chunks only: users may fill theirs.\<close>

lemma chain_cong: "(\<And>a. a \<in> set as \<Longrightarrow> c a = c' a) \<Longrightarrow> chain c p as = chain c' p as"
  by (induction as arbitrary: p) auto

lemma chain_upd [simp]: "q \<notin> set as \<Longrightarrow> chain (c(q := x)) p as = chain c p as"
  by (rule chain_cong) auto

section \<open>Creating the pool\<close>

definition chunks :: "addr \<Rightarrow> size_t \<Rightarrow> nat \<Rightarrow> addr list" where
  "chunks d cs n = map (\<lambda>i. d + of_nat i * cs) [0..<n]"

lemma link_chunks_apply:
  "link_chunks d cs i n c a =
     (if \<exists>k<n. a = d + (i + of_nat k) * cs then a + cs else c a)"
proof (induction n arbitrary: i c)
  case 0
  then show ?case by simp
next
  case (Suc n)
  have shift: "(\<exists>k<Suc n. a = d + (i + of_nat k) * cs) \<longleftrightarrow>
      a = d + i * cs \<or> (\<exists>k<n. a = d + ((i + 1) + of_nat k) * cs)"
    by (simp add: Ex_less_Suc2 algebra_simps)
  show ?case
    by (subst shift) (auto simp: Suc.IH algebra_simps)
qed

text \<open>A block that fits into the address space cuts into distinct chunks.\<close>

lemma unat_chunk:
  fixes d cs :: size_t
  assumes "unat d + n * unat cs \<le> 2 ^ 64" and "i < n" and "0 < unat cs"
  shows "unat (d + of_nat i * cs) = unat d + i * unat cs"
proof -
  have "(i + 1) * unat cs \<le> n * unat cs"
    using assms(2) by (intro mult_le_mono1) simp
  with assms(3) have lt: "i * unat cs + unat cs \<le> n * unat cs"
    by simp
  have i64: "i < 2 ^ 64"
  proof -
    have "i * 1 \<le> i * unat cs" using assms(3) by (intro mult_le_mono2) simp
    with lt assms show ?thesis by linarith
  qed
  then have ui: "unat (of_nat i :: 64 word) = i"
    by (simp add: unat_of_nat)
  have "unat (of_nat i * cs) = i * unat cs"
    using lt assms ui by (simp add: unat_word_ariths)
  then show ?thesis
    using lt assms by (simp add: unat_word_ariths)
qed

lemma distinct_chunks:
  assumes "unat d + n * unat cs \<le> 2 ^ 64" and "0 < unat cs"
  shows "distinct (chunks d cs n)"
proof -
  have "inj_on (\<lambda>i. d + of_nat i * cs) {0..<n}"
  proof (rule inj_onI)
    fix i j assume ij: "i \<in> {0..<n}" "j \<in> {0..<n}"
      and "d + of_nat i * cs = d + of_nat j * cs"
    then have "unat (d + of_nat i * cs) = unat (d + of_nat j * cs)" by simp
    with ij assms show "i = j" by (simp add: unat_chunk)
  qed
  then show ?thesis
    by (simp add: chunks_def distinct_map)
qed

lemma chunk_nonzero:
  fixes d cs :: size_t
  assumes "unat d + n * unat cs \<le> 2 ^ 64" and "0 < unat cs" and "d \<noteq> 0" and "i < n"
  shows "d + of_nat i * cs \<noteq> 0"
proof -
  have "0 < unat d" using assms(3) by (simp add: unat_gt_0)
  then have "0 < unat (d + of_nat i * cs)"
    using assms unat_chunk [of d n cs i] by simp
  then show ?thesis by auto
qed

lemma chain_linked:
  fixes d cs :: size_t
  assumes fits: "unat d + n * unat cs \<le> 2 ^ 64" and cs: "0 < unat cs" and d: "d \<noteq> 0"
    and k: "k < n"
    and link: "\<And>j. j < n - 1 \<Longrightarrow> c (d + of_nat j * cs) = d + of_nat (Suc j) * cs"
    and last: "c (d + of_nat (n - 1) * cs) = 0"
  shows "chain c (d + of_nat k * cs) (map (\<lambda>i. d + of_nat i * cs) [k..<n])"
  using k
proof (induction "n - k" arbitrary: k)
  case 0
  then show ?case by simp
next
  case (Suc m)
  show ?case
  proof (cases "k = n - 1")
    case True
    with Suc.prems have "[k..<n] = [k]" by (simp add: upt_rec)
    with True last chunk_nonzero [OF fits cs d Suc.prems] show ?thesis by simp
  next
    case False
    with Suc.prems have kn: "Suc k < n" "k < n - 1" by auto
    have "chain c (d + of_nat (Suc k) * cs) (map (\<lambda>i. d + of_nat i * cs) [Suc k..<n])"
      by (rule Suc.hyps(1)) (use Suc.hyps(2) kn in auto)
    moreover have "[k..<n] = k # [Suc k..<n]"
      using Suc.prems by (simp add: upt_rec)
    moreover have "c (d + of_nat k * cs) = d + of_nat (Suc k) * cs"
      using link kn(2) by blast
    ultimately show ?thesis
      using chunk_nonzero [OF fits cs d Suc.prems] by simp
  qed
qed

lemma chain_carved:
  fixes d cs :: size_t
  assumes fits: "unat d + n * unat cs \<le> 2 ^ 64" and cs: "0 < unat cs" and d: "d \<noteq> 0" and n: "0 < n"
  shows "chain ((link_chunks d cs 0 (n - 1) c)(d + of_nat (n - 1) * cs := 0)) d (chunks d cs n)"
proof -
  let ?c = "(link_chunks d cs 0 (n - 1) c)(d + of_nat (n - 1) * cs := 0)"
  have link: "?c (d + of_nat j * cs) = d + of_nat (Suc j) * cs" if j: "j < n - 1" for j
  proof -
    have u: "unat (d + of_nat k * cs) = unat d + k * unat cs" if "k < n" for k
      by (rule unat_chunk [OF fits that cs])
    have "unat (d + of_nat j * cs) \<noteq> unat (d + of_nat (n - 1) * cs)"
      using u [of j] u [of "n - 1"] j cs by (simp del: of_nat_diff)
    then have "d + of_nat j * cs \<noteq> d + of_nat (n - 1) * cs" by metis
    then show ?thesis using j by (auto simp: link_chunks_apply algebra_simps)
  qed
  have "chain ?c (d + of_nat 0 * cs) (map (\<lambda>i. d + of_nat i * cs) [0..<n])"
    by (rule chain_linked) (use fits cs n d link in auto)
  then show ?thesis by (simp add: chunks_def)
qed

lemma and_not_mask: "(x :: 'a::len word) AND NOT (mask k) = push_bit k (drop_bit k x)"
  by (rule bit_eqI) (auto simp: bit_simps)
lemma unat_align_up_8:
  assumes "unat s + 7 < 2 ^ 64"
  shows "unat (align_up s 8) = 8 * ((unat s + 7) div 8)"
proof -
  have e: "s + 8 - 1 = s + 7" and m: "(8 :: 64 word) - 1 = mask 3"
    by (simp_all add: mask_eq_exp_minus_1 algebra_simps)
  have a: "align_up s 8 = 8 * drop_bit 3 (s + 7)"
    unfolding align_up_def e m and_not_mask by (simp add: push_bit_eq_mult)
  have u: "unat (s + 7) = unat s + 7" using assms by (simp add: unat_word_ariths)
  have d: "unat (drop_bit 3 (s + 7)) = (unat s + 7) div 8"
    by (simp add: drop_bit_eq_div unat_div_distrib u)
  show ?thesis using assms
    by (simp add: a d unat_word_ariths)
qed

lemma align_up_bounds:
  assumes "unat s + 7 < 2 ^ 64"
  shows "unat s \<le> unat (align_up s 8)" and "unat (align_up s 8) < unat s + 8"
    and "8 dvd unat (align_up s 8)"
  using assms by (auto simp: unat_align_up_8)

text \<open>
  \<open>kvs_mempool_create\<close> returns a pool whose free list runs through all its chunks, in
  address order, each of them once.
\<close>

lemma kvs_mempool_createD:
  assumes "kvs_mempool_create csize count h = (Some mp, h')"
  shows "free_list mp = pool_data mp" and "pool_data mp \<noteq> 0" and "initialized mp"
    and "chunk_size mp = align_up csize 8" and "chunk_count mp = count" and "0 < unat count"
    and "cell h' = (link_chunks (pool_data mp) (chunk_size mp) 0 (unat (count - 1)) (cell h))
                     (pool_data mp + (count - 1) * chunk_size mp := 0)"
  using assms
  by (auto simp: kvs_mempool_create_def Let_def malloc_def sizeof_ptr_def unat_gt_0
      split: if_splits prod.splits)

lemma kvs_mempool_create_chain:
  assumes mk: "kvs_mempool_create csize count h = (Some mp, h')"
    and fits: "unat (pool_data mp) + unat count * unat (chunk_size mp) \<le> 2 ^ 64"
    and cs: "0 < unat (chunk_size mp)"
  shows "chain (cell h') (free_list mp) (chunks (pool_data mp) (chunk_size mp) (unat count))"
proof -
  note D = kvs_mempool_createD [OF mk]
  have cnt: "unat (count - 1) = unat count - 1"
    using D(6) by (metis One_nat_def Suc_leI unat_eq_0 unat_sub_if' word_le_nat_alt unat_1)
  have last: "(count - 1) = of_nat (unat count - 1)"
    by (metis cnt unsigned_0 word_of_nat_eq_0_iff of_nat_unat ucast_id)
  show ?thesis
    using chain_carved [OF fits cs D(2) D(6), of "cell h"] unfolding D(1) D(7) by (simp only: cnt last [symmetric])
qed

section \<open>The allocator's invariant\<close>

text \<open>
  \<open>heap_inv h L\<close>: the free list is a chain of chunks none of which is in the set \<open>L\<close> of
  blocks in use, and the system allocator, as long as nothing is given back to it (once
  the pool exists, \<open>kvs_free\<close> never does), keeps returning blocks that are neither in use
  nor on the free list nor returned twice.
\<close>

definition fresh_mallocs :: "heap \<Rightarrow> addr set \<Rightarrow> bool" where
  "fresh_mallocs h X \<longleftrightarrow>
     (\<forall>n s. malloc_calls h \<le> n \<longrightarrow> sys_malloc h n s \<noteq> 0 \<longrightarrow> sys_malloc h n s \<notin> X) \<and>
     (\<forall>m n s t. malloc_calls h \<le> m \<longrightarrow> m < n \<longrightarrow> sys_malloc h m s \<noteq> 0 \<longrightarrow>
        sys_malloc h m s \<noteq> sys_malloc h n t)"

definition heap_inv :: "heap \<Rightarrow> addr set \<Rightarrow> bool" where
  "heap_inv h L \<longleftrightarrow> 0 \<notin> L \<and>
     (\<exists>mp fs. global_pool h = Some mp \<and> initialized mp \<and> chain (cell h) (free_list mp) fs \<and>
        set fs \<inter> L = {} \<and> fresh_mallocs h (L \<union> set fs))"

lemma heap_invI:
  assumes "0 \<notin> L" and "global_pool h = Some mp" and "initialized mp"
    and "chain (cell h) (free_list mp) fs" and "set fs \<inter> L = {}"
    and "fresh_mallocs h (L \<union> set fs)"
  shows "heap_inv h L"
  using assms unfolding heap_inv_def by blast

lemma heap_invE:
  assumes "heap_inv h L"
  obtains mp fs where "0 \<notin> L" and "global_pool h = Some mp" and "initialized mp"
    and "chain (cell h) (free_list mp) fs" and "set fs \<inter> L = {}"
    and "fresh_mallocs h (L \<union> set fs)"
  using assms unfolding heap_inv_def by blast

lemma fresh_mallocs_mono: "fresh_mallocs h X \<Longrightarrow> Y \<subseteq> X \<Longrightarrow> fresh_mallocs h Y"
  unfolding fresh_mallocs_def by blast

lemma fresh_mallocs_cong:
  "malloc_calls h' = malloc_calls h \<Longrightarrow> sys_malloc h' = sys_malloc h \<Longrightarrow>
   fresh_mallocs h' X = fresh_mallocs h X"
  by (simp add: fresh_mallocs_def)

lemma malloc_heap_inv:
  assumes "heap_inv h L" and m: "malloc s h = (p, h')"
  shows "p \<noteq> 0 \<Longrightarrow> p \<notin> L \<and> heap_inv h' (insert p L)" and "p = 0 \<Longrightarrow> heap_inv h' L"
proof -
  from assms(1) obtain mp fs where inv: "0 \<notin> L" "global_pool h = Some mp" "initialized mp"
    "chain (cell h) (free_list mp) fs" "set fs \<inter> L = {}" "fresh_mallocs h (L \<union> set fs)"
    by (rule heap_invE)
  have h': "p = sys_malloc h (malloc_calls h) s" "malloc_calls h' = Suc (malloc_calls h)"
    "sys_malloc h' = sys_malloc h" "cell h' = cell h" "global_pool h' = global_pool h"
    using m by (auto simp: malloc_def Let_def)
  have later: "fresh_mallocs h' (L \<union> set fs)"
    using inv(6) h'(2,3) by (auto simp: fresh_mallocs_def)
  show "heap_inv h' L" if "p = 0"
    using inv later h' by (intro heap_invI [of _ _ mp fs]) auto
  assume p: "p \<noteq> 0"
  then have new: "p \<notin> L \<union> set fs"
    using inv(6) h'(1) by (auto simp: fresh_mallocs_def)
  have "sys_malloc h n t \<noteq> p" if "Suc (malloc_calls h) \<le> n" for n t
    using inv(6) that p h'(1) unfolding fresh_mallocs_def by (metis Suc_le_lessD le_refl)
  with later have "fresh_mallocs h' (insert p L \<union> set fs)"
    using h'(2,3) by (auto simp: fresh_mallocs_def)
  then show "p \<notin> L \<and> heap_inv h' (insert p L)"
    using new p inv h' by (auto intro!: heap_invI [of _ _ mp fs])
qed

lemma kvs_malloc_cases:
  assumes "kvs_malloc s h = (p, h')"
  obtains (sys) "malloc s h = (p, h')"
  | (pool) mp where "s \<le> POOL_CHUNK_SIZE" and "global_pool h = Some mp" and "initialized mp"
      and "p = free_list mp" and "p \<noteq> 0"
      and "h' = h\<lparr>global_pool := Some (mp\<lparr>free_list := cell h p\<rparr>)\<rparr>"
  using assms
  by (auto simp: kvs_malloc_def kvs_mempool_alloc_def Let_def split: if_splits option.splits)

lemma kvs_malloc_heap_inv:
  assumes inv: "heap_inv h L" and m: "kvs_malloc s h = (p, h')"
  shows "p \<noteq> 0 \<Longrightarrow> p \<notin> L \<and> heap_inv h' (insert p L)" and "p = 0 \<Longrightarrow> heap_inv h' L"
proof -
  have goal: "(p \<noteq> 0 \<longrightarrow> p \<notin> L \<and> heap_inv h' (insert p L)) \<and> (p = 0 \<longrightarrow> heap_inv h' L)"
    using m
  proof (cases rule: kvs_malloc_cases)
    case sys
    with inv show ?thesis using malloc_heap_inv by blast
  next
    case (pool mp)
    from inv obtain fs where I: "0 \<notin> L" "chain (cell h) (free_list mp) fs" "set fs \<inter> L = {}"
      "fresh_mallocs h (L \<union> set fs)"
      using pool(2) by (auto elim: heap_invE)
    with pool(4,5) obtain gs where fs: "fs = p # gs" "chain (cell h) (cell h p) gs"
      by (cases fs) auto
    have "distinct fs" using I(2) by (rule chain_distinct)
    moreover have "fresh_mallocs h' (insert p L \<union> set gs)"
      using I(4) fs(1) pool(6) by (simp add: fresh_mallocs_def)
    ultimately have "heap_inv h' (insert p L)"
      using I fs pool
      by (intro heap_invI [of _ _ "mp\<lparr>free_list := cell h p\<rparr>" gs]) auto
    with I(3) fs(1) pool(5) show ?thesis by auto
  qed
  from goal show "p \<noteq> 0 \<Longrightarrow> p \<notin> L \<and> heap_inv h' (insert p L)" by blast
  from goal show "p = 0 \<Longrightarrow> heap_inv h' L" by blast
qed

lemma kvs_free_heap_inv:
  assumes "heap_inv h L" and "p \<in> L"
  shows "heap_inv (kvs_free p h) (L - {p})"
proof -
  from assms(1) obtain mp fs where I: "0 \<notin> L" "global_pool h = Some mp" "initialized mp"
    "chain (cell h) (free_list mp) fs" "set fs \<inter> L = {}" "fresh_mallocs h (L \<union> set fs)"
    by (rule heap_invE)
  with assms(2) have p: "p \<noteq> 0" "p \<notin> set fs" by auto
  have "fresh_mallocs h (L - {p} \<union> set (p # fs))"
    by (rule fresh_mallocs_mono [OF I(6)]) (use assms(2) in auto)
  then show ?thesis
    using I p
    by (intro heap_invI [of _ _ "mp\<lparr>free_list := p\<rparr>" "p # fs"])
      (auto simp: kvs_free_def kvs_mempool_free_def fresh_mallocs_def)
qed

lemma kvs_free_0 [simp]: "kvs_free 0 h = h"
  by (simp add: kvs_free_def)

section \<open>What clients rely on\<close>

text \<open>
  The interface of the allocator: a block that is handed out is not in use, and a block
  that is in use can be given back.
\<close>

locale allocator =
  fixes alloc :: "size_t \<Rightarrow> 'h \<Rightarrow> addr \<times> 'h"
    and release :: "addr \<Rightarrow> 'h \<Rightarrow> 'h"
    and inv :: "'h \<Rightarrow> addr set \<Rightarrow> bool"
  assumes alloc_Some: "inv h L \<Longrightarrow> alloc s h = (p, h') \<Longrightarrow> p \<noteq> 0 \<Longrightarrow> p \<notin> L \<and> inv h' (insert p L)"
    and alloc_None: "inv h L \<Longrightarrow> alloc s h = (0, h') \<Longrightarrow> inv h' L"
    and release_live: "inv h L \<Longrightarrow> p \<in> L \<Longrightarrow> inv (release p h) (L - {p})"
    and live_nonnull: "inv h L \<Longrightarrow> 0 \<notin> L"
begin

text \<open>Requests in sequence, the results in order.\<close>

fun alloc_list :: "size_t list \<Rightarrow> 'h \<Rightarrow> addr list \<times> 'h" where
  "alloc_list [] h = ([], h)"
| "alloc_list (s # ss) h =
     (let (p, h1) = alloc s h; (ps, h2) = alloc_list ss h1 in (p # ps, h2))"

lemma alloc_two:
  assumes "inv h L" and "alloc s h = (p, h1)" and "p \<noteq> 0" and "alloc t h1 = (q, h2)" and "q \<noteq> 0"
  shows "p \<noteq> q" and "p \<notin> L" and "q \<notin> L" and "inv h2 (insert q (insert p L))"
  using alloc_Some [OF assms(1-3)] alloc_Some [OF _ assms(4,5)] by blast+

lemma alloc_list_fresh:
  assumes "inv h L" and "alloc_list ss h = (ps, h')" and "0 \<notin> set ps"
  shows "distinct ps \<and> set ps \<inter> L = {} \<and> inv h' (L \<union> set ps)"
  using assms
proof (induction ss arbitrary: h L ps)
  case Nil
  then show ?case by simp
next
  case (Cons s ss)
  from Cons.prems obtain p h1 qs where
    p: "alloc s h = (p, h1)" "p \<noteq> 0" and qs: "alloc_list ss h1 = (qs, h')" "0 \<notin> set qs"
    and ps: "ps = p # qs"
    by (auto split: prod.splits)
  have hd: "p \<notin> L \<and> inv h1 (insert p L)"
    by (rule alloc_Some [OF Cons.prems(1) p])
  then have "distinct qs \<and> set qs \<inter> insert p L = {} \<and> inv h' (insert p L \<union> set qs)"
    using qs by (intro Cons.IH) auto
  with hd ps show ?case by auto
qed

lemma release_list:
  assumes "inv h L" and "set ps \<subseteq> L" and "distinct ps"
  shows "inv (fold release ps h) (L - set ps)"
  using assms
proof (induction ps arbitrary: h L)
  case Nil
  then show ?case by simp
next
  case (Cons p ps)
  then have "inv (release p h) (L - {p})"
    by (intro release_live) auto
  then have "inv (fold release ps (release p h)) (L - {p} - set ps)"
    using Cons.prems by (intro Cons.IH) auto
  moreover have "L - {p} - set ps = L - set (p # ps)" by auto
  ultimately show ?case by simp
qed

text \<open>Allocating and giving the blocks back leaves the set of blocks in use as it was.\<close>

lemma alloc_release_list:
  assumes "inv h L" and "alloc_list ss h = (ps, h')" and "0 \<notin> set ps"
  shows "inv (fold release ps h') L"
proof -
  from alloc_list_fresh [OF assms] have ps: "distinct ps" "set ps \<inter> L = {}" "inv h' (L \<union> set ps)"
    by auto
  then have "inv (fold release ps h') (L \<union> set ps - set ps)"
    by (intro release_list) auto
  moreover have "L \<union> set ps - set ps = L" using ps(2) by auto
  ultimately show ?thesis by simp
qed

end

interpretation kvs_alloc: allocator kvs_malloc kvs_free heap_inv
proof
  show "heap_inv h L \<Longrightarrow> kvs_malloc s h = (p, h') \<Longrightarrow> p \<noteq> 0 \<Longrightarrow> p \<notin> L \<and> heap_inv h' (insert p L)"
    for h L s p h' by (rule kvs_malloc_heap_inv)
  show "heap_inv h L \<Longrightarrow> kvs_malloc s h = (0, h') \<Longrightarrow> heap_inv h' L" for h L s h'
    by (rule kvs_malloc_heap_inv(2)) auto
  show "heap_inv h L \<Longrightarrow> p \<in> L \<Longrightarrow> heap_inv (kvs_free p h) (L - {p})" for h L p
    by (rule kvs_free_heap_inv)
  show "heap_inv h L \<Longrightarrow> 0 \<notin> L" for h L
    by (auto elim: heap_invE)
qed

text \<open>The system allocator can serve the next \<open>n\<close> requests.\<close>

definition mem_budget :: "heap \<Rightarrow> nat \<Rightarrow> bool" where
  "mem_budget h n \<longleftrightarrow>
     (\<forall>m s. malloc_calls h \<le> m \<longrightarrow> m < malloc_calls h + n \<longrightarrow> sys_malloc h m s \<noteq> 0)"

lemma mem_budget_mono: "mem_budget h n \<Longrightarrow> m \<le> n \<Longrightarrow> mem_budget h m"
  by (auto simp: mem_budget_def)

lemma kvs_malloc_budget:
  assumes "mem_budget h (Suc n)" and "kvs_malloc s h = (p, h')"
  shows "p \<noteq> 0" and "mem_budget h' n"
proof -
  have "p \<noteq> 0 \<and> mem_budget h' n"
    using assms(2)
  proof (cases rule: kvs_malloc_cases)
    case sys
    with assms(1) show ?thesis by (auto simp: mem_budget_def malloc_def Let_def)
  next
    case (pool mp)
    with assms(1) show ?thesis by (auto simp: mem_budget_def)
  qed
  then show "p \<noteq> 0" and "mem_budget h' n" by auto
qed

lemma heap_inv_mono: "heap_inv h L \<Longrightarrow> M \<subseteq> L \<Longrightarrow> heap_inv h M"
  unfolding heap_inv_def using fresh_mallocs_mono by (blast intro: fresh_mallocs_mono)

lemma sys_malloc_inv: "heap_inv h L \<Longrightarrow> malloc s h = (p, h') \<Longrightarrow> heap_inv h' L"
  using malloc_heap_inv [of h L s p h'] heap_inv_mono [of h' "insert p L" L] by blast

lemma sys_free_inv [simp]: "heap_inv (free p h) L = heap_inv h L"
  by (simp add: free_def heap_inv_def fresh_mallocs_def)

lemma sys_free_budget [simp]: "mem_budget (free p h) n = mem_budget h n"
  by (simp add: free_def mem_budget_def)

lemma sys_malloc_budget:
  "mem_budget h (Suc n) \<Longrightarrow> malloc s h = (p, h') \<Longrightarrow> p \<noteq> 0 \<and> mem_budget h' n"
  by (auto simp: malloc_def mem_budget_def Let_def)

lemma kvs_free_budget [simp]: "mem_budget (kvs_free p h) n = mem_budget h n"
  by (auto simp: kvs_free_def kvs_mempool_free_def free_def mem_budget_def split: option.splits)

text \<open>
  The idiom of all three stores for a private copy of a string:
  \<^verbatim>\<open>p = kvs_malloc(strlen(s) + 1); if (!p) ...; memset(p, 0, strlen(s) + 1);
  strncpy(p, s, strlen(s))\<close>. The copy is \<open>CNull\<close> when the allocation fails.
\<close>

definition kvs_strcopy :: "cstring \<Rightarrow> heap \<Rightarrow> cptr \<times> heap" where
  "kvs_strcopy s h =
     (let (p, h') = kvs_malloc (of_nat (length s + 1)) h
      in (if p = 0 then CNull else CStr p s, h'))"

lemma kvs_strcopy_cases:
  assumes "kvs_strcopy s h = (q, h')"
  obtains (fail) "q = CNull" and "kvs_malloc (of_nat (length s + 1)) h = (0, h')"
  | (copy) p where "q = CStr p s" and "p \<noteq> 0" and "kvs_malloc (of_nat (length s + 1)) h = (p, h')"
  using assms by (auto simp: kvs_strcopy_def Let_def split: prod.splits if_splits)

lemma kvs_strcopy_heap_inv:
  assumes "heap_inv h L" and "kvs_strcopy s h = (q, h')"
  shows "q = CNull \<and> heap_inv h' L \<or> (\<exists>p. q = CStr p s \<and> p \<notin> L \<and> heap_inv h' (insert p L))"
  using assms(2)
proof (cases rule: kvs_strcopy_cases)
  case fail
  with assms(1) show ?thesis using kvs_alloc.alloc_None by blast
next
  case (copy p)
  with assms(1) show ?thesis using kvs_alloc.alloc_Some by blast
qed

lemma kvs_strcopy_budget:
  assumes "mem_budget h (Suc n)" and "kvs_strcopy s h = (q, h')"
  shows "\<exists>p. q = CStr p s" and "mem_budget h' n"
  using assms(2) kvs_malloc_budget [OF assms(1)] by (auto elim!: kvs_strcopy_cases)

text \<open>A node and the copies of its key and value, which the hash and tree stores allocate.\<close>

lemma alloc_node_strings:
  assumes inv: "heap_inv h L" and mem: "mem_budget h (m + 3)"
  obtains n h1 a h2 b h3 where "kvs_malloc s h = (n, h1)" and "kvs_strcopy k h1 = (CStr a k, h2)"
    and "kvs_strcopy v h2 = (CStr b v, h3)" and "distinct [0, n, a, b]" and "{n, a, b} \<inter> L = {}"
    and "heap_inv h3 (L \<union> {n, a, b})" and "mem_budget h3 m"
proof -
  obtain n h1 where 1: "kvs_malloc s h = (n, h1)" by fastforce
  have mem': "mem_budget h (Suc (m + 2))" using mem by (simp add: numeral_eq_Suc)
  note b1 = kvs_malloc_budget [OF mem' 1]
  obtain q h2 where 2: "kvs_strcopy k h1 = (q, h2)" by fastforce
  have "mem_budget h1 (Suc (m + 1))" using b1(2) by (simp add: numeral_eq_Suc)
  note b2 = kvs_strcopy_budget [OF this 2]
  obtain r h3 where 3: "kvs_strcopy v h2 = (r, h3)" by fastforce
  have "mem_budget h2 (Suc m)" using b2(2) by simp
  note b3 = kvs_strcopy_budget [OF this 3]
  have n: "n \<notin> L" "heap_inv h1 (insert n L)" using kvs_alloc.alloc_Some [OF inv 1 b1(1)] by auto
  obtain a where a: "q = CStr a k" "a \<notin> insert n L" "heap_inv h2 (insert a (insert n L))"
    using kvs_strcopy_heap_inv [OF n(2) 2] b2(1) by auto
  obtain b where b: "r = CStr b v" "b \<notin> insert a (insert n L)"
      "heap_inv h3 (insert b (insert a (insert n L)))"
    using kvs_strcopy_heap_inv [OF a(3) 3] b3(1) by auto
  have "insert b (insert a (insert n L)) = L \<union> {n, a, b}" by auto
  moreover have "0 \<notin> insert b (insert a (insert n L))" using kvs_alloc.live_nonnull [OF b(3)] .
  ultimately show ?thesis using that [of n h1 a h2 b h3] 1 2 3 n a b b3(2) by auto
qed

section \<open>Sizes of blocks\<close>

text \<open>
  How many bytes may be written to a block: a chunk of the pool has \<open>chunk_size\<close>, a block
  of the system allocator what was asked for.
\<close>

definition is_chunk :: "mem_pool \<Rightarrow> addr \<Rightarrow> bool" where
  "is_chunk mp a \<longleftrightarrow> a \<in> set (chunks (pool_data mp) (chunk_size mp) (unat (chunk_count mp)))"

definition block_size :: "heap \<Rightarrow> addr \<Rightarrow> nat" where
  "block_size h a =
     (case global_pool h of
        Some mp \<Rightarrow> if is_chunk mp a then unat (chunk_size mp)
                   else (case map_of (sys_blocks h) a of Some s \<Rightarrow> unat s | None \<Rightarrow> 0)
      | None \<Rightarrow> (case map_of (sys_blocks h) a of Some s \<Rightarrow> unat s | None \<Rightarrow> 0))"

text \<open>Every block on the free list can serve the largest request the pool accepts.\<close>

definition free_list_ok :: "heap \<Rightarrow> bool" where
  "free_list_ok h \<longleftrightarrow>
     (\<forall>mp fs. global_pool h = Some mp \<longrightarrow> chain (cell h) (free_list mp) fs \<longrightarrow>
        (\<forall>a\<in>set fs. unat POOL_CHUNK_SIZE \<le> block_size h a))"

lemma block_size_free_list [simp]:
  "global_pool h = Some mp \<Longrightarrow>
   block_size (h\<lparr>global_pool := Some (mp\<lparr>free_list := x\<rparr>), cell := c\<rparr>) a = block_size h a"
  by (simp add: block_size_def is_chunk_def)

lemma kvs_malloc_block_size:
  assumes inv: "heap_inv h L" and ok: "free_list_ok h"
    and m: "kvs_malloc s h = (p, h')" and p: "p \<noteq> 0"
    and sys: "\<And>mp n t. global_pool h = Some mp \<Longrightarrow> \<not> is_chunk mp (sys_malloc h n t)"
  shows "unat s \<le> block_size h' p"
  using m
proof (cases rule: kvs_malloc_cases)
  case sys
  from inv obtain mp where mp: "global_pool h = Some mp" by (rule heap_invE)
  have "\<not> is_chunk mp p" using assms(5) [OF mp] sys by (auto simp: malloc_def Let_def)
  then show ?thesis using sys mp p by (auto simp: malloc_def Let_def block_size_def)
next
  case (pool mp)
  from inv obtain fs where "chain (cell h) (free_list mp) fs"
    using pool(2) by (auto elim: heap_invE)
  moreover from this have "p \<in> set fs" using pool(4,5) by (cases fs) auto
  ultimately have "unat POOL_CHUNK_SIZE \<le> block_size h p"
    using ok pool(2) unfolding free_list_ok_def by blast
  moreover have "block_size h' p = block_size h p"
    using pool(2,6) by (simp add: block_size_def is_chunk_def)
  ultimately show ?thesis
    using pool(1) by (simp add: word_le_nat_alt)
qed

section \<open>A small concrete heap\<close>

text \<open>
  One chunk in the pool and a system allocator good for a hundred requests: the instance at
  which the hypotheses of later theorems are checked.
\<close>

definition demo_heap :: heap where
  "demo_heap =
     \<lparr>cell = (\<lambda>_. 0),
      global_pool = Some \<lparr>mp_addr = 16, free_list = 4096, pool_data = 4096, chunk_size = 64,
                         chunk_count = 1, initialized = True\<rparr>,
      sys_malloc = (\<lambda>n s. if n < 100 then 65536 + 65536 * of_nat n else 0),
      malloc_calls = 0, sys_blocks = [], sys_freed = []\<rparr>"

lemma demo_malloc:
  assumes "n < 100"
  shows "unat (65536 + 65536 * of_nat n :: addr) = 65536 * Suc n"
proof -
  have eq: "(65536 + 65536 * of_nat n :: addr) = of_nat (65536 * Suc n)"
    by (simp add: algebra_simps)
  have "65536 * Suc n < 2 ^ 64" using assms by simp
  then show ?thesis unfolding eq unat_of_nat by simp
qed

lemma demo_heap_inv:
  assumes "\<And>a. a \<in> L \<Longrightarrow> 0 < a \<and> a < 4096"
  shows "heap_inv demo_heap L"
proof (rule heap_invI [of _ _ "the (global_pool demo_heap)" "[4096]"])
  have sys: "sys_malloc demo_heap n s \<noteq> 0 \<Longrightarrow> n < 100 \<and> unat (sys_malloc demo_heap n s) = 65536 * Suc n"
    for n s by (cases "n < 100") (simp_all add: demo_heap_def demo_malloc)
  have L: "unat a < 4096" if "a \<in> L" for a
    using assms [OF that] by (simp add: word_less_nat_alt)
  have "sys_malloc demo_heap n s \<notin> L \<union> {4096}" if "sys_malloc demo_heap n s \<noteq> 0" for n s
  proof
    assume "sys_malloc demo_heap n s \<in> L \<union> {4096}"
    then have "unat (sys_malloc demo_heap n s) \<le> 4096" using L by fastforce
    with sys [OF that] show False by simp
  qed
  moreover have "sys_malloc demo_heap m s \<noteq> sys_malloc demo_heap n t"
    if "m < n" "sys_malloc demo_heap m s \<noteq> 0" for m n s t
    using sys [of m s] sys [of n t] that by auto
  ultimately show "fresh_mallocs demo_heap (L \<union> set [4096])"
    unfolding fresh_mallocs_def by simp
  show "set [4096] \<inter> L = {}" and "0 \<notin> L"
    using assms [of 4096] assms [of 0] by auto
qed (simp_all add: demo_heap_def)

lemma demo_heap_budget [simp]: "n \<le> 100 \<Longrightarrow> mem_budget demo_heap n"
proof -
  have "(65536 + 65536 * of_nat m :: addr) \<noteq> 0" if "m < 100" for m
    using demo_malloc [OF that] by auto
  then show "n \<le> 100 \<Longrightarrow> mem_budget demo_heap n"
    by (auto simp: mem_budget_def demo_heap_def)
qed

section \<open>Draining the pool\<close>

text \<open>Taking \<open>n\<close> chunks in a row from a pool nobody else uses.\<close>

fun mempool_take :: "nat \<Rightarrow> mem_pool option \<Rightarrow> heap \<Rightarrow> addr list \<times> mem_pool option" where
  "mempool_take 0 mp h = ([], mp)"
| "mempool_take (Suc n) mp h =
     (let (p, mp1) = kvs_mempool_alloc mp h; (ps, mp2) = mempool_take n mp1 h in (p # ps, mp2))"

lemma mempool_take_chain:
  assumes "initialized mp" and "chain (cell h) (free_list mp) as" and "n \<le> length as"
  shows "\<exists>q. mempool_take n (Some mp) h = (take n as, Some (mp\<lparr>free_list := q\<rparr>)) \<and>
           chain (cell h) q (drop n as)"
  using assms
proof (induction n arbitrary: mp as)
  case 0
  then show ?case by (intro exI [of _ "free_list mp"]) simp
next
  case (Suc n)
  then obtain a as' where as: "as = a # as'" by (cases as) auto
  with Suc.prems have "free_list mp = a" "a \<noteq> 0" "chain (cell h) (cell h a) as'" "n \<le> length as'"
    by auto
  with Suc.IH [of "mp\<lparr>free_list := cell h a\<rparr>" as'] Suc.prems(1) show ?case
    by (auto simp: as kvs_mempool_alloc_def)
qed

section \<open>Runs of the allocator\<close>

text \<open>
  What the rest of the program does to the heap: it asks for blocks and gives back
  blocks it holds, in any order. \<open>L\<close> is the set of blocks it holds.
\<close>

inductive alloc_run :: "heap \<Rightarrow> addr set \<Rightarrow> heap \<Rightarrow> addr set \<Rightarrow> bool" where
  start: "alloc_run h L h L"
| alloc: "alloc_run h L h1 L1 \<Longrightarrow> kvs_malloc s h1 = (p, h2) \<Longrightarrow>
          alloc_run h L h2 (if p = 0 then L1 else insert p L1)"
| release: "alloc_run h L h1 L1 \<Longrightarrow> p \<in> L1 \<Longrightarrow> alloc_run h L (kvs_free p h1) (L1 - {p})"

lemma alloc_run_inv: "alloc_run h L h' L' \<Longrightarrow> heap_inv h L \<Longrightarrow> heap_inv h' L'"
proof (induction rule: alloc_run.induct)
  case (alloc h L h1 L1 s p h2)
  then show ?case
    using kvs_alloc.alloc_Some kvs_alloc.alloc_None by auto
qed (auto intro: kvs_alloc.release_live)

text \<open>The pool the engine starts with satisfies the invariant, nothing being in use.\<close>

lemma kvs_mempool_create_inv:
  assumes mk: "kvs_mempool_create csize count h = (Some mp, h')"
    and fits: "unat (pool_data mp) + unat count * unat (chunk_size mp) \<le> 2 ^ 64"
    and cs: "0 < unat (chunk_size mp)"
    and fresh: "fresh_mallocs h' (set (chunks (pool_data mp) (chunk_size mp) (unat count)))"
  shows "heap_inv (h'\<lparr>global_pool := Some mp\<rparr>) {}"
proof (rule heap_invI)
  show "chain (cell (h'\<lparr>global_pool := Some mp\<rparr>)) (free_list mp)
          (chunks (pool_data mp) (chunk_size mp) (unat count))"
    using kvs_mempool_create_chain [OF mk fits cs] by simp
  show "fresh_mallocs (h'\<lparr>global_pool := Some mp\<rparr>)
          ({} \<union> set (chunks (pool_data mp) (chunk_size mp) (unat count)))"
    using fresh by (simp add: fresh_mallocs_def)
qed (use kvs_mempool_createD(3) [OF mk] in auto)

lemma kvs_mempool_create_chunk_pos:
  assumes "kvs_mempool_create csize count h = (Some mp, h')" and "unat csize + 7 < 2 ^ 64"
  shows "0 < unat (chunk_size mp)"
proof -
  have "csize \<noteq> 0" using assms(1) by (auto simp: kvs_mempool_create_def)
  then have "0 < unat csize" by (simp add: unat_gt_0)
  then show ?thesis
    using align_up_bounds(1) [OF assms(2)] kvs_mempool_createD(4) [OF assms(1)] by simp
qed

text \<open>A pool of three 13-byte chunks made by the system allocator of the small heap.\<close>

lemma demo_pool:
  obtains mp h' where "kvs_mempool_create 13 3 demo_heap = (Some mp, h')" and "pool_data mp = 131072"
    and "sys_malloc h' = sys_malloc demo_heap" and "malloc_calls h' = 2"
  by (simp add: kvs_mempool_create_def malloc_def demo_heap_def sizeof_mem_pool_def Let_def)

section \<open>Properties\<close>

text \<open>
  \<open>kvs_mempool_create\<close> rounds the chunk size up to a multiple of 8, and the pool it
  returns hands out exactly its \<open>count\<close> chunks, in address order and each once; then it
  is exhausted and the next request gets null.
\<close>

theorem kvs_mempool_create_serves:
  assumes "kvs_mempool_create csize count h = (Some mp, h')" and "unat csize + 7 < 2 ^ 64"
    and "unat (pool_data mp) + unat count * unat (chunk_size mp) \<le> 2 ^ 64"
  shows "unat csize \<le> unat (chunk_size mp) \<and> unat (chunk_size mp) < unat csize + 8 \<and>
         8 dvd unat (chunk_size mp) \<and>
         (\<exists>mp'. mempool_take (unat count) (Some mp) h' =
                  (chunks (pool_data mp) (chunk_size mp) (unat count), Some mp') \<and>
                distinct (chunks (pool_data mp) (chunk_size mp) (unat count)) \<and>
                kvs_mempool_alloc (Some mp') h' = (0, Some mp'))"
proof -
  note D = kvs_mempool_createD [OF assms(1)]
  note b = align_up_bounds [OF assms(2), folded D(4)]
  note cs = kvs_mempool_create_chunk_pos [OF assms(1,2)]
  have "length (chunks (pool_data mp) (chunk_size mp) (unat count)) = unat count"
    by (simp add: chunks_def)
  then obtain q where q: "mempool_take (unat count) (Some mp) h' =
      (chunks (pool_data mp) (chunk_size mp) (unat count), Some (mp\<lparr>free_list := q\<rparr>))" "q = 0"
    using mempool_take_chain [OF D(3) kvs_mempool_create_chain [OF assms(1,3) cs], of "unat count"]
    by auto
  moreover have "kvs_mempool_alloc (Some (mp\<lparr>free_list := q\<rparr>)) h' = (0, Some (mp\<lparr>free_list := q\<rparr>))"
    using q(2) by (simp add: kvs_mempool_alloc_def)
  ultimately show ?thesis
    using b distinct_chunks [OF assms(3) cs] by blast
qed

theorem kvs_mempool_create_serves_witness:
  "\<exists>mp mp' h'. kvs_mempool_create 13 3 demo_heap = (Some mp, h') \<and>
     mempool_take 3 (Some mp) h' = ([131072, 131088, 131104], Some mp') \<and>
     kvs_mempool_alloc (Some mp') h' = (0, Some mp')"
proof -
  obtain mp h' where m: "kvs_mempool_create 13 3 demo_heap = (Some mp, h')"
    and d: "pool_data mp = 131072"  and "sys_malloc h' = sys_malloc demo_heap"
    and "malloc_calls h' = 2"
    by (rule demo_pool)
  have c: "chunk_size mp = 16" using kvs_mempool_createD(4) [OF m] by (simp add: align_up_def)
  have "chunks 131072 16 3 = [131072, 131088, 131104]" by (simp add: chunks_def upt_rec)
  then show ?thesis
    using kvs_mempool_create_serves [OF m] m by (auto simp: c d)
qed

text \<open>
  Property C13. Starting from a fresh pool, whatever blocks the program asks for and gives back and
  in whatever order, \<open>kvs_malloc\<close> never returns a block that is in use, be it a chunk of
  the pool or a block of the system allocator.
\<close>

theorem kvs_malloc_never_in_use:
  assumes "kvs_mempool_create csize count h = (Some mp, h0)" and "unat csize + 7 < 2 ^ 64"
    and "unat (pool_data mp) + unat count * unat (chunk_size mp) \<le> 2 ^ 64"
    and "fresh_mallocs h0 (set (chunks (pool_data mp) (chunk_size mp) (unat count)))"
    and "alloc_run (h0\<lparr>global_pool := Some mp\<rparr>) {} h1 L"
    and "kvs_malloc s h1 = (p, h2)"
  shows "p \<notin> L"
proof -
  note cs = kvs_mempool_create_chunk_pos [OF assms(1,2)]
  have "heap_inv h1 L"
    using alloc_run_inv [OF assms(5) kvs_mempool_create_inv [OF assms(1,3) cs assms(4)]] .
  then show ?thesis
    using kvs_alloc.alloc_Some [OF _ assms(6)] kvs_alloc.live_nonnull by (cases "p = 0") blast+
qed

theorem kvs_malloc_never_in_use_witness:
  "\<exists>mp h0 p h1 q h2. kvs_mempool_create 13 3 demo_heap = (Some mp, h0) \<and>
     kvs_malloc 5 (h0\<lparr>global_pool := Some mp\<rparr>) = (p, h1) \<and> p \<noteq> 0 \<and>
     kvs_malloc 70 h1 = (q, h2) \<and> q \<noteq> p"
proof -
  obtain mp h0 where m: "kvs_mempool_create 13 3 demo_heap = (Some mp, h0)"
    and d: "pool_data mp = 131072" and sys: "sys_malloc h0 = sys_malloc demo_heap" "malloc_calls h0 = 2"
    by (rule demo_pool)
  note D = kvs_mempool_createD [OF m]
  let ?h = "h0\<lparr>global_pool := Some mp\<rparr>"
  have c: "chunk_size mp = 16" using D(4) by (simp add: align_up_def)
  have ch: "chunks 131072 16 3 = [131072, 131088, 131104]" by (simp add: chunks_def upt_rec)
  have u: "unat (sys_malloc h0 n s) = 65536 * Suc n" if "sys_malloc h0 n s \<noteq> 0" for n s
    using that by (cases "n < 100") (simp_all add: sys demo_heap_def demo_malloc)
  have low: "unat a < 196608" if "a \<in> {131072, 131088, 131104 :: addr}" for a
    using that by auto
  have "fresh_mallocs h0 {131072, 131088, 131104}"
    unfolding fresh_mallocs_def
  proof (intro conjI allI impI)
    fix n s assume "malloc_calls h0 \<le> n" "sys_malloc h0 n s \<noteq> 0"
    with u [of n s] low show "sys_malloc h0 n s \<notin> {131072, 131088, 131104}"
      using sys(2) by fastforce
  next
    fix k n s t assume "k < (n::nat)" "sys_malloc h0 k s \<noteq> 0"
    with u [of k s] u [of n t] show "sys_malloc h0 k s \<noteq> sys_malloc h0 n t" by force
  qed
  moreover obtain p h1 where p: "kvs_malloc 5 ?h = (p, h1)" "p = 131072"
    using D(1,2,3) d by (simp add: kvs_malloc_def kvs_mempool_alloc_def POOL_CHUNK_SIZE_def)
  moreover have "alloc_run ?h {} h1 {p}"
    using alloc_run.alloc [OF alloc_run.start [of ?h "{}"] p(1)] p(2) by simp
  moreover obtain q h2 where "kvs_malloc 70 h1 = (q, h2)" by fastforce
  ultimately show ?thesis
    using kvs_malloc_never_in_use [OF m, of h1 "{p}" 70 q h2] m by (auto simp: c d ch)
qed

text \<open>
  As long as every block on the free list is large enough, what \<open>kvs_malloc\<close> returns has
  at least the size that was asked for.
\<close>

theorem kvs_malloc_size:
  assumes "heap_inv h L" and "free_list_ok h"
    and "\<And>mp n t. global_pool h = Some mp \<Longrightarrow> \<not> is_chunk mp (sys_malloc h n t)"
    and "kvs_malloc s h = (p, h')" and "p \<noteq> 0"
  shows "unat s \<le> block_size h' p"
  using kvs_malloc_block_size [OF assms(1,2,4,5,3)] .

theorem kvs_malloc_size_witness:
  "\<exists>p h'. kvs_malloc 10 demo_heap = (p, h') \<and> p \<noteq> 0 \<and> 10 \<le> block_size h' p"
proof -
  obtain p h' where p: "kvs_malloc 10 demo_heap = (p, h')" "p \<noteq> 0"
    by (simp add: kvs_malloc_def kvs_mempool_alloc_def demo_heap_def POOL_CHUNK_SIZE_def)
  have ch: "is_chunk mp a \<longleftrightarrow> a = 4096" if "global_pool demo_heap = Some mp" for mp a
    using that by (auto simp: demo_heap_def is_chunk_def chunks_def)
  have "sys_malloc demo_heap n t \<noteq> 4096" for n t
  proof (cases "n < 100")
    case True
    have "unat (sys_malloc demo_heap n t) = 65536 * Suc n"
      using demo_malloc [OF True] True by (simp add: demo_heap_def)
    then show ?thesis by auto
  qed (simp add: demo_heap_def)
  moreover have "free_list_ok demo_heap"
    unfolding free_list_ok_def
  proof (intro allI impI ballI)
    fix mp fs a assume g: "global_pool demo_heap = Some mp" "chain (cell demo_heap) (free_list mp) fs"
      and a: "a \<in> set fs"
    then have "a = 4096" by (cases fs; cases "tl fs") (auto simp: demo_heap_def)
    with ch [OF g(1)] g(1) show "unat POOL_CHUNK_SIZE \<le> block_size demo_heap a"
      by (auto simp: block_size_def demo_heap_def POOL_CHUNK_SIZE_def)
  qed
  ultimately show ?thesis
    using kvs_malloc_size [OF demo_heap_inv [of "{}"] _ _ p] p ch by auto
qed

text \<open>
  \<open>kvs_free\<close> puts every block on the free list, whatever its size: when the pool
  is exhausted, a block of \<open>s\<close> bytes that came from the system allocator is handed out
  again for the next request of up to 64 bytes.
\<close>

theorem kvs_free_undersized_chunk:
  assumes "global_pool h = Some mp" and "initialized mp" and "free_list mp = 0"
    and "s \<le> POOL_CHUNK_SIZE" and "kvs_malloc s h = (p, h1)" and "p \<noteq> 0" and "\<not> is_chunk mp p"
  shows "\<exists>h2. kvs_malloc POOL_CHUNK_SIZE (kvs_free p h1) = (p, h2) \<and> block_size h2 p = unat s"
proof -
  have h1: "h1 = h\<lparr>malloc_calls := Suc (malloc_calls h), sys_blocks := (p, s) # sys_blocks h\<rparr>"
    using assms by (auto simp: kvs_malloc_def kvs_mempool_alloc_def malloc_def Let_def split: if_splits)
  show ?thesis
    using assms(1-3,6,7)
    by (simp add: h1 kvs_malloc_def kvs_free_def kvs_mempool_free_def kvs_mempool_alloc_def
        block_size_def is_chunk_def)
qed

theorem kvs_free_undersized_chunk_witness:
  "\<exists>p h1 h2. kvs_malloc 1 (demo_heap\<lparr>global_pool := Some (the (global_pool demo_heap)\<lparr>free_list := 0\<rparr>)\<rparr>) = (p, h1) \<and>
     kvs_malloc 64 (kvs_free p h1) = (p, h2) \<and> block_size h2 p = 1"
proof -
  let ?mp = "the (global_pool demo_heap)\<lparr>free_list := 0\<rparr>"
  let ?h = "demo_heap\<lparr>global_pool := Some ?mp\<rparr>"
  obtain h1 where p: "kvs_malloc 1 ?h = (65536, h1)"
    by (simp add: kvs_malloc_def kvs_mempool_alloc_def malloc_def demo_heap_def POOL_CHUNK_SIZE_def)
  have "\<not> is_chunk ?mp 65536" by (simp add: is_chunk_def chunks_def demo_heap_def)
  then show ?thesis
    using kvs_free_undersized_chunk [of ?h ?mp 1 65536 h1] p
    by (auto simp: demo_heap_def POOL_CHUNK_SIZE_def)
qed

end
