(* ===== verification/Kv_Contract.thy ===== *)
theory Kv_Contract
  imports Mempool
begin

text \<open>
  What the three key-value stores (array, hash table, red-black tree) have in common, as
  an interface: the server and the snapshot loader rely on these laws and on nothing
  else. All three stores insert only if the key is absent: the first value written wins.
\<close>

section \<open>Ownership\<close>

text \<open>
  An operation of a component that owned the blocks \<open>B\<close> of the live blocks \<open>L\<close> and now
  owns \<open>B'\<close> of \<open>L'\<close>: what others own is still live, and nobody shares a block.
\<close>

definition heap_frame :: "addr set \<Rightarrow> addr set \<Rightarrow> addr set \<Rightarrow> addr set \<Rightarrow> bool" where
  "heap_frame L B L' B' \<longleftrightarrow> L - B \<subseteq> L' \<and> B' \<subseteq> L' \<and> B' \<inter> (L - B) = {}"

lemma heap_frame_refl: "B \<subseteq> L \<Longrightarrow> heap_frame L B L B"
  by (auto simp: heap_frame_def)

lemma heap_frame_trans:
  "heap_frame L B L1 B1 \<Longrightarrow> heap_frame L1 B1 L2 B2 \<Longrightarrow> heap_frame L B L2 B2"
  unfolding heap_frame_def by blast

lemma heap_frame_grow: "B \<subseteq> L \<Longrightarrow> A \<inter> L = {} \<Longrightarrow> heap_frame L B (L \<union> A) (B \<union> A)"
  by (auto simp: heap_frame_def)

section \<open>The interface\<close>

locale kv_reader =
  fixes inv :: "'s \<Rightarrow> bool"
    and abs :: "'s \<Rightarrow> cstring \<rightharpoonup> cstring"
    and usable :: "cstring \<Rightarrow> bool"
    and get :: "'s \<Rightarrow> cstring \<Rightarrow> (cptr \<times> 's) res"
  assumes get_hit: "inv s \<Longrightarrow> usable k \<Longrightarrow> abs s k = Some v \<Longrightarrow> \<exists>a. get s k = ret (CStr a v, s)"
    and get_miss: "inv s \<Longrightarrow> usable k \<Longrightarrow> abs s k = None \<Longrightarrow> get s k = ret (CNull, s)"
begin

lemma get_total: "inv s \<Longrightarrow> usable k \<Longrightarrow> \<exists>p. get s k = ret (p, s)"
  using get_hit get_miss by (cases "abs s k") blast+

lemma get_iff: "inv s \<Longrightarrow> usable k \<Longrightarrow> (\<exists>a. get s k = ret (CStr a v, s)) \<longleftrightarrow> abs s k = Some v"
  using get_hit [of s k] get_miss [of s k] by (cases "abs s k") fastforce+

end

text \<open>
  \<open>fits s ks\<close>: there is room for the keys \<open>ks\<close>, in this order, and all are usable;
  \<open>dup\<close> is what an insertion returns when the key is present already.
\<close>

locale kv_store = kv_reader inv abs usable get
  for inv :: "'s \<Rightarrow> bool"
    and abs :: "'s \<Rightarrow> cstring \<rightharpoonup> cstring"
    and usable :: "cstring \<Rightarrow> bool"
    and get :: "'s \<Rightarrow> cstring \<Rightarrow> (cptr \<times> 's) res" +
  fixes blocks :: "'s \<Rightarrow> addr set"
    and fits :: "'s \<Rightarrow> cstring list \<Rightarrow> bool"
    and set_op :: "'s \<Rightarrow> cstring \<Rightarrow> cstring \<Rightarrow> heap \<Rightarrow> (int \<times> 's \<times> heap) res"
    and dup :: int
  assumes fits_usable: "fits s (k # ks) \<Longrightarrow> usable k"
    and set_first_wins:
      "inv s \<Longrightarrow> heap_inv h L \<Longrightarrow> blocks s \<subseteq> L \<Longrightarrow> mem_budget h (n + 3) \<Longrightarrow> fits s (k # ks) \<Longrightarrow>
       \<exists>s' h' L'. set_op s k v h = ret (if abs s k = None then 0 else dup, s', h') \<and> inv s' \<and>
         abs s' = (if abs s k = None then (abs s)(k \<mapsto> v) else abs s) \<and> fits s' ks \<and>
         heap_inv h' L' \<and> mem_budget h' n \<and> heap_frame L (blocks s) L' (blocks s')"
begin

text \<open>Writing a list of records, as the snapshot loader does.\<close>

fun set_all :: "'s \<Rightarrow> (cstring \<times> cstring) list \<Rightarrow> heap \<Rightarrow> ('s \<times> heap) res" where
  "set_all s [] h = ret (s, h)"
| "set_all s ((k, v) # kvs) h = rbind (set_op s k v h) (\<lambda>(r, s', h'). set_all s' kvs h')"

lemma set_all_first_wins:
  assumes "inv s" and "heap_inv h L" and "blocks s \<subseteq> L"
    and "mem_budget h (n + 3 * length kvs)" and "fits s (map fst kvs)"
  shows "\<exists>s' h' L'. set_all s kvs h = ret (s', h') \<and> inv s' \<and> abs s' = map_of kvs ++ abs s \<and>
           heap_inv h' L' \<and> mem_budget h' n \<and> heap_frame L (blocks s) L' (blocks s')"
  using assms
proof (induction kvs arbitrary: s h L)
  case Nil
  then show ?case by (auto intro: heap_frame_refl)
next
  case (Cons kv kvs)
  obtain k v where kv: "kv = (k, v)" by (cases kv)
  with Cons.prems(5) have fits: "fits s (k # map fst kvs)" by simp
  have mem: "mem_budget h (n + 3 * length kvs + 3)"
    using Cons.prems(4) by (simp add: algebra_simps)
  obtain r s1 h1 L1 where 1: "set_op s k v h = ret (r, s1, h1)" "inv s1"
    "abs s1 = (if abs s k = None then (abs s)(k \<mapsto> v) else abs s)" "fits s1 (map fst kvs)"
    "heap_inv h1 L1" "mem_budget h1 (n + 3 * length kvs)" "heap_frame L (blocks s) L1 (blocks s1)"
    using set_first_wins [OF Cons.prems(1-3) mem fits] by blast
  have "blocks s1 \<subseteq> L1" using 1(7) by (simp add: heap_frame_def)
  then obtain s2 h2 L2 where 2: "set_all s1 kvs h1 = ret (s2, h2)" "inv s2"
    "abs s2 = map_of kvs ++ abs s1" "heap_inv h2 L2" "mem_budget h2 n"
    "heap_frame L1 (blocks s1) L2 (blocks s2)"
    using Cons.IH [OF 1(2,5) _ 1(6) 1(4)] by blast
  have "abs s2 = map_of (kv # kvs) ++ abs s"
    using 1(3) 2(3) kv by (auto simp: map_add_def fun_eq_iff split: option.splits)
  moreover have "set_all s (kv # kvs) h = ret (s2, h2)"
    using 1(1) 2(1) kv by simp
  moreover have "heap_frame L (blocks s) L2 (blocks s2)"
    using 1(7) 2(6) by (rule heap_frame_trans)
  ultimately show ?case
    using 2(2,4,5) by blast
qed

text \<open>A key that was absent reads back as what was written.\<close>

lemma get_after_set:
  assumes "inv s" and "heap_inv h L" and "blocks s \<subseteq> L" and "mem_budget h 3"
    and "fits s [k]" and "abs s k = None"
  shows "\<exists>r s' h' a. set_op s k v h = ret (r, s', h') \<and> get s' k = ret (CStr a v, s')"
proof -
  obtain r s' h' where 1: "set_op s k v h = ret (r, s', h')" "inv s'" "abs s' = (abs s)(k \<mapsto> v)"
    using set_first_wins [OF assms(1-3) _ assms(5), of 0] assms(4,6) by fastforce
  have "usable k" using assms(5) by (rule fits_usable)
  with 1 show ?thesis using get_hit [of s' k v] by auto
qed

end

end
