(* ===== verification/Kvs_Array.thy ===== *)
theory Kvs_Array
  imports Kv_Contract
begin

text \<open>
  The array store of \<^verbatim>\<open>src/kvs_array.c\<close>: a table of 1024 key/value slots searched
  linearly, under one mutex. The model keeps what goes wrong in the C code: a mutex that
  is taken and not given back, a slot that is read before it was written, and a null key
  handed to \<open>strcmp\<close>.
\<close>

section \<open>State\<close>

record kvs_array_item =
  item_key :: cptr
  item_value :: cptr

definition KVS_ARRAY_SIZE :: nat where
  "KVS_ARRAY_SIZE = 1024"

definition sizeof_array_table :: size_t where
  "sizeof_array_table = 16384"

text \<open>
  \<open>array_table\<close> is the pointer, \<open>slots\<close> what it points to; \<open>None\<close> is a slot that was
  never written, so that reading it is undefined. \<open>array_mutex\<close> says whether the mutex
  is held.
\<close>

record kvs_array =
  array_table :: addr
  slots :: "nat \<Rightarrow> kvs_array_item option"
  total :: nat
  array_mutex :: bool

definition hole :: kvs_array_item where
  "hole = \<lparr>item_key = CNull, item_value = CNull\<rparr>"

section \<open>Operations\<close>

text \<open>
  \<open>fresh\<close> is what the block returned by the allocator holds; the C code does not clear it.
\<close>

definition kvs_array_create ::
  "(nat \<Rightarrow> kvs_array_item option) \<Rightarrow> kvs_array \<Rightarrow> heap \<Rightarrow> int \<times> kvs_array \<times> heap" where
  "kvs_array_create fresh inst h =
     (if array_table inst \<noteq> 0 then (- 1, inst, h)
      else let (p, h') = kvs_malloc sizeof_array_table h
           in if p = 0 then (- 1, inst\<lparr>array_table := 0\<rparr>, h')
              else (0, inst\<lparr>array_table := p, slots := fresh, total := 0,
                            array_mutex := False\<rparr>, h'))"

definition kvs_array_destory :: "kvs_array \<Rightarrow> heap \<Rightarrow> heap" where
  "kvs_array_destory inst h =
     (if array_table inst \<noteq> 0 then kvs_free (array_table inst) h else h)"

definition array_lock :: "kvs_array \<Rightarrow> kvs_array res" where
  "array_lock inst = (if array_mutex inst then deadlock else ret (inst\<lparr>array_mutex := True\<rparr>))"

abbreviation array_unlock :: "kvs_array \<Rightarrow> kvs_array" where
  "array_unlock inst \<equiv> inst\<lparr>array_mutex := False\<rparr>"

text \<open>
  The search loop of \<open>kvs_array_set\<close>, \<open>kvs_array_get\<close>, \<open>kvs_array_mod\<close> and
  \<open>kvs_array_exist\<close>: from slot \<open>i\<close> on, \<open>n\<close> slots, null keys skipped.
\<close>

fun array_find :: "(nat \<Rightarrow> kvs_array_item option) \<Rightarrow> cstring \<Rightarrow> nat \<Rightarrow> nat \<Rightarrow> nat option res" where
  "array_find t k i 0 = ret None"
| "array_find t k i (Suc n) =
     (case t i of
        None \<Rightarrow> undef
      | Some it \<Rightarrow>
          if item_key it = CNull then array_find t k (Suc i) n
          else rbind (cread (item_key it)) (\<lambda>s.
                 if strcmp s k = 0 then ret (Some i) else array_find t k (Suc i) n))"

text \<open>The search loop of \<open>kvs_array_del\<close>, which does not skip null keys.\<close>

fun array_find_del :: "(nat \<Rightarrow> kvs_array_item option) \<Rightarrow> cstring \<Rightarrow> nat \<Rightarrow> nat \<Rightarrow> nat option res" where
  "array_find_del t k i 0 = ret None"
| "array_find_del t k i (Suc n) =
     (case t i of
        None \<Rightarrow> undef
      | Some it \<Rightarrow>
          rbind (cread (item_key it)) (\<lambda>s.
            if strcmp s k = 0 then ret (Some i) else array_find_del t k (Suc i) n))"

text \<open>The second loop of \<open>kvs_array_set\<close>: the first slot with a null key.\<close>

fun array_find_hole :: "(nat \<Rightarrow> kvs_array_item option) \<Rightarrow> nat \<Rightarrow> nat \<Rightarrow> nat option res" where
  "array_find_hole t i 0 = ret None"
| "array_find_hole t i (Suc n) =
     (case t i of
        None \<Rightarrow> undef
      | Some it \<Rightarrow> if item_key it = CNull then ret (Some i) else array_find_hole t (Suc i) n)"

definition kvs_array_set ::
  "kvs_array \<Rightarrow> cstring option \<Rightarrow> cstring option \<Rightarrow> heap \<Rightarrow> (int \<times> kvs_array \<times> heap) res" where
  "kvs_array_set inst0 ko vo h =
     rbind (array_lock inst0) (\<lambda>inst.
       case (ko, vo) of
         (Some key, Some val) \<Rightarrow>
           if total inst = KVS_ARRAY_SIZE then ret (- 1, array_unlock inst, h)
           else rbind (array_find (slots inst) key 0 (total inst)) (\<lambda>found.
             case found of
               Some i \<Rightarrow> ret (1, array_unlock inst, h)
             | None \<Rightarrow>
                 let (kcopy, h1) = kvs_strcopy key h
                 in if kcopy = CNull then ret (- 2, array_unlock inst, h1)
                    else let (kvalue, h2) = kvs_strcopy val h1
                         in if kvalue = CNull then ret (- 2, array_unlock inst, h2)
                            else rbind (array_find_hole (slots inst) 0 (total inst)) (\<lambda>free.
                              let i = (case free of Some j \<Rightarrow> j | None \<Rightarrow> total inst)
                              in if i < KVS_ARRAY_SIZE
                                 then ret (0, array_unlock (inst\<lparr>
                                     slots := (slots inst)(i \<mapsto> \<lparr>item_key = kcopy, item_value = kvalue\<rparr>),
                                     total := Suc (total inst)\<rparr>), h2)
                                 else ret (0, array_unlock inst, h2)))
       | _ \<Rightarrow> ret (- 1, array_unlock inst, h))"

definition kvs_array_get :: "kvs_array \<Rightarrow> cstring option \<Rightarrow> (cptr \<times> kvs_array) res" where
  "kvs_array_get inst0 ko =
     rbind (array_lock inst0) (\<lambda>inst.
       case ko of
         None \<Rightarrow> ret (CNull, inst)
       | Some key \<Rightarrow>
           rbind (array_find (slots inst) key 0 (total inst)) (\<lambda>found.
             case found of
               Some i \<Rightarrow> ret (item_value (the (slots inst i)), array_unlock inst)
             | None \<Rightarrow> ret (CNull, array_unlock inst)))"

definition kvs_array_del ::
  "kvs_array \<Rightarrow> cstring option \<Rightarrow> heap \<Rightarrow> (int \<times> kvs_array \<times> heap) res" where
  "kvs_array_del inst0 ko h =
     rbind (array_lock inst0) (\<lambda>inst.
       case ko of
         None \<Rightarrow> ret (- 1, inst, h)
       | Some key \<Rightarrow>
           rbind (array_find_del (slots inst) key 0 (total inst)) (\<lambda>found.
             case found of
               None \<Rightarrow> ret (int (total inst), array_unlock inst, h)
             | Some i \<Rightarrow>
                 let it = the (slots inst i);
                     h1 = kvs_free (caddr (item_key it)) h;
                     h2 = kvs_free (caddr (item_value it)) h1;
                     inst' = inst\<lparr>slots := (slots inst)(i \<mapsto> hole)\<rparr>;
                     inst'' = (if total inst - 1 = i then inst'\<lparr>total := total inst - 1\<rparr> else inst')
                 in ret (0, array_unlock inst'', h2)))"

definition kvs_array_mod ::
  "kvs_array \<Rightarrow> cstring option \<Rightarrow> cstring option \<Rightarrow> heap \<Rightarrow> (int \<times> kvs_array \<times> heap) res" where
  "kvs_array_mod inst0 ko vo h =
     rbind (array_lock inst0) (\<lambda>inst.
       case (ko, vo) of
         (Some key, Some val) \<Rightarrow>
           if total inst = 0 then ret (int KVS_ARRAY_SIZE, array_unlock inst, h)
           else rbind (array_find (slots inst) key 0 (total inst)) (\<lambda>found.
             case found of
               None \<Rightarrow> ret (int (total inst), array_unlock inst, h)
             | Some i \<Rightarrow>
                 let it = the (slots inst i);
                     h1 = kvs_free (caddr (item_value it)) h;
                     (kvalue, h2) = kvs_strcopy val h1
                 in if kvalue = CNull
                    then ret (- 2, array_unlock (inst\<lparr>slots := (slots inst)(i \<mapsto>
                                it\<lparr>item_value := CDangling (caddr (item_value it))\<rparr>)\<rparr>), h2)
                    else ret (0, array_unlock (inst\<lparr>slots := (slots inst)(i \<mapsto>
                                it\<lparr>item_value := kvalue\<rparr>)\<rparr>), h2))
       | _ \<Rightarrow> ret (- 1, inst, h))"

definition kvs_array_exist :: "kvs_array \<Rightarrow> cstring option \<Rightarrow> (int \<times> kvs_array) res" where
  "kvs_array_exist inst0 ko =
     rbind (array_lock inst0) (\<lambda>inst.
       case ko of
         None \<Rightarrow> ret (- 1, array_unlock inst)
       | Some key \<Rightarrow>
           rbind (array_find (slots inst) key 0 (total inst)) (\<lambda>found.
             ret (if found = None then 1 else 0, array_unlock inst)))"

section \<open>Invariant and abstraction\<close>

fun slot_entries :: "kvs_array_item option \<Rightarrow> (cstring \<times> cstring) list" where
  "slot_entries (Some \<lparr>item_key = CStr a k, item_value = CStr b v\<rparr>) = [(k, v)]"
| "slot_entries _ = []"

fun slot_blocks :: "kvs_array_item option \<Rightarrow> addr list" where
  "slot_blocks (Some \<lparr>item_key = CStr a k, item_value = CStr b v\<rparr>) = [a, b]"
| "slot_blocks _ = []"

definition slot_ok :: "kvs_array_item option \<Rightarrow> bool" where
  "slot_ok s \<longleftrightarrow> s = Some hole \<or> (\<exists>a k b v. s = Some \<lparr>item_key = CStr a k, item_value = CStr b v\<rparr>)"

definition array_entries :: "kvs_array \<Rightarrow> (cstring \<times> cstring) list" where
  "array_entries inst = concat (map (\<lambda>i. slot_entries (slots inst i)) [0..<total inst])"

definition array_blocks :: "kvs_array \<Rightarrow> addr list" where
  "array_blocks inst =
     array_table inst # concat (map (\<lambda>i. slot_blocks (slots inst i)) [0..<total inst])"

text \<open>The map from keys to values an array stands for.\<close>

definition array_abs :: "kvs_array \<Rightarrow> cstring \<rightharpoonup> cstring" where
  "array_abs inst = map_of (array_entries inst)"

text \<open>
  Either no deletion left a hole below \<open>total\<close>, or the part of the table above \<open>total\<close>
  holds zeroes, so that a slot that comes into use reads as a hole.
\<close>

definition no_holes :: "kvs_array \<Rightarrow> bool" where
  "no_holes inst \<longleftrightarrow> (\<forall>i<total inst. slots inst i \<noteq> Some hole)"

definition tail_zero :: "kvs_array \<Rightarrow> bool" where
  "tail_zero inst \<longleftrightarrow> (\<forall>i. total inst \<le> i \<longrightarrow> i < KVS_ARRAY_SIZE \<longrightarrow> slots inst i = Some hole)"

definition array_ok :: "kvs_array \<Rightarrow> bool" where
  "array_ok inst \<longleftrightarrow>
     \<not> array_mutex inst \<and> total inst \<le> KVS_ARRAY_SIZE \<and>
     (\<forall>i<total inst. slot_ok (slots inst i)) \<and>
     distinct (map fst (array_entries inst)) \<and> distinct (array_blocks inst) \<and>
     (no_holes inst \<or> tail_zero inst)"

lemmas array_op_defs = kvs_array_set_def kvs_array_get_def kvs_array_del_def
  kvs_array_mod_def kvs_array_exist_def array_lock_def

lemma slot_okE:
  assumes "slot_ok s"
  obtains (hole) "s = Some hole"
  | (full) a k b v where "s = Some \<lparr>item_key = CStr a k, item_value = CStr b v\<rparr>"
  using assms unfolding slot_ok_def by blast

lemma slot_hole [simp]: "slot_entries (Some hole) = []" "slot_blocks (Some hole) = []"
  "slot_ok (Some hole)" "item_key hole = CNull"
  by (auto simp: hole_def slot_ok_def)

lemma slot_full [simp]:
  "slot_ok (Some \<lparr>item_key = CStr a k, item_value = CStr b v\<rparr>)"
  "\<lparr>item_key = CStr a k, item_value = CStr b v\<rparr> \<noteq> hole"
  by (auto simp: slot_ok_def hole_def)

lemma array_entries_Some:
  assumes "i < total inst" and "slots inst i = Some \<lparr>item_key = CStr a k, item_value = CStr b v\<rparr>"
  shows "(k, v) \<in> set (array_entries inst)"
  using assms by (force simp: array_entries_def)

lemma array_abs_slot:
  assumes "array_ok inst" and "i < total inst"
    and "slots inst i = Some \<lparr>item_key = CStr a k, item_value = CStr b v\<rparr>"
  shows "array_abs inst k = Some v"
  using assms array_entries_Some [OF assms(2,3)]
  by (simp add: array_abs_def array_ok_def)

section \<open>The search loops\<close>

lemma array_find_total:
  assumes "\<And>j. i \<le> j \<Longrightarrow> j < i + n \<Longrightarrow> slot_ok (t j)"
  shows "\<exists>r. array_find t k i n = ret r"
  using assms
proof (induction n arbitrary: i)
  case 0
  then show ?case by simp
next
  case (Suc n)
  have "slot_ok (t i)" by (rule Suc.prems) auto
  moreover have "\<exists>r. array_find t k (Suc i) n = ret r"
    by (rule Suc.IH) (use Suc.prems in auto)
  ultimately show ?case by (auto elim!: slot_okE)
qed

lemma array_find_Some:
  "array_find t k i n = ret (Some j) \<Longrightarrow> (\<And>l. i \<le> l \<Longrightarrow> l < i + n \<Longrightarrow> slot_ok (t l)) \<Longrightarrow>
   i \<le> j \<and> j < i + n \<and> (\<exists>a b v. t j = Some \<lparr>item_key = CStr a k, item_value = CStr b v\<rparr>)"
proof (induction n arbitrary: i)
  case 0
  then show ?case by simp
next
  case (Suc n)
  have "slot_ok (t i)" by (rule Suc.prems) auto
  moreover have "array_find t k (Suc i) n = ret (Some j) \<Longrightarrow> ?case"
    using Suc.IH [of "Suc i"] Suc.prems(2) by auto
  ultimately show ?case
    using Suc.prems(1) by (auto elim!: slot_okE split: if_splits)
qed

lemma array_find_None:
  "array_find t k i n = ret None \<Longrightarrow> i \<le> l \<Longrightarrow> l < i + n \<Longrightarrow>
   t l \<noteq> Some \<lparr>item_key = CStr a k, item_value = q\<rparr>"
proof (induction n arbitrary: i)
  case 0
  then show ?case by simp
next
  case (Suc n)
  show ?case
  proof (cases "l = i")
    case True
    with Suc.prems show ?thesis by auto
  next
    case False
    have "array_find t k (Suc i) n = ret None"
      using False Suc.prems by (auto split: option.splits if_splits)
    with Suc.IH [of "Suc i"] False Suc.prems(2,3) show ?thesis by simp
  qed
qed

lemma array_find_hole_total:
  assumes "\<And>j. i \<le> j \<Longrightarrow> j < i + n \<Longrightarrow> slot_ok (t j)"
  shows "\<exists>r. array_find_hole t i n = ret r"
  using assms
proof (induction n arbitrary: i)
  case 0
  then show ?case by simp
next
  case (Suc n)
  have "slot_ok (t i)" by (rule Suc.prems) auto
  moreover have "\<exists>r. array_find_hole t (Suc i) n = ret r"
    by (rule Suc.IH) (use Suc.prems in auto)
  ultimately show ?case by (auto elim!: slot_okE)
qed

lemma array_find_hole_Some:
  "array_find_hole t i n = ret (Some j) \<Longrightarrow> (\<And>l. i \<le> l \<Longrightarrow> l < i + n \<Longrightarrow> slot_ok (t l)) \<Longrightarrow>
   i \<le> j \<and> j < i + n \<and> t j = Some hole"
proof (induction n arbitrary: i)
  case 0
  then show ?case by simp
next
  case (Suc n)
  have "slot_ok (t i)" by (rule Suc.prems) auto
  moreover have "array_find_hole t (Suc i) n = ret (Some j) \<Longrightarrow> ?case"
    using Suc.IH [of "Suc i"] Suc.prems(2) by auto
  ultimately show ?case
    using Suc.prems(1) by (auto elim!: slot_okE split: if_splits)
qed

lemma array_find_hole_None:
  "array_find_hole t i n = ret None \<Longrightarrow> i \<le> l \<Longrightarrow> l < i + n \<Longrightarrow> t l \<noteq> Some hole"
proof (induction n arbitrary: i)
  case 0
  then show ?case by simp
next
  case (Suc n)
  show ?case
  proof (cases "l = i")
    case True
    with Suc.prems show ?thesis by auto
  next
    case False
    have "array_find_hole t (Suc i) n = ret None"
      using False Suc.prems by (auto split: option.splits if_splits)
    with Suc.IH [of "Suc i"] False Suc.prems(2,3) show ?thesis by simp
  qed
qed

text \<open>What the search loop says about the abstract map.\<close>

lemma array_find_abs:
  assumes "array_ok inst"
  shows "(\<exists>i a b v. i < total inst \<and> array_find (slots inst) k 0 (total inst) = ret (Some i) \<and>
            slots inst i = Some \<lparr>item_key = CStr a k, item_value = CStr b v\<rparr> \<and>
            array_abs inst k = Some v) \<or>
         array_find (slots inst) k 0 (total inst) = ret None \<and> array_abs inst k = None"
proof -
  have ok: "\<And>l. 0 \<le> l \<Longrightarrow> l < 0 + total inst \<Longrightarrow> slot_ok (slots inst l)"
    using assms by (simp add: array_ok_def)
  from array_find_total [of 0 "total inst" "slots inst" k] ok
  obtain r where r: "array_find (slots inst) k 0 (total inst) = ret r" by auto
  show ?thesis
  proof (cases r)
    case (Some i)
    with r array_find_Some [of "slots inst" k 0 "total inst" i] ok show ?thesis
      using array_abs_slot [OF assms] by fastforce
  next
    case None
    have "k \<notin> fst ` set (array_entries inst)"
    proof
      assume "k \<in> fst ` set (array_entries inst)"
      then obtain v i where i: "i < total inst" "(k, v) \<in> set (slot_entries (slots inst i))"
        by (auto simp: array_entries_def)
      then obtain a b where "slots inst i = Some \<lparr>item_key = CStr a k, item_value = CStr b v\<rparr>"
        by (cases "slots inst i" rule: slot_entries.cases) auto
      with array_find_None [of "slots inst" k 0 "total inst" i a] r None i(1) show False by auto
    qed
    then have "array_abs inst k = None"
      by (simp add: array_abs_def map_of_eq_None_iff)
    with r None show ?thesis by simp
  qed
qed

section \<open>What one slot changes\<close>

lemma array_store_end:
  assumes ok: "array_ok inst" and room: "total inst < KVS_ARRAY_SIZE"
    and full: "no_holes inst" and k: "array_abs inst k = None"
    and new: "a \<notin> set (array_blocks inst)" "b \<notin> set (array_blocks inst)" "a \<noteq> b"
    and inst': "inst' = inst\<lparr>slots := (slots inst)(total inst \<mapsto>
                   \<lparr>item_key = CStr a k, item_value = CStr b v\<rparr>), total := Suc (total inst)\<rparr>"
  shows "array_ok inst'" and "array_abs inst' = (array_abs inst)(k \<mapsto> v)"
    and "set (array_blocks inst') = {a, b} \<union> set (array_blocks inst)"
proof -
  have e: "array_entries inst' = array_entries inst @ [(k, v)]"
    and b: "array_blocks inst' = array_blocks inst @ [a, b]"
    by (simp_all add: array_entries_def array_blocks_def inst' concat_upt_upd_beyond
        del: fun_upd_apply) (simp_all add: fun_upd_same)
  have kx: "k \<notin> fst ` set (array_entries inst)"
    using k by (simp add: array_abs_def map_of_eq_None_iff)
  show "array_abs inst' = (array_abs inst)(k \<mapsto> v)"
    using map_of_insert_mid [OF kx, of v "[]"] by (simp add: array_abs_def e)
  show "set (array_blocks inst') = {a, b} \<union> set (array_blocks inst)"
    by (auto simp: b)
  have "no_holes inst'"
    using full by (auto simp: no_holes_def inst' less_Suc_eq)
  moreover have "\<forall>i<total inst'. slot_ok (slots inst' i)"
    using ok by (auto simp: array_ok_def inst' less_Suc_eq)
  ultimately show "array_ok inst'"
    using ok new room kx unfolding array_ok_def e b by (auto simp: inst')
qed

lemma array_store_hole:
  assumes ok: "array_ok inst" and room: "total inst < KVS_ARRAY_SIZE"
    and tail: "tail_zero inst" and i: "i < total inst" "slots inst i = Some hole"
    and k: "array_abs inst k = None"
    and new: "a \<notin> set (array_blocks inst)" "b \<notin> set (array_blocks inst)" "a \<noteq> b"
    and inst': "inst' = inst\<lparr>slots := (slots inst)(i \<mapsto>
                   \<lparr>item_key = CStr a k, item_value = CStr b v\<rparr>), total := Suc (total inst)\<rparr>"
  shows "array_ok inst'" and "array_abs inst' = (array_abs inst)(k \<mapsto> v)"
    and "set (array_blocks inst') = {a, b} \<union> set (array_blocks inst)"
proof -
  have last: "slots inst' (total inst) = Some hole"
    using tail room i(1) by (simp add: tail_zero_def inst')
  obtain xs ys where e: "array_entries inst = xs @ ys" "array_entries inst' = xs @ (k, v) # ys"
    using concat_upt_split [OF i(1), of "\<lambda>j. slot_entries (slots inst j)"] last
      concat_upt_upd [OF i(1), of slot_entries "slots inst"] i(2)
    by (simp add: array_entries_def inst' del: fun_upd_apply)
  obtain us vs where b: "array_blocks inst = us @ vs" "array_blocks inst' = us @ [a, b] @ vs"
    using concat_upt_split [OF i(1), of "\<lambda>j. slot_blocks (slots inst j)"] last
      concat_upt_upd [OF i(1), of slot_blocks "slots inst"] i(2)
    by (simp add: array_blocks_def inst' del: fun_upd_apply)
      (metis append_Cons)
  have kx: "k \<notin> fst ` set (xs @ ys)"
    using k by (simp add: array_abs_def map_of_eq_None_iff e image_Un)
  then show "array_abs inst' = (array_abs inst)(k \<mapsto> v)"
    using map_of_insert_mid [of k xs v ys] by (simp add: array_abs_def e image_Un)
  show "set (array_blocks inst') = {a, b} \<union> set (array_blocks inst)"
    by (auto simp: b)
  have "tail_zero inst'"
    using tail i(1) by (auto simp: tail_zero_def inst')
  moreover have "\<forall>j<total inst'. slot_ok (slots inst' j)"
    using ok last by (auto simp: array_ok_def inst' less_Suc_eq)
  ultimately show "array_ok inst'"
    using ok new room kx unfolding array_ok_def e b by (auto simp: inst')
qed

lemma array_replace_value:
  assumes ok: "array_ok inst" and i: "i < total inst"
    "slots inst i = Some \<lparr>item_key = CStr a k, item_value = CStr b v\<rparr>"
    and new: "c \<notin> set (array_blocks inst) - {b}"
    and inst': "inst' = inst\<lparr>slots := (slots inst)(i \<mapsto>
                   \<lparr>item_key = CStr a k, item_value = CStr c w\<rparr>)\<rparr>"
  shows "array_ok inst'" and "array_abs inst' = (array_abs inst)(k \<mapsto> w)"
    and "set (array_blocks inst') = insert c (set (array_blocks inst) - {b})"
proof -
  obtain xs ys where e: "array_entries inst = xs @ (k, v) # ys"
    "array_entries inst' = xs @ (k, w) # ys"
    using concat_upt_split [OF i(1), of "\<lambda>j. slot_entries (slots inst j)"]
      concat_upt_upd [OF i(1), of slot_entries "slots inst"] i(2)
    by (simp add: array_entries_def inst' del: fun_upd_apply)
  obtain us vs where b: "array_blocks inst = us @ a # b # vs" "array_blocks inst' = us @ a # c # vs"
    using concat_upt_split [OF i(1), of "\<lambda>j. slot_blocks (slots inst j)"]
      concat_upt_upd [OF i(1), of slot_blocks "slots inst"] i(2)
    by (simp add: array_blocks_def inst' del: fun_upd_apply)
      (metis append_Cons)
  have d: "distinct (map fst (xs @ (k, v) # ys))" "distinct (us @ a # b # vs)"
    using ok by (simp_all add: array_ok_def e b)
  then show "array_abs inst' = (array_abs inst)(k \<mapsto> w)"
    using map_of_replace_mid [of k xs w ys v] by (auto simp: array_abs_def e)
  show "set (array_blocks inst') = insert c (set (array_blocks inst) - {b})"
    using d(2) by (auto simp: b)
  have "no_holes inst \<Longrightarrow> no_holes inst'" "tail_zero inst \<Longrightarrow> tail_zero inst'"
    using i(1) by (auto simp: no_holes_def tail_zero_def inst')
  moreover have "\<forall>j<total inst'. slot_ok (slots inst' j)"
    using ok by (auto simp: array_ok_def inst')
  moreover have "distinct (us @ a # c # vs)"
    using d(2) new by (auto simp: b)
  ultimately show "array_ok inst'"
    using ok d unfolding array_ok_def e b by (auto simp: inst')
qed

lemma array_make_hole:
  assumes ok: "array_ok inst" and i: "i < total inst"
    "slots inst i = Some \<lparr>item_key = CStr a k, item_value = CStr b v\<rparr>"
    and inst1: "inst1 = inst\<lparr>slots := (slots inst)(i \<mapsto> hole)\<rparr>"
    and inst': "inst' = (if total inst - 1 = i then inst1\<lparr>total := total inst - 1\<rparr> else inst1)"
  shows "array_abs inst' = (array_abs inst)(k := None)"
    and "set (array_blocks inst') = set (array_blocks inst) - {a, b}"
    and "tail_zero inst \<or> Suc i = total inst \<Longrightarrow> array_ok inst'"
proof -
  have last: "concat (map (\<lambda>j. g ((slots inst)(i \<mapsto> hole)) j) [0..<total inst']) =
      concat (map (\<lambda>j. g ((slots inst)(i \<mapsto> hole)) j) [0..<total inst])"
    if "\<And>t. t i = Some hole \<Longrightarrow> g t i = []" for g :: "(nat \<Rightarrow> kvs_array_item option) \<Rightarrow> nat \<Rightarrow> 'b list"
  proof (cases "Suc i = total inst")
    case True
    then have "[0..<total inst] = [0..<total inst'] @ [i]"
      by (auto simp: inst' inst1 simp flip: True)
    with that show ?thesis by simp
  next
    case False
    then show ?thesis using i(1) by (auto simp: inst' inst1)
  qed
  have sl: "slots inst' = (slots inst)(i \<mapsto> hole)" by (simp add: inst' inst1)
  obtain xs ys where e: "array_entries inst = xs @ (k, v) # ys" "array_entries inst' = xs @ ys"
    using concat_upt_split [OF i(1), of "\<lambda>j. slot_entries (slots inst j)"]
      concat_upt_upd [OF i(1), of slot_entries "slots inst" "Some hole"] i(2)
      last [of "\<lambda>t j. slot_entries (t j)"]
    by (simp add: array_entries_def sl del: fun_upd_apply)
  obtain us vs where c: "concat (map (\<lambda>j. slot_blocks (slots inst j)) [0..<total inst]) = us @ a # b # vs"
    "concat (map (\<lambda>j. slot_blocks (slots inst' j)) [0..<total inst']) = us @ vs"
    using concat_upt_split [OF i(1), of "\<lambda>j. slot_blocks (slots inst j)"]
      concat_upt_upd [OF i(1), of slot_blocks "slots inst" "Some hole"] i(2)
      last [of "\<lambda>t j. slot_blocks (t j)"]
    by (simp add: sl del: fun_upd_apply)
  have b: "array_blocks inst = array_table inst # us @ a # b # vs"
    "array_blocks inst' = array_table inst # us @ vs"
    using c by (simp_all add: array_blocks_def inst' inst1)
  have d: "distinct (map fst (xs @ (k, v) # ys))" "distinct (array_table inst # us @ a # b # vs)"
    using ok by (simp_all add: array_ok_def e b)
  then show "array_abs inst' = (array_abs inst)(k := None)"
    unfolding array_abs_def e by (intro map_of_delete_mid) auto
  show "set (array_blocks inst') = set (array_blocks inst) - {a, b}"
    using d(2) by (auto simp: b)
  assume "tail_zero inst \<or> Suc i = total inst"
  then have "no_holes inst' \<or> tail_zero inst'"
    using ok i(1) by (auto simp: array_ok_def no_holes_def tail_zero_def inst' inst1)
  moreover have "\<forall>j<total inst'. slot_ok (slots inst' j)"
    using ok i(1) by (auto simp: array_ok_def inst' inst1)
  moreover have "total inst' \<le> KVS_ARRAY_SIZE" "\<not> array_mutex inst'"
    using ok by (auto simp: array_ok_def inst' inst1)
  ultimately show "array_ok inst'"
    using d unfolding array_ok_def e b by auto
qed

section \<open>The operations on a well-formed array\<close>

lemma array_unlock_id: "\<not> array_mutex inst \<Longrightarrow> inst\<lparr>array_mutex := False\<rparr> = inst"
  by (cases inst) simp

lemmas array_run = array_op_defs array_unlock_id

lemma array_okD: "array_ok inst \<Longrightarrow> \<not> array_mutex inst"
  by (simp add: array_ok_def)

lemma kvs_array_set_hit:
  assumes "array_ok inst" and "total inst < KVS_ARRAY_SIZE" and "array_abs inst k = Some w"
  shows "kvs_array_set inst (Some k) (Some v) h = ret (1, inst, h)"
  using array_find_abs [OF assms(1), of k] assms array_okD [OF assms(1)]
  by (auto simp: array_run)

lemma kvs_array_set_full:
  assumes "array_ok inst" and "total inst = KVS_ARRAY_SIZE"
  shows "kvs_array_set inst (Some k) (Some v) h = ret (- 1, inst, h)"
  using assms array_okD [OF assms(1)] by (auto simp: array_run)

text \<open>The three ends of a \<open>kvs_array_set\<close> that gets past its checks.\<close>

lemma kvs_array_set_miss_cases:
  assumes ok: "array_ok inst" and room: "total inst < KVS_ARRAY_SIZE"
    and k: "array_abs inst k = None"
    and kc: "kvs_strcopy k h = (kcopy, h1)" and vc: "kvs_strcopy v h1 = (kvalue, h2)"
  shows "kcopy = CNull \<Longrightarrow> kvs_array_set inst (Some k) (Some v) h = ret (- 2, inst, h1)"
    and "kcopy \<noteq> CNull \<Longrightarrow> kvalue = CNull \<Longrightarrow>
         kvs_array_set inst (Some k) (Some v) h = ret (- 2, inst, h2)"
    and "kcopy \<noteq> CNull \<Longrightarrow> kvalue \<noteq> CNull \<Longrightarrow>
         \<exists>i. (i = total inst \<and> no_holes inst \<or> i < total inst \<and> slots inst i = Some hole) \<and>
           kvs_array_set inst (Some k) (Some v) h =
             ret (0, inst\<lparr>slots := (slots inst)(i \<mapsto> \<lparr>item_key = kcopy, item_value = kvalue\<rparr>),
                          total := Suc (total inst)\<rparr>, h2)"
proof -
  have m: "\<not> array_mutex inst" by (rule array_okD [OF ok])
  have f: "array_find (slots inst) k 0 (total inst) = ret None"
    using array_find_abs [OF ok, of k] k by auto
  show "kcopy = CNull \<Longrightarrow> kvs_array_set inst (Some k) (Some v) h = ret (- 2, inst, h1)"
    using room f kc m by (simp add: array_run)
  show "kcopy \<noteq> CNull \<Longrightarrow> kvalue = CNull \<Longrightarrow>
      kvs_array_set inst (Some k) (Some v) h = ret (- 2, inst, h2)"
    using room f kc vc m by (simp add: array_run)
  assume nn: "kcopy \<noteq> CNull" "kvalue \<noteq> CNull"
  have oks: "\<And>l. 0 \<le> l \<Longrightarrow> l < 0 + total inst \<Longrightarrow> slot_ok (slots inst l)"
    using ok by (simp add: array_ok_def)
  then obtain fo where fo: "array_find_hole (slots inst) 0 (total inst) = ret fo"
    using array_find_hole_total [of 0 "total inst" "slots inst"] by auto
  define i where "i = (case fo of Some j \<Rightarrow> j | None \<Rightarrow> total inst)"
  have at: "i = total inst \<and> no_holes inst \<or> i < total inst \<and> slots inst i = Some hole"
  proof (cases fo)
    case None
    with fo array_find_hole_None [of "slots inst" 0 "total inst"] show ?thesis
      by (auto simp: i_def no_holes_def)
  next
    case (Some j)
    with fo array_find_hole_Some [of "slots inst" 0 "total inst" j] oks show ?thesis
      by (auto simp: i_def)
  qed
  then have "i < KVS_ARRAY_SIZE" using room by auto
  then have "kvs_array_set inst (Some k) (Some v) h =
      ret (0, inst\<lparr>slots := (slots inst)(i \<mapsto> \<lparr>item_key = kcopy, item_value = kvalue\<rparr>),
                   total := Suc (total inst)\<rparr>, h2)"
    using room f kc vc m nn fo by (cases inst) (auto simp: array_op_defs i_def Let_def split: option.splits)
  with at show "\<exists>i. (i = total inst \<and> no_holes inst \<or> i < total inst \<and> slots inst i = Some hole) \<and>
      kvs_array_set inst (Some k) (Some v) h =
        ret (0, inst\<lparr>slots := (slots inst)(i \<mapsto> \<lparr>item_key = kcopy, item_value = kvalue\<rparr>),
                     total := Suc (total inst)\<rparr>, h2)"
    by blast
qed

lemma array_store:
  assumes ok: "array_ok inst" and room: "total inst < KVS_ARRAY_SIZE"
    and at: "i = total inst \<and> no_holes inst \<or> i < total inst \<and> slots inst i = Some hole"
    and k: "array_abs inst k = None"
    and new: "a \<notin> set (array_blocks inst)" "b \<notin> set (array_blocks inst)" "a \<noteq> b"
    and inst': "inst' = inst\<lparr>slots := (slots inst)(i \<mapsto>
                   \<lparr>item_key = CStr a k, item_value = CStr b v\<rparr>), total := Suc (total inst)\<rparr>"
  shows "array_ok inst' \<and> array_abs inst' = (array_abs inst)(k \<mapsto> v) \<and>
         set (array_blocks inst') = {a, b} \<union> set (array_blocks inst)"
  using at
proof
  assume "i = total inst \<and> no_holes inst"
  then show ?thesis
    using array_store_end [OF ok room _ k new] inst' by auto
next
  assume i: "i < total inst \<and> slots inst i = Some hole"
  then have "tail_zero inst"
    using ok by (auto simp: array_ok_def no_holes_def)
  with i show ?thesis
    using array_store_hole [OF ok room _ _ _ k new inst'] by auto
qed

text \<open>
  \<open>kvs_array_set\<close> on a key that is absent, with whatever the allocator does: it fails and
  changes nothing, or it stores the pair in two blocks that were free.
\<close>

lemma kvs_array_set_miss:
  assumes ok: "array_ok inst" and room: "total inst < KVS_ARRAY_SIZE"
    and k: "array_abs inst k = None"
    and hp: "heap_inv h L" and own: "set (array_blocks inst) \<subseteq> L"
  shows "(\<exists>h' L'. kvs_array_set inst (Some k) (Some v) h = ret (- 2, inst, h') \<and>
            heap_inv h' L' \<and> L \<subseteq> L' \<and> \<not> mem_budget h 2) \<or>
         (\<exists>inst' h' a b. kvs_array_set inst (Some k) (Some v) h = ret (0, inst', h') \<and>
            array_ok inst' \<and> array_abs inst' = (array_abs inst)(k \<mapsto> v) \<and>
            total inst' = Suc (total inst) \<and>
            a \<notin> L \<and> b \<notin> L \<and> heap_inv h' (L \<union> {a, b}) \<and>
            set (array_blocks inst') = {a, b} \<union> set (array_blocks inst) \<and>
            (\<forall>n. mem_budget h (n + 2) \<longrightarrow> mem_budget h' n))"
proof -
  obtain kcopy h1 where kc: "kvs_strcopy k h = (kcopy, h1)" by fastforce
  obtain kvalue h2 where vc: "kvs_strcopy v h1 = (kvalue, h2)" by fastforce
  note cases = kvs_array_set_miss_cases [OF ok room k kc vc]
  from kvs_strcopy_heap_inv [OF hp kc] consider
    "kcopy = CNull" "heap_inv h1 L" | a where "kcopy = CStr a k" "a \<notin> L" "heap_inv h1 (insert a L)"
    by blast
  then show ?thesis
  proof cases
    case 1
    moreover from this have "\<not> mem_budget h 2"
      using kvs_strcopy_budget [of h 1, OF _ kc] by (auto simp: numeral_2_eq_2)
    ultimately show ?thesis using cases(1) by blast
  next
    case (2 a)
    from kvs_strcopy_heap_inv [OF 2(3) vc] consider
      "kvalue = CNull" "heap_inv h2 (insert a L)"
      | b where "kvalue = CStr b v" "b \<notin> insert a L" "heap_inv h2 (insert b (insert a L))"
      by blast
    then show ?thesis
    proof cases
      case 1
      moreover from this have "\<not> mem_budget h 2"
        using kvs_strcopy_budget [of h 1, OF _ kc] kvs_strcopy_budget [of h1 0, OF _ vc]
        by (auto simp: numeral_2_eq_2)
      ultimately show ?thesis using cases(2) 2(1) by blast
    next
      case (2 b)
      note b = this
      obtain i where i: "i = total inst \<and> no_holes inst \<or> i < total inst \<and> slots inst i = Some hole"
        and st: "kvs_array_set inst (Some k) (Some v) h =
          ret (0, inst\<lparr>slots := (slots inst)(i \<mapsto> \<lparr>item_key = kcopy, item_value = kvalue\<rparr>),
                       total := Suc (total inst)\<rparr>, h2)"
        using cases(3) \<open>kcopy = CStr a k\<close> b(1) by auto
      have new: "a \<notin> set (array_blocks inst)" "b \<notin> set (array_blocks inst)" "a \<noteq> b"
        using \<open>a \<notin> L\<close> b(2) own by auto
      have "\<forall>n. mem_budget h (n + 2) \<longrightarrow> mem_budget h2 n"
        using kvs_strcopy_budget(2) [OF _ kc] kvs_strcopy_budget(2) [OF _ vc] by auto
      moreover have "L \<union> {a, b} = insert b (insert a L)" by auto
      ultimately show ?thesis
        using st array_store [OF ok room i k new refl, of v] \<open>kcopy = CStr a k\<close> \<open>a \<notin> L\<close> b
        by (intro disjI2 exI [of _ "inst\<lparr>slots := (slots inst)(i \<mapsto>
              \<lparr>item_key = kcopy, item_value = kvalue\<rparr>), total := Suc (total inst)\<rparr>"]
            exI [of _ h2] exI [of _ a] exI [of _ b]) simp
    qed
  qed
qed

lemma kvs_array_get_hit:
  assumes "array_ok inst" and "array_abs inst k = Some v"
  shows "\<exists>a. kvs_array_get inst (Some k) = ret (CStr a v, inst)"
  using array_find_abs [OF assms(1), of k] assms(2) array_okD [OF assms(1)]
  by (auto simp: array_run)

lemma kvs_array_get_miss:
  assumes "array_ok inst" and "array_abs inst k = None"
  shows "kvs_array_get inst (Some k) = ret (CNull, inst)"
  using array_find_abs [OF assms(1), of k] assms(2) array_okD [OF assms(1)]
  by (auto simp: array_run)

lemma kvs_array_exist_ok:
  assumes "array_ok inst"
  shows "kvs_array_exist inst (Some k) = ret (if array_abs inst k = None then 1 else 0, inst)"
  using array_find_abs [OF assms(1), of k] array_okD [OF assms(1)]
  by (auto simp: array_run)

interpretation array_reader: kv_reader array_ok array_abs "\<lambda>_. True" "\<lambda>s k. kvs_array_get s (Some k)"
  by unfold_locales (auto simp: kvs_array_get_hit kvs_array_get_miss)

interpretation array_kv: kv_store array_ok array_abs "\<lambda>_. True" "\<lambda>s k. kvs_array_get s (Some k)"
  "\<lambda>s. set (array_blocks s)" "\<lambda>s ks. total s + length ks \<le> KVS_ARRAY_SIZE"
  "\<lambda>s k v h. kvs_array_set s (Some k) (Some v) h" 1
proof unfold_locales
  fix s h L k v n and ks :: "cstring list"
  assume ok: "array_ok s" and hp: "heap_inv h L" "set (array_blocks s) \<subseteq> L" "mem_budget h (n + 3)"
    and fits: "total s + length (k # ks) \<le> KVS_ARRAY_SIZE"
  then have room: "total s < KVS_ARRAY_SIZE" by simp
  show "\<exists>s' h' L'. kvs_array_set s (Some k) (Some v) h = ret (if array_abs s k = None then 0 else 1, s', h') \<and> array_ok s' \<and>
      array_abs s' = (if array_abs s k = None then (array_abs s)(k \<mapsto> v) else array_abs s) \<and>
      total s' + length ks \<le> KVS_ARRAY_SIZE \<and>
      heap_inv h' L' \<and> mem_budget h' n \<and>
      heap_frame L (set (array_blocks s)) L' (set (array_blocks s'))"
  proof (cases "array_abs s k")
    case (Some w)
    with kvs_array_set_hit [OF ok room Some] ok hp fits show ?thesis
      by (auto intro!: exI [of _ L] heap_frame_refl elim: mem_budget_mono)
  next
    case None
    obtain s' h' a b where "kvs_array_set s (Some k) (Some v) h = ret (0, s', h')" "array_ok s'"
      "array_abs s' = (array_abs s)(k \<mapsto> v)" "total s' = Suc (total s)" "a \<notin> L" "b \<notin> L"
      "heap_inv h' (L \<union> {a, b})" "set (array_blocks s') = {a, b} \<union> set (array_blocks s)"
      "mem_budget h' n"
      using kvs_array_set_miss [OF ok room None hp(1,2), of v] mem_budget_mono [OF hp(3), of 2]
        mem_budget_mono [OF hp(3), of "n + 2"] by auto
    moreover from this have "heap_frame L (set (array_blocks s)) (L \<union> {a, b}) (set (array_blocks s'))"
      using heap_frame_grow [OF hp(2), of "{a, b}"] by (simp add: Un_commute)
    ultimately show ?thesis
      using None fits by (intro exI [of _ s'] exI [of _ h'] exI [of _ "L \<union> {a, b}"]) simp
  qed
qed simp

section \<open>Modification and deletion\<close>

lemma kvs_array_mod_miss:
  assumes "array_ok inst" and "array_abs inst k = None"
  shows "\<exists>r>0. kvs_array_mod inst (Some k) (Some w) h = ret (r, inst, h)"
  using array_find_abs [OF assms(1), of k] assms(2) array_okD [OF assms(1)]
  by (auto simp: array_run KVS_ARRAY_SIZE_def)

lemma kvs_array_mod_hit:
  assumes ok: "array_ok inst" and k: "array_abs inst k = Some v"
    and hp: "heap_inv h L" and own: "set (array_blocks inst) \<subseteq> L" and mem: "mem_budget h (Suc n)"
  shows "\<exists>inst' h' L'. kvs_array_mod inst (Some k) (Some w) h = ret (0, inst', h') \<and>
           array_ok inst' \<and> array_abs inst' = (array_abs inst)(k \<mapsto> w) \<and>
           total inst' = total inst \<and> heap_inv h' L' \<and> mem_budget h' n \<and>
           heap_frame L (set (array_blocks inst)) L' (set (array_blocks inst'))"
proof -
  obtain i a b where i: "i < total inst" and f: "array_find (slots inst) k 0 (total inst) = ret (Some i)"
    and at: "slots inst i = Some \<lparr>item_key = CStr a k, item_value = CStr b v\<rparr>"
    using array_find_abs [OF ok, of k] k by auto
  have b: "b \<in> set (array_blocks inst)"
    using i at by (force simp: array_blocks_def)
  have h1: "heap_inv (kvs_free b h) (L - {b})" "mem_budget (kvs_free b h) (Suc n)"
    using kvs_alloc.release_live [OF hp, of b] b own mem by auto
  obtain q h' where c: "kvs_strcopy w (kvs_free b h) = (q, h')" by fastforce
  obtain d where d: "q = CStr d w" "d \<notin> L - {b}" "heap_inv h' (insert d (L - {b}))"
    using kvs_strcopy_heap_inv [OF h1(1) c] kvs_strcopy_budget(1) [OF h1(2) c] by auto
  define inst' where "inst' = inst\<lparr>slots := (slots inst)(i \<mapsto>
      \<lparr>item_key = CStr a k, item_value = CStr d w\<rparr>)\<rparr>"
  have "kvs_array_mod inst (Some k) (Some w) h = ret (0, inst', h')"
    using f i at c d(1) array_okD [OF ok] by (cases inst) (auto simp: array_op_defs inst'_def)
  moreover have "d \<notin> set (array_blocks inst) - {b}" using d(2) own by auto
  note rep = array_replace_value [OF ok i at this inst'_def]
  moreover have "heap_frame L (set (array_blocks inst)) (insert d (L - {b})) (set (array_blocks inst'))"
    using own b d(2) by (auto simp: rep(3) heap_frame_def)
  ultimately show ?thesis
    using d(3) kvs_strcopy_budget(2) [OF h1(2) c] by (auto simp: inst'_def)
qed

text \<open>The search loop of \<open>kvs_array_del\<close> works on slots that are all in use,\<close>

lemma array_find_del_eq:
  assumes "\<And>j. i \<le> j \<Longrightarrow> j < i + n \<Longrightarrow> slot_ok (t j) \<and> t j \<noteq> Some hole"
  shows "array_find_del t k i n = array_find t k i n"
  using assms
proof (induction n arbitrary: i)
  case 0
  then show ?case by simp
next
  case (Suc n)
  have "slot_ok (t i)" "t i \<noteq> Some hole" using Suc.prems [of i] by auto
  moreover have "array_find_del t k (Suc i) n = array_find t k (Suc i) n"
    by (rule Suc.IH) (use Suc.prems in auto)
  ultimately show ?case by (auto elim!: slot_okE)
qed

text \<open>and hands the null pointer of a hole to \<open>strcmp\<close>.\<close>

lemma array_find_del_hole:
  assumes "i \<le> j" and "j < i + n" and "t j = Some hole"
    and "\<And>l. i \<le> l \<Longrightarrow> l < j \<Longrightarrow> \<exists>a k' q. t l = Some \<lparr>item_key = CStr a k', item_value = q\<rparr> \<and> k' \<noteq> k"
  shows "array_find_del t k i n = undef"
  using assms
proof (induction n arbitrary: i)
  case 0
  then show ?case by simp
next
  case (Suc n)
  show ?case
  proof (cases "i = j")
    case True
    with Suc.prems show ?thesis by simp
  next
    case False
    with Suc.prems(1,4) obtain a k' q where
      "t i = Some \<lparr>item_key = CStr a k', item_value = q\<rparr>" "k' \<noteq> k"
      by (meson le_neq_implies_less order_refl)
    moreover have "array_find_del t k (Suc i) n = undef"
      using Suc.prems False by (intro Suc.IH) auto
    ultimately show ?thesis by simp
  qed
qed

lemma array_del_at:
  assumes ok: "array_ok inst" and f: "array_find_del (slots inst) k 0 (total inst) = ret (Some i)"
    and i: "i < total inst" "slots inst i = Some \<lparr>item_key = CStr a k, item_value = CStr b v\<rparr>"
    and hp: "heap_inv h L" and own: "set (array_blocks inst) \<subseteq> L"
  shows "\<exists>inst'. kvs_array_del inst (Some k) h = ret (0, inst', kvs_free b (kvs_free a h)) \<and>
           slots inst' = (slots inst)(i \<mapsto> hole) \<and>
           total inst' = (if Suc i = total inst then i else total inst) \<and>
           array_table inst' = array_table inst \<and>
           array_abs inst' = (array_abs inst)(k := None) \<and>
           (tail_zero inst \<or> Suc i = total inst \<longrightarrow> array_ok inst') \<and>
           set (array_blocks inst') = set (array_blocks inst) - {a, b} \<and>
           heap_inv (kvs_free b (kvs_free a h)) (L - {a, b})"
proof -
  define inst1 where "inst1 = inst\<lparr>slots := (slots inst)(i \<mapsto> hole)\<rparr>"
  define inst' where "inst' = (if total inst - 1 = i then inst1\<lparr>total := total inst - 1\<rparr> else inst1)"
  have d: "kvs_array_del inst (Some k) h = ret (0, inst', kvs_free b (kvs_free a h))"
    using f i array_okD [OF ok]
    by (cases inst) (auto simp: array_op_defs inst'_def inst1_def Let_def)
  have ab: "{a, b} \<subseteq> set (array_blocks inst)"
    using i by (force simp: array_blocks_def)
  have "a \<noteq> b"
    using ok i concat_upt_split [OF i(1), of "\<lambda>j. slot_blocks (slots inst j)"]
    by (auto simp: array_ok_def array_blocks_def)
  then have "b \<in> L - {a}" using ab own by auto
  then have "heap_inv (kvs_free b (kvs_free a h)) (L - {a} - {b})"
    using ab own hp by (intro kvs_alloc.release_live) auto
  moreover have "L - {a} - {b} = L - {a, b}" by auto
  moreover have "slots inst' = (slots inst)(i \<mapsto> hole)" "array_table inst' = array_table inst"
    "total inst' = (if Suc i = total inst then i else total inst)"
    using i(1) by (auto simp: inst'_def inst1_def)
  moreover note d array_make_hole [OF ok i inst1_def inst'_def]
  ultimately show ?thesis
    by (intro exI [of _ inst'] conjI impI) simp_all
qed

lemma kvs_array_del_hit:
  assumes ok: "array_ok inst" and full: "no_holes inst" and k: "array_abs inst k = Some v"
    and hp: "heap_inv h L" and own: "set (array_blocks inst) \<subseteq> L"
  shows "\<exists>inst' h' a b. kvs_array_del inst (Some k) h = ret (0, inst', h') \<and>
           array_abs inst' = (array_abs inst)(k := None) \<and> (tail_zero inst \<longrightarrow> array_ok inst') \<and>
           {a, b} \<subseteq> set (array_blocks inst) \<and> heap_inv h' (L - {a, b}) \<and>
           set (array_blocks inst') = set (array_blocks inst) - {a, b}"
proof -
  obtain i a b where i: "i < total inst" "slots inst i = Some \<lparr>item_key = CStr a k, item_value = CStr b v\<rparr>"
    and f: "array_find (slots inst) k 0 (total inst) = ret (Some i)"
    using array_find_abs [OF ok, of k] k by auto
  have fd: "array_find_del (slots inst) k 0 (total inst) = ret (Some i)"
    using array_find_del_eq [of 0 "total inst" "slots inst" k] f ok full
    by (simp add: array_ok_def no_holes_def)
  have ab: "{a, b} \<subseteq> set (array_blocks inst)"
    using i by (force simp: array_blocks_def)
  obtain inst' where "kvs_array_del inst (Some k) h = ret (0, inst', kvs_free b (kvs_free a h))"
    "array_abs inst' = (array_abs inst)(k := None)"
    "tail_zero inst \<or> Suc i = total inst \<longrightarrow> array_ok inst'"
    "set (array_blocks inst') = set (array_blocks inst) - {a, b}"
    "heap_inv (kvs_free b (kvs_free a h)) (L - {a, b})"
    using array_del_at [OF ok fd i hp own] by metis
  with ab show ?thesis
    by (intro exI [of _ inst'] exI [of _ "kvs_free b (kvs_free a h)"] exI [of _ a] exI [of _ b]) simp
qed

lemma kvs_array_del_miss:
  assumes ok: "array_ok inst" and full: "no_holes inst" and k: "array_abs inst k = None"
  shows "kvs_array_del inst (Some k) h = ret (int (total inst), inst, h)"
proof -
  have "array_find_del (slots inst) k 0 (total inst) = ret None"
    using array_find_del_eq [of 0 "total inst" "slots inst" k] ok full
      array_find_abs [OF ok, of k] k by (simp add: array_ok_def no_holes_def)
  then show ?thesis
    using array_okD [OF ok] by (auto simp: array_run)
qed

section \<open>Deleting and writing the same key again\<close>

text \<open>A client that deletes a key and sets it again, \<open>n\<close> times.\<close>

fun array_churn :: "nat \<Rightarrow> cstring \<Rightarrow> cstring \<Rightarrow> kvs_array \<Rightarrow> heap \<Rightarrow> (kvs_array \<times> heap) res" where
  "array_churn 0 k v inst h = ret (inst, h)"
| "array_churn (Suc n) k v inst h =
     rbind (kvs_array_del inst (Some k) h) (\<lambda>(r, inst1, h1).
       rbind (kvs_array_set inst1 (Some k) (Some v) h1) (\<lambda>(r, inst2, h2).
         array_churn n k v inst2 h2))"

definition holds_first :: "kvs_array \<Rightarrow> cstring \<Rightarrow> cstring \<Rightarrow> bool" where
  "holds_first inst k v \<longleftrightarrow>
     (\<exists>a b. slots inst 0 = Some \<lparr>item_key = CStr a k, item_value = CStr b v\<rparr>)"

lemma array_churn_step:
  assumes ok: "array_ok inst" and tail: "tail_zero inst"
    and t: "2 \<le> total inst" "total inst < KVS_ARRAY_SIZE" and at: "holds_first inst k v"
    and hp: "heap_inv h L" and own: "set (array_blocks inst) \<subseteq> L" and mem: "mem_budget h (n + 2)"
  shows "\<exists>inst1 h1 inst2 h2 L2. kvs_array_del inst (Some k) h = ret (0, inst1, h1) \<and>
           kvs_array_set inst1 (Some k) (Some v) h1 = ret (0, inst2, h2) \<and>
           array_ok inst2 \<and> tail_zero inst2 \<and> total inst2 = Suc (total inst) \<and>
           holds_first inst2 k v \<and> array_abs inst2 = array_abs inst \<and>
           heap_inv h2 L2 \<and> set (array_blocks inst2) \<subseteq> L2 \<and> mem_budget h2 n"
proof -
  obtain a b where s0: "slots inst 0 = Some \<lparr>item_key = CStr a k, item_value = CStr b v\<rparr>"
    using at by (auto simp: holds_first_def)
  have abs: "array_abs inst k = Some v"
    using array_abs_slot [OF ok _ s0] t by simp
  obtain m where m: "total inst = Suc (Suc m)" using t(1) by (metis Suc_le_D numeral_2_eq_2 Suc_le_mono)
  define h1 where "h1 = kvs_free b (kvs_free a h)"
  have fd: "array_find_del (slots inst) k 0 (total inst) = ret (Some 0)"
    using m s0 by simp
  obtain inst1 where 1: "kvs_array_del inst (Some k) h = ret (0, inst1, h1)"
    "slots inst1 = (slots inst)(0 \<mapsto> hole)" "total inst1 = total inst"
    "array_abs inst1 = (array_abs inst)(k := None)" "array_ok inst1"
    "set (array_blocks inst1) = set (array_blocks inst) - {a, b}" "heap_inv h1 (L - {a, b})"
    using array_del_at [OF ok fd _ s0 hp own] t tail unfolding h1_def by auto
  have tail1: "tail_zero inst1" using tail t by (auto simp: tail_zero_def 1)
  have mem1: "mem_budget h1 (Suc (Suc n))" using mem by (simp add: h1_def)
  obtain p h2 where p: "kvs_strcopy k h1 = (p, h2)" by fastforce
  obtain c where c: "p = CStr c k" "c \<notin> L - {a, b}" "heap_inv h2 (insert c (L - {a, b}))"
    using kvs_strcopy_heap_inv [OF 1(7) p] kvs_strcopy_budget(1) [OF mem1 p] by auto
  have mem2: "mem_budget h2 (Suc n)" by (rule kvs_strcopy_budget(2) [OF mem1 p])
  obtain q h3 where q: "kvs_strcopy v h2 = (q, h3)" by fastforce
  obtain d where d: "q = CStr d v" "d \<notin> insert c (L - {a, b})"
    "heap_inv h3 (insert d (insert c (L - {a, b})))"
    using kvs_strcopy_heap_inv [OF c(3) q] kvs_strcopy_budget(1) [OF mem2 q] by auto
  define inst2 where "inst2 = inst1\<lparr>slots := (slots inst1)(0 \<mapsto>
      \<lparr>item_key = CStr c k, item_value = CStr d v\<rparr>), total := Suc (total inst1)\<rparr>"
  have room1: "total inst1 < KVS_ARRAY_SIZE" and abs1: "array_abs inst1 k = None"
    using t 1 by auto
  have fh: "array_find_hole (slots inst1) 0 (total inst1) = ret (Some 0)"
    using m 1(2,3) by simp
  have "array_find (slots inst1) k 0 (total inst1) = ret None"
    using array_find_abs [OF 1(5), of k] abs1 by auto
  then have set1: "kvs_array_set inst1 (Some k) (Some v) h1 = ret (0, inst2, h3)"
    using fh p q c(1) d(1) room1 t array_okD [OF 1(5)]
    by (cases inst1) (auto simp: array_op_defs inst2_def Let_def)
  have new: "c \<notin> set (array_blocks inst1)" "d \<notin> set (array_blocks inst1)" "c \<noteq> d"
    using c(2) d(2) own 1(6) by auto
  have st: "array_ok inst2 \<and> array_abs inst2 = (array_abs inst1)(k \<mapsto> v) \<and>
      set (array_blocks inst2) = {c, d} \<union> set (array_blocks inst1)"
    by (rule array_store [OF 1(5) room1 _ abs1 new inst2_def]) (use 1(2,3) t in auto)
  moreover have "array_abs inst2 = array_abs inst"
    using st 1(4) abs by auto
  moreover have "tail_zero inst2" "total inst2 = Suc (total inst)" "holds_first inst2 k v"
    using tail1 t 1(3) by (auto simp: tail_zero_def holds_first_def inst2_def)
  moreover have "set (array_blocks inst2) \<subseteq> insert d (insert c (L - {a, b}))"
    using st 1(6) own by auto
  ultimately show ?thesis
    using 1(1) set1 d(3) kvs_strcopy_budget(2) [OF mem2 q] by blast
qed

lemma array_churn_run:
  assumes "array_ok inst" and "tail_zero inst" and "2 \<le> total inst"
    and "total inst + n \<le> KVS_ARRAY_SIZE" and "holds_first inst k v"
    and "heap_inv h L" and "set (array_blocks inst) \<subseteq> L" and "mem_budget h (2 * n)"
  shows "\<exists>inst' h'. array_churn n k v inst h = ret (inst', h') \<and> array_ok inst' \<and>
           array_abs inst' = array_abs inst \<and> total inst' = total inst + n"
  using assms
proof (induction n arbitrary: inst h L)
  case 0
  then show ?case by auto
next
  case (Suc n)
  have room: "total inst < KVS_ARRAY_SIZE" using Suc.prems(4) by simp
  have mem: "mem_budget h (2 * n + 2)" using Suc.prems(8) by simp
  obtain inst1 h1 inst2 h2 L2 where s: "kvs_array_del inst (Some k) h = ret (0, inst1, h1)"
    "kvs_array_set inst1 (Some k) (Some v) h1 = ret (0, inst2, h2)"
    "array_ok inst2" "tail_zero inst2" "total inst2 = Suc (total inst)" "holds_first inst2 k v"
    "array_abs inst2 = array_abs inst" "heap_inv h2 L2" "set (array_blocks inst2) \<subseteq> L2"
    "mem_budget h2 (2 * n)"
    using array_churn_step [OF Suc.prems(1,2,3) room Suc.prems(5,6,7) mem] by blast
  obtain inst' h' where "array_churn n k v inst2 h2 = ret (inst', h')" "array_ok inst'"
    "array_abs inst' = array_abs inst2" "total inst' = total inst2 + n"
    using Suc.IH [OF s(3,4) _ _ s(6,8,9,10)] Suc.prems(3,4) s(5) by auto
  with s show ?case by auto
qed

section \<open>Properties\<close>

text \<open>An array with one pair, \<open>a\<close> to \<open>1\<close>, and one with a second pair, \<open>b\<close> to \<open>2\<close>.\<close>

definition demo_array :: kvs_array where
  "demo_array =
     \<lparr>array_table = 8,
      slots = (\<lambda>_. Some hole)(0 \<mapsto> \<lparr>item_key = CStr 1000 [97], item_value = CStr 1100 [49]\<rparr>),
      total = 1, array_mutex = False\<rparr>"

definition demo_array2 :: kvs_array where
  "demo_array2 = demo_array\<lparr>
     slots := (slots demo_array)(1 \<mapsto> \<lparr>item_key = CStr 1200 [98], item_value = CStr 1300 [50]\<rparr>),
     total := 2\<rparr>"

lemma demo_array_entries [simp]:
  "array_entries demo_array = [([97], [49])]" "array_entries demo_array2 = [([97], [49]), ([98], [50])]"
  "array_blocks demo_array = [8, 1000, 1100]"
  "array_blocks demo_array2 = [8, 1000, 1100, 1200, 1300]"
  by (simp_all add: array_entries_def array_blocks_def demo_array2_def demo_array_def upt_rec)

lemma demo_array_ok [simp]: "array_ok demo_array" "array_ok demo_array2"
  "tail_zero demo_array2" "no_holes demo_array2" "total demo_array = 1" "total demo_array2 = 2"
  by (simp_all add: array_ok_def no_holes_def tail_zero_def)
    (auto simp: demo_array2_def demo_array_def KVS_ARRAY_SIZE_def less_Suc_eq numeral_2_eq_2)

lemma demo_array_heap [simp]: "heap_inv demo_heap {8, 1000, 1100}"
  "heap_inv demo_heap {8, 1000, 1100, 1200, 1300}"
  by (rule demo_heap_inv; auto)+

text \<open>The second one with holes after its two pairs.\<close>

lemma demo_array2_holes:
  assumes n: "2 \<le> n" "n \<le> KVS_ARRAY_SIZE"
  shows "array_blocks (demo_array2\<lparr>total := n\<rparr>) = [8, 1000, 1100, 1200, 1300]"
    and "tail_zero (demo_array2\<lparr>total := n\<rparr>)"
    and "holds_first (demo_array2\<lparr>total := n\<rparr>) [97] [49]"
    and "array_ok (demo_array2\<lparr>total := n\<rparr>)"
proof -
  let ?i = "demo_array2\<lparr>total := n\<rparr>"
  have u: "[0..<n] = 0 # 1 # [2..<n]"
    using n(1) by (simp add: upt_conv_Cons numeral_2_eq_2)
  have holes: "\<forall>j\<in>set [2..<n]. slots ?i j = Some hole"
    by (auto simp: demo_array2_def demo_array_def)
  then have "concat (map (\<lambda>j. slot_entries (slots ?i j)) [2..<n]) = []"
    "concat (map (\<lambda>j. slot_blocks (slots ?i j)) [2..<n]) = []"
    by (auto simp: hole_def)
  then have e: "array_entries ?i = [([97], [49]), ([98], [50])]"
    and b: "array_blocks ?i = [8, 1000, 1100, 1200, 1300]"
    by (simp_all add: array_entries_def array_blocks_def u)
       (simp_all add: demo_array2_def demo_array_def)
  show "array_blocks ?i = [8, 1000, 1100, 1200, 1300]" by (rule b)
  show t: "tail_zero ?i" using n(1) by (auto simp: tail_zero_def demo_array2_def demo_array_def)
  show "holds_first ?i [97] [49]" by (simp add: holds_first_def demo_array2_def demo_array_def)
  have "\<not> array_mutex ?i" "\<And>j. slot_ok (slots ?i j)"
    by (simp_all add: demo_array2_def demo_array_def)
  with t n(2) show "array_ok ?i" unfolding array_ok_def e b by simp
qed

text \<open>
  Property C18. On a well-formed array with room and memory, \<open>kvs_array_set\<close> returns 1 and
  changes nothing when the key is present, and otherwise returns 0 and adds exactly the
  pair it was given; the result is well-formed, and the blocks it uses are its own.
\<close>

theorem kvs_array_set_correct:
  assumes "array_ok inst" and "total inst < KVS_ARRAY_SIZE" and "heap_inv h L"
    and "set (array_blocks inst) \<subseteq> L" and "mem_budget h 2"
  shows "\<exists>inst' h' L'.
           kvs_array_set inst (Some k) (Some v) h =
             ret (if array_abs inst k = None then 0 else 1, inst', h') \<and>
           array_ok inst' \<and>
           array_abs inst' = (if array_abs inst k = None then (array_abs inst)(k \<mapsto> v)
                              else array_abs inst) \<and>
           heap_inv h' L' \<and> heap_frame L (set (array_blocks inst)) L' (set (array_blocks inst'))"
proof (cases "array_abs inst k")
  case (Some w)
  then show ?thesis
    using kvs_array_set_hit [OF assms(1,2) Some] assms heap_frame_refl by auto
next
  case None
  obtain inst' h' a b where "kvs_array_set inst (Some k) (Some v) h = ret (0, inst', h')"
    "array_ok inst'" "array_abs inst' = (array_abs inst)(k \<mapsto> v)" "a \<notin> L" "b \<notin> L"
    "heap_inv h' (L \<union> {a, b})" "set (array_blocks inst') = {a, b} \<union> set (array_blocks inst)"
    using kvs_array_set_miss [OF assms(1,2) None assms(3,4), of v] assms(5) by auto
  moreover from this have
    "heap_frame L (set (array_blocks inst)) (L \<union> {a, b}) (set (array_blocks inst'))"
    using heap_frame_grow [OF assms(4), of "{a, b}"] by (simp add: Un_commute)
  ultimately show ?thesis
    using None by (intro exI [of _ inst'] exI [of _ h'] exI [of _ "L \<union> {a, b}"]) simp
qed

theorem kvs_array_set_correct_witness:
  "\<exists>inst' h'. kvs_array_set demo_array (Some [98]) (Some [50]) demo_heap = ret (0, inst', h') \<and>
     array_abs inst' = [[97] \<mapsto> [49], [98] \<mapsto> [50]]"
  using kvs_array_set_correct [of demo_array demo_heap "{8, 1000, 1100}" "[98]" "[50]"]
  by (auto simp: array_abs_def KVS_ARRAY_SIZE_def)

text \<open>
  On a well-formed array \<open>kvs_array_get\<close> returns the stored value of a key, or
  null, and \<open>kvs_array_exist\<close> returns 0 or 1; neither changes the array or keeps the mutex.
\<close>

theorem kvs_array_reads_correct:
  assumes "array_ok inst"
  shows "(case array_abs inst k of
            Some v \<Rightarrow> \<exists>a. kvs_array_get inst (Some k) = ret (CStr a v, inst)
          | None \<Rightarrow> kvs_array_get inst (Some k) = ret (CNull, inst)) \<and>
         kvs_array_exist inst (Some k) = ret (if array_abs inst k = None then 1 else 0, inst)"
  using array_reader.get_hit [OF assms, of k] array_reader.get_miss [OF assms, of k]
    kvs_array_exist_ok [OF assms] by (auto split: option.splits)

theorem kvs_array_reads_correct_witness:
  "\<exists>a. kvs_array_get demo_array (Some [97]) = ret (CStr a [49], demo_array)"
  using kvs_array_reads_correct [of demo_array "[97]"] by (simp add: array_abs_def)

text \<open>
  On a well-formed array with memory for the new value, \<open>kvs_array_mod\<close>
  replaces the value of a present key and returns 0; for an absent key it returns a
  positive number and changes nothing.
\<close>

theorem kvs_array_mod_correct:
  assumes "array_ok inst" and "heap_inv h L" and "set (array_blocks inst) \<subseteq> L" and "mem_budget h 1"
  shows "\<exists>r inst' h' L'.
           kvs_array_mod inst (Some k) (Some w) h = ret (r, inst', h') \<and> array_ok inst' \<and>
           (if array_abs inst k = None then 0 < r \<and> inst' = inst
            else r = 0 \<and> array_abs inst' = (array_abs inst)(k \<mapsto> w)) \<and>
           heap_inv h' L' \<and> heap_frame L (set (array_blocks inst)) L' (set (array_blocks inst'))"
proof (cases "array_abs inst k")
  case None
  then show ?thesis
    using kvs_array_mod_miss [OF assms(1) None, of w h] assms(1,2) heap_frame_refl [OF assms(3)]
    by fastforce
next
  case (Some v)
  then show ?thesis
    using kvs_array_mod_hit [OF assms(1) Some assms(2,3), of 0 w] assms(4) by fastforce
qed

theorem kvs_array_mod_correct_witness:
  "\<exists>inst' h'. kvs_array_mod demo_array (Some [97]) (Some [50]) demo_heap = ret (0, inst', h') \<and>
     array_abs inst' = [[97] \<mapsto> [50]]"
  using kvs_array_mod_correct [of demo_array demo_heap "{8, 1000, 1100}" "[97]" "[50]"]
  by (auto simp: array_abs_def)



text \<open>
  \<open>kvs_array_del\<close> compares the key of every slot without asking whether it is
  null: when an earlier deletion left a hole and the key is not found before it, the
  call dereferences a null pointer.
\<close>

theorem kvs_array_del_hole_undefined:
  assumes "array_ok inst" and "array_abs inst k = None" and "\<not> no_holes inst"
  shows "kvs_array_del inst (Some k) h = undef"
proof -
  define j where "j = (LEAST j. j < total inst \<and> slots inst j = Some hole)"
  have j: "j < total inst \<and> slots inst j = Some hole"
    using assms(3) unfolding no_holes_def j_def by (metis (mono_tags, lifting) LeastI)
  have before: "\<exists>a k' q. slots inst l = Some \<lparr>item_key = CStr a k', item_value = q\<rparr> \<and> k' \<noteq> k"
    if "l < j" for l
  proof -
    have "slots inst l \<noteq> Some hole"
      using that j not_less_Least [of l "\<lambda>j. j < total inst \<and> slots inst j = Some hole"]
      by (auto simp: j_def)
    moreover have "slot_ok (slots inst l)"
      using assms(1) that j by (simp add: array_ok_def)
    ultimately obtain a k' b v where
      l: "slots inst l = Some \<lparr>item_key = CStr a k', item_value = CStr b v\<rparr>"
      by (auto elim: slot_okE)
    with array_abs_slot [OF assms(1), of l] that j assms(2) show ?thesis by fastforce
  qed
  have "array_find_del (slots inst) k 0 (total inst) = undef"
    by (rule array_find_del_hole [of 0 j]) (use j before in auto)
  then show ?thesis
    using array_okD [OF assms(1)] by (simp add: array_op_defs)
qed

theorem kvs_array_del_hole_undefined_witness:
  "kvs_array_del (demo_array2\<lparr>slots := (slots demo_array2)(0 \<mapsto> hole)\<rparr>) (Some [99]) demo_heap = undef"
proof (rule kvs_array_del_hole_undefined)
  let ?i = "demo_array2\<lparr>slots := (slots demo_array2)(0 \<mapsto> hole)\<rparr>"
  have e: "array_entries ?i = [([98], [50])]" "array_blocks ?i = [8, 1200, 1300]"
    by (simp_all add: array_entries_def array_blocks_def demo_array2_def demo_array_def upt_rec)
  show "array_abs ?i [99] = None" by (simp add: array_abs_def e)
  show "array_ok ?i" unfolding array_ok_def e
  proof (intro conjI allI impI)
    fix j assume "j < total ?i"
    then have "j = 0 \<or> j = 1" by (auto simp: demo_array2_def)
    then show "slot_ok (slots ?i j)" by (auto simp: demo_array2_def demo_array_def)
  qed (auto simp: demo_array2_def demo_array_def tail_zero_def KVS_ARRAY_SIZE_def)
  show "\<not> no_holes ?i" by (auto simp: no_holes_def)
qed

text \<open>
  \<open>kvs_array_get\<close> with a null key returns without releasing the mutex, and so
  do \<open>kvs_array_del\<close> and \<open>kvs_array_mod\<close> (the latter with a null value too); from then on every operation of the array blocks for ever.
\<close>

theorem kvs_array_null_key_deadlock:
  assumes "\<not> array_mutex inst"
  shows "\<exists>inst'. kvs_array_get inst None = ret (CNull, inst') \<and>
           kvs_array_del inst None h = ret (- 1, inst', h) \<and>
           kvs_array_mod inst None v h = ret (- 1, inst', h) \<and>
           kvs_array_mod inst k None h = ret (- 1, inst', h) \<and>
           (\<forall>k v h. kvs_array_set inst' k v h = deadlock \<and> kvs_array_mod inst' k v h = deadlock \<and>
              kvs_array_del inst' k h = deadlock \<and> kvs_array_get inst' k = deadlock \<and>
              kvs_array_exist inst' k = deadlock)"
  using assms by (simp add: array_op_defs split: option.split)

theorem kvs_array_null_key_deadlock_witness:
  "\<exists>inst'. kvs_array_get demo_array None = ret (CNull, inst') \<and> kvs_array_get inst' (Some [97]) = deadlock"
  using kvs_array_null_key_deadlock [of demo_array] by (simp add: demo_array_def) blast

text \<open>
  Deleting a key and setting it again uses up one slot of the table each time:
  a client that repeats it on the first of two or more keys leaves an array that holds
  the same pairs but refuses every further key as full.
\<close>

theorem kvs_array_churn_fills:
  assumes "array_ok inst" and "tail_zero inst" and "2 \<le> total inst"
    and "total inst + n = KVS_ARRAY_SIZE" and "holds_first inst k v"
    and "heap_inv h L" and "set (array_blocks inst) \<subseteq> L" and "mem_budget h (2 * n)"
  shows "\<exists>inst' h'. array_churn n k v inst h = ret (inst', h') \<and>
           array_abs inst' = array_abs inst \<and>
           (\<forall>k' v' h''. kvs_array_set inst' (Some k') (Some v') h'' = ret (- 1, inst', h''))"
proof -
  obtain inst' h' where "array_churn n k v inst h = ret (inst', h')" "array_ok inst'"
    "array_abs inst' = array_abs inst" "total inst' = KVS_ARRAY_SIZE"
    using array_churn_run [OF assms(1-3) _ assms(5-8)] assms(4) by auto
  then show ?thesis using kvs_array_set_full by blast
qed

theorem kvs_array_churn_fills_witness:
  "\<exists>inst' h'. array_churn 4 [97] [49] (demo_array2\<lparr>total := 1020\<rparr>) demo_heap = ret (inst', h') \<and>
     kvs_array_set inst' (Some [99]) (Some [51]) h' = ret (- 1, inst', h')"
proof -
  let ?i = "demo_array2\<lparr>total := 1020\<rparr>"
  have "array_ok ?i" "tail_zero ?i" "holds_first ?i [97] [49]"
    "array_blocks ?i = [8, 1000, 1100, 1200, 1300]"
    using demo_array2_holes [of 1020] by (simp_all add: KVS_ARRAY_SIZE_def)
  then show ?thesis
    using kvs_array_churn_fills [of ?i 4 "[97]" "[49]" demo_heap "{8, 1000, 1100, 1200, 1300}"]
    by (auto simp: KVS_ARRAY_SIZE_def)
qed

end
