(* ===== verification/Kvs_Hash.thy ===== *)
theory Kvs_Hash
  imports Kv_Contract "HOL-Library.Multiset"
begin

text \<open>
  The hash store of \<^verbatim>\<open>src/kvs_hash.c\<close>: 1024 buckets, each a linked list of nodes, no lock.
  A bucket is modelled by the list of the nodes reachable from its head; a bucket that
  was never written is \<open>None\<close>, because \<open>kvs_hash_create\<close> does not clear the table it
  allocates. The hash is the sum of the characters of the key, which are signed on this
  target, so that it can be negative and index the table before its start.
\<close>

section \<open>State\<close>

record hashnode =
  node_addr :: addr
  node_key :: cptr
  node_value :: cptr

definition MAX_TABLE_SIZE :: nat where
  "MAX_TABLE_SIZE = 1024"

definition sizeof_hashnode :: size_t where
  "sizeof_hashnode = 24"

definition sizeof_hash_table :: size_t where
  "sizeof_hash_table = 8192"

record kvs_hash =
  hash_nodes :: addr
  buckets :: "nat \<Rightarrow> hashnode list option"
  max_slots :: nat
  count :: int

section \<open>Operations\<close>

text \<open>The loop of \<open>_hash\<close>; the sum is an \<open>int\<close>, whose overflow is undefined.\<close>

fun hash_sum :: "int \<Rightarrow> cstring \<Rightarrow> int res" where
  "hash_sum s [] = ret s"
| "hash_sum s (c # cs) =
     (let s' = s + sint c
      in if - (2 ^ 31) \<le> s' \<and> s' < 2 ^ 31 then hash_sum s' cs else undef)"

text \<open>The remainder of C, which takes the sign of the dividend.\<close>

definition c_rem :: "int \<Rightarrow> int \<Rightarrow> int" where
  "c_rem a b = sgn a * (\<bar>a\<bar> mod \<bar>b\<bar>)"

definition hash :: "cstring option \<Rightarrow> int \<Rightarrow> int res" where
  "hash ko sz =
     (case ko of
        None \<Rightarrow> ret (- 1)
      | Some key \<Rightarrow> rbind (hash_sum 0 key) (\<lambda>s. ret (c_rem s sz)))"

definition create_node :: "cstring \<Rightarrow> cstring \<Rightarrow> heap \<Rightarrow> hashnode option \<times> heap" where
  "create_node key val h =
     (let (node, h1) = kvs_malloc sizeof_hashnode h
      in if node = 0 then (None, h1)
         else let (kcopy, h2) = kvs_strcopy key h1
              in if kcopy = CNull then (None, h2)
                 else let (kvalue, h3) = kvs_strcopy val h2
                      in if kvalue = CNull then (None, kvs_free (caddr kvalue) h3)
                         else (Some \<lparr>node_addr = node, node_key = kcopy, node_value = kvalue\<rparr>, h3))"

text \<open>\<open>fresh\<close> is what the block of the table holds when the allocator returns it.\<close>

definition kvs_hash_create ::
  "(nat \<Rightarrow> hashnode list option) \<Rightarrow> kvs_hash \<Rightarrow> heap \<Rightarrow> int \<times> kvs_hash \<times> heap" where
  "kvs_hash_create fresh hs h =
     (let (p, h') = kvs_malloc sizeof_hash_table h
      in if p = 0 then (- 1, hs\<lparr>hash_nodes := 0\<rparr>, h')
         else (0, hs\<lparr>hash_nodes := p, buckets := fresh, max_slots := MAX_TABLE_SIZE, count := 0\<rparr>, h'))"

text \<open>The loops of \<open>kvs_hash_destory\<close>, over the nodes of a bucket and over the buckets.\<close>

fun hash_free_chain :: "hashnode list \<Rightarrow> heap \<Rightarrow> heap" where
  "hash_free_chain [] h = h"
| "hash_free_chain (n # ns) h = hash_free_chain ns (kvs_free (node_addr n) h)"

fun hash_free_buckets :: "nat \<Rightarrow> nat \<Rightarrow> kvs_hash \<Rightarrow> heap \<Rightarrow> (kvs_hash \<times> heap) res" where
  "hash_free_buckets i 0 hs h = ret (hs, h)"
| "hash_free_buckets i (Suc n) hs h =
     (case buckets hs i of
        None \<Rightarrow> undef
      | Some ns \<Rightarrow> hash_free_buckets (Suc i) n (hs\<lparr>buckets := (buckets hs)(i \<mapsto> [])\<rparr>)
                     (hash_free_chain ns h))"

definition kvs_hash_destory :: "kvs_hash \<Rightarrow> heap \<Rightarrow> (kvs_hash \<times> heap) res" where
  "kvs_hash_destory hs h =
     rbind (hash_free_buckets 0 (max_slots hs) hs h) (\<lambda>(hs', h').
       ret (hs', kvs_free (hash_nodes hs') h'))"

text \<open>\<^verbatim>\<open>hash->nodes[_hash(key, MAX_TABLE_SIZE)]\<close>, with the index.\<close>

definition hash_bucket :: "kvs_hash \<Rightarrow> cstring \<Rightarrow> (nat \<times> hashnode list) res" where
  "hash_bucket hs key =
     rbind (hash (Some key) (int MAX_TABLE_SIZE)) (\<lambda>idx.
       if idx < 0 then undef
       else case buckets hs (nat idx) of None \<Rightarrow> undef | Some ns \<Rightarrow> ret (nat idx, ns))"

text \<open>The search loop shared by all operations: the position of the first node with the key.\<close>

fun hash_find :: "hashnode list \<Rightarrow> cstring \<Rightarrow> nat option res" where
  "hash_find [] key = ret None"
| "hash_find (n # ns) key =
     rbind (cread (node_key n)) (\<lambda>s.
       if strcmp s key = 0 then ret (Some 0)
       else rbind (hash_find ns key) (\<lambda>r. ret (map_option Suc r)))"

definition kvs_hash_set ::
  "kvs_hash \<Rightarrow> cstring option \<Rightarrow> cstring option \<Rightarrow> heap \<Rightarrow> (int \<times> kvs_hash \<times> heap) res" where
  "kvs_hash_set hs ko vo h =
     (case (ko, vo) of
        (Some key, Some val) \<Rightarrow>
          rbind (hash_bucket hs key) (\<lambda>(idx, ns).
            rbind (hash_find ns key) (\<lambda>found.
              case found of
                Some j \<Rightarrow> ret (1, hs, h)
              | None \<Rightarrow>
                  (case create_node key val h of
                     (None, h') \<Rightarrow> undef
                   | (Some new_node, h') \<Rightarrow>
                       ret (0, hs\<lparr>buckets := (buckets hs)(idx \<mapsto> new_node # ns),
                                  count := count hs + 1\<rparr>, h'))))
      | _ \<Rightarrow> ret (- 1, hs, h))"

definition kvs_hash_get :: "kvs_hash \<Rightarrow> cstring option \<Rightarrow> cptr res" where
  "kvs_hash_get hs ko =
     (case ko of
        None \<Rightarrow> ret CNull
      | Some key \<Rightarrow>
          rbind (hash_bucket hs key) (\<lambda>(idx, ns).
            rbind (hash_find ns key) (\<lambda>found.
              case found of Some j \<Rightarrow> ret (node_value (ns ! j)) | None \<Rightarrow> ret CNull)))"

definition kvs_hash_mod ::
  "kvs_hash \<Rightarrow> cstring option \<Rightarrow> cstring option \<Rightarrow> heap \<Rightarrow> (int \<times> kvs_hash \<times> heap) res" where
  "kvs_hash_mod hs ko vo h =
     (case ko of
        None \<Rightarrow> ret (- 1, hs, h)
      | Some key \<Rightarrow>
          rbind (hash_bucket hs key) (\<lambda>(idx, ns).
            rbind (hash_find ns key) (\<lambda>found.
              case found of
                None \<Rightarrow> ret (1, hs, h)
              | Some j \<Rightarrow>
                  (case vo of
                     None \<Rightarrow> undef
                   | Some val \<Rightarrow>
                       let n = ns ! j;
                           h1 = kvs_free (caddr (node_value n)) h;
                           (kvalue, h2) = kvs_strcopy val h1
                       in if kvalue = CNull
                          then ret (- 2, hs\<lparr>buckets := (buckets hs)(idx \<mapsto>
                                 ns[j := n\<lparr>node_value := CDangling (caddr (node_value n))\<rparr>])\<rparr>, h2)
                          else ret (0, hs\<lparr>buckets := (buckets hs)(idx \<mapsto>
                                 ns[j := n\<lparr>node_value := kvalue\<rparr>])\<rparr>, h2)))))"

definition kvs_hash_count :: "kvs_hash \<Rightarrow> int" where
  "kvs_hash_count hs = count hs"

text \<open>
  Deleting the head of a bucket gives back the node only, deleting another node gives
  back its key and value too.
\<close>

definition kvs_hash_del :: "kvs_hash \<Rightarrow> cstring option \<Rightarrow> heap \<Rightarrow> (int \<times> kvs_hash \<times> heap) res" where
  "kvs_hash_del hs ko h =
     (case ko of
        None \<Rightarrow> ret (- 2, hs, h)
      | Some key \<Rightarrow>
          rbind (hash_bucket hs key) (\<lambda>(idx, ns).
            case ns of
              [] \<Rightarrow> ret (- 1, hs, h)
            | head # rest \<Rightarrow>
                rbind (cread (node_key head)) (\<lambda>s.
                  if strcmp s key = 0
                  then ret (0, hs\<lparr>buckets := (buckets hs)(idx \<mapsto> rest), count := count hs - 1\<rparr>,
                            kvs_free (node_addr head) h)
                  else rbind (hash_find rest key) (\<lambda>found.
                    case found of
                      None \<Rightarrow> ret (- 1, hs, h)
                    | Some j \<Rightarrow>
                        let n = rest ! j
                        in ret (0, hs\<lparr>buckets := (buckets hs)(idx \<mapsto>
                                        head # take j rest @ drop (Suc j) rest),
                                      count := count hs - 1\<rparr>,
                                kvs_free (node_addr n)
                                  (kvs_free (caddr (node_value n)) (kvs_free (caddr (node_key n)) h)))))))"

definition kvs_hash_exist :: "kvs_hash \<Rightarrow> cstring option \<Rightarrow> int res" where
  "kvs_hash_exist hs ko = rbind (kvs_hash_get hs ko) (\<lambda>p. ret (if p = CNull then 1 else 0))"

section \<open>Invariant and abstraction\<close>

text \<open>The bucket of a key, if its hash can be computed and is not negative.\<close>

definition hash_index :: "cstring \<Rightarrow> nat option" where
  "hash_index key =
     (case hash (Some key) (int MAX_TABLE_SIZE) of
        Inl e \<Rightarrow> None
      | Inr idx \<Rightarrow> if idx < 0 then None else Some (nat idx))"

abbreviation hkey :: "hashnode \<Rightarrow> cstring" where
  "hkey n \<equiv> cstr_of (node_key n)"

abbreviation hval :: "hashnode \<Rightarrow> cstring" where
  "hval n \<equiv> cstr_of (node_value n)"

definition chain_entries :: "hashnode list \<Rightarrow> (cstring \<times> cstring) list" where
  "chain_entries ns = map (\<lambda>n. (hkey n, hval n)) ns"

definition node_blocks :: "hashnode \<Rightarrow> addr list" where
  "node_blocks n = [node_addr n, caddr (node_key n), caddr (node_value n)]"

definition chain_blocks :: "hashnode list \<Rightarrow> addr list" where
  "chain_blocks ns = concat (map node_blocks ns)"

definition chain_ok :: "nat \<Rightarrow> hashnode list \<Rightarrow> bool" where
  "chain_ok i ns \<longleftrightarrow>
     (\<forall>n\<in>set ns. is_str (node_key n) \<and> is_str (node_value n) \<and> hash_index (hkey n) = Some i) \<and>
     distinct (map hkey ns)"

definition bucket_list :: "kvs_hash \<Rightarrow> nat \<Rightarrow> hashnode list" where
  "bucket_list hs i = the (buckets hs i)"

definition hash_blocks :: "kvs_hash \<Rightarrow> addr list" where
  "hash_blocks hs =
     hash_nodes hs # concat (map (\<lambda>i. chain_blocks (bucket_list hs i)) [0..<MAX_TABLE_SIZE])"

definition hash_ok :: "kvs_hash \<Rightarrow> bool" where
  "hash_ok hs \<longleftrightarrow>
     max_slots hs = MAX_TABLE_SIZE \<and>
     (\<forall>i<MAX_TABLE_SIZE. buckets hs i \<noteq> None \<and> chain_ok i (bucket_list hs i)) \<and>
     count hs = (\<Sum>i<MAX_TABLE_SIZE. int (length (bucket_list hs i))) \<and>
     distinct (hash_blocks hs)"

text \<open>The map from keys to values a hash table stands for.\<close>

definition hash_abs :: "kvs_hash \<Rightarrow> cstring \<rightharpoonup> cstring" where
  "hash_abs hs k =
     (case hash_index k of
        None \<Rightarrow> None
      | Some i \<Rightarrow> map_of (chain_entries (bucket_list hs i)) k)"

lemma hash_index_bound: "hash_index k = Some i \<Longrightarrow> i < MAX_TABLE_SIZE"
proof -
  assume "hash_index k = Some i"
  then obtain s where "i = nat (c_rem s 1024)"
    by (auto simp: hash_index_def hash_def MAX_TABLE_SIZE_def split: sum.splits if_splits)
  moreover have "c_rem s 1024 < 1024"
    by (cases "0 < s"; cases "s = 0") (auto simp: c_rem_def intro: le_less_trans [of _ 0])
  ultimately show ?thesis by (simp add: MAX_TABLE_SIZE_def)
qed

lemma hash_bucket_eq:
  assumes "hash_ok hs" and "hash_index k = Some i"
  shows "hash_bucket hs k = ret (i, bucket_list hs i)"
proof -
  obtain idx where "hash (Some k) (int MAX_TABLE_SIZE) = ret idx" "\<not> idx < 0" "i = nat idx"
    using assms(2) by (auto simp: hash_index_def split: sum.splits if_splits)
  moreover have "buckets hs i = Some (bucket_list hs i)"
    using assms(1) hash_index_bound [OF assms(2)] by (auto simp: hash_ok_def bucket_list_def)
  ultimately show ?thesis by (simp add: hash_bucket_def)
qed

lemma hash_find_eq:
  assumes "chain_ok i ns"
  shows "(\<exists>j<length ns. hash_find ns k = ret (Some j) \<and> hkey (ns ! j) = k \<and>
            map_of (chain_entries ns) k = Some (hval (ns ! j))) \<or>
         hash_find ns k = ret None \<and> map_of (chain_entries ns) k = None \<and> k \<notin> hkey ` set ns"
  using assms
proof (induction ns)
  case Nil
  then show ?case by (simp add: chain_entries_def)
next
  case (Cons n ns)
  then have "chain_ok i ns" and "is_str (node_key n)" by (auto simp: chain_ok_def)
  with Cons.IH show ?case by (auto simp: chain_entries_def)
qed

lemma hash_findE:
  assumes "chain_ok i ns"
  obtains (found) j where "j < length ns" and "hash_find ns k = ret (Some j)" and "hkey (ns ! j) = k"
      and "map_of (chain_entries ns) k = Some (hval (ns ! j))"
  | (absent) "hash_find ns k = ret None" and "map_of (chain_entries ns) k = None"
      and "k \<notin> hkey ` set ns"
  using hash_find_eq [OF assms, of k] by (elim disjE exE conjE) (auto intro: that)

section \<open>Replacing one bucket\<close>

lemma bucket_list_upd [simp]:
  "bucket_list (hs\<lparr>buckets := (buckets hs)(i \<mapsto> ns), count := c\<rparr>) =
     (bucket_list hs)(i := ns)"
  "bucket_list (hs\<lparr>buckets := (buckets hs)(i \<mapsto> ns)\<rparr>) = (bucket_list hs)(i := ns)"
  by (auto simp: bucket_list_def)

lemma hash_blocks_split:
  assumes "i < MAX_TABLE_SIZE"
  obtains pre post where
    "hash_blocks hs = pre @ chain_blocks (bucket_list hs i) @ post"
    "\<And>ns c. hash_blocks (hs\<lparr>buckets := (buckets hs)(i \<mapsto> ns), count := c\<rparr>) =
             pre @ chain_blocks ns @ post"
proof -
  let ?B = "\<lambda>j. chain_blocks (bucket_list hs j)"
  let ?pre = "hash_nodes hs # concat (map ?B [0..<i])"
  let ?post = "concat (map ?B [Suc i..<MAX_TABLE_SIZE])"
  show ?thesis
  proof (rule that [of ?pre ?post])
    show "hash_blocks hs = ?pre @ ?B i @ ?post"
      using concat_upt_split [OF assms, of ?B] by (simp add: hash_blocks_def)
    show "hash_blocks (hs\<lparr>buckets := (buckets hs)(i \<mapsto> ns), count := c\<rparr>) =
          ?pre @ chain_blocks ns @ ?post" for ns c
      using concat_upt_upd [OF assms, of chain_blocks "bucket_list hs" ns]
      by (simp add: hash_blocks_def)
  qed
qed

text \<open>
  Every operation replaces the nodes of one bucket: what is left to show is that the new
  bucket is well-formed and what its blocks are.
\<close>

lemma hash_update:
  assumes ok: "hash_ok hs" and i: "i < MAX_TABLE_SIZE" and ns: "chain_ok i ns"
    and cnt: "c = count hs + int (length ns) - int (length (bucket_list hs i))"
    and dist: "distinct (chain_blocks ns)"
    and sub: "set (chain_blocks ns) \<subseteq> set (chain_blocks (bucket_list hs i)) \<union> A"
    and A: "A \<inter> set (hash_blocks hs) = {}"
  defines "hs' \<equiv> hs\<lparr>buckets := (buckets hs)(i \<mapsto> ns), count := c\<rparr>"
  shows "hash_ok hs'"
    and "set (hash_blocks hs') =
           set (hash_blocks hs) - set (chain_blocks (bucket_list hs i)) \<union> set (chain_blocks ns)"
    and "hash_abs hs' k = (if hash_index k = Some i then map_of (chain_entries ns) k else hash_abs hs k)"
proof -
  obtain pre post where b: "hash_blocks hs = pre @ chain_blocks (bucket_list hs i) @ post"
    "hash_blocks hs' = pre @ chain_blocks ns @ post"
    using hash_blocks_split [OF i] unfolding hs'_def by metis
  have d: "distinct (hash_blocks hs)" using ok by (simp add: hash_ok_def)
  then have d': "distinct (hash_blocks hs')"
    unfolding b using dist sub A [unfolded b] by auto
  have "(\<Sum>j<MAX_TABLE_SIZE. int (length (bucket_list hs' j))) =
        (\<Sum>j<MAX_TABLE_SIZE. int (length (bucket_list hs j)) +
           (if j = i then int (length ns) - int (length (bucket_list hs i)) else 0))"
    by (rule sum.cong) (auto simp: hs'_def)
  also have "\<dots> = c"
    using ok i cnt by (simp add: sum.distrib hash_ok_def)
  finally show "hash_ok hs'"
    using ok d' ns by (auto simp: hash_ok_def hs'_def)
  show "set (hash_blocks hs') =
      set (hash_blocks hs) - set (chain_blocks (bucket_list hs i)) \<union> set (chain_blocks ns)"
    using d unfolding b by auto
  show "hash_abs hs' k = (if hash_index k = Some i then map_of (chain_entries ns) k else hash_abs hs k)"
    by (auto simp: hash_abs_def hs'_def split: option.split)
qed

section \<open>The operations on a well-formed table\<close>

lemma hash_ok_bucket:
  assumes "hash_ok hs" and "hash_index k = Some i"
  shows "chain_ok i (bucket_list hs i)" and "distinct (chain_blocks (bucket_list hs i))"
    and "set (chain_blocks (bucket_list hs i)) \<subseteq> set (hash_blocks hs)"
    and "hash_abs hs k = map_of (chain_entries (bucket_list hs i)) k"
proof -
  have i: "i < MAX_TABLE_SIZE" using assms(2) by (rule hash_index_bound)
  then show "chain_ok i (bucket_list hs i)" using assms(1) by (simp add: hash_ok_def)
  obtain pre post where "hash_blocks hs = pre @ chain_blocks (bucket_list hs i) @ post"
    using hash_blocks_split [OF i] by metis
  then show "distinct (chain_blocks (bucket_list hs i))"
    and "set (chain_blocks (bucket_list hs i)) \<subseteq> set (hash_blocks hs)"
    using assms(1) by (auto simp: hash_ok_def)
  show "hash_abs hs k = map_of (chain_entries (bucket_list hs i)) k"
    using assms(2) by (simp add: hash_abs_def)
qed

lemmas hash_op_defs = kvs_hash_set_def kvs_hash_get_def kvs_hash_mod_def kvs_hash_del_def
  kvs_hash_exist_def

lemma kvs_hash_get_eq:
  assumes ok: "hash_ok hs" and i: "hash_index k = Some i"
  shows "case hash_abs hs k of
           Some v \<Rightarrow> \<exists>a. kvs_hash_get hs (Some k) = ret (CStr a v)
         | None \<Rightarrow> kvs_hash_get hs (Some k) = ret CNull"
proof -
  note B = hash_ok_bucket [OF ok i]
  from B(1) show ?thesis
  proof (cases rule: hash_findE [where k = k])
    case (found j)
    then have "is_str (node_value (bucket_list hs i ! j))" using B(1) by (simp add: chain_ok_def)
    with found show ?thesis
      by (auto simp: hash_op_defs hash_bucket_eq [OF ok i] B(4))
  next
    case absent
    then show ?thesis by (simp add: hash_op_defs hash_bucket_eq [OF ok i] B(4))
  qed
qed

lemma kvs_hash_exist_eq:
  assumes "hash_ok hs" and "hash_index k = Some i"
  shows "kvs_hash_exist hs (Some k) = ret (if hash_abs hs k = None then 1 else 0)"
  using kvs_hash_get_eq [OF assms] by (auto simp: kvs_hash_exist_def split: option.splits)

lemma kvs_hash_set_hit:
  assumes ok: "hash_ok hs" and i: "hash_index k = Some i" and "hash_abs hs k = Some w"
  shows "kvs_hash_set hs (Some k) (Some v) h = ret (1, hs, h)"
proof -
  note B = hash_ok_bucket [OF ok i]
  from B(1) show ?thesis
    by (cases rule: hash_findE [where k = k])
      (use assms(3) in \<open>auto simp: hash_op_defs hash_bucket_eq [OF ok i] B(4)\<close>)
qed

text \<open>What \<open>_create_node\<close> does when memory is available.\<close>

lemma create_node_ok:
  assumes "heap_inv h L" and "mem_budget h (m + 3)"
  shows "\<exists>n a b h'. create_node k v h = (Some \<lparr>node_addr = n, node_key = CStr a k, node_value = CStr b v\<rparr>, h') \<and>
           distinct [n, a, b] \<and> {n, a, b} \<inter> L = {} \<and> heap_inv h' (L \<union> {n, a, b}) \<and> mem_budget h' m"
proof -
  obtain n h1 a h2 b h3 where "kvs_malloc sizeof_hashnode h = (n, h1)" "kvs_strcopy k h1 = (CStr a k, h2)"
    "kvs_strcopy v h2 = (CStr b v, h3)" "distinct [0, n, a, b]" "{n, a, b} \<inter> L = {}"
    "heap_inv h3 (L \<union> {n, a, b})" "mem_budget h3 m"
    using alloc_node_strings [OF assms] by blast
  then show ?thesis
    by (intro exI [of _ n] exI [of _ a] exI [of _ b] exI [of _ h3]) (auto simp: create_node_def)
qed

lemma kvs_hash_set_miss:
  assumes ok: "hash_ok hs" and i: "hash_index k = Some i" and none: "hash_abs hs k = None"
    and inv: "heap_inv h L" and own: "set (hash_blocks hs) \<subseteq> L" and mem: "mem_budget h (m + 3)"
  shows "\<exists>hs' h' A. kvs_hash_set hs (Some k) (Some v) h = ret (0, hs', h') \<and> hash_ok hs' \<and>
           hash_abs hs' = (hash_abs hs)(k \<mapsto> v) \<and> count hs' = count hs + 1 \<and>
           A \<inter> L = {} \<and> heap_inv h' (L \<union> A) \<and>
           set (hash_blocks hs') = set (hash_blocks hs) \<union> A \<and> mem_budget h' m"
proof -
  note B = hash_ok_bucket [OF ok i]
  obtain n a b h' where c: "create_node k v h = (Some \<lparr>node_addr = n, node_key = CStr a k, node_value = CStr b v\<rparr>, h')"
      "distinct [n, a, b]" "{n, a, b} \<inter> L = {}" "heap_inv h' (L \<union> {n, a, b})" "mem_budget h' m"
    using create_node_ok [OF inv mem] by metis
  let ?n = "\<lparr>node_addr = n, node_key = CStr a k, node_value = CStr b v\<rparr>"
  let ?ns = "?n # bucket_list hs i"
  let ?hs = "hs\<lparr>buckets := (buckets hs)(i \<mapsto> ?ns), count := count hs + 1\<rparr>"
  from none B(4) have f: "hash_find (bucket_list hs i) k = ret None" "k \<notin> hkey ` set (bucket_list hs i)"
    using B(1) by (auto elim: hash_findE [of i "bucket_list hs i" k])
  have run: "kvs_hash_set hs (Some k) (Some v) h = ret (0, ?hs, h')"
    using f c(1) by (simp add: hash_op_defs hash_bucket_eq [OF ok i])
  have ck: "chain_ok i ?ns" using B(1) f(2) i by (auto simp: chain_ok_def)
  have cb: "chain_blocks ?ns = [n, a, b] @ chain_blocks (bucket_list hs i)"
    by (simp add: chain_blocks_def node_blocks_def)
  have dist: "distinct (chain_blocks ?ns)"
    unfolding cb using c(2,3) B(2,3) own by auto
  have sub: "set (chain_blocks ?ns) \<subseteq> set (chain_blocks (bucket_list hs i)) \<union> {n, a, b}"
    unfolding cb by auto
  have fresh: "{n, a, b} \<inter> set (hash_blocks hs) = {}" using c(3) own by auto
  have cnt: "count hs + 1 = count hs + int (length ?ns) - int (length (bucket_list hs i))" by simp
  note U = hash_update [OF ok hash_index_bound [OF i] ck cnt dist sub fresh]
  have "hash_abs ?hs = (hash_abs hs)(k \<mapsto> v)"
    using i U(3) by (auto simp: fun_eq_iff chain_entries_def hash_abs_def)
  moreover have "set (hash_blocks ?hs) = set (hash_blocks hs) \<union> {n, a, b}"
    unfolding U(2) cb using B(3) by auto
  ultimately show ?thesis
    using run U(1) c(3,4,5) by (intro exI [of _ ?hs] exI [of _ h'] exI [of _ "{n, a, b}"]) simp
qed

interpretation hash_reader: kv_reader hash_ok hash_abs "\<lambda>k. hash_index k \<noteq> None"
  "\<lambda>s k. rbind (kvs_hash_get s (Some k)) (\<lambda>p. ret (p, s))"
proof
  fix s k v assume "hash_ok s" "hash_index k \<noteq> None"
  then obtain i where i: "hash_index k = Some i" by auto
  note g = kvs_hash_get_eq [OF \<open>hash_ok s\<close> i]
  show "hash_abs s k = Some v \<Longrightarrow> \<exists>a. rbind (kvs_hash_get s (Some k)) (\<lambda>p. ret (p, s)) = ret (CStr a v, s)"
    using g by auto
  show "hash_abs s k = None \<Longrightarrow> rbind (kvs_hash_get s (Some k)) (\<lambda>p. ret (p, s)) = ret (CNull, s)"
    using g by auto
qed

interpretation hash_kv: kv_store hash_ok hash_abs "\<lambda>k. hash_index k \<noteq> None"
  "\<lambda>s k. rbind (kvs_hash_get s (Some k)) (\<lambda>p. ret (p, s))"
  "\<lambda>s. set (hash_blocks s)" "\<lambda>s ks. \<forall>k\<in>set ks. hash_index k \<noteq> None"
  "\<lambda>s k v h. kvs_hash_set s (Some k) (Some v) h" 1
proof
  fix s h L k v n and ks :: "cstring list"
  assume ok: "hash_ok s" and hp: "heap_inv h L" "set (hash_blocks s) \<subseteq> L" "mem_budget h (n + 3)"
    and fits: "\<forall>k\<in>set (k # ks). hash_index k \<noteq> None"
  then obtain i where i: "hash_index k = Some i" by auto
  show "\<exists>s' h' L'. kvs_hash_set s (Some k) (Some v) h = ret (if hash_abs s k = None then 0 else 1, s', h') \<and> hash_ok s' \<and>
      hash_abs s' = (if hash_abs s k = None then (hash_abs s)(k \<mapsto> v) else hash_abs s) \<and>
      (\<forall>k\<in>set ks. hash_index k \<noteq> None) \<and> heap_inv h' L' \<and> mem_budget h' n \<and>
      heap_frame L (set (hash_blocks s)) L' (set (hash_blocks s'))"
  proof (cases "hash_abs s k")
    case (Some w)
    then show ?thesis
      using kvs_hash_set_hit [OF ok i Some, of v h] ok hp fits
      by (auto intro!: exI [of _ L] heap_frame_refl elim: mem_budget_mono)
  next
    case None
    obtain s' h' A where "kvs_hash_set s (Some k) (Some v) h = ret (0, s', h')" "hash_ok s'"
      "hash_abs s' = (hash_abs s)(k \<mapsto> v)" "A \<inter> L = {}" "heap_inv h' (L \<union> A)"
      "set (hash_blocks s') = set (hash_blocks s) \<union> A" "mem_budget h' n"
      using kvs_hash_set_miss [OF ok i None hp(1,2,3)] by metis
    moreover from this have "heap_frame L (set (hash_blocks s)) (L \<union> A) (set (hash_blocks s'))"
      using heap_frame_grow [OF hp(2)] by simp
    ultimately show ?thesis using None fits by (intro exI [of _ s'] exI [of _ h']) auto
  qed
qed auto

section \<open>Changing and deleting a node\<close>

lemma chain_split:
  assumes "j < length ns"
  obtains us n vs where "ns = us @ n # vs" and "ns ! j = n" and "take j ns = us"
    and "drop (Suc j) ns = vs" and "\<And>m. ns[j := m] = us @ m # vs"
  using assms that [of "take j ns" "ns ! j" "drop (Suc j) ns"]
  by (simp add: id_take_nth_drop [symmetric] upd_conv_take_nth_drop)

lemma chain_blocks_append [simp]: "chain_blocks (us @ vs) = chain_blocks us @ chain_blocks vs"
  and chain_blocks_Cons [simp]: "chain_blocks (n # vs) = node_blocks n @ chain_blocks vs"
  and chain_blocks_Nil [simp]: "chain_blocks [] = []"
  by (simp_all add: chain_blocks_def)

lemma chain_entries_append [simp]: "chain_entries (us @ vs) = chain_entries us @ chain_entries vs"
  and chain_entries_Cons [simp]: "chain_entries (n # vs) = (hkey n, hval n) # chain_entries vs"
  and chain_entries_Nil [simp]: "chain_entries [] = []"
  by (simp_all add: chain_entries_def)

lemma chain_entries_keys [simp]: "fst ` set (chain_entries ns) = hkey ` set ns"
  by (simp add: chain_entries_def image_image)

lemma chain_remove:
  assumes ok: "chain_ok i ns" and d: "distinct (chain_blocks ns)" and j: "j < length ns"
  defines "ns' \<equiv> take j ns @ drop (Suc j) ns"
  shows "chain_ok i ns'" and "distinct (chain_blocks ns')"
    and "set (chain_blocks ns') = set (chain_blocks ns) - set (node_blocks (ns ! j))"
    and "map_of (chain_entries ns') = (map_of (chain_entries ns))(hkey (ns ! j) := None)"
    and "int (length ns') = int (length ns) - 1"
proof -
  obtain us n vs where s: "ns = us @ n # vs" "ns ! j = n" "ns' = us @ vs"
    using chain_split [OF j] unfolding ns'_def by metis
  show "chain_ok i ns'" "distinct (chain_blocks ns')"
    "set (chain_blocks ns') = set (chain_blocks ns) - set (node_blocks (ns ! j))"
    "int (length ns') = int (length ns) - 1"
    using ok d unfolding s(2,3) unfolding s(1) by (auto simp: chain_ok_def)
  have "hkey n \<notin> fst ` set (chain_entries us)" "hkey n \<notin> fst ` set (chain_entries vs)"
    using ok unfolding s(1) by (auto simp: chain_ok_def)
  then show "map_of (chain_entries ns') = (map_of (chain_entries ns))(hkey (ns ! j) := None)"
    unfolding s(2,3) unfolding s(1) using map_of_delete_mid [of "hkey n" "chain_entries us" "chain_entries vs" "hval n"]
    by (simp del: map_of_append)
qed

lemma chain_modify:
  fixes v :: cstring
  assumes ok: "chain_ok i ns" and d: "distinct (chain_blocks ns)" and j: "j < length ns"
    and b: "b \<notin> set (chain_blocks ns) - {caddr (node_value (ns ! j))}"
  defines "ns' \<equiv> ns[j := (ns ! j)\<lparr>node_value := CStr b v\<rparr>]"
  shows "chain_ok i ns'" and "distinct (chain_blocks ns')"
    and "set (chain_blocks ns') = set (chain_blocks ns) - {caddr (node_value (ns ! j))} \<union> {b}"
    and "map_of (chain_entries ns') = (map_of (chain_entries ns))(hkey (ns ! j) \<mapsto> v)"
    and "length ns' = length ns"
proof -
  obtain us n vs where s: "ns = us @ n # vs" "ns ! j = n" "ns' = us @ n\<lparr>node_value := CStr b v\<rparr> # vs"
    using chain_split [OF j] unfolding ns'_def by metis
  show "chain_ok i ns'" "distinct (chain_blocks ns')" "length ns' = length ns"
    "set (chain_blocks ns') = set (chain_blocks ns) - {caddr (node_value (ns ! j))} \<union> {b}"
    using ok d b unfolding s(2,3) unfolding s(1) by (auto simp: chain_ok_def node_blocks_def)
  have "hkey n \<notin> fst ` set (chain_entries us)"
    using ok unfolding s(1) by (auto simp: chain_ok_def)
  then show "map_of (chain_entries ns') = (map_of (chain_entries ns))(hkey (ns ! j) \<mapsto> v)"
    unfolding s(2,3) unfolding s(1) using map_of_replace_mid [of "hkey n" "chain_entries us" v "chain_entries vs" "hval n"]
    by (simp del: map_of_append)
qed

lemma hash_abs_bucket_upd:
  assumes "hash_ok hs" and "hash_index k = Some i"
    and "\<And>l. hash_abs hs' l = (if hash_index l = Some i then map_of (chain_entries ns) l else hash_abs hs l)"
    and "map_of (chain_entries ns) = (map_of (chain_entries (bucket_list hs i)))(k := x)"
  shows "hash_abs hs' = (hash_abs hs)(k := x)"
  using assms(2-4) by (auto simp: fun_eq_iff hash_abs_def)

lemma kvs_hash_mod_miss:
  assumes ok: "hash_ok hs" and i: "hash_index k = Some i" and "hash_abs hs k = None"
  shows "kvs_hash_mod hs (Some k) vo h = ret (1, hs, h)"
proof -
  note B = hash_ok_bucket [OF ok i]
  from B(1) show ?thesis
    by (cases rule: hash_findE [where k = k])
      (use assms(3) in \<open>auto simp: hash_op_defs hash_bucket_eq [OF ok i] B(4)\<close>)
qed

lemma kvs_hash_mod_hit:
  assumes ok: "hash_ok hs" and i: "hash_index k = Some i" and some: "hash_abs hs k = Some w"
    and inv: "heap_inv h L" and own: "set (hash_blocks hs) \<subseteq> L" and mem: "mem_budget h 1"
  shows "\<exists>hs' h' a b. kvs_hash_mod hs (Some k) (Some v) h = ret (0, hs', h') \<and> hash_ok hs' \<and>
           hash_abs hs' = (hash_abs hs)(k \<mapsto> v) \<and> count hs' = count hs \<and>
           a \<in> set (hash_blocks hs) \<and> b \<notin> L - {a} \<and> heap_inv h' (L - {a} \<union> {b}) \<and>
           set (hash_blocks hs') = set (hash_blocks hs) - {a} \<union> {b}"
proof -
  note B = hash_ok_bucket [OF ok i]
  let ?c = "bucket_list hs i"
  from B(1) obtain j where j: "j < length ?c" "hash_find ?c k = ret (Some j)" "hkey (?c ! j) = k"
    using some B(4) by (auto elim: hash_findE [where k = k])
  let ?a = "caddr (node_value (?c ! j))"
  have "?c ! j \<in> set ?c" using j(1) by simp
  then have a: "?a \<in> set (chain_blocks ?c)" by (auto simp: chain_blocks_def node_blocks_def)
  have aL: "?a \<in> L" using a B(3) own by auto
  obtain q h' where q: "kvs_strcopy v (kvs_free ?a h) = (q, h')" by fastforce
  have f: "heap_inv (kvs_free ?a h) (L - {?a})" using kvs_alloc.release_live [OF inv aL] .
  have "\<exists>p. q = CStr p v" using kvs_strcopy_budget(1) [OF _ q, of 0] mem by simp
  then obtain b where b: "q = CStr b v" "b \<notin> L - {?a}" "heap_inv h' (insert b (L - {?a}))"
    using kvs_strcopy_heap_inv [OF f q] by auto
  let ?ns = "?c[j := (?c ! j)\<lparr>node_value := CStr b v\<rparr>]"
  let ?hs = "hs\<lparr>buckets := (buckets hs)(i \<mapsto> ?ns)\<rparr>"
  have run: "kvs_hash_mod hs (Some k) (Some v) h = ret (0, ?hs, h')"
    using j(2) q b(1) by (simp add: hash_op_defs hash_bucket_eq [OF ok i])
  have "b \<notin> set (chain_blocks ?c) - {?a}" using b(2) B(3) own by auto
  note M = chain_modify [OF B(1,2) j(1) this, of v]
  have sub: "set (chain_blocks ?ns) \<subseteq> set (chain_blocks ?c) \<union> ({b} - {?a})"
    unfolding M(3) using a by auto
  have fresh: "({b} - {?a}) \<inter> set (hash_blocks hs) = {}" using b(2) own by auto
  have same: "hs\<lparr>buckets := x, count := count hs\<rparr> = hs\<lparr>buckets := x\<rparr>" for x by simp
  have cnt: "count hs = count hs + int (length ?ns) - int (length ?c)" by simp
  note U = hash_update [OF ok hash_index_bound [OF i] M(1) cnt M(2) sub fresh, unfolded same]
  have "hash_abs ?hs = (hash_abs hs)(k \<mapsto> v)"
    by (rule hash_abs_bucket_upd [OF ok i U(3)]) (simp add: M(4) j(3))
  moreover have "set (hash_blocks ?hs) = set (hash_blocks hs) - {?a} \<union> {b}"
  proof -
    have "?a \<notin> set (hash_blocks hs) - set (chain_blocks ?c)" using a by simp
    then show ?thesis unfolding U(2) M(3) using a B(3) by auto
  qed
  moreover have "?a \<in> set (hash_blocks hs)" using a B(3) by auto
  ultimately show ?thesis
    using run U(1) b by (intro exI [of _ ?hs] exI [of _ h'] exI [of _ ?a] exI [of _ b]) simp
qed

text \<open>Whether a key sits at the head of its bucket.\<close>

definition at_head :: "kvs_hash \<Rightarrow> cstring \<Rightarrow> bool" where
  "at_head hs k \<longleftrightarrow>
     (case hash_index k of
        None \<Rightarrow> False
      | Some i \<Rightarrow> (case bucket_list hs i of [] \<Rightarrow> False | n # ns \<Rightarrow> hkey n = k))"

lemma kvs_hash_del_miss:
  assumes ok: "hash_ok hs" and i: "hash_index k = Some i" and "hash_abs hs k = None"
  shows "kvs_hash_del hs (Some k) h = ret (- 1, hs, h)"
proof -
  note B = hash_ok_bucket [OF ok i]
  have "hash_find (bucket_list hs i) k = ret None"
    using B(1) assms(3) B(4) by (auto elim: hash_findE [where k = k])
  then show ?thesis
    by (cases "bucket_list hs i") (auto simp: hash_op_defs hash_bucket_eq [OF ok i] split: if_splits)
qed

lemma kvs_hash_del_run:
  assumes ok: "hash_ok hs" and i: "hash_index k = Some i"
    and j: "hash_find (bucket_list hs i) k = ret (Some j)" "j < length (bucket_list hs i)"
  shows "kvs_hash_del hs (Some k) h =
           ret (0, hs\<lparr>buckets := (buckets hs)(i \<mapsto> take j (bucket_list hs i) @ drop (Suc j) (bucket_list hs i)),
                      count := count hs - 1\<rparr>,
                let n = bucket_list hs i ! j
                in if at_head hs k then kvs_free (node_addr n) h
                   else kvs_free (node_addr n) (kvs_free (caddr (node_value n)) (kvs_free (caddr (node_key n)) h)))"
proof (cases "bucket_list hs i")
  case Nil
  with j show ?thesis by simp
next
  case (Cons n ns)
  have "is_str (node_key n)"
    using hash_ok_bucket(1) [OF ok i] Cons by (simp add: chain_ok_def)
  with j show ?thesis
    by (auto simp: hash_op_defs hash_bucket_eq [OF ok i] Cons at_head_def i Let_def split: if_splits)
qed

lemma kvs_hash_del_hit:
  assumes ok: "hash_ok hs" and i: "hash_index k = Some i" and some: "hash_abs hs k = Some w"
    and inv: "heap_inv h L" and own: "set (hash_blocks hs) \<subseteq> L"
  shows "\<exists>hs' h' n. kvs_hash_del hs (Some k) h = ret (0, hs', h') \<and> hash_ok hs' \<and>
           hash_abs hs' = (hash_abs hs)(k := None) \<and> count hs' = count hs - 1 \<and>
           distinct (node_blocks n) \<and> set (node_blocks n) \<subseteq> set (hash_blocks hs) \<and>
           set (hash_blocks hs') = set (hash_blocks hs) - set (node_blocks n) \<and>
           heap_inv h' (L - (if at_head hs k then {node_addr n} else set (node_blocks n)))"
proof -
  note B = hash_ok_bucket [OF ok i]
  let ?c = "bucket_list hs i"
  from B(1) obtain j where j: "j < length ?c" "hash_find ?c k = ret (Some j)" "hkey (?c ! j) = k"
    using some B(4) by (auto elim: hash_findE [where k = k])
  let ?n = "?c ! j" and ?ns = "take j ?c @ drop (Suc j) ?c"
  let ?hs = "hs\<lparr>buckets := (buckets hs)(i \<mapsto> ?ns), count := count hs - 1\<rparr>"
  define h' where "h' = (let n = ?n
                in if at_head hs k then kvs_free (node_addr n) h
                   else kvs_free (node_addr n) (kvs_free (caddr (node_value n)) (kvs_free (caddr (node_key n)) h)))"
  have run: "kvs_hash_del hs (Some k) h = ret (0, ?hs, h')"
    unfolding h'_def by (rule kvs_hash_del_run [OF ok i j(2,1)])
  have "?n \<in> set ?c" using j(1) by simp
  then have nb: "set (node_blocks ?n) \<subseteq> set (chain_blocks ?c)" and nd: "distinct (node_blocks ?n)"
    using B(2) unfolding chain_blocks_def by (auto simp: distinct_concat_iff)
  have nL: "set (node_blocks ?n) \<subseteq> L" using nb B(3) own by auto
  note R = chain_remove [OF B(1,2) j(1)]
  have cnt: "count hs - 1 = count hs + int (length ?ns) - int (length ?c)" using R(5) by simp
  have sub: "set (chain_blocks ?ns) \<subseteq> set (chain_blocks ?c) \<union> {}" using R(3) by simp
  note U = hash_update [OF ok hash_index_bound [OF i] R(1) cnt R(2) sub, simplified]
  have "hash_abs ?hs = (hash_abs hs)(k := None)"
    by (rule hash_abs_bucket_upd [OF ok i]) (use U(3) R(4) j(3) in \<open>auto simp: fun_eq_iff\<close>)
  moreover have "set (hash_blocks ?hs) = set (hash_blocks hs) - set (node_blocks ?n)"
    using U(2) R(3) nb B(3) by auto
  moreover have "heap_inv h' (L - (if at_head hs k then {node_addr ?n} else set (node_blocks ?n)))"
  proof (cases "at_head hs k")
    case True
    then show ?thesis
      using kvs_alloc.release_live [OF inv, of "node_addr ?n"] nL by (simp add: h'_def node_blocks_def)
  next
    case False
    let ?ps = "[caddr (node_key ?n), caddr (node_value ?n), node_addr ?n]"
    have "heap_inv (fold kvs_free ?ps h) (L - set ?ps)"
      by (rule kvs_alloc.release_list [OF inv]) (use nL nd in \<open>auto simp: node_blocks_def\<close>)
    moreover have "set ?ps = set (node_blocks ?n)" by (auto simp: node_blocks_def)
    ultimately show ?thesis using False by (simp add: h'_def Let_def)
  qed
  ultimately show ?thesis
    using run U(1) nd nb B(3)
    by (intro exI [of _ ?hs] exI [of _ h'] exI [of _ ?n]) auto
qed

section \<open>Creating and destroying the table\<close>

text \<open>Keys of plain ASCII text, up to 16 MB long, have a non-negative hash.\<close>

lemma hash_sum_ascii:
  assumes "\<forall>c\<in>set key. sint c \<ge> 0" and "0 \<le> s" and "s + 127 * int (length key) < 2 ^ 31"
  shows "\<exists>t. hash_sum s key = ret t \<and> 0 \<le> t"
  using assms
proof (induction key arbitrary: s)
  case Nil
  then show ?case by simp
next
  case (Cons c key)
  have "sint c \<le> 127" using sint_lt [of c] by simp
  then show ?case using Cons.prems Cons.IH [of "s + sint c"] by (simp add: Let_def)
qed

lemma hash_index_ascii:
  assumes "\<forall>c\<in>set key. sint c \<ge> 0" and "length key \<le> 16000000"
  shows "hash_index key \<noteq> None"
proof -
  obtain t where "hash_sum 0 key = ret t" "0 \<le> t"
    using hash_sum_ascii [OF assms(1), of 0] assms(2) by auto
  then show ?thesis by (auto simp: hash_index_def hash_def c_rem_def MAX_TABLE_SIZE_def sgn_if)
qed

lemma hash_free_buckets_ok:
  assumes "\<And>j. i \<le> j \<Longrightarrow> j < i + n \<Longrightarrow> buckets hs j \<noteq> None"
    and "heap_inv h L" and "set (concat (map (\<lambda>j. map node_addr (bucket_list hs j)) [i..<i + n])) \<subseteq> L"
    and "distinct (concat (map (\<lambda>j. map node_addr (bucket_list hs j)) [i..<i + n]))"
  shows "\<exists>hs' h'. hash_free_buckets i n hs h = ret (hs', h') \<and> hash_nodes hs' = hash_nodes hs \<and>
           (\<forall>j. buckets hs' j = (if i \<le> j \<and> j < i + n then Some [] else buckets hs j)) \<and>
           heap_inv h' (L - set (concat (map (\<lambda>j. map node_addr (bucket_list hs j)) [i..<i + n])))"
  using assms
proof (induction n arbitrary: i hs h L)
  case 0
  then show ?case by auto
next
  case (Suc n)
  obtain ns where ns: "buckets hs i = Some ns" using Suc.prems(1) [of i] by auto
  let ?A = "map node_addr ns"
  let ?R = "concat (map (\<lambda>j. map node_addr (bucket_list hs j)) [Suc i..<Suc i + n])"
  have e: "concat (map (\<lambda>j. map node_addr (bucket_list hs j)) [i..<i + Suc n]) = ?A @ ?R"
    using ns upt_conv_Cons [of i "i + Suc n"] by (simp add: bucket_list_def del: upt_Suc)
  note P = Suc.prems(3,4) [unfolded e]
  have fr: "hash_free_chain ms g = fold kvs_free (map node_addr ms) g" for ms g
    by (induction ms arbitrary: g) auto
  have hp: "heap_inv (hash_free_chain ns h) (L - set ?A)"
    unfolding fr by (rule kvs_alloc.release_list) (use Suc.prems(2) P in auto)
  let ?hs = "hs\<lparr>buckets := (buckets hs)(i \<mapsto> [])\<rparr>"
  have r: "concat (map (\<lambda>j. map node_addr (bucket_list ?hs j)) [Suc i..<Suc i + n]) = ?R"
    by (intro arg_cong [of _ _ concat] map_cong) (auto simp: bucket_list_def)
  have nn: "buckets ?hs j \<noteq> None" if "Suc i \<le> j" "j < Suc i + n" for j
    using Suc.prems(1) [of j] that by auto
  have sub: "set ?R \<subseteq> L - set ?A" "distinct ?R"
    using P unfolding set_append distinct_append by blast+
  obtain hs' h' where IH: "hash_free_buckets (Suc i) n ?hs (hash_free_chain ns h) = ret (hs', h')"
    "hash_nodes hs' = hash_nodes ?hs"
    "\<forall>j. buckets hs' j = (if Suc i \<le> j \<and> j < Suc i + n then Some [] else buckets ?hs j)"
    "heap_inv h' (L - set ?A - set ?R)"
    using Suc.IH [of "Suc i" ?hs "hash_free_chain ns h" "L - set ?A", unfolded r, OF nn hp sub]
    by blast
  then show ?case
    unfolding e using ns by (intro exI [of _ hs'] exI [of _ h']) (auto simp: Diff_eq Int_assoc simp del: upt_Suc)
qed

definition hash_node_addrs :: "kvs_hash \<Rightarrow> addr list" where
  "hash_node_addrs hs = concat (map (\<lambda>i. map node_addr (bucket_list hs i)) [0..<MAX_TABLE_SIZE])"

definition hash_string_addrs :: "kvs_hash \<Rightarrow> addr list" where
  "hash_string_addrs hs =
     concat (map (\<lambda>i. concat (map (\<lambda>n. [caddr (node_key n), caddr (node_value n)]) (bucket_list hs i)))
       [0..<MAX_TABLE_SIZE])"

lemma mset_hash_blocks:
  "mset (hash_blocks hs) = mset (hash_nodes hs # hash_node_addrs hs @ hash_string_addrs hs)"
proof -
  have c: "mset (chain_blocks ns) = mset (map node_addr ns) +
      mset (concat (map (\<lambda>n. [caddr (node_key n), caddr (node_value n)]) ns))" for ns
    by (induction ns) (simp_all add: node_blocks_def)
  have "mset (concat (map (\<lambda>i. chain_blocks (f i)) is)) =
      mset (concat (map (\<lambda>i. map node_addr (f i)) is)) +
      mset (concat (map (\<lambda>i. concat (map (\<lambda>n. [caddr (node_key n), caddr (node_value n)]) (f i))) is))"
    for f and "is" :: "nat list"
    by (induction "is") (simp_all add: c del: mset_map)
  then show ?thesis
    by (simp add: hash_blocks_def hash_node_addrs_def hash_string_addrs_def del: mset_map)
qed

lemma hash_blocks_parts:
  "set (hash_blocks hs) = set (hash_nodes hs # hash_node_addrs hs @ hash_string_addrs hs)"
  "hash_ok hs \<Longrightarrow> distinct (hash_nodes hs # hash_node_addrs hs @ hash_string_addrs hs)"
  using mset_eq_setD [OF mset_hash_blocks [of hs]] mset_eq_imp_distinct_iff [OF mset_hash_blocks [of hs]]
  by (simp_all add: hash_ok_def)

lemma kvs_hash_destory_run:
  assumes ok: "hash_ok hs" and inv: "heap_inv h L" and own: "set (hash_blocks hs) \<subseteq> L"
  shows "\<exists>hs' h'. kvs_hash_destory hs h = ret (hs', h') \<and>
           heap_inv h' (L - set (hash_nodes hs # hash_node_addrs hs))"
proof -
  note A = hash_blocks_parts(1) [of hs] hash_blocks_parts(2) [OF ok]
  have nn: "buckets hs j \<noteq> None" if "0 \<le> j" "j < 0 + max_slots hs" for j
    using ok that by (simp add: hash_ok_def)
  have eq: "concat (map (\<lambda>j. map node_addr (bucket_list hs j)) [0..<0 + max_slots hs]) = hash_node_addrs hs"
    using ok by (simp add: hash_node_addrs_def hash_ok_def)
  have sub: "set (hash_node_addrs hs) \<subseteq> L" "distinct (hash_node_addrs hs)"
    using own A by auto
  obtain hs' h' where 1: "hash_free_buckets 0 (max_slots hs) hs h = ret (hs', h')"
    "hash_nodes hs' = hash_nodes hs" "heap_inv h' (L - set (hash_node_addrs hs))"
    using hash_free_buckets_ok [of 0 "max_slots hs" hs h L, unfolded eq, OF nn inv sub] by blast
  then have "kvs_hash_destory hs h = ret (hs', kvs_free (hash_nodes hs) h')"
    by (simp add: kvs_hash_destory_def)
  moreover have "heap_inv (kvs_free (hash_nodes hs) h') (L - set (hash_node_addrs hs) - {hash_nodes hs})"
    by (rule kvs_alloc.release_live [OF 1(3)]) (use A own in auto)
  moreover have "L - set (hash_node_addrs hs) - {hash_nodes hs} = L - set (hash_nodes hs # hash_node_addrs hs)"
    by auto
  ultimately show ?thesis by auto
qed

section \<open>Properties\<close>

text \<open>A table with two pairs in one bucket, \<open>ba\<close> to \<open>2\<close> at the head and \<open>ab\<close> to \<open>1\<close>.\<close>

definition demo_hash :: kvs_hash where
  "demo_hash =
     \<lparr>hash_nodes = 8,
      buckets = (\<lambda>_. Some [])(195 \<mapsto>
        [\<lparr>node_addr = 1000, node_key = CStr 1100 [98, 97], node_value = CStr 1200 [50]\<rparr>,
         \<lparr>node_addr = 1300, node_key = CStr 1400 [97, 98], node_value = CStr 1500 [49]\<rparr>]),
      max_slots = 1024, count = 2\<rparr>"

lemma demo_hash_index [simp]:
  "hash_index [98, 97] = Some 195" "hash_index [97, 98] = Some 195" "hash_index [99] = Some 99"
  by (simp_all add: hash_index_def hash_def c_rem_def MAX_TABLE_SIZE_def)

lemma demo_hash_bucket [simp]:
  "bucket_list demo_hash i = (if i = 195 then
        [\<lparr>node_addr = 1000, node_key = CStr 1100 [98, 97], node_value = CStr 1200 [50]\<rparr>,
         \<lparr>node_addr = 1300, node_key = CStr 1400 [97, 98], node_value = CStr 1500 [49]\<rparr>] else [])"
  by (simp add: demo_hash_def bucket_list_def)

lemma demo_hash_blocks [simp]: "hash_blocks demo_hash = [8, 1000, 1100, 1200, 1300, 1400, 1500]"
proof -
  obtain pre post where 1: "hash_blocks demo_hash = pre @ chain_blocks (bucket_list demo_hash 195) @ post"
    and 2: "\<And>ns c. hash_blocks (demo_hash\<lparr>buckets := (buckets demo_hash)(195 \<mapsto> ns), count := c\<rparr>) =
             pre @ chain_blocks ns @ post"
    using hash_blocks_split [of 195 demo_hash] by (auto simp: MAX_TABLE_SIZE_def)
  have "hash_blocks (demo_hash\<lparr>buckets := (buckets demo_hash)(195 \<mapsto> []), count := 0\<rparr>) = [8]"
    unfolding hash_blocks_def by (simp add: demo_hash_def bucket_list_def)
  with 2 [where ns = "[]" and c = 0] have "pre @ post = [8]" by simp
  then have "pre = [8] \<and> post = [] \<or> pre = [] \<and> post = [8]"
    by (auto simp: append_eq_Cons_conv)
  moreover have "pre \<noteq> []"
  proof
    assume "pre = []"
    with 2 [where ns = "[\<lparr>node_addr = 9, node_key = CNull, node_value = CNull\<rparr>]" and c = 0] show False
      by (simp add: hash_blocks_def node_blocks_def demo_hash_def)
  qed
  ultimately show ?thesis using 1 by (simp add: node_blocks_def)
qed

lemma demo_hash_ok [simp]: "hash_ok demo_hash"
proof -
  have "(\<Sum>i<MAX_TABLE_SIZE. int (length (bucket_list demo_hash i))) =
        (\<Sum>i<MAX_TABLE_SIZE. if i = 195 then 2 else 0)"
    by (rule sum.cong) auto
  also have "\<dots> = 2" by (simp add: MAX_TABLE_SIZE_def)
  finally have c: "count demo_hash = (\<Sum>i<MAX_TABLE_SIZE. int (length (bucket_list demo_hash i)))"
    by (simp add: demo_hash_def)
  show ?thesis
    unfolding hash_ok_def c [symmetric]
    by (simp add: chain_ok_def) (simp add: demo_hash_def MAX_TABLE_SIZE_def)
qed

lemma demo_hash_abs [simp]:
  "hash_abs demo_hash [97, 98] = Some [49]" "hash_abs demo_hash [98, 97] = Some [50]"
  "hash_abs demo_hash [99] = None"
  by (simp_all add: hash_abs_def)

lemma demo_hash_heap [simp]: "heap_inv demo_heap {8, 1000, 1100, 1200, 1300, 1400, 1500}"
  by (rule demo_heap_inv) auto

text \<open>
  Property C16. On a well-formed table, for a key whose hash is not negative and with memory
  available, \<open>kvs_hash_set\<close> returns 1 and changes nothing when the key is present, and
  otherwise returns 0, adds exactly the given pair and counts it.
\<close>

theorem kvs_hash_set_correct:
  assumes "hash_ok hs" and "hash_index k = Some i" and "heap_inv h L"
    and "set (hash_blocks hs) \<subseteq> L" and "mem_budget h 3"
  shows "\<exists>hs' h' L'.
           kvs_hash_set hs (Some k) (Some v) h =
             ret (if hash_abs hs k = None then 0 else 1, hs', h') \<and>
           hash_ok hs' \<and>
           hash_abs hs' = (if hash_abs hs k = None then (hash_abs hs)(k \<mapsto> v) else hash_abs hs) \<and>
           kvs_hash_count hs' = kvs_hash_count hs + (if hash_abs hs k = None then 1 else 0) \<and>
           heap_inv h' L' \<and> heap_frame L (set (hash_blocks hs)) L' (set (hash_blocks hs'))"
proof (cases "hash_abs hs k")
  case (Some w)
  then show ?thesis
    using kvs_hash_set_hit [OF assms(1,2) Some, of v h] assms heap_frame_refl [OF assms(4)] by auto
next
  case None
  obtain hs' h' A where 1: "kvs_hash_set hs (Some k) (Some v) h = ret (0, hs', h')" "hash_ok hs'"
    "hash_abs hs' = (hash_abs hs)(k \<mapsto> v)" "count hs' = count hs + 1" "A \<inter> L = {}"
    "heap_inv h' (L \<union> A)" "set (hash_blocks hs') = set (hash_blocks hs) \<union> A"
    using kvs_hash_set_miss [OF assms(1,2) None assms(3,4), of 0 v] assms(5) by auto
  have "heap_frame L (set (hash_blocks hs)) (L \<union> A) (set (hash_blocks hs'))"
    unfolding 1(7) by (rule heap_frame_grow [OF assms(4) 1(5)])
  with 1 None show ?thesis
    by (intro exI [of _ hs'] exI [of _ h'] exI [of _ "L \<union> A"]) (simp add: kvs_hash_count_def)
qed

theorem kvs_hash_set_correct_witness:
  "\<exists>hs' h'. kvs_hash_set demo_hash (Some [99]) (Some [51]) demo_heap = ret (0, hs', h') \<and>
     hash_abs hs' [99] = Some [51] \<and> hash_abs hs' [97, 98] = Some [49]"
  using kvs_hash_set_correct [of demo_hash "[99]" 99 demo_heap "set (hash_blocks demo_hash)" "[51]"]
  by auto

text \<open>
  On a well-formed table \<open>kvs_hash_get\<close> returns the stored value of a key, or null,
  and \<open>kvs_hash_exist\<close> returns 0 or 1, for every key whose hash is not negative.
\<close>

theorem kvs_hash_reads_correct:
  assumes "hash_ok hs" and "hash_index k = Some i"
  shows "(case hash_abs hs k of
            Some v \<Rightarrow> \<exists>a. kvs_hash_get hs (Some k) = ret (CStr a v)
          | None \<Rightarrow> kvs_hash_get hs (Some k) = ret CNull) \<and>
         kvs_hash_exist hs (Some k) = ret (if hash_abs hs k = None then 1 else 0)"
  using kvs_hash_get_eq [OF assms] kvs_hash_exist_eq [OF assms] by simp

theorem kvs_hash_reads_correct_witness:
  "\<exists>a. kvs_hash_get demo_hash (Some [97, 98]) = ret (CStr a [49])"
  using kvs_hash_reads_correct [of demo_hash "[97, 98]" 195] by simp

text \<open>
  On a well-formed table with memory for the new value, \<open>kvs_hash_mod\<close> replaces
  the value of a present key, returns 0 and gives the old block back; for an absent key it
  returns 1 and changes nothing.
\<close>

theorem kvs_hash_mod_correct:
  assumes "hash_ok hs" and "hash_index k = Some i" and "heap_inv h L"
    and "set (hash_blocks hs) \<subseteq> L" and "mem_budget h 1"
  shows "\<exists>r hs' h' L'.
           kvs_hash_mod hs (Some k) (Some v) h = ret (r, hs', h') \<and> hash_ok hs' \<and>
           (if hash_abs hs k = None then r = 1 \<and> hs' = hs
            else r = 0 \<and> hash_abs hs' = (hash_abs hs)(k \<mapsto> v)) \<and>
           kvs_hash_count hs' = kvs_hash_count hs \<and>
           heap_inv h' L' \<and> heap_frame L (set (hash_blocks hs)) L' (set (hash_blocks hs'))"
proof (cases "hash_abs hs k")
  case None
  then show ?thesis
    using kvs_hash_mod_miss [OF assms(1,2) None, of "Some v" h] assms heap_frame_refl [OF assms(4)]
    by auto
next
  case (Some w)
  obtain hs' h' a b where 1: "kvs_hash_mod hs (Some k) (Some v) h = ret (0, hs', h')" "hash_ok hs'"
    "hash_abs hs' = (hash_abs hs)(k \<mapsto> v)" "count hs' = count hs" "a \<in> set (hash_blocks hs)"
    "b \<notin> L - {a}" "heap_inv h' (L - {a} \<union> {b})"
    "set (hash_blocks hs') = set (hash_blocks hs) - {a} \<union> {b}"
    using kvs_hash_mod_hit [OF assms(1,2) Some assms(3,4,5), of v] by blast
  then have "heap_frame L (set (hash_blocks hs)) (L - {a} \<union> {b}) (set (hash_blocks hs'))"
    using assms(4) by (auto simp: heap_frame_def)
  with 1 Some show ?thesis
    by (intro exI [of _ 0] exI [of _ hs'] exI [of _ h'] exI [of _ "L - {a} \<union> {b}"])
      (simp add: kvs_hash_count_def)
qed

theorem kvs_hash_mod_correct_witness:
  "\<exists>hs' h'. kvs_hash_mod demo_hash (Some [97, 98]) (Some [51]) demo_heap = ret (0, hs', h') \<and>
     hash_abs hs' [97, 98] = Some [51] \<and> hash_abs hs' [98, 97] = Some [50]"
  using kvs_hash_mod_correct [of demo_hash "[97, 98]" 195 demo_heap "set (hash_blocks demo_hash)" "[51]"]
  by auto

text \<open>
  Property C17. On a well-formed table \<open>kvs_hash_del\<close> removes exactly the given key, counts it down
  and returns 0; for an absent key it returns \<open>-1\<close> and changes nothing. All three blocks
  of the pair are given back, unless the node was at the head of its bucket: then the
  blocks of its key and value stay allocated though nothing refers to them any more.
\<close>

theorem kvs_hash_del_correct:
  assumes "hash_ok hs" and "hash_index k = Some i" and "heap_inv h L"
    and "set (hash_blocks hs) \<subseteq> L"
  shows "\<exists>hs' h' B L'.
           kvs_hash_del hs (Some k) h = ret (if hash_abs hs k = None then - 1 else 0, hs', h') \<and>
           hash_ok hs' \<and> hash_abs hs' = (hash_abs hs)(k := None) \<and>
           kvs_hash_count hs' = kvs_hash_count hs - (if hash_abs hs k = None then 0 else 1) \<and>
           B \<subseteq> set (hash_blocks hs) \<and> set (hash_blocks hs') = set (hash_blocks hs) - B \<and>
           card B = (if hash_abs hs k = None then 0 else 3) \<and>
           heap_inv h' L' \<and> L' \<subseteq> L \<and> L - B \<subseteq> L' \<and>
           card (L' \<inter> B) = (if hash_abs hs k \<noteq> None \<and> at_head hs k then 2 else 0)"
proof (cases "hash_abs hs k")
  case None
  then have "hash_abs hs = (hash_abs hs)(k := None)" by auto
  with None show ?thesis
    using kvs_hash_del_miss [OF assms(1,2) None, of h] assms
    by (intro exI [of _ hs] exI [of _ h] exI [of _ "{}"] exI [of _ L]) simp
next
  case (Some w)
  obtain hs' h' n where 1: "kvs_hash_del hs (Some k) h = ret (0, hs', h')" "hash_ok hs'"
    "hash_abs hs' = (hash_abs hs)(k := None)" "count hs' = count hs - 1" "distinct (node_blocks n)"
    "set (node_blocks n) \<subseteq> set (hash_blocks hs)"
    "set (hash_blocks hs') = set (hash_blocks hs) - set (node_blocks n)"
    "heap_inv h' (L - (if at_head hs k then {node_addr n} else set (node_blocks n)))"
    using kvs_hash_del_hit [OF assms(1,2) Some assms(3,4)] by blast
  let ?B = "set (node_blocks n)"
  let ?L = "L - (if at_head hs k then {node_addr n} else ?B)"
  have "card ?B = 3" using distinct_card [OF 1(5)] by (simp add: node_blocks_def)
  moreover have "card (?L \<inter> ?B) = (if at_head hs k then 2 else 0)"
  proof (cases "at_head hs k")
    case True
    have "?L \<inter> ?B = {caddr (node_key n), caddr (node_value n)}"
      using True 1(5,6) assms(4) by (auto simp: node_blocks_def)
    with True 1(5) show ?thesis by (simp add: node_blocks_def)
  next
    case False
    then have "?L \<inter> ?B = {}" by auto
    with False show ?thesis by simp
  qed
  moreover have "L - ?B \<subseteq> ?L" by (auto simp: node_blocks_def)
  ultimately show ?thesis
    using 1 Some by (intro exI [of _ hs'] exI [of _ h'] exI [of _ ?B] exI [of _ ?L])
      (simp add: kvs_hash_count_def)
qed

theorem kvs_hash_del_correct_witness:
  "\<exists>hs' h'. kvs_hash_del demo_hash (Some [98, 97]) demo_heap = ret (0, hs', h') \<and>
     hash_abs hs' [98, 97] = None \<and> hash_abs hs' [97, 98] = Some [49]"
  using kvs_hash_del_correct [of demo_hash "[98, 97]" 195 demo_heap "set (hash_blocks demo_hash)"]
  by auto

text \<open>
  A key that starts with a byte above 127 and has a negative character sum that is
  no multiple of 1024 indexes the table before its start: every operation on it is undefined.
\<close>

theorem kvs_hash_negative_index:
  assumes "hash_sum 0 k = ret t" and "t < 0" and "t mod 1024 \<noteq> 0"
  shows "kvs_hash_set hs (Some k) (Some v) h = undef \<and> kvs_hash_get hs (Some k) = undef \<and>
         kvs_hash_mod hs (Some k) (Some v) h = undef \<and> kvs_hash_del hs (Some k) h = undef \<and>
         kvs_hash_exist hs (Some k) = undef"
proof -
  have "- t mod 1024 \<noteq> 0" using assms(3) by presburger
  moreover have "0 \<le> - t mod 1024" by simp
  ultimately have "c_rem t 1024 < 0" using assms(2) by (simp add: c_rem_def)
  then have "hash_bucket hs k = undef"
    using assms(1) by (simp add: hash_bucket_def hash_def MAX_TABLE_SIZE_def)
  then show ?thesis by (simp add: hash_op_defs)
qed

theorem kvs_hash_negative_index_witness:
  "kvs_hash_get demo_hash (Some [0xE4, 0xBD, 0xA0]) = undef"
proof -
  have "hash_sum 0 [0xE4, 0xBD, 0xA0] = ret (- 191)" by simp
  then show ?thesis using kvs_hash_negative_index [of "[0xE4, 0xBD, 0xA0]" "- 191" demo_hash] by simp
qed

text \<open>
  \<open>kvs_hash_create\<close> does not clear the buckets: on memory that is cleared the new
  table is well-formed and empty, but where a bucket of the fresh block holds an
  indeterminate pointer, the first operation on a key of this bucket follows it.
\<close>

theorem kvs_hash_create_correct:
  assumes "heap_inv h L" and "kvs_hash_create fresh hs h = (0, hs', h')"
  shows "((\<forall>i<1024. fresh i = Some []) \<longrightarrow>
            hash_ok hs' \<and> hash_abs hs' = Map.empty \<and> heap_inv h' (insert (hash_nodes hs') L)) \<and>
         (\<forall>k i. hash_index k = Some i \<longrightarrow> fresh i = None \<longrightarrow>
            kvs_hash_get hs' (Some k) = undef \<and> (\<forall>v h. kvs_hash_set hs' (Some k) (Some v) h = undef))"
proof -
  obtain p where p: "kvs_malloc sizeof_hash_table h = (p, h')" "p \<noteq> 0"
    "hs' = hs\<lparr>hash_nodes := p, buckets := fresh, max_slots := MAX_TABLE_SIZE, count := 0\<rparr>"
    using assms(2) by (auto simp: kvs_hash_create_def split: prod.splits if_splits)
  have "heap_inv h' (insert (hash_nodes hs') L)"
    using kvs_alloc.alloc_Some [OF assms(1) p(1,2)] p(3) by auto
  moreover have "hash_ok hs' \<and> hash_abs hs' = Map.empty" if "\<forall>i<1024. fresh i = Some []"
  proof -
    have b: "bucket_list hs' i = []" if "i < MAX_TABLE_SIZE" for i
      using that p(3) \<open>\<forall>i<1024. fresh i = Some []\<close> by (simp add: bucket_list_def MAX_TABLE_SIZE_def)
    then have "concat (map (\<lambda>i. chain_blocks (bucket_list hs' i)) [0..<MAX_TABLE_SIZE]) = []"
      by simp
    then have "hash_blocks hs' = [hash_nodes hs']" by (simp only: hash_blocks_def)
    moreover have "hash_abs hs' k = None" for k
      using hash_index_bound [of k] b by (auto simp: hash_abs_def split: option.split)
    ultimately show ?thesis
      using that p(3) b by (auto simp: hash_ok_def chain_ok_def MAX_TABLE_SIZE_def)
  qed
  moreover have "hash_bucket hs' k = undef" if "hash_index k = Some i" "fresh i = None" for k i
    using that p(3) by (auto simp: hash_bucket_def hash_index_def split: sum.splits if_splits)
  ultimately show ?thesis by (auto simp: hash_op_defs)
qed

theorem kvs_hash_create_correct_witness:
  "\<exists>hs' h'. kvs_hash_create (\<lambda>_. Some []) demo_hash demo_heap = (0, hs', h') \<and> hash_abs hs' = Map.empty"
proof -
  obtain hs' h' where "kvs_hash_create (\<lambda>_. Some []) demo_hash demo_heap = (0, hs', h')"
    by (simp add: kvs_hash_create_def kvs_malloc_def malloc_def demo_heap_def sizeof_hash_table_def
        POOL_CHUNK_SIZE_def)
  then show ?thesis
    using kvs_hash_create_correct [of demo_heap "{8}"] demo_heap_inv [of "{8}"] by auto
qed

text \<open>
  \<open>kvs_hash_destory\<close> returns for every well-formed table and gives back the table and
  all its nodes, each once, but the keys and values the nodes own stay allocated.
\<close>

theorem kvs_hash_destory_leaks_strings:
  assumes "hash_ok hs" and "heap_inv h L" and "set (hash_blocks hs) \<subseteq> L"
  shows "\<exists>hs' h' L'. kvs_hash_destory hs h = ret (hs', h') \<and> heap_inv h' L' \<and>
           L - L' = set (hash_nodes hs # hash_node_addrs hs) \<and>
           set (hash_blocks hs) \<inter> L' = set (hash_string_addrs hs)"
proof -
  obtain hs' h' where 1: "kvs_hash_destory hs h = ret (hs', h')"
    "heap_inv h' (L - set (hash_nodes hs # hash_node_addrs hs))"
    using kvs_hash_destory_run [OF assms] by blast
  then show ?thesis
    using assms(3) hash_blocks_parts(1) [of hs] hash_blocks_parts(2) [OF assms(1)]
    by (intro exI [of _ hs'] exI [of _ h'] exI [of _ "L - set (hash_nodes hs # hash_node_addrs hs)"])
      auto
qed

theorem kvs_hash_destory_leaks_strings_witness:
  "\<exists>hs' h' L'. kvs_hash_destory demo_hash demo_heap = ret (hs', h') \<and> heap_inv h' L' \<and>
     set (hash_blocks demo_hash) \<inter> L' = set (hash_string_addrs demo_hash)"
  using kvs_hash_destory_leaks_strings [of demo_hash demo_heap "set (hash_blocks demo_hash)"] by auto

end
