(* ===== verification/Rbtree.thy ===== *)
theory Rbtree
  imports Mempool "HOL-Library.Monad_Syntax"
begin

text \<open>
  The red-black tree of \<^verbatim>\<open>src/kvs_rbtree.c\<close>, lines 11--326, at the level of its pointers:
  nodes live in a store that maps addresses to the fields of the node, every \<open>->\<close> of the
  source is a read or a write of this store, and the sentinel \<open>nil\<close> is a node of its own.

  The result is an \<open>option\<close>: \<open>None\<close> means that a pointer that points to no node was
  followed, or that a loop does not end. A theorem that a function returns \<open>Some\<close> result
  therefore says that it does neither.
\<close>

section \<open>State\<close>

datatype rb_color = RED | BLACK

record rbtree_node =
  rcolor :: rb_color
  rright :: addr
  rleft :: addr
  rparent :: addr
  rkey :: cptr
  rvalue :: cptr

text \<open>\<open>root\<close> and \<open>nil\<close> are the fields of the C structure, \<open>nodes\<close> is the store.\<close>

record rbtree =
  root :: addr
  nil :: addr
  nodes :: "addr \<Rightarrow> rbtree_node option"

text \<open>Reading a field of \<open>*p\<close>, and writing to \<open>*p\<close>.\<close>

definition rd :: "(rbtree_node \<Rightarrow> 'a) \<Rightarrow> addr \<Rightarrow> rbtree \<Rightarrow> 'a option" where
  "rd f p T = map_option f (nodes T p)"

definition wr :: "(rbtree_node \<Rightarrow> rbtree_node) \<Rightarrow> addr \<Rightarrow> rbtree \<Rightarrow> rbtree option" where
  "wr f p T = map_option (\<lambda>n. T\<lparr>nodes := (nodes T)(p \<mapsto> f n)\<rparr>) (nodes T p)"

abbreviation set_color :: "rb_color \<Rightarrow> rbtree_node \<Rightarrow> rbtree_node" where
  "set_color c n \<equiv> n\<lparr>rcolor := c\<rparr>"

abbreviation set_right :: "addr \<Rightarrow> rbtree_node \<Rightarrow> rbtree_node" where
  "set_right p n \<equiv> n\<lparr>rright := p\<rparr>"

abbreviation set_left :: "addr \<Rightarrow> rbtree_node \<Rightarrow> rbtree_node" where
  "set_left p n \<equiv> n\<lparr>rleft := p\<rparr>"

abbreviation set_parent :: "addr \<Rightarrow> rbtree_node \<Rightarrow> rbtree_node" where
  "set_parent p n \<equiv> n\<lparr>rparent := p\<rparr>"

text \<open>\<open>strcmp\<close> of a string and the key of a node.\<close>

definition key_cmp :: "cstring \<Rightarrow> addr \<Rightarrow> rbtree \<Rightarrow> int option" where
  "key_cmp s p T =
     do { k \<leftarrow> rd rkey p T;
          case cread k of Inr t \<Rightarrow> Some (strcmp s t) | Inl e \<Rightarrow> None }"

section \<open>Walking the tree\<close>

partial_function (option) rbtree_mini :: "rbtree \<Rightarrow> addr \<Rightarrow> addr option" where
  "rbtree_mini T x =
     do { l \<leftarrow> rd rleft x T;
          if l \<noteq> nil T then rbtree_mini T l else Some x }"

partial_function (option) rbtree_maxi :: "rbtree \<Rightarrow> addr \<Rightarrow> addr option" where
  "rbtree_maxi T x =
     do { r \<leftarrow> rd rright x T;
          if r \<noteq> nil T then rbtree_maxi T r else Some x }"

text \<open>The loop of \<open>rbtree_successor\<close> that climbs while coming from the right.\<close>

partial_function (option) successor_climb :: "rbtree \<Rightarrow> addr \<Rightarrow> addr \<Rightarrow> addr option" where
  "successor_climb T x y =
     (if y \<noteq> nil T
      then do { r \<leftarrow> rd rright y T;
                if x = r then do { p \<leftarrow> rd rparent y T; successor_climb T y p } else Some y }
      else Some y)"

definition rbtree_successor :: "rbtree \<Rightarrow> addr \<Rightarrow> addr option" where
  "rbtree_successor T x =
     do { y \<leftarrow> rd rparent x T;
          r \<leftarrow> rd rright x T;
          if r \<noteq> nil T then rbtree_mini T r else successor_climb T x y }"

partial_function (option) search_from :: "rbtree \<Rightarrow> addr \<Rightarrow> cstring \<Rightarrow> addr option" where
  "search_from T node key =
     (if node \<noteq> nil T
      then do { c \<leftarrow> key_cmp key node T;
                if c < 0 then do { l \<leftarrow> rd rleft node T; search_from T l key }
                else if c > 0 then do { r \<leftarrow> rd rright node T; search_from T r key }
                else Some node }
      else Some (nil T))"

definition rbtree_search :: "rbtree \<Rightarrow> cstring \<Rightarrow> addr option" where
  "rbtree_search T key = search_from T (root T) key"

section \<open>Rotations\<close>

definition rbtree_left_rotate :: "rbtree \<Rightarrow> addr \<Rightarrow> rbtree option" where
  "rbtree_left_rotate T x =
     do { y \<leftarrow> rd rright x T;
          yl \<leftarrow> rd rleft y T;
          T1 \<leftarrow> wr (set_right yl) x T;
          T2 \<leftarrow> (if yl \<noteq> nil T1 then wr (set_parent x) yl T1 else Some T1);
          xp \<leftarrow> rd rparent x T2;
          T3 \<leftarrow> wr (set_parent xp) y T2;
          T4 \<leftarrow> (if xp = nil T3 then Some (T3\<lparr>root := y\<rparr>)
                 else do { pl \<leftarrow> rd rleft xp T3;
                           if x = pl then wr (set_left y) xp T3 else wr (set_right y) xp T3 });
          T5 \<leftarrow> wr (set_left x) y T4;
          wr (set_parent y) x T5 }"

definition rbtree_right_rotate :: "rbtree \<Rightarrow> addr \<Rightarrow> rbtree option" where
  "rbtree_right_rotate T y =
     do { x \<leftarrow> rd rleft y T;
          xr \<leftarrow> rd rright x T;
          T1 \<leftarrow> wr (set_left xr) y T;
          T2 \<leftarrow> (if xr \<noteq> nil T1 then wr (set_parent y) xr T1 else Some T1);
          yp \<leftarrow> rd rparent y T2;
          T3 \<leftarrow> wr (set_parent yp) x T2;
          T4 \<leftarrow> (if yp = nil T3 then Some (T3\<lparr>root := x\<rparr>)
                 else do { pr \<leftarrow> rd rright yp T3;
                           if y = pr then wr (set_right x) yp T3 else wr (set_left x) yp T3 });
          T5 \<leftarrow> wr (set_right y) x T4;
          wr (set_parent x) y T5 }"

section \<open>Insertion\<close>

text \<open>
  One iteration of the loop of \<open>rbtree_insert_fixup\<close>, below a red parent: the new tree
  and the new \<open>z\<close>.
\<close>

definition insert_fixup_step :: "rbtree \<Rightarrow> addr \<Rightarrow> (rbtree \<times> addr) option" where
  "insert_fixup_step T z =
     do { p \<leftarrow> rd rparent z T;
          g \<leftarrow> rd rparent p T;
          gl \<leftarrow> rd rleft g T;
          if p = gl
          then do {
            y \<leftarrow> rd rright g T;
            yc \<leftarrow> rd rcolor y T;
            if yc = RED
            then do { T1 \<leftarrow> wr (set_color BLACK) p T;
                      T2 \<leftarrow> wr (set_color BLACK) y T1;
                      T3 \<leftarrow> wr (set_color RED) g T2;
                      Some (T3, g) }
            else do {
              pr \<leftarrow> rd rright p T;
              (T1, z1) \<leftarrow> (if z = pr then do { T' \<leftarrow> rbtree_left_rotate T p; Some (T', p) }
                           else Some (T, z));
              p1 \<leftarrow> rd rparent z1 T1;
              T2 \<leftarrow> wr (set_color BLACK) p1 T1;
              g1 \<leftarrow> rd rparent p1 T2;
              T3 \<leftarrow> wr (set_color RED) g1 T2;
              T4 \<leftarrow> rbtree_right_rotate T3 g1;
              Some (T4, z1) } }
          else do {
            y \<leftarrow> rd rleft g T;
            yc \<leftarrow> rd rcolor y T;
            if yc = RED
            then do { T1 \<leftarrow> wr (set_color BLACK) p T;
                      T2 \<leftarrow> wr (set_color BLACK) y T1;
                      T3 \<leftarrow> wr (set_color RED) g T2;
                      Some (T3, g) }
            else do {
              pl \<leftarrow> rd rleft p T;
              (T1, z1) \<leftarrow> (if z = pl then do { T' \<leftarrow> rbtree_right_rotate T p; Some (T', p) }
                           else Some (T, z));
              p1 \<leftarrow> rd rparent z1 T1;
              T2 \<leftarrow> wr (set_color BLACK) p1 T1;
              g1 \<leftarrow> rd rparent p1 T2;
              T3 \<leftarrow> wr (set_color RED) g1 T2;
              T4 \<leftarrow> rbtree_left_rotate T3 g1;
              Some (T4, z1) } } }"

partial_function (option) insert_fixup_loop :: "rbtree \<Rightarrow> addr \<Rightarrow> rbtree option" where
  "insert_fixup_loop T z =
     do { p \<leftarrow> rd rparent z T;
          pc \<leftarrow> rd rcolor p T;
          if pc = RED
          then do { Tz \<leftarrow> insert_fixup_step T z; insert_fixup_loop (fst Tz) (snd Tz) }
          else Some T }"

definition rbtree_insert_fixup :: "rbtree \<Rightarrow> addr \<Rightarrow> rbtree option" where
  "rbtree_insert_fixup T z =
     do { T1 \<leftarrow> insert_fixup_loop T z;
          wr (set_color BLACK) (root T1) T1 }"

text \<open>
  The loop of \<open>rbtree_insert\<close> that looks for the place of the new key: the address of
  the parent to be, or \<open>None\<close> in the inner option when the key is found.
\<close>

partial_function (option) insert_descend ::
  "rbtree \<Rightarrow> cstring \<Rightarrow> addr \<Rightarrow> addr \<Rightarrow> addr option option" where
  "insert_descend T s y x =
     (if x \<noteq> nil T
      then do { c \<leftarrow> key_cmp s x T;
                if c < 0 then do { l \<leftarrow> rd rleft x T; insert_descend T s x l }
                else if c > 0 then do { r \<leftarrow> rd rright x T; insert_descend T s x r }
                else Some None }
      else Some (Some y))"

definition rbtree_insert :: "rbtree \<Rightarrow> addr \<Rightarrow> rbtree option" where
  "rbtree_insert T z =
     do { k \<leftarrow> rd rkey z T;
          s \<leftarrow> (case cread k of Inr s \<Rightarrow> Some s | Inl e \<Rightarrow> None);
          found \<leftarrow> insert_descend T s (nil T) (root T);
          case found of
            None \<Rightarrow> Some T
          | Some y \<Rightarrow> do {
              T1 \<leftarrow> wr (set_parent y) z T;
              T2 \<leftarrow> (if y = nil T1 then Some (T1\<lparr>root := z\<rparr>)
                     else do { c \<leftarrow> key_cmp s y T1;
                               if c < 0 then wr (set_left z) y T1 else wr (set_right z) y T1 });
              T3 \<leftarrow> wr (set_left (nil T2)) z T2;
              T4 \<leftarrow> wr (set_right (nil T3)) z T3;
              T5 \<leftarrow> wr (set_color RED) z T4;
              rbtree_insert_fixup T5 z } }"

section \<open>Deletion\<close>

text \<open>
  One iteration of the loop of \<open>rbtree_delete_fixup\<close> returns the new tree and the new
  \<open>x\<close>. It has three parts, each of which exists for \<open>x\<close> as a left and as a right child.
\<close>

text \<open>\<open>x\<close> is a left child. The sibling, after a red one was rotated away.\<close>

definition red_sibling_left :: "rbtree \<Rightarrow> addr \<Rightarrow> (rbtree \<times> addr) option" where
  "red_sibling_left T x =
     do { p \<leftarrow> rd rparent x T;
          w \<leftarrow> rd rright p T;
          wc \<leftarrow> rd rcolor w T;
          if wc = RED
          then do { T1 \<leftarrow> wr (set_color BLACK) w T;
                    T2 \<leftarrow> wr (set_color RED) p T1;
                    T3 \<leftarrow> rbtree_left_rotate T2 p;
                    p' \<leftarrow> rd rparent x T3;
                    w' \<leftarrow> rd rright p' T3;
                    Some (T3, w') }
          else Some (T, w) }"

text \<open>The sibling, after a red inner nephew was rotated outwards.\<close>

definition inner_nephew_left :: "rbtree \<Rightarrow> addr \<Rightarrow> addr \<Rightarrow> (rbtree \<times> addr) option" where
  "inner_nephew_left T x w =
     do { f \<leftarrow> rd rright w T;
          fc \<leftarrow> rd rcolor f T;
          if fc = BLACK
          then do { n \<leftarrow> rd rleft w T;
                    T1 \<leftarrow> wr (set_color BLACK) n T;
                    T2 \<leftarrow> wr (set_color RED) w T1;
                    T3 \<leftarrow> rbtree_right_rotate T2 w;
                    p' \<leftarrow> rd rparent x T3;
                    w' \<leftarrow> rd rright p' T3;
                    Some (T3, w') }
          else Some (T, w) }"

text \<open>The last rotation; the loop ends, since \<open>x\<close> becomes the root.\<close>

definition last_rotation_left :: "rbtree \<Rightarrow> addr \<Rightarrow> addr \<Rightarrow> (rbtree \<times> addr) option" where
  "last_rotation_left T x w =
     do { p \<leftarrow> rd rparent x T;
          pc \<leftarrow> rd rcolor p T;
          T1 \<leftarrow> wr (set_color pc) w T;
          T2 \<leftarrow> wr (set_color BLACK) p T1;
          f \<leftarrow> rd rright w T2;
          T3 \<leftarrow> wr (set_color BLACK) f T2;
          T4 \<leftarrow> rbtree_left_rotate T3 p;
          Some (T4, root T4) }"

text \<open>The iteration from the point on where the sibling is black.\<close>

definition black_sibling_left :: "rbtree \<Rightarrow> addr \<Rightarrow> addr \<Rightarrow> (rbtree \<times> addr) option" where
  "black_sibling_left T x w =
     do { wl \<leftarrow> rd rleft w T;
          wlc \<leftarrow> rd rcolor wl T;
          both \<leftarrow> (if wlc = BLACK
                  then do { wrt \<leftarrow> rd rright w T; wrc \<leftarrow> rd rcolor wrt T; Some (wrc = BLACK) }
                  else Some False);
          if both
          then do { T1 \<leftarrow> wr (set_color RED) w T;
                    p' \<leftarrow> rd rparent x T1;
                    Some (T1, p') }
          else do { (T, w) \<leftarrow> inner_nephew_left T x w;
                    last_rotation_left T x w } }"

definition delete_fixup_left :: "rbtree \<Rightarrow> addr \<Rightarrow> (rbtree \<times> addr) option" where
  "delete_fixup_left T x = do { (T, w) \<leftarrow> red_sibling_left T x; black_sibling_left T x w }"

text \<open>\<open>x\<close> is a right child. The sibling, after a red one was rotated away.\<close>

definition red_sibling_right :: "rbtree \<Rightarrow> addr \<Rightarrow> (rbtree \<times> addr) option" where
  "red_sibling_right T x =
     do { p \<leftarrow> rd rparent x T;
          w \<leftarrow> rd rleft p T;
          wc \<leftarrow> rd rcolor w T;
          if wc = RED
          then do { T1 \<leftarrow> wr (set_color BLACK) w T;
                    T2 \<leftarrow> wr (set_color RED) p T1;
                    T3 \<leftarrow> rbtree_right_rotate T2 p;
                    p' \<leftarrow> rd rparent x T3;
                    w' \<leftarrow> rd rleft p' T3;
                    Some (T3, w') }
          else Some (T, w) }"

text \<open>The sibling, after a red inner nephew was rotated outwards.\<close>

definition inner_nephew_right :: "rbtree \<Rightarrow> addr \<Rightarrow> addr \<Rightarrow> (rbtree \<times> addr) option" where
  "inner_nephew_right T x w =
     do { f \<leftarrow> rd rleft w T;
          fc \<leftarrow> rd rcolor f T;
          if fc = BLACK
          then do { n \<leftarrow> rd rright w T;
                    T1 \<leftarrow> wr (set_color BLACK) n T;
                    T2 \<leftarrow> wr (set_color RED) w T1;
                    T3 \<leftarrow> rbtree_left_rotate T2 w;
                    p' \<leftarrow> rd rparent x T3;
                    w' \<leftarrow> rd rleft p' T3;
                    Some (T3, w') }
          else Some (T, w) }"

text \<open>The last rotation; the loop ends, since \<open>x\<close> becomes the root.\<close>

definition last_rotation_right :: "rbtree \<Rightarrow> addr \<Rightarrow> addr \<Rightarrow> (rbtree \<times> addr) option" where
  "last_rotation_right T x w =
     do { p \<leftarrow> rd rparent x T;
          pc \<leftarrow> rd rcolor p T;
          T1 \<leftarrow> wr (set_color pc) w T;
          T2 \<leftarrow> wr (set_color BLACK) p T1;
          f \<leftarrow> rd rleft w T2;
          T3 \<leftarrow> wr (set_color BLACK) f T2;
          T4 \<leftarrow> rbtree_right_rotate T3 p;
          Some (T4, root T4) }"

text \<open>The iteration from the point on where the sibling is black.\<close>

definition black_sibling_right :: "rbtree \<Rightarrow> addr \<Rightarrow> addr \<Rightarrow> (rbtree \<times> addr) option" where
  "black_sibling_right T x w =
     do { wl \<leftarrow> rd rleft w T;
          wlc \<leftarrow> rd rcolor wl T;
          both \<leftarrow> (if wlc = BLACK
                  then do { wrt \<leftarrow> rd rright w T; wrc \<leftarrow> rd rcolor wrt T; Some (wrc = BLACK) }
                  else Some False);
          if both
          then do { T1 \<leftarrow> wr (set_color RED) w T;
                    p' \<leftarrow> rd rparent x T1;
                    Some (T1, p') }
          else do { (T, w) \<leftarrow> inner_nephew_right T x w;
                    last_rotation_right T x w } }"

definition delete_fixup_right :: "rbtree \<Rightarrow> addr \<Rightarrow> (rbtree \<times> addr) option" where
  "delete_fixup_right T x = do { (T, w) \<leftarrow> red_sibling_right T x; black_sibling_right T x w }"

partial_function (option) delete_fixup_loop :: "rbtree \<Rightarrow> addr \<Rightarrow> (rbtree \<times> addr) option" where
  "delete_fixup_loop T x =
     (if x \<noteq> root T
      then do { c \<leftarrow> rd rcolor x T;
                if c = BLACK
                then do { p \<leftarrow> rd rparent x T;
                          pl \<leftarrow> rd rleft p T;
                          Tx \<leftarrow> (if x = pl then delete_fixup_left T x else delete_fixup_right T x);
                          delete_fixup_loop (fst Tx) (snd Tx) }
                else Some (T, x) }
      else Some (T, x))"

definition rbtree_delete_fixup :: "rbtree \<Rightarrow> addr \<Rightarrow> rbtree option" where
  "rbtree_delete_fixup T x =
     do { (T1, x1) \<leftarrow> delete_fixup_loop T x;
          wr (set_color BLACK) x1 T1 }"

definition rbtree_delete :: "rbtree \<Rightarrow> addr \<Rightarrow> (rbtree \<times> addr) option" where
  "rbtree_delete T z =
     do { zl \<leftarrow> rd rleft z T;
          zr \<leftarrow> rd rright z T;
          y \<leftarrow> (if zl = nil T \<or> zr = nil T then Some z else rbtree_successor T z);
          yl \<leftarrow> rd rleft y T;
          yr \<leftarrow> rd rright y T;
          let x = (if yl \<noteq> nil T then yl else if yr \<noteq> nil T then yr else nil T);
          yp \<leftarrow> rd rparent y T;
          T1 \<leftarrow> wr (set_parent yp) x T;
          T2 \<leftarrow> (if yp = nil T1 then Some (T1\<lparr>root := x\<rparr>)
                 else do { l \<leftarrow> rd rleft yp T1;
                           if y = l then wr (set_left x) yp T1 else wr (set_right x) yp T1 });
          T3 \<leftarrow> (if y \<noteq> z
                 then do { zk \<leftarrow> rd rkey z T2; yk \<leftarrow> rd rkey y T2;
                           zv \<leftarrow> rd rvalue z T2; yv \<leftarrow> rd rvalue y T2;
                           T' \<leftarrow> wr (\<lambda>n. n\<lparr>rkey := yk, rvalue := yv\<rparr>) z T2;
                           wr (\<lambda>n. n\<lparr>rkey := zk, rvalue := zv\<rparr>) y T' }
                 else Some T2);
          yc \<leftarrow> rd rcolor y T3;
          T4 \<leftarrow> (if yc = BLACK then rbtree_delete_fixup T3 x else Some T3);
          Some (T4, y) }"

end
