(* ===== verification/Rbtree_Shape.thy ===== *)
theory Rbtree_Shape
  imports Rbtree
begin

text \<open>
  The tree a pointer structure stands for, as a datatype, and the invariants of red-black
  trees on it. A position inside a tree is a context: the list of the frames from the
  position up to the root. The fix-up loops of the C code climb along such a context.
\<close>

section \<open>Shapes and contexts\<close>

text \<open>A node carries its address, its colour and its key and value pointers.\<close>

datatype shape = Lf | Nd shape addr rb_color "cptr \<times> cptr" shape

text \<open>\<open>FL\<close>: the hole is the left child, and the right one is given; \<open>FR\<close>: the other way.\<close>

datatype frame = FL addr rb_color "cptr \<times> cptr" shape | FR shape addr rb_color "cptr \<times> cptr"

fun fill :: "frame \<Rightarrow> shape \<Rightarrow> shape" where
  "fill (FL a c kv r) t = Nd t a c kv r"
| "fill (FR l a c kv) t = Nd l a c kv t"

fun plug :: "frame list \<Rightarrow> shape \<Rightarrow> shape" where
  "plug [] t = t"
| "plug (f # cs) t = plug cs (fill f t)"

fun inorder :: "shape \<Rightarrow> (addr \<times> (cptr \<times> cptr)) list" where
  "inorder Lf = []"
| "inorder (Nd l a c kv r) = inorder l @ (a, kv) # inorder r"

definition addrs :: "shape \<Rightarrow> addr list" where
  "addrs t = map fst (inorder t)"

fun before :: "frame list \<Rightarrow> (addr \<times> (cptr \<times> cptr)) list" where
  "before [] = []"
| "before (FL a c kv r # cs) = before cs"
| "before (FR l a c kv # cs) = before cs @ inorder l @ [(a, kv)]"

fun after :: "frame list \<Rightarrow> (addr \<times> (cptr \<times> cptr)) list" where
  "after [] = []"
| "after (FL a c kv r # cs) = (a, kv) # inorder r @ after cs"
| "after (FR l a c kv # cs) = after cs"

lemma inorder_plug: "inorder (plug cs t) = before cs @ inorder t @ after cs"
proof (induction cs arbitrary: t)
  case (Cons f cs)
  then show ?case by (cases f) auto
qed simp

lemma addrs_simps [simp]: "addrs Lf = []" "addrs (Nd l a c kv r) = addrs l @ a # addrs r"
  by (simp_all add: addrs_def)

lemma plug_append: "plug (cs @ ds) t = plug ds (plug cs t)"
  by (induction cs arbitrary: t) auto

section \<open>Colours and heights\<close>

fun scol :: "shape \<Rightarrow> rb_color" where
  "scol Lf = BLACK"
| "scol (Nd l a c kv r) = c"

fun paint :: "rb_color \<Rightarrow> shape \<Rightarrow> shape" where
  "paint c Lf = Lf"
| "paint c (Nd l a d kv r) = Nd l a c kv r"

text \<open>No red node has a red child.\<close>

fun invc :: "shape \<Rightarrow> bool" where
  "invc Lf \<longleftrightarrow> True"
| "invc (Nd l a c kv r) \<longleftrightarrow> invc l \<and> invc r \<and> (c = RED \<longrightarrow> scol l = BLACK \<and> scol r = BLACK)"

text \<open>All paths down to the leaves have the same number of black nodes.\<close>

fun bheight :: "shape \<Rightarrow> nat" where
  "bheight Lf = 0"
| "bheight (Nd l a c kv r) = (if c = BLACK then Suc (bheight l) else bheight l)"

fun invh :: "shape \<Rightarrow> bool" where
  "invh Lf \<longleftrightarrow> True"
| "invh (Nd l a c kv r) \<longleftrightarrow> invh l \<and> invh r \<and> bheight l = bheight r"

definition rbt :: "shape \<Rightarrow> bool" where
  "rbt t \<longleftrightarrow> invc t \<and> invh t \<and> scol t = BLACK"

fun ccol :: "frame list \<Rightarrow> rb_color" where
  "ccol [] = BLACK"
| "ccol (FL a c kv r # cs) = c"
| "ccol (FR l a c kv # cs) = c"

text \<open>What a context must satisfy so that a tree of black height \<open>n\<close> fits in.\<close>

fun cinv :: "nat \<Rightarrow> frame list \<Rightarrow> bool" where
  "cinv n [] \<longleftrightarrow> True"
| "cinv n (FL a c kv r # cs) \<longleftrightarrow>
     invc r \<and> invh r \<and> bheight r = n \<and> (c = RED \<longrightarrow> scol r = BLACK \<and> ccol cs = BLACK) \<and>
     cinv (if c = BLACK then Suc n else n) cs"
| "cinv n (FR l a c kv # cs) \<longleftrightarrow>
     invc l \<and> invh l \<and> bheight l = n \<and> (c = RED \<longrightarrow> scol l = BLACK \<and> ccol cs = BLACK) \<and>
     cinv (if c = BLACK then Suc n else n) cs"

text \<open>The outermost frame, which holds the root of the whole tree, is black.\<close>

fun cblack :: "frame list \<Rightarrow> bool" where
  "cblack [] \<longleftrightarrow> True"
| "cblack [f] \<longleftrightarrow> ccol [f] = BLACK"
| "cblack (f # g # cs) \<longleftrightarrow> cblack (g # cs)"

lemma rb_color_exhaust [simp]: "c \<noteq> RED \<longleftrightarrow> c = BLACK" "c \<noteq> BLACK \<longleftrightarrow> c = RED"
  by (cases c; simp)+

lemma rb_plug:
  "invc (plug cs t) \<and> invh (plug cs t) \<longleftrightarrow>
     invc t \<and> invh t \<and> cinv (bheight t) cs \<and> (scol t = RED \<longrightarrow> ccol cs = BLACK)"
proof (induction cs arbitrary: t)
  case (Cons f cs)
  show ?case
  proof (cases f)
    case (FL a c kv r)
    then show ?thesis using Cons [of "Nd t a c kv r"] by (cases c) auto
  next
    case (FR l a c kv)
    then show ?thesis using Cons [of "Nd l a c kv t"] by (cases c) auto
  qed
qed simp

lemma scol_plug: "scol (plug cs t) = (if cs = [] then scol t else ccol [last cs])"
proof (induction cs arbitrary: t)
  case (Cons f cs)
  then show ?case by (cases f) auto
qed simp

lemma cblack_iff: "cblack cs \<longleftrightarrow> (cs \<noteq> [] \<longrightarrow> ccol [last cs] = BLACK)"
  by (induction cs rule: cblack.induct) auto

lemma cblack_tl: "cblack (f # cs) \<Longrightarrow> cblack cs"
  by (cases cs) auto

lemma rbt_plug:
  "rbt (plug cs t) \<longleftrightarrow>
     invc t \<and> invh t \<and> cinv (bheight t) cs \<and> (scol t = RED \<longrightarrow> ccol cs = BLACK) \<and>
     cblack cs \<and> (cs = [] \<longrightarrow> scol t = BLACK)"
  using rb_plug [of cs t] by (auto simp: rbt_def scol_plug cblack_iff)

lemma paint_simps [simp]:
  "inorder (paint c t) = inorder t" "addrs (paint c t) = addrs t" "paint c (paint d t) = paint c t"
  "invh (paint c t) = invh t" "scol (paint BLACK t) = BLACK"
  by (cases t; simp)+

lemma invc_paint_BLACK [simp]: "invc t \<Longrightarrow> invc (paint BLACK t)"
  by (cases t) auto

lemma bheight_paint_BLACK: "bheight (paint BLACK t) = (if scol t = RED then Suc (bheight t) else bheight t)"
  by (cases t) auto

lemma paint_id: "scol t = c \<Longrightarrow> paint c t = t"
  by (cases t) auto

section \<open>The height of a red-black tree\<close>

fun height :: "shape \<Rightarrow> nat" where
  "height Lf = 0"
| "height (Nd l a c kv r) = Suc (max (height l) (height r))"

lemma bheight_height: "invc t \<Longrightarrow> invh t \<Longrightarrow>
  height t \<le> 2 * bheight t + (if scol t = RED then 1 else 0)"
proof (induction t)
  case (Nd l a c kv r)
  then show ?case
    by (cases c; cases "scol l"; cases "scol r") auto
qed simp

lemma bheight_size: "invh t \<Longrightarrow> 2 ^ bheight t \<le> length (inorder t) + 1"
proof (induction t)
  case (Nd l a c kv r)
  then have "2 ^ bheight l + 2 ^ bheight l \<le> length (inorder l) + length (inorder r) + 2" by auto
  with Nd show ?case by (cases c) auto
qed simp

text \<open>A tree with \<open>n\<close> keys is at most twice as high as a perfectly balanced one.\<close>

lemma rbt_height: "rbt t \<Longrightarrow> 2 ^ (height t div 2) \<le> length (inorder t) + 1"
proof -
  assume "rbt t"
  then have "height t div 2 \<le> bheight t" "2 ^ bheight t \<le> length (inorder t) + 1"
    using bheight_height [of t] bheight_size [of t] by (auto simp: rbt_def)
  moreover from this have "(2::nat) ^ (height t div 2) \<le> 2 ^ bheight t" by simp
  ultimately show ?thesis by linarith
qed

section \<open>Keys in order\<close>

abbreviation skey :: "addr \<times> (cptr \<times> cptr) \<Rightarrow> cstring" where
  "skey e \<equiv> cstr_of (fst (snd e))"

abbreviation sval :: "addr \<times> (cptr \<times> cptr) \<Rightarrow> cstring" where
  "sval e \<equiv> cstr_of (snd (snd e))"

definition keys_ok :: "(addr \<times> (cptr \<times> cptr)) list \<Rightarrow> bool" where
  "keys_ok es \<longleftrightarrow> sorted_wrt (<) (map skey es) \<and> (\<forall>e\<in>set es. is_str (fst (snd e)) \<and> is_str (snd (snd e)))"

definition entries :: "(addr \<times> (cptr \<times> cptr)) list \<Rightarrow> (cstring \<times> cstring) list" where
  "entries es = map (\<lambda>e. (skey e, sval e)) es"

lemma entries_simps [simp]:
  "entries [] = []" "entries (e # es) = (skey e, sval e) # entries es"
  "entries (es @ fs) = entries es @ entries fs"
  by (simp_all add: entries_def)

lemma entries_keys [simp]: "fst ` set (entries es) = skey ` set es" "map fst (entries es) = map skey es"
  by (simp_all add: entries_def image_image comp_def)

text \<open>The three outcomes of comparing a key with the key in the middle of a sorted list.\<close>

lemma map_of_sorted_mid:
  fixes k :: cstring
  assumes "keys_ok (xs @ e # ys)"
  shows "k < skey e \<Longrightarrow> map_of (entries (xs @ e # ys)) k = map_of (entries xs) k"
    and "skey e < k \<Longrightarrow> map_of (entries (xs @ e # ys)) k = map_of (entries ys) k"
    and "k = skey e \<Longrightarrow> map_of (entries (xs @ e # ys)) k = Some (sval e)"
proof -
  have lt: "\<forall>x\<in>set xs. skey x < skey e" "\<forall>y\<in>set ys. skey e < skey y"
    using assms by (auto simp: keys_ok_def sorted_wrt_append)
  have none: "map_of (entries es) k = None" if "k \<notin> skey ` set es" for es
    using that by (simp add: map_of_eq_None_iff)
  show "map_of (entries (xs @ e # ys)) k = map_of (entries xs) k" if "k < skey e"
  proof -
    have "k \<notin> skey ` set ys" using that lt(2) by force
    then have "map_of (entries ys) k = None" by (rule none)
    with that show ?thesis by (auto simp: map_add_def split: option.split)
  qed
  show "map_of (entries (xs @ e # ys)) k = map_of (entries ys) k" if "skey e < k"
  proof -
    have "k \<notin> skey ` set xs" using that lt(1) by force
    then have "map_of (entries xs) k = None" by (rule none)
    with that show ?thesis by (auto simp: map_add_def split: option.split)
  qed
  show "map_of (entries (xs @ e # ys)) k = Some (sval e)" if "k = skey e"
  proof -
    have "k \<notin> skey ` set xs" using that lt(1) by force
    then have "map_of (entries xs) k = None" by (rule none)
    with that show ?thesis by (auto simp: map_add_def split: option.split)
  qed
qed

end
