(* ===== verification/Rbtree_Refine.thy ===== *)
theory Rbtree_Refine
  imports Rbtree_Shape
begin

text \<open>
  The pointer program of \<^verbatim>\<open>Rbtree\<close> implements the trees of \<^verbatim>\<open>Rbtree_Shape\<close>: which
  pointer structures stand for a tree, what a node reads as, and what recolouring a node
  and rotating at a node do to the tree.
\<close>

section \<open>Representation\<close>

fun rootp :: "addr \<Rightarrow> shape \<Rightarrow> addr" where
  "rootp nl Lf = nl"
| "rootp nl (Nd l a c kv r) = a"

definition mk_node :: "addr \<Rightarrow> shape \<Rightarrow> rb_color \<Rightarrow> cptr \<times> cptr \<Rightarrow> shape \<Rightarrow> addr \<Rightarrow> rbtree_node" where
  "mk_node nl l c kv r p =
     \<lparr>rcolor = c, rright = rootp nl r, rleft = rootp nl l, rparent = p, rkey = fst kv, rvalue = snd kv\<rparr>"

text \<open>The nodes of a tree below the parent \<open>p\<close> are in the store.\<close>

fun tree_at :: "(addr \<Rightarrow> rbtree_node option) \<Rightarrow> addr \<Rightarrow> addr \<Rightarrow> shape \<Rightarrow> bool" where
  "tree_at N nl p Lf \<longleftrightarrow> True"
| "tree_at N nl p (Nd l a c kv r) \<longleftrightarrow>
     N a = Some (mk_node nl l c kv r p) \<and> tree_at N nl a l \<and> tree_at N nl a r"

definition rep :: "rbtree \<Rightarrow> shape \<Rightarrow> bool" where
  "rep T t \<longleftrightarrow>
     root T = rootp (nil T) t \<and> tree_at (nodes T) (nil T) (nil T) t \<and>
     distinct (nil T # addrs t) \<and>
     (\<exists>nn. nodes T (nil T) = Some nn \<and> rcolor nn = BLACK)"

fun faddr :: "frame \<Rightarrow> addr" where
  "faddr (FL a c kv r) = a"
| "faddr (FR l a c kv) = a"

fun par_of :: "addr \<Rightarrow> frame list \<Rightarrow> addr" where
  "par_of nl [] = nl"
| "par_of nl (f # cs) = faddr f"

text \<open>The nodes of a context around a tree \<open>t\<close> are in the store, and \<open>rt\<close> is the root.\<close>

fun ctx_at :: "(addr \<Rightarrow> rbtree_node option) \<Rightarrow> addr \<Rightarrow> addr \<Rightarrow> addr \<Rightarrow> frame list \<Rightarrow> bool" where
  "ctx_at N nl rt h [] \<longleftrightarrow> rt = h"
| "ctx_at N nl rt h (FL a c kv r # cs) \<longleftrightarrow>
     N a = Some \<lparr>rcolor = c, rright = rootp nl r, rleft = h, rparent = par_of nl cs,
                 rkey = fst kv, rvalue = snd kv\<rparr> \<and>
     tree_at N nl a r \<and> ctx_at N nl rt a cs"
| "ctx_at N nl rt h (FR l a c kv # cs) \<longleftrightarrow>
     N a = Some \<lparr>rcolor = c, rright = h, rleft = rootp nl l, rparent = par_of nl cs,
                 rkey = fst kv, rvalue = snd kv\<rparr> \<and>
     tree_at N nl a l \<and> ctx_at N nl rt a cs"

definition caddrs :: "frame list \<Rightarrow> addr list" where
  "caddrs cs = map fst (before cs @ after cs)"

lemma caddrs_simps [simp]:
  "caddrs [] = []"
  "set (caddrs (FL a c kv r # cs)) = insert a (set (addrs r) \<union> set (caddrs cs))"
  "set (caddrs (FR l a c kv # cs)) = insert a (set (addrs l) \<union> set (caddrs cs))"
  by (auto simp: caddrs_def addrs_def)

lemma set_addrs_plug: "set (addrs (plug cs t)) = set (caddrs cs) \<union> set (addrs t)"
  by (auto simp: addrs_def caddrs_def inorder_plug)

lemma distinct_addrs_plug:
  "distinct (addrs (plug cs t)) \<longleftrightarrow>
     distinct (caddrs cs) \<and> distinct (addrs t) \<and> set (caddrs cs) \<inter> set (addrs t) = {}"
  by (auto simp: addrs_def caddrs_def inorder_plug)

lemma distinct_caddrs_Cons [simp]:
  "distinct (caddrs (FL a c kv r # cs)) \<longleftrightarrow>
     a \<notin> set (addrs r) \<and> a \<notin> set (caddrs cs) \<and> distinct (addrs r) \<and> distinct (caddrs cs) \<and>
     set (addrs r) \<inter> set (caddrs cs) = {}"
  "distinct (caddrs (FR l a c kv # cs)) \<longleftrightarrow>
     a \<notin> set (addrs l) \<and> a \<notin> set (caddrs cs) \<and> distinct (addrs l) \<and> distinct (caddrs cs) \<and>
     set (addrs l) \<inter> set (caddrs cs) = {}"
  by (auto simp: addrs_def caddrs_def)

lemma tree_at_plug:
  "rt = rootp nl (plug cs t) \<and> tree_at N nl nl (plug cs t) \<longleftrightarrow>
     ctx_at N nl rt (rootp nl t) cs \<and> tree_at N nl (par_of nl cs) t"
proof (induction cs arbitrary: t)
  case (Cons f cs)
  then show ?case by (cases f) (auto simp: mk_node_def)
qed auto

lemma rep_plug:
  "rep T (plug cs t) \<longleftrightarrow>
     ctx_at (nodes T) (nil T) (root T) (rootp (nil T) t) cs \<and>
     tree_at (nodes T) (nil T) (par_of (nil T) cs) t \<and>
     distinct (caddrs cs) \<and> distinct (addrs t) \<and> set (caddrs cs) \<inter> set (addrs t) = {} \<and>
     nil T \<notin> set (caddrs cs) \<and> nil T \<notin> set (addrs t) \<and>
     (\<exists>nn. nodes T (nil T) = Some nn \<and> rcolor nn = BLACK)"
  unfolding rep_def using tree_at_plug [of "root T" "nil T" cs t "nodes T"]
  by (auto simp: distinct_addrs_plug set_addrs_plug)

lemma tree_at_cong:
  "(\<And>q. q \<in> set (addrs t) \<Longrightarrow> N' q = N q) \<Longrightarrow> tree_at N' nl p t = tree_at N nl p t"
  by (induction t arbitrary: p) auto

lemma ctx_at_cong:
  "(\<And>q. q \<in> set (caddrs cs) \<Longrightarrow> N' q = N q) \<Longrightarrow> ctx_at N' nl rt h cs = ctx_at N nl rt h cs"
proof (induction cs arbitrary: h)
  case (Cons f cs)
  have IH: "ctx_at N' nl rt (faddr f) cs = ctx_at N nl rt (faddr f) cs"
    using Cons by (cases f) auto
  show ?case
  proof (cases f)
    case (FL a c kv r)
    with Cons.prems have "tree_at N' nl a r = tree_at N nl a r" by (intro tree_at_cong) auto
    with FL IH Cons.prems show ?thesis by auto
  next
    case (FR l a c kv)
    with Cons.prems have "tree_at N' nl a l = tree_at N nl a l" by (intro tree_at_cong) auto
    with FR IH Cons.prems show ?thesis by auto
  qed
qed simp

lemma tree_at_upd [simp]: "q \<notin> set (addrs t) \<Longrightarrow> tree_at (N(q := x)) nl p t = tree_at N nl p t"
  by (rule tree_at_cong) auto

lemma ctx_at_upd [simp]:
  "q \<notin> set (caddrs cs) \<Longrightarrow> ctx_at (N(q := x)) nl rt h cs = ctx_at N nl rt h cs"
  by (rule ctx_at_cong) auto

lemma rootp_in: "rootp nl t \<noteq> nl \<Longrightarrow> rootp nl t \<in> set (addrs t)"
  by (cases t) auto

text \<open>Nothing but the nodes of the tree is touched.\<close>

definition same_outside :: "shape \<Rightarrow> rbtree \<Rightarrow> rbtree \<Rightarrow> bool" where
  "same_outside t T T' \<longleftrightarrow> nil T' = nil T \<and> (\<forall>q. q \<notin> set (addrs t) \<longrightarrow> nodes T' q = nodes T q)"

lemma same_outside_refl [simp]: "same_outside t T T"
  by (simp add: same_outside_def)

lemma same_outside_trans:
  "same_outside t T T1 \<Longrightarrow> same_outside t' T1 T2 \<Longrightarrow> set (addrs t') = set (addrs t) \<Longrightarrow>
   same_outside t T T2"
  by (simp add: same_outside_def)

section \<open>Reading and recolouring\<close>

lemma rep_read:
  assumes "rep T (plug cs (Nd l a c kv r))"
  shows "nodes T a = Some (mk_node (nil T) l c kv r (par_of (nil T) cs))" and "a \<noteq> nil T"
  using assms by (auto simp: rep_plug)

lemma rep_nil_color: "rep T t \<Longrightarrow> rd rcolor (nil T) T = Some BLACK"
  by (auto simp: rep_def rd_def)

lemma rep_rd:
  assumes "rep T (plug cs (Nd l a c kv r))"
  shows "rd rcolor a T = Some c" and "rd rleft a T = Some (rootp (nil T) l)"
    and "rd rright a T = Some (rootp (nil T) r)" and "rd rparent a T = Some (par_of (nil T) cs)"
    and "rd rkey a T = Some (fst kv)" and "rd rvalue a T = Some (snd kv)" and "a \<noteq> nil T"
  using rep_read [OF assms] by (simp_all add: rd_def mk_node_def)

lemma rep_rd_color: "rep T (plug cs t) \<Longrightarrow> rd rcolor (rootp (nil T) t) T = Some (scol t)"
  by (cases t) (auto simp: rep_rd(1) rep_nil_color)

lemma rep_root: "rep T (plug [] (Nd l a c kv r)) \<Longrightarrow> root T = a"
  by (simp add: rep_def)

lemma rep_color:
  assumes "rep T (plug cs (Nd l a c kv r))"
  shows "\<exists>T'. wr (set_color c') a T = Some T' \<and> rep T' (plug cs (Nd l a c' kv r)) \<and>
           same_outside (plug cs (Nd l a c kv r)) T T'"
proof -
  let ?T = "T\<lparr>nodes := (nodes T)(a \<mapsto> mk_node (nil T) l c' kv r (par_of (nil T) cs))\<rparr>"
  have "wr (set_color c') a T = Some ?T"
    using rep_read [OF assms] by (simp add: wr_def mk_node_def)
  moreover have "rep ?T (plug cs (Nd l a c' kv r))"
    using assms by (auto simp: rep_plug)
  ultimately show ?thesis by (auto simp: same_outside_def set_addrs_plug)
qed

section \<open>Rotations\<close>

text \<open>
  What the rotations write, whatever the shape of the subtree \<open>b\<close> that moves and of the
  context: the two nodes themselves, the parent of the root of \<open>b\<close>, and the link from above.
\<close>

fun reparent :: "addr \<Rightarrow> addr \<Rightarrow> shape \<Rightarrow> (addr \<Rightarrow> rbtree_node option) \<Rightarrow> addr \<Rightarrow> rbtree_node option" where
  "reparent nl p Lf N = N"
| "reparent nl p (Nd l a c kv r) N = N(a \<mapsto> mk_node nl l c kv r p)"

fun relink :: "addr \<Rightarrow> addr \<Rightarrow> frame list \<Rightarrow> (addr \<Rightarrow> rbtree_node option) \<Rightarrow> addr \<Rightarrow> rbtree_node option" where
  "relink nl h [] N = N"
| "relink nl h (FL a c kv r # cs) N =
     N(a \<mapsto> \<lparr>rcolor = c, rright = rootp nl r, rleft = h, rparent = par_of nl cs,
             rkey = fst kv, rvalue = snd kv\<rparr>)"
| "relink nl h (FR l a c kv # cs) N =
     N(a \<mapsto> \<lparr>rcolor = c, rright = h, rleft = rootp nl l, rparent = par_of nl cs,
             rkey = fst kv, rvalue = snd kv\<rparr>)"

lemma reparent_other [simp]: "q \<notin> set (addrs t) \<Longrightarrow> reparent nl p t N q = N q"
  by (cases t) auto

lemma relink_other [simp]: "q \<notin> set (caddrs cs) \<Longrightarrow> relink nl h cs N q = N q"
proof (cases cs)
  case (Cons f ds)
  then show "q \<notin> set (caddrs cs) \<Longrightarrow> ?thesis" by (cases f) auto
qed simp

lemma tree_at_reparent:
  "tree_at N nl p t \<Longrightarrow> distinct (addrs t) \<Longrightarrow> tree_at (reparent nl q t N) nl q t"
  by (cases t) auto

lemma ctx_at_relink:
  assumes "ctx_at N nl rt h cs" and "distinct (caddrs cs)"
  shows "ctx_at (relink nl h' cs N) nl (if cs = [] then h' else rt) h' cs"
proof (cases cs)
  case (Cons f ds)
  with assms show ?thesis by (cases f) simp_all
qed simp

lemma rootp_neq: "x \<notin> set (addrs t) \<Longrightarrow> x \<noteq> nl \<Longrightarrow> rootp nl t \<noteq> x"
  by (cases t) auto

definition rotated :: "rbtree \<Rightarrow> frame list \<Rightarrow> addr \<Rightarrow> rbtree_node \<Rightarrow> addr \<Rightarrow> rbtree_node \<Rightarrow> shape \<Rightarrow> rbtree" where
  "rotated T cs x nx y ny b =
     T\<lparr>root := (if cs = [] then y else root T),
       nodes := (relink (nil T) y cs (reparent (nil T) x b (nodes T)))(x \<mapsto> nx, y \<mapsto> ny)\<rparr>"

lemma reparent_relink_upd:
  "q \<notin> set (addrs b) \<Longrightarrow> reparent nl p b (N(q := x)) = (reparent nl p b N)(q := x)"
  "q \<notin> set (caddrs cs) \<Longrightarrow> relink nl h cs (N(q := x)) = (relink nl h cs N)(q := x)"
proof -
  show "q \<notin> set (addrs b) \<Longrightarrow> reparent nl p b (N(q := x)) = (reparent nl p b N)(q := x)"
    by (cases b) (auto simp: fun_eq_iff)
  show "q \<notin> set (caddrs cs) \<Longrightarrow> relink nl h cs (N(q := x)) = (relink nl h cs N)(q := x)"
  proof (cases cs)
    case (Cons f ds)
    then show "q \<notin> set (caddrs cs) \<Longrightarrow> ?thesis" by (cases f) (auto simp: fun_eq_iff)
  qed simp
qed

lemmas node_defs = rd_def wr_def mk_node_def

text \<open>The link from above, as the C code rewrites it.\<close>

lemma relink_left:
  assumes "ctx_at N nl rt x cs" and "distinct (caddrs cs)" and "nl \<notin> set (caddrs cs)" and "x \<noteq> nl"
    and "x \<notin> set (caddrs cs)" and N': "\<And>q. q \<in> set (caddrs cs) \<Longrightarrow> nodes T q = N q" and "nil T = nl"
  shows "(if par_of nl cs = nl then Some (T\<lparr>root := y\<rparr>)
          else do { pl \<leftarrow> rd rleft (par_of nl cs) T;
                    if x = pl then wr (set_left y) (par_of nl cs) T
                    else wr (set_right y) (par_of nl cs) T }) =
         Some (T\<lparr>root := (if cs = [] then y else root T), nodes := relink nl y cs (nodes T)\<rparr>)"
proof (cases cs)
  case (Cons f ds)
  have nq: "nodes T (faddr f) = N (faddr f)" using N' Cons by (cases f) auto
  show ?thesis
  proof (cases f)
    case (FL q qc qk r)
    then show ?thesis using assms(1-5,7) Cons nq by (auto simp: node_defs)
  next
    case (FR l q qc qk)
    have "rootp nl l \<noteq> x" using assms Cons FR by (intro rootp_neq) auto
    then show ?thesis using FR assms(1-5,7) Cons nq by (auto simp: node_defs)
  qed
qed simp

lemma relink_right:
  assumes "ctx_at N nl rt x cs" and "distinct (caddrs cs)" and "nl \<notin> set (caddrs cs)" and "x \<noteq> nl"
    and "x \<notin> set (caddrs cs)" and N': "\<And>q. q \<in> set (caddrs cs) \<Longrightarrow> nodes T q = N q" and "nil T = nl"
  shows "(if par_of nl cs = nl then Some (T\<lparr>root := y\<rparr>)
          else do { pl \<leftarrow> rd rright (par_of nl cs) T;
                    if x = pl then wr (set_right y) (par_of nl cs) T
                    else wr (set_left y) (par_of nl cs) T }) =
         Some (T\<lparr>root := (if cs = [] then y else root T), nodes := relink nl y cs (nodes T)\<rparr>)"
proof (cases cs)
  case (Cons f ds)
  have nq: "nodes T (faddr f) = N (faddr f)" using N' Cons by (cases f) auto
  show ?thesis
  proof (cases f)
    case (FR l q qc qk)
    then show ?thesis using assms(1-5,7) Cons nq by (auto simp: node_defs)
  next
    case (FL q qc qk r)
    have "rootp nl r \<noteq> x" using assms Cons FL by (intro rootp_neq) auto
    then show ?thesis using FL assms(1-5,7) Cons nq by (auto simp: node_defs)
  qed
qed simp

lemma reparent_eq:
  assumes "tree_at (nodes T) (nil T) p b" and "nil T \<notin> set (addrs b)"
  shows "(if rootp (nil T) b \<noteq> nil T then wr (set_parent x) (rootp (nil T) b) T else Some T) =
         Some (T\<lparr>nodes := reparent (nil T) x b (nodes T)\<rparr>)"
  using assms by (cases b) (auto simp: node_defs)

lemma left_rotate_eq:
  assumes rep: "rep T (plug cs (Nd a x c kv (Nd b y d kw e)))"
  shows "rbtree_left_rotate T x =
           Some (rotated T cs x (mk_node (nil T) a c kv b y)
                   y (mk_node (nil T) (Nd a x c kv b) d kw e (par_of (nil T) cs)) b)"
proof -
  note R = rep [unfolded rep_plug]
  let ?p = "par_of (nil T) cs"
  have n: "nodes T x = Some (mk_node (nil T) a c kv (Nd b y d kw e) ?p)"
    "nodes T y = Some (mk_node (nil T) b d kw e x)" and xy: "x \<noteq> y" "x \<noteq> nil T"
    "x \<notin> set (caddrs cs)" "y \<notin> set (caddrs cs)" "x \<notin> set (addrs b)" "y \<notin> set (addrs b)"
    using R by auto
  define T1 where "T1 = T\<lparr>nodes := (nodes T)(x \<mapsto> mk_node (nil T) a c kv b ?p)\<rparr>"
  have rds: "rd rright x T = Some y" "rd rleft y T = Some (rootp (nil T) b)"
    using n by (simp_all add: node_defs)
  have 1: "wr (set_right (rootp (nil T) b)) x T = Some T1"
    using n by (simp add: T1_def node_defs)
  have nil1: "nil T1 = nil T" and b1: "tree_at (nodes T1) (nil T1) y b" "nil T1 \<notin> set (addrs b)"
    using R xy by (simp_all add: T1_def)
  define T2 where "T2 = T1\<lparr>nodes := reparent (nil T) x b (nodes T1)\<rparr>"
  have 2: "(if rootp (nil T) b \<noteq> nil T1 then wr (set_parent x) (rootp (nil T) b) T1 else Some T1) = Some T2"
    using reparent_eq [OF b1, unfolded nil1] nil1 by (simp only: T2_def)
  have n2: "nodes T2 x = Some (mk_node (nil T) a c kv b ?p)" "nodes T2 y = Some (mk_node (nil T) b d kw e x)"
    using n xy by (simp_all add: T2_def T1_def)
  define T3 where "T3 = T2\<lparr>nodes := (nodes T2)(y \<mapsto> mk_node (nil T) b d kw e ?p)\<rparr>"
  have 3: "rd rparent x T2 = Some ?p" "wr (set_parent ?p) y T2 = Some T3"
    using n2 by (simp_all add: node_defs T3_def)
  have nil: "nil T1 = nil T" "nil T2 = nil T" "nil T3 = nil T" by (simp_all add: T1_def T2_def T3_def)
  define T4 where "T4 = T3\<lparr>root := (if cs = [] then y else root T3), nodes := relink (nil T) y cs (nodes T3)\<rparr>"
  have keep: "nodes T3 q = nodes T q" if "q \<in> set (caddrs cs)" for q
  proof -
    have "q \<notin> set (addrs b)" "q \<noteq> x" "q \<noteq> y" using that R by auto
    then show ?thesis by (simp add: T3_def T2_def T1_def)
  qed
  have 4: "(if ?p = nil T3 then Some (T3\<lparr>root := y\<rparr>)
      else do { pl \<leftarrow> rd rleft ?p T3; if x = pl then wr (set_left y) ?p T3 else wr (set_right y) ?p T3 }) = Some T4"
    unfolding nil T4_def
    by (rule relink_left [where N = "nodes T" and rt = "root T"]) (use R keep nil in auto)
  have n4: "nodes T4 x = Some (mk_node (nil T) a c kv b ?p)" "nodes T4 y = Some (mk_node (nil T) b d kw e ?p)"
    using n2 xy by (simp_all add: T4_def T3_def)
  have "rbtree_left_rotate T x = do { T5 \<leftarrow> wr (set_left x) y T4; wr (set_parent y) x T5 }"
    using rds 1 2 3 4 by (simp add: rbtree_left_rotate_def)
  also have "\<dots> = Some (T4\<lparr>nodes := (nodes T4)(y \<mapsto> mk_node (nil T) (Nd a x c kv b) d kw e ?p,
                          x \<mapsto> mk_node (nil T) a c kv b y)\<rparr>)"
    using n4 xy by (simp add: node_defs)
  also have "\<dots> = Some (rotated T cs x (mk_node (nil T) a c kv b y)
                   y (mk_node (nil T) (Nd a x c kv b) d kw e ?p) b)"
    using xy by (simp add: rotated_def T4_def T3_def T2_def T1_def reparent_relink_upd fun_upd_twist)
  finally show ?thesis .
qed

lemma right_rotate_eq:
  assumes rep: "rep T (plug cs (Nd (Nd a x c kv b) y d kw e))"
  shows "rbtree_right_rotate T y =
           Some (rotated T cs y (mk_node (nil T) b d kw e x)
                   x (mk_node (nil T) a c kv (Nd b y d kw e) (par_of (nil T) cs)) b)"
proof -
  note R = rep [unfolded rep_plug]
  let ?p = "par_of (nil T) cs"
  have n: "nodes T y = Some (mk_node (nil T) (Nd a x c kv b) d kw e ?p)"
    "nodes T x = Some (mk_node (nil T) a c kv b y)" and xy: "x \<noteq> y" "y \<noteq> nil T"
    "x \<notin> set (caddrs cs)" "y \<notin> set (caddrs cs)" "x \<notin> set (addrs b)" "y \<notin> set (addrs b)"
    using R by auto
  define T1 where "T1 = T\<lparr>nodes := (nodes T)(y \<mapsto> mk_node (nil T) b d kw e ?p)\<rparr>"
  have rds: "rd rleft y T = Some x" "rd rright x T = Some (rootp (nil T) b)"
    using n by (simp_all add: node_defs)
  have 1: "wr (set_left (rootp (nil T) b)) y T = Some T1"
    using n by (simp add: T1_def node_defs)
  have nil1: "nil T1 = nil T" and b1: "tree_at (nodes T1) (nil T1) x b" "nil T1 \<notin> set (addrs b)"
    using R xy by (simp_all add: T1_def)
  define T2 where "T2 = T1\<lparr>nodes := reparent (nil T) y b (nodes T1)\<rparr>"
  have 2: "(if rootp (nil T) b \<noteq> nil T1 then wr (set_parent y) (rootp (nil T) b) T1 else Some T1) = Some T2"
    using reparent_eq [OF b1, unfolded nil1] nil1 by (simp only: T2_def)
  have n2: "nodes T2 y = Some (mk_node (nil T) b d kw e ?p)" "nodes T2 x = Some (mk_node (nil T) a c kv b y)"
    using n xy by (simp_all add: T2_def T1_def)
  define T3 where "T3 = T2\<lparr>nodes := (nodes T2)(x \<mapsto> mk_node (nil T) a c kv b ?p)\<rparr>"
  have 3: "rd rparent y T2 = Some ?p" "wr (set_parent ?p) x T2 = Some T3"
    using n2 by (simp_all add: node_defs T3_def)
  have nil: "nil T1 = nil T" "nil T2 = nil T" "nil T3 = nil T" by (simp_all add: T1_def T2_def T3_def)
  define T4 where "T4 = T3\<lparr>root := (if cs = [] then x else root T3), nodes := relink (nil T) x cs (nodes T3)\<rparr>"
  have keep: "nodes T3 q = nodes T q" if "q \<in> set (caddrs cs)" for q
  proof -
    have "q \<notin> set (addrs b)" "q \<noteq> x" "q \<noteq> y" using that R by auto
    then show ?thesis by (simp add: T3_def T2_def T1_def)
  qed
  have 4: "(if ?p = nil T3 then Some (T3\<lparr>root := x\<rparr>)
      else do { pr \<leftarrow> rd rright ?p T3; if y = pr then wr (set_right x) ?p T3 else wr (set_left x) ?p T3 }) = Some T4"
    unfolding nil T4_def
    by (rule relink_right [where N = "nodes T" and rt = "root T"]) (use R keep nil in auto)
  have n4: "nodes T4 y = Some (mk_node (nil T) b d kw e ?p)" "nodes T4 x = Some (mk_node (nil T) a c kv b ?p)"
    using n2 xy by (simp_all add: T4_def T3_def)
  have "rbtree_right_rotate T y = do { T5 \<leftarrow> wr (set_right y) x T4; wr (set_parent x) y T5 }"
    using rds 1 2 3 4 by (simp add: rbtree_right_rotate_def)
  also have "\<dots> = Some (T4\<lparr>nodes := (nodes T4)(x \<mapsto> mk_node (nil T) a c kv (Nd b y d kw e) ?p,
                          y \<mapsto> mk_node (nil T) b d kw e x)\<rparr>)"
    using n4 xy by (simp add: node_defs)
  also have "\<dots> = Some (rotated T cs y (mk_node (nil T) b d kw e x)
                   x (mk_node (nil T) a c kv (Nd b y d kw e) ?p) b)"
    using xy by (simp add: rotated_def T4_def T3_def T2_def T1_def reparent_relink_upd fun_upd_twist)
  finally show ?thesis .
qed

text \<open>The store after a rotation, seen from the parts that moved as a whole.\<close>

lemma rotated_parts:
  assumes T': "T' = rotated T cs x nx y ny b"
    and dist: "distinct (caddrs cs)" "distinct (addrs b)" "set (caddrs cs) \<inter> set (addrs b) = {}"
      "x \<notin> set (caddrs cs)" "y \<notin> set (caddrs cs)" "x \<notin> set (addrs b)" "y \<notin> set (addrs b)" "x \<noteq> y"
  shows "ctx_at (nodes T) (nil T) (root T) h cs \<Longrightarrow> ctx_at (nodes T') (nil T') (root T') y cs"
    and "tree_at (nodes T) (nil T) p b \<Longrightarrow> tree_at (nodes T') (nil T') x b"
    and "set (addrs s) \<inter> (set (caddrs cs) \<union> set (addrs b) \<union> {x, y}) = {} \<Longrightarrow>
         tree_at (nodes T') (nil T') q s = tree_at (nodes T) (nil T) q s"
    and "nodes T' x = Some nx" and "nodes T' y = Some ny"
    and "v \<notin> set (caddrs cs) \<union> set (addrs b) \<union> {x, y} \<Longrightarrow> nodes T' v = nodes T v"
    and "nil T' = nil T"
proof -
  let ?N = "reparent (nil T) x b (nodes T)"
  show "nil T' = nil T" "nodes T' x = Some nx" "nodes T' y = Some ny" using T' dist by (auto simp: rotated_def)
  show "nodes T' v = nodes T v" if "v \<notin> set (caddrs cs) \<union> set (addrs b) \<union> {x, y}" for v
    using that T' by (simp add: rotated_def)
  then show "tree_at (nodes T') (nil T') q s = tree_at (nodes T) (nil T) q s"
    if "set (addrs s) \<inter> (set (caddrs cs) \<union> set (addrs b) \<union> {x, y}) = {}"
    using that T' \<open>nil T' = nil T\<close> by (metis tree_at_cong disjoint_iff)
  show "tree_at (nodes T') (nil T') x b" if "tree_at (nodes T) (nil T) p b"
  proof -
    have "tree_at ?N (nil T) x b" using that dist(2) by (rule tree_at_reparent)
    moreover have "nodes T' v = ?N v" if "v \<in> set (addrs b)" for v
    proof -
      have "v \<notin> set (caddrs cs)" "v \<noteq> x" "v \<noteq> y" using that dist by auto
      then show ?thesis using T' by (simp add: rotated_def)
    qed
    ultimately show ?thesis using T' tree_at_cong [of b "nodes T'" ?N] by (simp add: rotated_def)
  qed
  show "ctx_at (nodes T') (nil T') (root T') y cs" if "ctx_at (nodes T) (nil T) (root T) h cs"
  proof -
    have "ctx_at ?N (nil T) (root T) h cs"
      using that dist(3) ctx_at_cong [of cs ?N "nodes T"] by (auto simp: disjoint_iff)
    from ctx_at_relink [OF this dist(1), of y]
    have "ctx_at (relink (nil T) y cs ?N) (nil T) (root T') y cs" using T' by (simp add: rotated_def)
    moreover have "nodes T' v = relink (nil T) y cs ?N v" if "v \<in> set (caddrs cs)" for v
    proof -
      have "v \<noteq> x" "v \<noteq> y" using that dist by auto
      then show ?thesis using T' by (simp add: rotated_def)
    qed
    ultimately show ?thesis
      using T' ctx_at_cong [of cs "nodes T'" "relink (nil T) y cs ?N"] by (simp add: rotated_def)
  qed
qed

lemma rotate_left:
  assumes rep: "rep T (plug cs (Nd a x c kv (Nd b y d kw e)))"
  shows "\<exists>T'. rbtree_left_rotate T x = Some T' \<and> rep T' (plug cs (Nd (Nd a x c kv b) y d kw e)) \<and>
           same_outside (plug cs (Nd a x c kv (Nd b y d kw e))) T T'"
proof -
  define T' where "T' = rotated T cs x (mk_node (nil T) a c kv b y)
      y (mk_node (nil T) (Nd a x c kv b) d kw e (par_of (nil T) cs)) b"
  have r: "ctx_at (nodes T) (nil T) (root T) x cs" "tree_at (nodes T) (nil T) y b"
    "tree_at (nodes T) (nil T) x a" "tree_at (nodes T) (nil T) y e"
    using rep by (auto simp: rep_plug)
  have D: "distinct (caddrs cs)" "distinct (addrs b)" "set (caddrs cs) \<inter> set (addrs b) = {}"
      "x \<notin> set (caddrs cs)" "y \<notin> set (caddrs cs)" "x \<notin> set (addrs b)" "y \<notin> set (addrs b)" "x \<noteq> y"
    and A: "set (addrs a) \<inter> (set (caddrs cs) \<union> set (addrs b) \<union> {x, y}) = {}"
      "set (addrs e) \<inter> (set (caddrs cs) \<union> set (addrs b) \<union> {x, y}) = {}"
      "nil T \<notin> set (caddrs cs) \<union> set (addrs b) \<union> {x, y}"
    using rep by (auto simp: rep_plug)
  note P = rotated_parts [OF T'_def D]
  have "rep T' (plug cs (Nd (Nd a x c kv b) y d kw e))"
    using rep P(1) [OF r(1)] P(2) [OF r(2)] P(3) [OF A(1)] P(3) [OF A(2)] P(4,5,7) P(6) [OF A(3)] r(3,4)
    unfolding rep_plug by auto
  moreover have "same_outside (plug cs (Nd a x c kv (Nd b y d kw e))) T T'"
    using P(6,7) by (auto simp: same_outside_def set_addrs_plug)
  ultimately show ?thesis using left_rotate_eq [OF rep] T'_def by blast
qed

lemma rotate_right:
  assumes rep: "rep T (plug cs (Nd (Nd a x c kv b) y d kw e))"
  shows "\<exists>T'. rbtree_right_rotate T y = Some T' \<and> rep T' (plug cs (Nd a x c kv (Nd b y d kw e))) \<and>
           same_outside (plug cs (Nd (Nd a x c kv b) y d kw e)) T T'"
proof -
  define T' where "T' = rotated T cs y (mk_node (nil T) b d kw e x)
      x (mk_node (nil T) a c kv (Nd b y d kw e) (par_of (nil T) cs)) b"
  have r: "ctx_at (nodes T) (nil T) (root T) y cs" "tree_at (nodes T) (nil T) x b"
    "tree_at (nodes T) (nil T) x a" "tree_at (nodes T) (nil T) y e"
    using rep by (auto simp: rep_plug)
  have D: "distinct (caddrs cs)" "distinct (addrs b)" "set (caddrs cs) \<inter> set (addrs b) = {}"
      "y \<notin> set (caddrs cs)" "x \<notin> set (caddrs cs)" "y \<notin> set (addrs b)" "x \<notin> set (addrs b)" "y \<noteq> x"
    and A: "set (addrs a) \<inter> (set (caddrs cs) \<union> set (addrs b) \<union> {y, x}) = {}"
      "set (addrs e) \<inter> (set (caddrs cs) \<union> set (addrs b) \<union> {y, x}) = {}"
      "nil T \<notin> set (caddrs cs) \<union> set (addrs b) \<union> {y, x}"
    using rep by (auto simp: rep_plug)
  note P = rotated_parts [OF T'_def D]
  have "rep T' (plug cs (Nd a x c kv (Nd b y d kw e)))"
    using rep P(1) [OF r(1)] P(2) [OF r(2)] P(3) [OF A(1)] P(3) [OF A(2)] P(4,5,7) P(6) [OF A(3)] r(3,4)
    unfolding rep_plug by auto
  moreover have "same_outside (plug cs (Nd (Nd a x c kv b) y d kw e)) T T'"
    using P(6,7) by (auto simp: same_outside_def set_addrs_plug)
  ultimately show ?thesis using right_rotate_eq [OF rep] T'_def by blast
qed

end
