(* ===== verification/Rbtree_Insert.thy ===== *)
theory Rbtree_Insert
  imports Rbtree_Refine
begin

text \<open>
  Insertion into the red-black tree: the fix-up loop ends, restores the invariants and
  keeps the sequence of the nodes, and \<open>rbtree_insert\<close> puts a new node where its key
  belongs or leaves the tree alone when the key is there already.
\<close>

section \<open>Steps that keep the sequence of nodes\<close>

definition moved :: "rbtree \<Rightarrow> shape \<Rightarrow> rbtree \<Rightarrow> shape \<Rightarrow> bool" where
  "moved T t T' t' \<longleftrightarrow> rep T' t' \<and> inorder t' = inorder t \<and> same_outside t T T'"

lemma moved_trans: "moved T t T1 t1 \<Longrightarrow> moved T1 t1 T2 t2 \<Longrightarrow> moved T t T2 t2"
  by (auto simp: moved_def same_outside_def addrs_def)

lemma moved_refl: "rep T t \<Longrightarrow> moved T t T t"
  by (simp add: moved_def)

lemma moved_rep: "moved T t T' t' \<Longrightarrow> rep T' t'"
  by (simp add: moved_def)

lemma moved_nil: "moved T t T' t' \<Longrightarrow> nil T' = nil T"
  by (simp add: moved_def same_outside_def)

lemma moved_color:
  assumes "rep T (plug cs (Nd l a c kv r))"
  obtains T' where "wr (set_color c') a T = Some T'"
    and "moved T (plug cs (Nd l a c kv r)) T' (plug cs (Nd l a c' kv r))"
  using rep_color [OF assms, of c'] that by (auto simp: moved_def inorder_plug)

lemma moved_left:
  assumes "rep T (plug cs (Nd a x c kv (Nd b y d kw e)))"
  obtains T' where "rbtree_left_rotate T x = Some T'"
    and "moved T (plug cs (Nd a x c kv (Nd b y d kw e))) T' (plug cs (Nd (Nd a x c kv b) y d kw e))"
  using rotate_left [OF assms] that by (auto simp: moved_def inorder_plug)

lemma moved_right:
  assumes "rep T (plug cs (Nd (Nd a x c kv b) y d kw e))"
  obtains T' where "rbtree_right_rotate T y = Some T'"
    and "moved T (plug cs (Nd (Nd a x c kv b) y d kw e)) T' (plug cs (Nd a x c kv (Nd b y d kw e)))"
  using rotate_right [OF assms] that by (auto simp: moved_def inorder_plug)

section \<open>One iteration of the insertion fix-up\<close>

text \<open>The two nodes above the current one and the uncle.\<close>

lemma rep_rdL:
  assumes "rep T (plug cs (Nd (Nd a p c pk b) g d gk u))"
  shows "rd rparent p T = Some g" and "rd rleft g T = Some p" and "rd rright g T = Some (rootp (nil T) u)"
    and "rd rcolor (rootp (nil T) u) T = Some (scol u)" and "rd rright p T = Some (rootp (nil T) b)"
    and "rd rleft p T = Some (rootp (nil T) a)" and "rd rparent g T = Some (par_of (nil T) cs)"
    and "rootp (nil T) u \<noteq> p" and "rd rcolor p T = Some c" and "p \<noteq> nil T"
proof -
  have 1: "rep T (plug (FL g d gk u # cs) (Nd a p c pk b))"
    and 2: "rep T (plug (FR (Nd a p c pk b) g d gk # cs) u)" using assms by simp_all
  show "rd rparent p T = Some g" "rd rright p T = Some (rootp (nil T) b)" "rd rleft p T = Some (rootp (nil T) a)"
    "rd rcolor p T = Some c" "p \<noteq> nil T"
    using rep_rd [OF 1] by simp_all
  show "rd rleft g T = Some p" "rd rright g T = Some (rootp (nil T) u)" "rd rparent g T = Some (par_of (nil T) cs)"
    using rep_rd [OF assms] by simp_all
  show "rd rcolor (rootp (nil T) u) T = Some (scol u)" using rep_rd_color [OF 2] .
  show "rootp (nil T) u \<noteq> p" using assms by (intro rootp_neq) (auto simp: rep_plug)
qed

lemma rep_rdR:
  assumes "rep T (plug cs (Nd u g d gk (Nd a p c pk b)))"
  shows "rd rparent p T = Some g" and "rd rright g T = Some p" and "rd rleft g T = Some (rootp (nil T) u)"
    and "rd rcolor (rootp (nil T) u) T = Some (scol u)" and "rd rright p T = Some (rootp (nil T) b)"
    and "rd rleft p T = Some (rootp (nil T) a)" and "rd rparent g T = Some (par_of (nil T) cs)"
    and "rootp (nil T) u \<noteq> p" and "rd rcolor p T = Some c" and "p \<noteq> nil T"
proof -
  have 1: "rep T (plug (FR u g d gk # cs) (Nd a p c pk b))"
    and 2: "rep T (plug (FL g d gk (Nd a p c pk b) # cs) u)" using assms by simp_all
  show "rd rparent p T = Some g" "rd rright p T = Some (rootp (nil T) b)" "rd rleft p T = Some (rootp (nil T) a)"
    "rd rcolor p T = Some c" "p \<noteq> nil T"
    using rep_rd [OF 1] by simp_all
  show "rd rright g T = Some p" "rd rleft g T = Some (rootp (nil T) u)" "rd rparent g T = Some (par_of (nil T) cs)"
    using rep_rd [OF assms] by simp_all
  show "rd rcolor (rootp (nil T) u) T = Some (scol u)" using rep_rd_color [OF 2] .
  show "rootp (nil T) u \<noteq> p" using assms by (intro rootp_neq) (auto simp: rep_plug)
qed

text \<open>A red uncle: the parent and the uncle become black, the grandparent red.\<close>

lemma insert_step_L_red:
  assumes rep: "rep T (plug cs (Nd (Nd a p RED pk b) g gc gk (Nd ul u RED uk ur)))" (is "rep T ?t")
    and z: "rd rparent z T = Some p"
  obtains T' where "insert_fixup_step T z = Some (T', g)"
    and "moved T ?t T' (plug cs (Nd (Nd a p BLACK pk b) g RED gk (Nd ul u BLACK uk ur)))"
proof -
  note R = rep_rdL [OF rep]
  obtain T1 where 1: "wr (set_color BLACK) p T = Some T1"
    "moved T ?t T1 (plug cs (Nd (Nd a p BLACK pk b) g gc gk (Nd ul u RED uk ur)))"
    using moved_color [of T "FL g gc gk (Nd ul u RED uk ur) # cs"] rep by simp metis
  obtain T2 where 2: "wr (set_color BLACK) u T1 = Some T2"
    "moved T1 (plug cs (Nd (Nd a p BLACK pk b) g gc gk (Nd ul u RED uk ur))) T2
       (plug cs (Nd (Nd a p BLACK pk b) g gc gk (Nd ul u BLACK uk ur)))"
    using moved_color [of T1 "FR (Nd a p BLACK pk b) g gc gk # cs"] moved_rep [OF 1(2)] by simp metis
  obtain T3 where 3: "wr (set_color RED) g T2 = Some T3"
    "moved T2 (plug cs (Nd (Nd a p BLACK pk b) g gc gk (Nd ul u BLACK uk ur))) T3
       (plug cs (Nd (Nd a p BLACK pk b) g RED gk (Nd ul u BLACK uk ur)))"
    using moved_color [OF moved_rep [OF 2(2)]] by metis
  have "insert_fixup_step T z = Some (T3, g)"
    using z R 1(1) 2(1) 3(1) by (simp add: insert_fixup_step_def)
  with 1(2) 2(2) 3(2) show ?thesis using that moved_trans by blast
qed

lemma insert_step_R_red:
  assumes rep: "rep T (plug cs (Nd (Nd ul u RED uk ur) g gc gk (Nd a p RED pk b)))" (is "rep T ?t")
    and z: "rd rparent z T = Some p"
  obtains T' where "insert_fixup_step T z = Some (T', g)"
    and "moved T ?t T' (plug cs (Nd (Nd ul u BLACK uk ur) g RED gk (Nd a p BLACK pk b)))"
proof -
  note R = rep_rdR [OF rep]
  obtain T1 where 1: "wr (set_color BLACK) p T = Some T1"
    "moved T ?t T1 (plug cs (Nd (Nd ul u RED uk ur) g gc gk (Nd a p BLACK pk b)))"
    using moved_color [of T "FR (Nd ul u RED uk ur) g gc gk # cs"] rep by simp metis
  obtain T2 where 2: "wr (set_color BLACK) u T1 = Some T2"
    "moved T1 (plug cs (Nd (Nd ul u RED uk ur) g gc gk (Nd a p BLACK pk b))) T2
       (plug cs (Nd (Nd ul u BLACK uk ur) g gc gk (Nd a p BLACK pk b)))"
    using moved_color [of T1 "FL g gc gk (Nd a p BLACK pk b) # cs"] moved_rep [OF 1(2)] by simp metis
  obtain T3 where 3: "wr (set_color RED) g T2 = Some T3"
    "moved T2 (plug cs (Nd (Nd ul u BLACK uk ur) g gc gk (Nd a p BLACK pk b))) T3
       (plug cs (Nd (Nd ul u BLACK uk ur) g RED gk (Nd a p BLACK pk b)))"
    using moved_color [OF moved_rep [OF 2(2)]] by metis
  have "insert_fixup_step T z = Some (T3, g)"
    using z R 1(1) 2(1) 3(1) by (simp add: insert_fixup_step_def)
  with 1(2) 2(2) 3(2) show ?thesis using that moved_trans by blast
qed

text \<open>A black uncle: after an inner grandchild was rotated outwards, one rotation is left.\<close>

lemma insert_rotate_L:
  assumes rep: "rep T (plug cs (Nd (Nd a p c pk b) g gc gk u))" (is "rep T ?t")
    and z: "rd rparent z T = Some p"
  obtains T2 T3 T' where "wr (set_color BLACK) p T = Some T2" and "rd rparent p T2 = Some g"
    and "wr (set_color RED) g T2 = Some T3" and "rbtree_right_rotate T3 g = Some T'"
    and "moved T ?t T' (plug cs (Nd a p BLACK pk (Nd b g RED gk u)))"
proof -
  obtain T2 where 2: "wr (set_color BLACK) p T = Some T2"
    "moved T ?t T2 (plug cs (Nd (Nd a p BLACK pk b) g gc gk u))"
    using moved_color [of T "FL g gc gk u # cs"] rep by simp metis
  obtain T3 where 3: "wr (set_color RED) g T2 = Some T3"
    "moved T2 (plug cs (Nd (Nd a p BLACK pk b) g gc gk u)) T3 (plug cs (Nd (Nd a p BLACK pk b) g RED gk u))"
    using moved_color [OF moved_rep [OF 2(2)]] by metis
  obtain T' where 4: "rbtree_right_rotate T3 g = Some T'"
    "moved T3 (plug cs (Nd (Nd a p BLACK pk b) g RED gk u)) T' (plug cs (Nd a p BLACK pk (Nd b g RED gk u)))"
    using moved_right [OF moved_rep [OF 3(2)]] by metis
  show ?thesis
    using that 2(1) rep_rdL(1) [OF moved_rep [OF 2(2)]] 3(1) 4(1)
      moved_trans [OF moved_trans [OF 2(2) 3(2)] 4(2)] by blast
qed

lemma insert_rotate_R:
  assumes rep: "rep T (plug cs (Nd u g gc gk (Nd a p c pk b)))" (is "rep T ?t")
    and z: "rd rparent z T = Some p"
  obtains T2 T3 T' where "wr (set_color BLACK) p T = Some T2" and "rd rparent p T2 = Some g"
    and "wr (set_color RED) g T2 = Some T3" and "rbtree_left_rotate T3 g = Some T'"
    and "moved T ?t T' (plug cs (Nd (Nd u g RED gk a) p BLACK pk b))"
proof -
  obtain T2 where 2: "wr (set_color BLACK) p T = Some T2"
    "moved T ?t T2 (plug cs (Nd u g gc gk (Nd a p BLACK pk b)))"
    using moved_color [of T "FR u g gc gk # cs"] rep by simp metis
  obtain T3 where 3: "wr (set_color RED) g T2 = Some T3"
    "moved T2 (plug cs (Nd u g gc gk (Nd a p BLACK pk b))) T3 (plug cs (Nd u g RED gk (Nd a p BLACK pk b)))"
    using moved_color [OF moved_rep [OF 2(2)]] by metis
  obtain T' where 4: "rbtree_left_rotate T3 g = Some T'"
    "moved T3 (plug cs (Nd u g RED gk (Nd a p BLACK pk b))) T' (plug cs (Nd (Nd u g RED gk a) p BLACK pk b))"
    using moved_left [OF moved_rep [OF 3(2)]] by metis
  show ?thesis
    using that 2(1) rep_rdR(1) [OF moved_rep [OF 2(2)]] 3(1) 4(1)
      moved_trans [OF moved_trans [OF 2(2) 3(2)] 4(2)] by blast
qed

lemma insert_step_LL:
  assumes rep: "rep T (plug cs (Nd (Nd (Nd zl z zc zk zr) p RED pk b) g gc gk u))" (is "rep T ?t")
    and u: "scol u = BLACK"
  obtains T' where "insert_fixup_step T z = Some (T', z)"
    and "moved T ?t T' (plug cs (Nd (Nd zl z zc zk zr) p BLACK pk (Nd b g RED gk u)))"
proof -
  note R = rep_rdL [OF rep]
  have z: "rd rparent z T = Some p"
    using rep_rdL(1) [of T "FL g gc gk u # cs" zl z zc zk zr p RED pk b] rep by simp
  have "rootp (nil T) b \<noteq> z" using rep by (intro rootp_neq) (auto simp: rep_plug)
  moreover obtain T2 T3 T' where "wr (set_color BLACK) p T = Some T2" "rd rparent p T2 = Some g"
    "wr (set_color RED) g T2 = Some T3" "rbtree_right_rotate T3 g = Some T'"
    "moved T ?t T' (plug cs (Nd (Nd zl z zc zk zr) p BLACK pk (Nd b g RED gk u)))"
    using insert_rotate_L [OF rep z] by metis
  ultimately show ?thesis using that z R u by (auto simp: insert_fixup_step_def)
qed

lemma insert_step_LR:
  assumes rep: "rep T (plug cs (Nd (Nd a p RED pk (Nd zl z zc zk zr)) g gc gk u))" (is "rep T ?t")
    and u: "scol u = BLACK"
  obtains T' where "insert_fixup_step T z = Some (T', p)"
    and "moved T ?t T' (plug cs (Nd (Nd a p RED pk zl) z BLACK zk (Nd zr g RED gk u)))"
proof -
  note R = rep_rdL [OF rep]
  have z: "rd rparent z T = Some p"
    using rep_rdR(1) [of T "FL g gc gk u # cs" a p RED pk zl z zc zk zr] rep by simp
  let ?t1 = "plug cs (Nd (Nd (Nd a p RED pk zl) z zc zk zr) g gc gk u)"
  obtain T1 where 1: "rbtree_left_rotate T p = Some T1" "moved T ?t T1 ?t1"
    using moved_left [of T "FL g gc gk u # cs"] rep by simp metis
  have p: "rd rparent p T1 = Some z"
    using rep_rdL(1) [of T1 "FL g gc gk u # cs" a p RED pk zl z zc zk zr] moved_rep [OF 1(2)] by simp
  obtain T2 T3 T' where "wr (set_color BLACK) z T1 = Some T2" "rd rparent z T2 = Some g"
    "wr (set_color RED) g T2 = Some T3" "rbtree_right_rotate T3 g = Some T'"
    "moved T1 ?t1 T' (plug cs (Nd (Nd a p RED pk zl) z BLACK zk (Nd zr g RED gk u)))"
    using insert_rotate_L [OF moved_rep [OF 1(2)] p] by metis
  moreover from this(5) have "moved T ?t T' (plug cs (Nd (Nd a p RED pk zl) z BLACK zk (Nd zr g RED gk u)))"
    using moved_trans [OF 1(2)] by blast
  ultimately show ?thesis using that z R u p 1(1) by (auto simp: insert_fixup_step_def)
qed

lemma insert_step_RR:
  assumes rep: "rep T (plug cs (Nd u g gc gk (Nd b p RED pk (Nd zl z zc zk zr))))" (is "rep T ?t")
    and u: "scol u = BLACK"
  obtains T' where "insert_fixup_step T z = Some (T', z)"
    and "moved T ?t T' (plug cs (Nd (Nd u g RED gk b) p BLACK pk (Nd zl z zc zk zr)))"
proof -
  note R = rep_rdR [OF rep]
  have z: "rd rparent z T = Some p"
    using rep_rdR(1) [of T "FR u g gc gk # cs" b p RED pk zl z zc zk zr] rep by simp
  have "rootp (nil T) b \<noteq> z" using rep by (intro rootp_neq) (auto simp: rep_plug)
  moreover obtain T2 T3 T' where "wr (set_color BLACK) p T = Some T2" "rd rparent p T2 = Some g"
    "wr (set_color RED) g T2 = Some T3" "rbtree_left_rotate T3 g = Some T'"
    "moved T ?t T' (plug cs (Nd (Nd u g RED gk b) p BLACK pk (Nd zl z zc zk zr)))"
    using insert_rotate_R [OF rep z] by metis
  ultimately show ?thesis using that z R u by (auto simp: insert_fixup_step_def)
qed

lemma insert_step_RL:
  assumes rep: "rep T (plug cs (Nd u g gc gk (Nd (Nd zl z zc zk zr) p RED pk a)))" (is "rep T ?t")
    and u: "scol u = BLACK"
  obtains T' where "insert_fixup_step T z = Some (T', p)"
    and "moved T ?t T' (plug cs (Nd (Nd u g RED gk zl) z BLACK zk (Nd zr p RED pk a)))"
proof -
  note R = rep_rdR [OF rep]
  have z: "rd rparent z T = Some p"
    using rep_rdL(1) [of T "FR u g gc gk # cs" zl z zc zk zr p RED pk a] rep by simp
  let ?t1 = "plug cs (Nd u g gc gk (Nd zl z zc zk (Nd zr p RED pk a)))"
  obtain T1 where 1: "rbtree_right_rotate T p = Some T1" "moved T ?t T1 ?t1"
    using moved_right [of T "FR u g gc gk # cs"] rep by simp metis
  have p: "rd rparent p T1 = Some z"
    using rep_rdR(1) [of T1 "FR u g gc gk # cs" zl z zc zk zr p RED pk a] moved_rep [OF 1(2)] by simp
  obtain T2 T3 T' where "wr (set_color BLACK) z T1 = Some T2" "rd rparent z T2 = Some g"
    "wr (set_color RED) g T2 = Some T3" "rbtree_left_rotate T3 g = Some T'"
    "moved T1 ?t1 T' (plug cs (Nd (Nd u g RED gk zl) z BLACK zk (Nd zr p RED pk a)))"
    using insert_rotate_R [OF moved_rep [OF 1(2)] p] by metis
  moreover from this(5) have "moved T ?t T' (plug cs (Nd (Nd u g RED gk zl) z BLACK zk (Nd zr p RED pk a)))"
    using moved_trans [OF 1(2)] by blast
  ultimately show ?thesis using that z R u p 1(1) by (auto simp: insert_fixup_step_def)
qed

section \<open>The insertion fix-up\<close>

lemma rep_parent_color: "rep T (plug cs t) \<Longrightarrow> rd rcolor (par_of (nil T) cs) T = Some (ccol cs)"
proof (cases cs)
  case Nil
  then show "rep T (plug cs t) \<Longrightarrow> ?thesis" by (simp add: rep_nil_color)
next
  case (Cons f ds)
  then show "rep T (plug cs t) \<Longrightarrow> ?thesis" by (cases f) (auto dest: rep_rd(1))
qed

lemma insert_loop_stop:
  assumes "rep T (plug cs (Nd zl z c zk zr))" and "ccol cs = BLACK"
  shows "insert_fixup_loop T z = Some T"
  using rep_rd(4) [OF assms(1)] rep_parent_color [OF assms(1)] assms(2)
  by (simp add: insert_fixup_loop.simps [of T z])

lemma insert_loop_next:
  assumes "rep T (plug cs (Nd zl z c zk zr))" and "ccol cs = RED" and "insert_fixup_step T z = Some (T', z')"
  shows "insert_fixup_loop T z = insert_fixup_loop T' z'"
  using rep_rd(4) [OF assms(1)] rep_parent_color [OF assms(1)] assms(2,3)
  by (simp add: insert_fixup_loop.simps [of T z])

text \<open>The tree around a red node that may have a red parent.\<close>

definition ins_ok :: "frame list \<Rightarrow> shape \<Rightarrow> bool" where
  "ins_ok cs t \<longleftrightarrow> invc t \<and> invh t \<and> scol t = RED \<and> cinv (bheight t) cs \<and> cblack cs"

text \<open>What the loop leaves behind: only the root may still be red.\<close>

definition ins_done :: "shape \<Rightarrow> bool" where
  "ins_done t \<longleftrightarrow> invc t \<and> invh t \<and> t \<noteq> Lf"

lemma ins_done_plug:
  assumes "invc t" and "invh t" and "cinv (bheight t) cs" and "scol t = RED \<longrightarrow> ccol cs = BLACK" and "t \<noteq> Lf"
  shows "ins_done (plug cs t)"
proof -
  have "plug cs t \<noteq> Lf"
    using assms(5)
  proof (induction cs arbitrary: t)
    case (Cons f cs)
    show ?case using Cons.IH [of "fill f t"] by (cases f) auto
  qed simp
  then show ?thesis using rb_plug [of cs t] assms by (simp add: ins_done_def)
qed

text \<open>
  One iteration below a red parent: it either moves the problem two levels up, or solves it
  and leaves \<open>z\<close> below a black parent.
\<close>

definition iter_result :: "rbtree \<Rightarrow> shape \<Rightarrow> frame list \<Rightarrow> addr \<Rightarrow> bool" where
  "iter_result T t ds z \<longleftrightarrow>
     (\<exists>T1 w wl wk wx. insert_fixup_step T z = Some (T1, w) \<and>
        moved T t T1 (plug ds (Nd wl w RED wk wx)) \<and> ins_ok ds (Nd wl w RED wk wx)) \<or>
     (\<exists>T1 es w wl wc wk wx. insert_fixup_step T z = Some (T1, w) \<and>
        moved T t T1 (plug es (Nd wl w wc wk wx)) \<and> ccol es = BLACK \<and> ins_done (plug es (Nd wl w wc wk wx)))"

lemma iter_up:
  "insert_fixup_step T z = Some (T1, w) \<Longrightarrow> moved T t T1 (plug ds (Nd wl w RED wk wx)) \<Longrightarrow>
   ins_ok ds (Nd wl w RED wk wx) \<Longrightarrow> iter_result T t ds z"
  unfolding iter_result_def by blast

lemma iter_done:
  "insert_fixup_step T z = Some (T1, w) \<Longrightarrow> moved T t T1 (plug es (Nd wl w wc wk wx)) \<Longrightarrow> ccol es = BLACK \<Longrightarrow>
   ins_done (plug es (Nd wl w wc wk wx)) \<Longrightarrow> iter_result T t ds z"
  unfolding iter_result_def by blast

lemma insert_iter_L:
  assumes rep: "rep T (plug ds (Nd (Nd a p RED pk b) g BLACK gk u))" (is "rep T ?t")
    and z: "a = Nd zl z RED zk zr \<or> b = Nd zl z RED zk zr"
    and inv: "invc a" "invc b" "invc u" "invh a" "invh b" "invh u" "bheight a = bheight b"
      "bheight u = bheight b" "cinv (Suc (bheight b)) ds" "cblack ds"
    and one: "scol a = BLACK \<or> scol b = BLACK"
  shows "iter_result T ?t ds z"
proof (cases "scol u")
  case RED
  then obtain ul ua uk ur where u: "u = Nd ul ua RED uk ur" by (cases u) auto
  have "rd rparent z T = Some p"
    using z
  proof
    assume "a = Nd zl z RED zk zr"
    then show ?thesis using rep_rdL(1) [of T "FL g BLACK gk u # ds" zl z] rep by simp
  next
    assume "b = Nd zl z RED zk zr"
    then show ?thesis using rep_rdR(1) [of T "FL g BLACK gk u # ds" a p] rep by simp
  qed
  then obtain T' where "insert_fixup_step T z = Some (T', g)"
    "moved T ?t T' (plug ds (Nd (Nd a p BLACK pk b) g RED gk (Nd ul ua BLACK uk ur)))"
    using insert_step_L_red [of T ds a p pk b g BLACK gk ul ua uk ur z] rep u by metis
  then show ?thesis by (rule iter_up) (use inv u in \<open>auto simp: ins_ok_def\<close>)
next
  case BLACK
  from z show ?thesis
  proof
    assume a: "a = Nd zl z RED zk zr"
    obtain T' where "insert_fixup_step T z = Some (T', z)"
      "moved T ?t T' (plug (FL p BLACK pk (Nd b g RED gk u) # ds) (Nd zl z RED zk zr))"
      using insert_step_LL [of T ds zl z RED zk zr p pk b g BLACK gk u] rep BLACK a by auto
    then show ?thesis
      by (rule iter_done) (use inv one a BLACK in \<open>auto intro!: ins_done_plug\<close>)
  next
    assume b: "b = Nd zl z RED zk zr"
    obtain T' where "insert_fixup_step T z = Some (T', p)"
      "moved T ?t T' (plug (FL z BLACK zk (Nd zr g RED gk u) # ds) (Nd a p RED pk zl))"
      using insert_step_LR [of T ds a p pk zl z RED zk zr g BLACK gk u] rep BLACK b by auto
    then show ?thesis
      by (rule iter_done) (use inv one b BLACK in \<open>auto intro!: ins_done_plug\<close>)
  qed
qed

lemma insert_iter_R:
  assumes rep: "rep T (plug ds (Nd u g BLACK gk (Nd a p RED pk b)))" (is "rep T ?t")
    and z: "a = Nd zl z RED zk zr \<or> b = Nd zl z RED zk zr"
    and inv: "invc a" "invc b" "invc u" "invh a" "invh b" "invh u" "bheight a = bheight b"
      "bheight u = bheight b" "cinv (Suc (bheight b)) ds" "cblack ds"
    and one: "scol a = BLACK \<or> scol b = BLACK"
  shows "iter_result T ?t ds z"
proof (cases "scol u")
  case RED
  then obtain ul ua uk ur where u: "u = Nd ul ua RED uk ur" by (cases u) auto
  have "rd rparent z T = Some p"
    using z
  proof
    assume "a = Nd zl z RED zk zr"
    then show ?thesis using rep_rdL(1) [of T "FR u g BLACK gk # ds" zl z] rep by simp
  next
    assume "b = Nd zl z RED zk zr"
    then show ?thesis using rep_rdR(1) [of T "FR u g BLACK gk # ds" a p] rep by simp
  qed
  then obtain T' where "insert_fixup_step T z = Some (T', g)"
    "moved T ?t T' (plug ds (Nd (Nd ul ua BLACK uk ur) g RED gk (Nd a p BLACK pk b)))"
    using insert_step_R_red [of T ds ul ua uk ur g BLACK gk a p pk b z] rep u by metis
  then show ?thesis by (rule iter_up) (use inv u in \<open>auto simp: ins_ok_def\<close>)
next
  case BLACK
  from z show ?thesis
  proof
    assume b: "b = Nd zl z RED zk zr"
    obtain T' where "insert_fixup_step T z = Some (T', z)"
      "moved T ?t T' (plug (FR (Nd u g RED gk a) p BLACK pk # ds) (Nd zl z RED zk zr))"
      using insert_step_RR [of T ds u g BLACK gk a p pk zl z RED zk zr] rep BLACK b by auto
    then show ?thesis
      by (rule iter_done) (use inv one b BLACK in \<open>auto intro!: ins_done_plug\<close>)
  next
    assume a: "a = Nd zl z RED zk zr"
    obtain T' where "insert_fixup_step T z = Some (T', p)"
      "moved T ?t T' (plug (FR (Nd u g RED gk zl) z BLACK zk # ds) (Nd zr p RED pk b))"
      using insert_step_RL [of T ds u g BLACK gk zl z RED zk zr p pk b] rep BLACK a by auto
    then show ?thesis
      by (rule iter_done) (use inv one a BLACK in \<open>auto intro!: ins_done_plug\<close>)
  qed
qed

lemma insert_iter:
  assumes rep: "rep T (plug (f # g # ds) (Nd zl z RED zk zr))"
    and ok: "ins_ok (f # g # ds) (Nd zl z RED zk zr)" and red: "ccol (f # g # ds) = RED"
  shows "iter_result T (plug (f # g # ds) (Nd zl z RED zk zr)) ds z"
proof -
  let ?z = "Nd zl z RED zk zr"
  have cb: "cblack ds" using ok by (auto simp: ins_ok_def dest: cblack_tl)
  show ?thesis
  proof (cases g)
    case (FL g' gc gk u)
    show ?thesis
    proof (cases f)
      case f: (FL p pc pk b)
      have c: "pc = RED" "gc = BLACK" using ok red f FL by (auto simp: ins_ok_def)
      show ?thesis using rep unfolding FL f c plug.simps fill.simps
        by (rule insert_iter_L [where zl = zl and zk = zk and zr = zr])
          (use ok cb in \<open>auto simp: ins_ok_def FL f c\<close>)
    next
      case f: (FR a p pc pk)
      have c: "pc = RED" "gc = BLACK" using ok red f FL by (auto simp: ins_ok_def)
      show ?thesis using rep unfolding FL f c plug.simps fill.simps
        by (rule insert_iter_L [where zl = zl and zk = zk and zr = zr])
          (use ok cb in \<open>auto simp: ins_ok_def FL f c\<close>)
    qed
  next
    case (FR u g' gc gk)
    show ?thesis
    proof (cases f)
      case f: (FL p pc pk b)
      have c: "pc = RED" "gc = BLACK" using ok red f FR by (auto simp: ins_ok_def)
      show ?thesis using rep unfolding FR f c plug.simps fill.simps
        by (rule insert_iter_R [where zl = zl and zk = zk and zr = zr])
          (use ok cb in \<open>auto simp: ins_ok_def FR f c\<close>)
    next
      case f: (FR a p pc pk)
      have c: "pc = RED" "gc = BLACK" using ok red f FR by (auto simp: ins_ok_def)
      show ?thesis using rep unfolding FR f c plug.simps fill.simps
        by (rule insert_iter_R [where zl = zl and zk = zk and zr = zr])
          (use ok cb in \<open>auto simp: ins_ok_def FR f c\<close>)
    qed
  qed
qed

lemma insert_loop_ok:
  assumes "rep T (plug cs (Nd zl z RED zk zr))" and "ins_ok cs (Nd zl z RED zk zr)"
  shows "\<exists>T' t'. insert_fixup_loop T z = Some T' \<and>
           moved T (plug cs (Nd zl z RED zk zr)) T' t' \<and> ins_done t'"
  using assms
proof (induction "length cs" arbitrary: cs T zl z zk zr rule: less_induct)
  case less
  let ?z = "Nd zl z RED zk zr"
  note rep = less.prems(1) and ok = less.prems(2)
  show ?case
  proof (cases "ccol cs")
    case BLACK
    then have "ins_done (plug cs ?z)" using ok by (intro ins_done_plug) (auto simp: ins_ok_def)
    with insert_loop_stop [OF rep BLACK] moved_refl [OF rep] show ?thesis by blast
  next
    case RED
    then obtain f g ds where cs: "cs = f # g # ds"
      using ok by (cases cs rule: cblack.cases) (auto simp: ins_ok_def)
    have "iter_result T (plug cs ?z) ds z"
      using insert_iter rep ok RED unfolding cs by blast
    then consider (up) T1 w wl wk wx where "insert_fixup_step T z = Some (T1, w)"
        "moved T (plug cs ?z) T1 (plug ds (Nd wl w RED wk wx))" "ins_ok ds (Nd wl w RED wk wx)"
      | (over) T1 es w wl wc wk wx where "insert_fixup_step T z = Some (T1, w)"
        "moved T (plug cs ?z) T1 (plug es (Nd wl w wc wk wx))" "ccol es = BLACK"
        "ins_done (plug es (Nd wl w wc wk wx))"
      unfolding iter_result_def by blast
    then show ?thesis
    proof cases
      case up
      have "\<exists>T' t'. insert_fixup_loop T1 w = Some T' \<and> moved T1 (plug ds (Nd wl w RED wk wx)) T' t' \<and> ins_done t'"
        using less.hyps [of ds T1] moved_rep [OF up(2)] up(3) cs by simp
      then show ?thesis
        using insert_loop_next [OF rep RED up(1)] moved_trans [OF up(2)] by auto
    next
      case over
      then show ?thesis
        using insert_loop_next [OF rep RED over(1)] insert_loop_stop [OF moved_rep [OF over(2)] over(3)] by auto
    qed
  qed
qed

lemma rbtree_insert_fixup_ok:
  assumes "rep T (plug cs (Nd zl z RED zk zr))" and "ins_ok cs (Nd zl z RED zk zr)"
  shows "\<exists>T' t'. rbtree_insert_fixup T z = Some T' \<and>
           moved T (plug cs (Nd zl z RED zk zr)) T' t' \<and> rbt t'"
proof -
  obtain T1 t1 where 1: "insert_fixup_loop T z = Some T1"
    "moved T (plug cs (Nd zl z RED zk zr)) T1 t1" "ins_done t1"
    using insert_loop_ok [OF assms] by blast
  then obtain l a c kv r where t1: "t1 = Nd l a c kv r" by (cases t1) (auto simp: ins_done_def)
  with moved_rep [OF 1(2)] have rep1: "rep T1 (plug [] (Nd l a c kv r))" by simp
  then obtain T2 where 2: "wr (set_color BLACK) a T1 = Some T2"
    "moved T1 t1 T2 (Nd l a BLACK kv r)"
    using moved_color [of T1 "[]" l a c kv r BLACK] t1 by auto
  have "rbtree_insert_fixup T z = Some T2"
    using 1(1) 2(1) rep_root [OF rep1] by (simp add: rbtree_insert_fixup_def)
  moreover have "rbt (Nd l a BLACK kv r)" using 1(3) t1 by (simp add: ins_done_def rbt_def)
  ultimately show ?thesis using moved_trans [OF 1(2) 2(2)] by blast
qed

section \<open>Searching\<close>

lemma before_append: "before (cs @ ds) = before ds @ before cs"
proof (induction cs)
  case (Cons f cs)
  then show ?case by (cases f) auto
qed simp

lemma after_append: "after (cs @ ds) = after cs @ after ds"
proof (induction cs)
  case (Cons f cs)
  then show ?case by (cases f) auto
qed simp

lemma rep_key_cmp:
  assumes "rep T (plug cs (Nd l a c kv r))" and "is_str (fst kv)"
  shows "key_cmp k a T = Some (strcmp k (cstr_of (fst kv)))"
  using rep_rd(5) [OF assms(1)] assms(2) by (simp add: key_cmp_def)

lemma keys_ok_parts:
  assumes "keys_ok (xs @ e # ys)"
  shows "keys_ok xs" and "keys_ok ys" and "is_str (fst (snd e))" and "is_str (snd (snd e))"
    and "x \<in> set xs \<Longrightarrow> skey x < skey e" and "y \<in> set ys \<Longrightarrow> skey e < skey y"
  using assms by (auto simp: keys_ok_def sorted_wrt_append)

text \<open>\<open>rbtree_search\<close> ends at the node with the key, or at \<open>nil\<close> when there is none.\<close>

lemma search_from_ok:
  assumes "rep T (plug cs t)" and "keys_ok (inorder t)"
  shows "(\<exists>ds l a c kv r. t = plug ds (Nd l a c kv r) \<and> cstr_of (fst kv) = k \<and>
            search_from T (rootp (nil T) t) k = Some a) \<or>
         (k \<notin> skey ` set (inorder t) \<and> search_from T (rootp (nil T) t) k = Some (nil T))"
  using assms
proof (induction t arbitrary: cs)
  case Lf
  then show ?case by (simp add: search_from.simps)
next
  case (Nd l a c kv r)
  let ?t = "Nd l a c kv r"
  note K = keys_ok_parts [OF Nd.prems(2) [unfolded inorder.simps]]
  note R = rep_rd [OF Nd.prems(1)]
  have cmp: "key_cmp k a T = Some (strcmp k (cstr_of (fst kv)))"
    using rep_key_cmp [OF Nd.prems(1)] K(3) by simp
  consider "k = cstr_of (fst kv)" | "k < cstr_of (fst kv)" | "cstr_of (fst kv) < k" by fastforce
  then show ?case
  proof cases
    case 1
    then show ?thesis using cmp R(7)
      by (intro disjI1 exI [of _ "[]"]) (simp add: search_from.simps [of T a])
  next
    case 2
    then have s: "search_from T a k = search_from T (rootp (nil T) l) k"
      using cmp R by (simp add: search_from.simps [of T a])
    have nr: "k \<notin> skey ` set (inorder r)" using K(6) 2 by fastforce
    have "rep T (plug (FL a c kv r # cs) l)" using Nd.prems(1) by simp
    from Nd.IH(1) [OF this K(1)] show ?thesis
    proof (elim disjE exE conjE)
      fix ds l' b c' kw r' assume "l = plug ds (Nd l' b c' kw r')" "cstr_of (fst kw) = k"
        "search_from T (rootp (nil T) l) k = Some b"
      then show ?thesis using s
        by (intro disjI1 exI [of _ "ds @ [FL a c kv r]"] exI [of _ l'] exI [of _ b] exI [of _ c']
            exI [of _ kw] exI [of _ r']) (simp add: plug_append)
    qed (use s nr 2 in auto)
  next
    case 3
    then have s: "search_from T a k = search_from T (rootp (nil T) r) k"
      using cmp R less_not_sym [OF 3] by (simp add: search_from.simps [of T a])
    have nl: "k \<notin> skey ` set (inorder l)" using K(5) 3 by fastforce
    have "rep T (plug (FR l a c kv # cs) r)" using Nd.prems(1) by simp
    from Nd.IH(2) [OF this K(2)] show ?thesis
    proof (elim disjE exE conjE)
      fix ds l' b c' kw r' assume "r = plug ds (Nd l' b c' kw r')" "cstr_of (fst kw) = k"
        "search_from T (rootp (nil T) r) k = Some b"
      then show ?thesis using s
        by (intro disjI1 exI [of _ "ds @ [FR l a c kv]"] exI [of _ l'] exI [of _ b] exI [of _ c']
            exI [of _ kw] exI [of _ r']) (simp add: plug_append)
    qed (use s nl 3 in auto)
  qed
qed

text \<open>The descent of \<open>rbtree_insert\<close> finds the leaf where the key belongs.\<close>

lemma insert_descend_ok:
  assumes "rep T (plug cs t)" and "keys_ok (inorder t)"
  shows "(k \<in> skey ` set (inorder t) \<and> insert_descend T k (par_of (nil T) cs) (rootp (nil T) t) = Some None) \<or>
         (\<exists>ds. t = plug ds Lf \<and>
            insert_descend T k (par_of (nil T) cs) (rootp (nil T) t) = Some (Some (par_of (nil T) (ds @ cs))) \<and>
            (\<forall>e\<in>set (before ds). skey e < k) \<and> (\<forall>e\<in>set (after ds). k < skey e))"
  using assms
proof (induction t arbitrary: cs)
  case Lf
  then show ?case by (intro disjI2 exI [of _ "[]"]) (simp add: insert_descend.simps)
next
  case (Nd l a c kv r)
  note K = keys_ok_parts [OF Nd.prems(2) [unfolded inorder.simps]]
  note R = rep_rd [OF Nd.prems(1)]
  let ?p = "par_of (nil T) cs"
  have cmp: "key_cmp k a T = Some (strcmp k (cstr_of (fst kv)))"
    using rep_key_cmp [OF Nd.prems(1)] K(3) by simp
  consider "k = cstr_of (fst kv)" | "k < cstr_of (fst kv)" | "cstr_of (fst kv) < k" by fastforce
  then show ?case
  proof cases
    case 1
    then show ?thesis using cmp R(7)
      by (simp add: insert_descend.simps [of T "cstr_of (fst kv)" ?p a])
  next
    case 2
    then have s: "insert_descend T k ?p a = insert_descend T k a (rootp (nil T) l)"
      using cmp R by (simp add: insert_descend.simps [of T k ?p a])
    have "rep T (plug (FL a c kv r # cs) l)" using Nd.prems(1) by simp
    from Nd.IH(1) [OF this K(1)] show ?thesis
    proof (elim disjE exE conjE)
      fix ds assume "l = plug ds Lf" "\<forall>e\<in>set (before ds). skey e < k" "\<forall>e\<in>set (after ds). k < skey e"
        "insert_descend T k (par_of (nil T) (FL a c kv r # cs)) (rootp (nil T) l) =
         Some (Some (par_of (nil T) (ds @ FL a c kv r # cs)))"
      then show ?thesis using s 2 K(6)
        by (intro disjI2 exI [of _ "ds @ [FL a c kv r]"])
          (auto simp: plug_append before_append after_append intro: less_trans)
    qed (use s in auto)
  next
    case 3
    then have s: "insert_descend T k ?p a = insert_descend T k a (rootp (nil T) r)"
      using cmp R less_not_sym [OF 3] by (simp add: insert_descend.simps [of T k ?p a])
    have ll: "\<forall>e\<in>set (inorder l). skey e < k" using K(5) 3 by (metis fst_conv less_trans snd_conv)
    have "rep T (plug (FR l a c kv # cs) r)" using Nd.prems(1) by simp
    from Nd.IH(2) [OF this K(2)] show ?thesis
    proof (elim disjE exE conjE)
      fix ds assume "r = plug ds Lf" "\<forall>e\<in>set (before ds). skey e < k" "\<forall>e\<in>set (after ds). k < skey e"
        "insert_descend T k (par_of (nil T) (FR l a c kv # cs)) (rootp (nil T) r) =
         Some (Some (par_of (nil T) (ds @ FR l a c kv # cs)))"
      then show ?thesis using s 3 ll
        by (intro disjI2 exI [of _ "ds @ [FR l a c kv]"])
          (auto simp: plug_append before_append after_append)
    qed (use s in auto)
  qed
qed

section \<open>Inserting\<close>

text \<open>Hanging a new node below the leaf that was found.\<close>

definition link_leaf :: "rbtree \<Rightarrow> addr \<Rightarrow> cstring \<Rightarrow> addr \<Rightarrow> rbtree option" where
  "link_leaf T z s y =
     do { T1 \<leftarrow> wr (set_parent y) z T;
          T2 \<leftarrow> (if y = nil T1 then Some (T1\<lparr>root := z\<rparr>)
                 else do { c \<leftarrow> key_cmp s y T1;
                           if c < 0 then wr (set_left z) y T1 else wr (set_right z) y T1 });
          T3 \<leftarrow> wr (set_left (nil T2)) z T2;
          T4 \<leftarrow> wr (set_right (nil T3)) z T3;
          wr (set_color RED) z T4 }"

lemma link_leaf_eq:
  assumes rep: "rep T (plug ds Lf)" and keys: "keys_ok (inorder (plug ds Lf))"
    and z: "z \<notin> set (caddrs ds)" "z \<noteq> nil T" "nodes T z = Some zn"
    and lt: "\<forall>e\<in>set (before ds). skey e < s" "\<forall>e\<in>set (after ds). s < skey e"
  shows "link_leaf T z s (par_of (nil T) ds) =
     Some (T\<lparr>root := (if ds = [] then z else root T),
             nodes := (relink (nil T) z ds (nodes T))
                (z \<mapsto> mk_node (nil T) Lf RED (rkey zn, rvalue zn) Lf (par_of (nil T) ds))\<rparr>)"
proof -
  note R = rep [unfolded rep_plug]
  define T1 where "T1 = T\<lparr>nodes := (nodes T)(z \<mapsto> zn\<lparr>rparent := par_of (nil T) ds\<rparr>)\<rparr>"
  have 1: "wr (set_parent (par_of (nil T) ds)) z T = Some T1" "nil T1 = nil T"
    using z(3) by (simp_all add: wr_def T1_def)
  define T2 where "T2 = T1\<lparr>root := (if ds = [] then z else root T), nodes := relink (nil T) z ds (nodes T1)\<rparr>"
  have 2: "(if par_of (nil T) ds = nil T1 then Some (T1\<lparr>root := z\<rparr>)
      else do { c \<leftarrow> key_cmp s (par_of (nil T) ds) T1;
                if c < 0 then wr (set_left z) (par_of (nil T) ds) T1 else wr (set_right z) (par_of (nil T) ds) T1 }) = Some T2"
  proof (cases ds)
    case (Cons f es)
    show ?thesis
    proof (cases f)
      case (FL q qc qk r)
      then have "is_str (fst qk)" "s < cstr_of (fst qk)"
        using keys lt Cons by (auto simp: inorder_plug keys_ok_def)
      then show ?thesis
        using R z Cons FL by (auto simp: T1_def T2_def key_cmp_def rd_def wr_def)
    next
      case (FR l q qc qk)
      then have "is_str (fst qk)" "cstr_of (fst qk) < s"
        using keys lt Cons by (auto simp: inorder_plug keys_ok_def)
      moreover from this(2) have "\<not> s < cstr_of (fst qk)" by simp
      ultimately show ?thesis
        using R z Cons FR by (auto simp: T1_def T2_def key_cmp_def rd_def wr_def)
    qed
  qed (simp add: T1_def T2_def)
  have n2: "nodes T2 z = Some (zn\<lparr>rparent := par_of (nil T) ds\<rparr>)" "nil T2 = nil T"
    using z(1) by (simp_all add: T2_def T1_def)
  have "link_leaf T z s (par_of (nil T) ds) =
      do { T3 \<leftarrow> wr (set_left (nil T2)) z T2; T4 \<leftarrow> wr (set_right (nil T3)) z T3; wr (set_color RED) z T4 }"
    unfolding link_leaf_def using 1 2 by simp
  also have "\<dots> = Some (T2\<lparr>nodes := (nodes T2)(z \<mapsto>
      mk_node (nil T) Lf RED (rkey zn, rvalue zn) Lf (par_of (nil T) ds))\<rparr>)"
    using n2 by (cases zn) (simp add: wr_def mk_node_def)
  also have "\<dots> = Some (T\<lparr>root := (if ds = [] then z else root T),
             nodes := (relink (nil T) z ds (nodes T))
                (z \<mapsto> mk_node (nil T) Lf RED (rkey zn, rvalue zn) Lf (par_of (nil T) ds))\<rparr>)"
    using z(1) by (simp add: T2_def T1_def reparent_relink_upd)
  finally show ?thesis .
qed

lemma link_leaf_rep:
  assumes rep: "rep T (plug ds Lf)" and keys: "keys_ok (inorder (plug ds Lf))"
    and z: "z \<notin> set (caddrs ds)" "z \<noteq> nil T" "nodes T z = Some zn"
    and lt: "\<forall>e\<in>set (before ds). skey e < s" "\<forall>e\<in>set (after ds). s < skey e"
  shows "\<exists>T'. link_leaf T z s (par_of (nil T) ds) = Some T' \<and>
           rep T' (plug ds (Nd Lf z RED (rkey zn, rvalue zn) Lf)) \<and> nil T' = nil T \<and>
           (\<forall>q. q \<notin> insert z (set (caddrs ds)) \<longrightarrow> nodes T' q = nodes T q)"
proof -
  note R = rep [unfolded rep_plug]
  let ?N = "relink (nil T) z ds (nodes T)"
  let ?T = "T\<lparr>root := (if ds = [] then z else root T),
       nodes := ?N(z \<mapsto> mk_node (nil T) Lf RED (rkey zn, rvalue zn) Lf (par_of (nil T) ds))\<rparr>"
  have "ctx_at ?N (nil T) (root ?T) z ds"
    using ctx_at_relink [of "nodes T" "nil T" "root T" "nil T" ds z] R by (cases "ds = []") auto
  then have "rep ?T (plug ds (Nd Lf z RED (rkey zn, rvalue zn) Lf))"
    unfolding rep_plug using R z(1,2) by auto
  then show ?thesis using link_leaf_eq [OF assms] by auto
qed

text \<open>
  \<open>rbtree_insert\<close> of a node that is not in the tree yet, whose key and value are set.
\<close>

lemma rbtree_insert_ok:
  assumes rep: "rep T t" and rbt: "rbt t" and keys: "keys_ok (inorder t)"
    and z: "z \<notin> set (addrs t)" "z \<noteq> nil T" "nodes T z = Some zn"
    and kv: "rkey zn = CStr ka k" "rvalue zn = CStr va v"
  shows "(k \<in> skey ` set (inorder t) \<longrightarrow> rbtree_insert T z = Some T) \<and>
         (k \<notin> skey ` set (inorder t) \<longrightarrow>
           (\<exists>T' t' xs ys. rbtree_insert T z = Some T' \<and> rep T' t' \<and> rbt t' \<and> inorder t = xs @ ys \<and>
              inorder t' = xs @ (z, (CStr ka k, CStr va v)) # ys \<and> keys_ok (inorder t') \<and> nil T' = nil T \<and>
              (\<forall>q. q \<notin> insert z (set (addrs t)) \<longrightarrow> nodes T' q = nodes T q)))"
proof -
  have rd: "rd rkey z T = Some (CStr ka k)" using z(3) kv by (simp add: rd_def)
  have run: "rbtree_insert T z =
     do { found \<leftarrow> insert_descend T k (nil T) (root T);
          case found of None \<Rightarrow> Some T
          | Some y \<Rightarrow> do { T5 \<leftarrow> link_leaf T z k y; rbtree_insert_fixup T5 z } }"
    using rd by (simp add: rbtree_insert_def link_leaf_def cong: option.case_cong)
  have rt: "root T = rootp (nil T) t" using rep by (simp add: rep_def)
  have "(k \<in> skey ` set (inorder t) \<and> insert_descend T k (nil T) (root T) = Some None) \<or>
      (\<exists>ds. t = plug ds Lf \<and> insert_descend T k (nil T) (root T) = Some (Some (par_of (nil T) ds)) \<and>
         (\<forall>e\<in>set (before ds). skey e < k) \<and> (\<forall>e\<in>set (after ds). k < skey e))"
    using insert_descend_ok [of T "[]" t k] rep keys by (simp add: rt)
  then show ?thesis
  proof (elim disjE exE conjE)
    assume "k \<in> skey ` set (inorder t)" "insert_descend T k (nil T) (root T) = Some None"
    then show ?thesis by (simp add: run)
  next
    fix ds assume t: "t = plug ds Lf" and d: "insert_descend T k (nil T) (root T) = Some (Some (par_of (nil T) ds))"
      and lt: "\<forall>e\<in>set (before ds). skey e < k" "\<forall>e\<in>set (after ds). k < skey e"
    let ?z = "Nd Lf z RED (CStr ka k, CStr va v) Lf"
    obtain T5 where T5: "link_leaf T z k (par_of (nil T) ds) = Some T5" "rep T5 (plug ds ?z)" "nil T5 = nil T"
      "\<forall>q. q \<notin> insert z (set (caddrs ds)) \<longrightarrow> nodes T5 q = nodes T q"
      using link_leaf_rep [of T ds z zn k] rep keys z lt kv t by (auto simp: set_addrs_plug)
    have "ins_ok ds ?z" using rbt t by (simp add: ins_ok_def rbt_plug)
    then obtain T' t' where T': "rbtree_insert_fixup T5 z = Some T'" "moved T5 (plug ds ?z) T' t'" "rbt t'"
      using rbtree_insert_fixup_ok [OF T5(2)] by blast
    have io: "inorder t' = before ds @ (z, (CStr ka k, CStr va v)) # after ds"
      using T'(2) by (simp add: moved_def inorder_plug)
    have io0: "inorder t = before ds @ after ds" using t by (simp add: inorder_plug)
    have ad: "set (addrs t) = set (caddrs ds)" "set (addrs (plug ds ?z)) = insert z (set (caddrs ds))"
      using t by (simp_all add: set_addrs_plug)
    have "keys_ok (inorder t')"
      using keys lt unfolding io io0 keys_ok_def by (auto simp: sorted_wrt_append)
    moreover have "k \<notin> skey ` set (inorder t)"
      using lt unfolding io0 by auto
    moreover have "rbtree_insert T z = Some T'" using d T5(1) T'(1) by (simp add: run)
    moreover have "\<forall>q. q \<notin> insert z (set (addrs t)) \<longrightarrow> nodes T' q = nodes T q" "nil T' = nil T"
      using T'(2) T5(3,4) ad by (auto simp: moved_def same_outside_def)
    ultimately show ?thesis using T'(3) moved_rep [OF T'(2)] io io0 by auto
  qed
qed

end
