(* ===== verification/Rbtree_Delete.thy ===== *)
theory Rbtree_Delete
  imports Rbtree_Insert
begin

text \<open>
  Deletion from the red-black tree: the fix-up loop ends and restores the invariants, and
  \<open>rbtree_delete\<close> unlinks exactly one node, which carries the deleted key and value.
\<close>

section \<open>The position of the fix-up loop\<close>

text \<open>
  \<open>x\<close> may be the sentinel: then the parent field of the sentinel tells where it stands.
\<close>

definition focus :: "rbtree \<Rightarrow> frame list \<Rightarrow> shape \<Rightarrow> bool" where
  "focus T cs t \<longleftrightarrow> rep T (plug cs t) \<and> rd rparent (rootp (nil T) t) T = Some (par_of (nil T) cs)"

text \<open>The subtree at \<open>x\<close> lacks one black node.\<close>

definition del_ok :: "frame list \<Rightarrow> shape \<Rightarrow> bool" where
  "del_ok cs t \<longleftrightarrow> invc (paint BLACK t) \<and> invh t \<and> cinv (Suc (bheight t)) cs \<and> cblack cs"

lemma focus_moved:
  assumes "focus T cs t" and "moved T (plug cs t) T' (plug cs' t)"
    and "par_of (nil T) cs' = par_of (nil T) cs"
  shows "focus T' cs' t"
proof -
  have n: "nil T' = nil T" using moved_nil [OF assms(2)] .
  have rep': "rep T' (plug cs' t)" using moved_rep [OF assms(2)] .
  show ?thesis
  proof (cases t)
    case Lf
    have "nil T \<notin> set (addrs (plug cs t))" using assms(1) by (simp add: focus_def rep_def)
    then have "nodes T' (nil T) = nodes T (nil T)"
      using assms(2) by (simp add: moved_def same_outside_def)
    then show ?thesis using assms Lf n rep' by (simp add: focus_def rd_def)
  next
    case (Nd l a c kv r)
    then show ?thesis using rep' rep_rd(4) [of T' cs' l a c kv r] n by (simp add: focus_def)
  qed
qed

lemma focus_Nd: "rep T (plug cs (Nd l a c kv r)) \<Longrightarrow> focus T cs (Nd l a c kv r)"
  by (simp add: focus_def rep_rd(4))

lemma focus_rd:
  "focus T (FL p c pk w # cs) t \<Longrightarrow> rd rparent (rootp (nil T) t) T = Some p"
  "focus T (FR w p c pk # cs) t \<Longrightarrow> rd rparent (rootp (nil T) t) T = Some p"
  by (simp_all add: focus_def)

section \<open>The three parts of an iteration, on the left\<close>

lemma red_sibling_left_black:
  assumes f: "focus T (FL p c pk (Nd wl w BLACK wk wx) # cs) t"
  shows "red_sibling_left T (rootp (nil T) t) = Some (T, w)"
proof -
  have 1: "rep T (plug cs (Nd t p c pk (Nd wl w BLACK wk wx)))" using f by (simp add: focus_def)
  show ?thesis using focus_rd(1) [OF f] rep_rd(3) [OF 1] rep_rdR(9) [OF 1]
    by (simp add: red_sibling_left_def)
qed

lemma red_sibling_left_red:
  assumes f: "focus T (FL p c pk (Nd wl w RED wk wx) # cs) t" and wl: "wl = Nd a b d bk e"
  obtains T' where "red_sibling_left T (rootp (nil T) t) = Some (T', b)"
    and "focus T' (FL p RED pk wl # FL w BLACK wk wx # cs) t"
    and "moved T (plug (FL p c pk (Nd wl w RED wk wx) # cs) t) T' (plug (FL p RED pk wl # FL w BLACK wk wx # cs) t)"
proof -
  let ?t = "plug cs (Nd t p c pk (Nd wl w RED wk wx))"
  have rep: "rep T ?t" using f by (simp add: focus_def)
  obtain T1 where 1: "wr (set_color BLACK) w T = Some T1" "moved T ?t T1 (plug cs (Nd t p c pk (Nd wl w BLACK wk wx)))"
    using moved_color [of T "FR t p c pk # cs" wl w RED wk wx BLACK] rep by auto
  obtain T2 where 2: "wr (set_color RED) p T1 = Some T2"
    "moved T1 (plug cs (Nd t p c pk (Nd wl w BLACK wk wx))) T2 (plug cs (Nd t p RED pk (Nd wl w BLACK wk wx)))"
    using moved_color [OF moved_rep [OF 1(2)]] by metis
  obtain T3 where 3: "rbtree_left_rotate T2 p = Some T3"
    "moved T2 (plug cs (Nd t p RED pk (Nd wl w BLACK wk wx))) T3 (plug cs (Nd (Nd t p RED pk wl) w BLACK wk wx))"
    using moved_left [OF moved_rep [OF 2(2)]] by metis
  have m: "moved T ?t T3 (plug cs (Nd (Nd t p RED pk wl) w BLACK wk wx))"
    using moved_trans [OF moved_trans [OF 1(2) 2(2)] 3(2)] .
  have f': "focus T3 (FL p RED pk wl # FL w BLACK wk wx # cs) t"
    using focus_moved [OF f] m by simp
  have n: "nil T3 = nil T" using moved_nil [OF m] .
  have x: "rd rparent (rootp (nil T) t) T3 = Some p" "rd rright p T3 = Some b"
    using focus_rd(1) [OF f'] rep_rdL(5) [OF moved_rep [OF m]] n wl by simp_all
  have "red_sibling_left T (rootp (nil T) t) = Some (T3, b)"
    using focus_rd(1) [OF f] rep_rd(3) [OF rep] rep_rdR(9) [OF rep] 1(1) 2(1) 3(1) x
    by (simp add: red_sibling_left_def)
  with f' m show ?thesis using that by simp
qed

lemma nephews_left:
  assumes "focus T (FL p c pk (Nd wl w wc wk wx) # cs) t"
  shows "rd rleft w T = Some (rootp (nil T) wl)" and "rd rright w T = Some (rootp (nil T) wx)"
    and "rd rcolor (rootp (nil T) wl) T = Some (scol wl)"
    and "rd rcolor (rootp (nil T) wx) T = Some (scol wx)"
    and "rd rright p T = Some w" and "rd rcolor p T = Some c"
proof -
  have 1: "rep T (plug cs (Nd t p c pk (Nd wl w wc wk wx)))" using assms by (simp add: focus_def)
  have 2: "rep T (plug (FL w wc wk wx # FR t p c pk # cs) wl)"
    and 3: "rep T (plug (FR wl w wc wk # FR t p c pk # cs) wx)" using 1 by simp_all
  show "rd rleft w T = Some (rootp (nil T) wl)" "rd rright w T = Some (rootp (nil T) wx)"
    "rd rright p T = Some w" "rd rcolor p T = Some c"
    using rep_rdR [OF 1] rep_rd [OF 1] by simp_all
  show "rd rcolor (rootp (nil T) wl) T = Some (scol wl)" using rep_rd_color [OF 2] .
  show "rd rcolor (rootp (nil T) wx) T = Some (scol wx)" using rep_rd_color [OF 3] .
qed

lemma inner_nephew_left_ok:
  assumes f: "focus T (FL p c pk (Nd wl w BLACK wk wx) # cs) t" (is "focus T (?f # cs) t")
    and one: "scol wx = BLACK \<Longrightarrow> \<exists>a b bk d. wl = Nd a b RED bk d"
  obtains T' wl' w' wk' wx' where "inner_nephew_left T (rootp (nil T) t) w = Some (T', w')"
    and "focus T' (FL p c pk (Nd wl' w' BLACK wk' wx') # cs) t" and "scol wx' = RED"
    and "moved T (plug (?f # cs) t) T' (plug (FL p c pk (Nd wl' w' BLACK wk' wx') # cs) t)"
    and "invc (Nd wl w BLACK wk wx) \<and> invh (Nd wl w BLACK wk wx) \<longrightarrow>
         invc wl' \<and> invc wx' \<and> invh (Nd wl' w' BLACK wk' wx') \<and>
         bheight (Nd wl' w' BLACK wk' wx') = bheight (Nd wl w BLACK wk wx)"
proof (cases "scol wx")
  case RED
  have rep: "rep T (plug (?f # cs) t)" using f by (simp add: focus_def)
  show ?thesis
  proof (rule that)
    show "inner_nephew_left T (rootp (nil T) t) w = Some (T, w)"
      using nephews_left [OF f] RED by (simp add: inner_nephew_left_def)
  qed (use f RED moved_refl [OF rep] in auto)
next
  case BLACK
  then obtain a b bk d where wl: "wl = Nd a b RED bk d" using one by blast
  let ?t = "plug cs (Nd t p c pk (Nd (Nd a b RED bk d) w BLACK wk wx))"
  have rep: "rep T ?t" using f wl by (simp add: focus_def)
  obtain T1 where 1: "wr (set_color BLACK) b T = Some T1"
    "moved T ?t T1 (plug cs (Nd t p c pk (Nd (Nd a b BLACK bk d) w BLACK wk wx)))"
    using moved_color [of T "FL w BLACK wk wx # FR t p c pk # cs" a b RED bk d BLACK] rep by auto
  obtain T2 where 2: "wr (set_color RED) w T1 = Some T2"
    "moved T1 (plug cs (Nd t p c pk (Nd (Nd a b BLACK bk d) w BLACK wk wx))) T2
       (plug cs (Nd t p c pk (Nd (Nd a b BLACK bk d) w RED wk wx)))"
    using moved_color [of T1 "FR t p c pk # cs" "Nd a b BLACK bk d" w BLACK wk wx RED] moved_rep [OF 1(2)] by auto
  let ?t3 = "plug (FL p c pk (Nd a b BLACK bk (Nd d w RED wk wx)) # cs) t"
  obtain T3 where 3: "rbtree_right_rotate T2 w = Some T3"
    "moved T2 (plug cs (Nd t p c pk (Nd (Nd a b BLACK bk d) w RED wk wx))) T3 ?t3"
    using moved_right [of T2 "FR t p c pk # cs" a b BLACK bk d w RED wk wx] moved_rep [OF 2(2)] by auto
  have m: "moved T (plug (?f # cs) t) T3 ?t3"
    using moved_trans [OF moved_trans [OF 1(2) 2(2)] 3(2)] wl by simp
  have f': "focus T3 (FL p c pk (Nd a b BLACK bk (Nd d w RED wk wx)) # cs) t"
    using focus_moved [OF f m] by simp
  have n: "nil T3 = nil T" using moved_nil [OF m] .
  show ?thesis
  proof (rule that [OF _ f' _ m])
    show "inner_nephew_left T (rootp (nil T) t) w = Some (T3, b)"
      using nephews_left [OF f] BLACK 1(1) 2(1) 3(1) focus_rd(1) [OF f'] nephews_left(5) [OF f'] n wl
      by (simp add: inner_nephew_left_def)
  qed (use wl BLACK in auto)
qed

lemma last_rotation_left_ok:
  assumes f: "focus T (FL p c pk (Nd wl w BLACK wk wx) # cs) t" (is "focus T (?f # cs) t")
    and r: "scol wx = RED"
  obtains T' where "last_rotation_left T (rootp (nil T) t) w = Some (T', root T')"
    and "moved T (plug (?f # cs) t) T' (plug cs (Nd (Nd t p BLACK pk wl) w c wk (paint BLACK wx)))"
proof -
  obtain a b bk d where wx: "wx = Nd a b RED bk d" using r by (cases wx) auto
  let ?t = "plug cs (Nd t p c pk (Nd wl w BLACK wk wx))"
  have rep: "rep T ?t" using f by (simp add: focus_def)
  obtain T1 where 1: "wr (set_color c) w T = Some T1" "moved T ?t T1 (plug cs (Nd t p c pk (Nd wl w c wk wx)))"
    using moved_color [of T "FR t p c pk # cs" wl w BLACK wk wx c] rep by auto
  obtain T2 where 2: "wr (set_color BLACK) p T1 = Some T2"
    "moved T1 (plug cs (Nd t p c pk (Nd wl w c wk wx))) T2 (plug cs (Nd t p BLACK pk (Nd wl w c wk wx)))"
    using moved_color [OF moved_rep [OF 1(2)]] by metis
  obtain T3 where 3: "wr (set_color BLACK) b T2 = Some T3"
    "moved T2 (plug cs (Nd t p BLACK pk (Nd wl w c wk wx))) T3 (plug cs (Nd t p BLACK pk (Nd wl w c wk (paint BLACK wx))))"
    using moved_color [of T2 "FR wl w c wk # FR t p BLACK pk # cs" a b RED bk d BLACK] moved_rep [OF 2(2)] wx by auto
  obtain T4 where 4: "rbtree_left_rotate T3 p = Some T4"
    "moved T3 (plug cs (Nd t p BLACK pk (Nd wl w c wk (paint BLACK wx)))) T4
       (plug cs (Nd (Nd t p BLACK pk wl) w c wk (paint BLACK wx)))"
    using moved_left [OF moved_rep [OF 3(2)]] by metis
  have m: "moved T (plug (?f # cs) t) T4 (plug cs (Nd (Nd t p BLACK pk wl) w c wk (paint BLACK wx)))"
    using moved_trans [OF moved_trans [OF moved_trans [OF 1(2) 2(2)] 3(2)] 4(2)] by simp
  have "rd rright w T2 = Some b"
    using rep_rdR(5) [OF moved_rep [OF 2(2)]] wx by simp
  then have "last_rotation_left T (rootp (nil T) t) w = Some (T4, root T4)"
    using focus_rd(1) [OF f] nephews_left(6) [OF f] 1(1) 2(1) 3(1) 4(1) by (simp add: last_rotation_left_def)
  with m show ?thesis using that by blast
qed

text \<open>An iteration makes this number smaller.\<close>

definition del_size :: "frame list \<Rightarrow> shape \<Rightarrow> nat" where
  "del_size cs t = 2 * length cs + (if scol t = BLACK then 1 else 0)"

definition del_iter :: "(rbtree \<times> addr) option \<Rightarrow> rbtree \<Rightarrow> shape \<Rightarrow> nat \<Rightarrow> bool" where
  "del_iter r T s n \<longleftrightarrow>
     (\<exists>T' cs' t'. r = Some (T', rootp (nil T') t') \<and> moved T s T' (plug cs' t') \<and>
        focus T' cs' t' \<and> del_ok cs' t' \<and> del_size cs' t' \<le> n)"

lemma del_iterI:
  "r = Some (T', rootp (nil T') t') \<Longrightarrow> moved T s T' (plug cs' t') \<Longrightarrow> focus T' cs' t' \<Longrightarrow>
   del_ok cs' t' \<Longrightarrow> del_size cs' t' \<le> n \<Longrightarrow> del_iter r T s n"
  unfolding del_iter_def by blast

lemma del_iter_moved: "moved T s T1 s1 \<Longrightarrow> del_iter r T1 s1 n \<Longrightarrow> n \<le> m \<Longrightarrow> del_iter r T s m"
  by (auto simp: del_iter_def [of r T1] intro!: del_iterI moved_trans [of T s T1 s1])

lemma del_iter_root:
  assumes "moved T s T' (plug cs t')" and "r = Some (T', root T')" and "t' \<noteq> Lf"
    and "invc t'" and "invh t'" and "cinv (bheight t') cs" and "scol t' = RED \<longrightarrow> ccol cs = BLACK" and "1 \<le> n"
  shows "del_iter r T s n"
proof -
  have d: "ins_done (plug cs t')" using assms by (intro ins_done_plug) auto
  then obtain l a c kv rt where e: "plug cs t' = Nd l a c kv rt" by (cases "plug cs t'") (auto simp: ins_done_def)
  have rep: "rep T' (plug [] (Nd l a c kv rt))" using moved_rep [OF assms(1)] e by simp
  show ?thesis
  proof (rule del_iterI)
    show "r = Some (T', rootp (nil T') (Nd l a c kv rt))" using assms(2) rep_root [OF rep] by simp
    show "moved T s T' (plug [] (Nd l a c kv rt))" using assms(1) e by simp
    show "focus T' [] (Nd l a c kv rt)" using focus_Nd [OF rep] .
    show "del_ok [] (Nd l a c kv rt)" using d e by (auto simp: del_ok_def ins_done_def)
  qed (use assms(8) in \<open>simp add: del_size_def\<close>)
qed

lemma black_sibling_left_ok:
  assumes f: "focus T (FL p c pk (Nd wl w BLACK wk wx) # cs) t" (is "focus T (?f # cs) t")
    and ok: "del_ok (FL p c pk (Nd wl w BLACK wk wx) # cs) t" and t: "scol t = BLACK"
  shows "del_iter (black_sibling_left T (rootp (nil T) t) w) T (plug (?f # cs) t)
           (2 * length cs + (if c = BLACK then 1 else 0))"
proof (cases "scol wl = BLACK \<and> scol wx = BLACK")
  case True
  note N = nephews_left [OF f]
  have rep: "rep T (plug (FR t p c pk # cs) (Nd wl w BLACK wk wx))" using f by (simp add: focus_def)
  let ?t' = "Nd t p c pk (Nd wl w RED wk wx)"
  obtain T1 where 1: "wr (set_color RED) w T = Some T1" "moved T (plug (?f # cs) t) T1 (plug cs ?t')"
    using moved_color [OF rep, of RED] by auto
  have f1: "focus T1 (FL p c pk (Nd wl w RED wk wx) # cs) t" using focus_moved [OF f] 1(2) by simp
  show ?thesis
  proof (rule del_iterI)
    show "black_sibling_left T (rootp (nil T) t) w = Some (T1, rootp (nil T1) ?t')"
      using N True 1(1) focus_rd(1) [OF f1] moved_nil [OF 1(2)] by (simp add: black_sibling_left_def)
    show "focus T1 cs ?t'" using focus_Nd moved_rep [OF 1(2)] by blast
    show "del_ok cs ?t'"
      using ok True t cblack_tl by (cases c) (auto simp: del_ok_def paint_id)
  qed (use 1(2) in \<open>auto simp: del_size_def\<close>)
next
  case False
  have inv: "invc (Nd wl w BLACK wk wx)" "invh (Nd wl w BLACK wk wx)"
    "bheight (Nd wl w BLACK wk wx) = Suc (bheight t)" "cblack (?f # cs)" "invc t" "invh t"
    "cinv (if c = BLACK then Suc (Suc (bheight t)) else Suc (bheight t)) cs" "c = RED \<longrightarrow> ccol cs = BLACK"
    using ok t by (auto simp: del_ok_def paint_id)
  have "\<exists>a b bk d. wl = Nd a b RED bk d" if "scol wx = BLACK"
    using False that by (cases wl) auto
  then obtain T1 wl' w' wk' wx' where 1: "inner_nephew_left T (rootp (nil T) t) w = Some (T1, w')"
    "focus T1 (FL p c pk (Nd wl' w' BLACK wk' wx') # cs) t" "scol wx' = RED"
    "moved T (plug (?f # cs) t) T1 (plug (FL p c pk (Nd wl' w' BLACK wk' wx') # cs) t)"
    "invc wl' \<and> invc wx' \<and> invh (Nd wl' w' BLACK wk' wx') \<and>
     bheight (Nd wl' w' BLACK wk' wx') = bheight (Nd wl w BLACK wk wx)"
    using inner_nephew_left_ok [OF f] inv(1,2) by metis
  obtain T2 where 2: "last_rotation_left T1 (rootp (nil T1) t) w' = Some (T2, root T2)"
    "moved T1 (plug (FL p c pk (Nd wl' w' BLACK wk' wx') # cs) t) T2
       (plug cs (Nd (Nd t p BLACK pk wl') w' c wk' (paint BLACK wx')))"
    using last_rotation_left_ok [OF 1(2,3)] by metis
  have n: "nil T1 = nil T" using moved_nil [OF 1(4)] .
  have run: "black_sibling_left T (rootp (nil T) t) w = Some (T2, root T2)"
    using nephews_left [OF f] False 1(1) 2(1) n by (auto simp: black_sibling_left_def)
  have one: "1 \<le> 2 * length cs + (if c = BLACK then 1 else 0)"
    using inv(4) by (cases cs; cases c) auto
  show ?thesis
    by (rule del_iter_root [OF moved_trans [OF 1(4) 2(2)] run])
      (use one 1(3,5) inv in \<open>auto simp: bheight_paint_BLACK\<close>)
qed

lemma delete_iter_left:
  assumes f: "focus T (FL p c pk s # cs) t" (is "focus T (?f # cs) t")
    and ok: "del_ok (FL p c pk s # cs) t" and t: "scol t = BLACK"
  shows "del_iter (delete_fixup_left T (rootp (nil T) t)) T (plug (?f # cs) t) (2 * length (?f # cs))"
proof -
  have "bheight s = Suc (bheight t)" using ok by (simp add: del_ok_def)
  then obtain wl w wc wk wx where s: "s = Nd wl w wc wk wx" by (cases s) auto
  show ?thesis
  proof (cases wc)
    case BLACK
    with f s have f': "focus T (FL p c pk (Nd wl w BLACK wk wx) # cs) t" by simp
    have run: "delete_fixup_left T (rootp (nil T) t) = black_sibling_left T (rootp (nil T) t) w"
      using red_sibling_left_black [OF f'] by (simp add: delete_fixup_left_def)
    have rep: "rep T (plug (?f # cs) t)" using f by (simp add: focus_def)
    show ?thesis unfolding run
      by (rule del_iter_moved [OF moved_refl [OF rep]])
        (use black_sibling_left_ok [OF f'] ok t s BLACK in auto)
  next
    case RED
    have "bheight wl = Suc (bheight t)" using ok s RED by (simp add: del_ok_def)
    then obtain a b d bk e where wl: "wl = Nd a b d bk e" by (cases wl) auto
    obtain T1 where 1: "red_sibling_left T (rootp (nil T) t) = Some (T1, b)"
      "focus T1 (FL p RED pk wl # FL w BLACK wk wx # cs) t"
      "moved T (plug (?f # cs) t) T1 (plug (FL p RED pk wl # FL w BLACK wk wx # cs) t)"
      using red_sibling_left_red [where T = T and t = t and a = a and b = b and d = d and bk = bk and e = e] f s RED wl by metis
    have ok1: "del_ok (FL p RED pk wl # FL w BLACK wk wx # cs) t" and d: "d = BLACK"
      using ok s RED wl by (auto simp: del_ok_def cblack_iff split: if_splits)
    have run: "delete_fixup_left T (rootp (nil T) t) = black_sibling_left T1 (rootp (nil T1) t) b"
      using 1(1) moved_nil [OF 1(3)] by (simp add: delete_fixup_left_def)
    have "del_iter (black_sibling_left T1 (rootp (nil T1) t) b) T1
        (plug (FL p RED pk wl # FL w BLACK wk wx # cs) t) (2 * length (?f # cs))"
      using black_sibling_left_ok [where T = T1 and p = p and c = RED and pk = pk and wl = a and w = b
          and wk = bk and wx = e and cs = "FL w BLACK wk wx # cs" and t = t] 1(2) ok1 t wl d by auto
    then show ?thesis unfolding run using del_iter_moved [OF 1(3)] by blast
  qed
qed

section \<open>The three parts of an iteration, on the right\<close>

lemma red_sibling_right_black:
  assumes f: "focus T (FR (Nd wx w BLACK wk wl) p c pk # cs) t"
  shows "red_sibling_right T (rootp (nil T) t) = Some (T, w)"
proof -
  have 1: "rep T (plug cs (Nd (Nd wx w BLACK wk wl) p c pk t))" using f by (simp add: focus_def)
  show ?thesis using focus_rd(2) [OF f] rep_rd(2) [OF 1] rep_rdL(9) [OF 1]
    by (simp add: red_sibling_right_def)
qed

lemma red_sibling_right_red:
  assumes f: "focus T (FR (Nd wx w RED wk wl) p c pk # cs) t" and wl: "wl = Nd e b d bk a"
  obtains T' where "red_sibling_right T (rootp (nil T) t) = Some (T', b)"
    and "focus T' (FR wl p RED pk # FR wx w BLACK wk # cs) t"
    and "moved T (plug (FR (Nd wx w RED wk wl) p c pk # cs) t) T' (plug (FR wl p RED pk # FR wx w BLACK wk # cs) t)"
proof -
  let ?t = "plug cs (Nd (Nd wx w RED wk wl) p c pk t)"
  have rep: "rep T ?t" using f by (simp add: focus_def)
  obtain T1 where 1: "wr (set_color BLACK) w T = Some T1" "moved T ?t T1 (plug cs (Nd (Nd wx w BLACK wk wl) p c pk t))"
    using moved_color [of T "FL p c pk t # cs" wx w RED wk wl BLACK] rep by auto
  obtain T2 where 2: "wr (set_color RED) p T1 = Some T2"
    "moved T1 (plug cs (Nd (Nd wx w BLACK wk wl) p c pk t)) T2 (plug cs (Nd (Nd wx w BLACK wk wl) p RED pk t))"
    using moved_color [OF moved_rep [OF 1(2)]] by metis
  obtain T3 where 3: "rbtree_right_rotate T2 p = Some T3"
    "moved T2 (plug cs (Nd (Nd wx w BLACK wk wl) p RED pk t)) T3 (plug cs (Nd wx w BLACK wk (Nd wl p RED pk t)))"
    using moved_right [OF moved_rep [OF 2(2)]] by metis
  have m: "moved T ?t T3 (plug cs (Nd wx w BLACK wk (Nd wl p RED pk t)))"
    using moved_trans [OF moved_trans [OF 1(2) 2(2)] 3(2)] .
  have f': "focus T3 (FR wl p RED pk # FR wx w BLACK wk # cs) t"
    using focus_moved [OF f] m by simp
  have n: "nil T3 = nil T" using moved_nil [OF m] .
  have x: "rd rparent (rootp (nil T) t) T3 = Some p" "rd rleft p T3 = Some b"
    using focus_rd(2) [OF f'] rep_rdR(6) [OF moved_rep [OF m]] n wl by simp_all
  have "red_sibling_right T (rootp (nil T) t) = Some (T3, b)"
    using focus_rd(2) [OF f] rep_rd(2) [OF rep] rep_rdL(9) [OF rep] 1(1) 2(1) 3(1) x
    by (simp add: red_sibling_right_def)
  with f' m show ?thesis using that by simp
qed

lemma nephews_right:
  assumes "focus T (FR (Nd wx w wc wk wl) p c pk # cs) t"
  shows "rd rright w T = Some (rootp (nil T) wl)" and "rd rleft w T = Some (rootp (nil T) wx)"
    and "rd rcolor (rootp (nil T) wl) T = Some (scol wl)"
    and "rd rcolor (rootp (nil T) wx) T = Some (scol wx)"
    and "rd rleft p T = Some w" and "rd rcolor p T = Some c"
proof -
  have 1: "rep T (plug cs (Nd (Nd wx w wc wk wl) p c pk t))" using assms by (simp add: focus_def)
  have 2: "rep T (plug (FR wx w wc wk # FL p c pk t # cs) wl)"
    and 3: "rep T (plug (FL w wc wk wl # FL p c pk t # cs) wx)" using 1 by simp_all
  show "rd rright w T = Some (rootp (nil T) wl)" "rd rleft w T = Some (rootp (nil T) wx)"
    "rd rleft p T = Some w" "rd rcolor p T = Some c"
    using rep_rdL [OF 1] rep_rd [OF 1] by simp_all
  show "rd rcolor (rootp (nil T) wl) T = Some (scol wl)" using rep_rd_color [OF 2] .
  show "rd rcolor (rootp (nil T) wx) T = Some (scol wx)" using rep_rd_color [OF 3] .
qed

lemma inner_nephew_right_ok:
  assumes f: "focus T (FR (Nd wx w BLACK wk wl) p c pk # cs) t" (is "focus T (?f # cs) t")
    and one: "scol wx = BLACK \<Longrightarrow> \<exists>a b bk d. wl = Nd d b RED bk a"
  obtains T' wl' w' wk' wx' where "inner_nephew_right T (rootp (nil T) t) w = Some (T', w')"
    and "focus T' (FR (Nd wx' w' BLACK wk' wl') p c pk # cs) t" and "scol wx' = RED"
    and "moved T (plug (?f # cs) t) T' (plug (FR (Nd wx' w' BLACK wk' wl') p c pk # cs) t)"
    and "invc (Nd wx w BLACK wk wl) \<and> invh (Nd wx w BLACK wk wl) \<longrightarrow>
         invc wl' \<and> invc wx' \<and> invh (Nd wx' w' BLACK wk' wl') \<and>
         bheight (Nd wx' w' BLACK wk' wl') = bheight (Nd wx w BLACK wk wl)"
proof (cases "scol wx")
  case RED
  have rep: "rep T (plug (?f # cs) t)" using f by (simp add: focus_def)
  show ?thesis
  proof (rule that)
    show "inner_nephew_right T (rootp (nil T) t) w = Some (T, w)"
      using nephews_right [OF f] RED by (simp add: inner_nephew_right_def)
  qed (use f RED moved_refl [OF rep] in auto)
next
  case BLACK
  then obtain a b bk d where wl: "wl = Nd d b RED bk a" using one by blast
  let ?t = "plug cs (Nd (Nd wx w BLACK wk (Nd d b RED bk a)) p c pk t)"
  have rep: "rep T ?t" using f wl by (simp add: focus_def)
  obtain T1 where 1: "wr (set_color BLACK) b T = Some T1"
    "moved T ?t T1 (plug cs (Nd (Nd wx w BLACK wk (Nd d b BLACK bk a)) p c pk t))"
    using moved_color [of T "FR wx w BLACK wk # FL p c pk t # cs" d b RED bk a BLACK] rep by auto
  obtain T2 where 2: "wr (set_color RED) w T1 = Some T2"
    "moved T1 (plug cs (Nd (Nd wx w BLACK wk (Nd d b BLACK bk a)) p c pk t)) T2
       (plug cs (Nd (Nd wx w RED wk (Nd d b BLACK bk a)) p c pk t))"
    using moved_color [of T1 "FL p c pk t # cs" wx w BLACK wk "Nd d b BLACK bk a" RED] moved_rep [OF 1(2)] by auto
  let ?t3 = "plug (FR (Nd (Nd wx w RED wk d) b BLACK bk a) p c pk # cs) t"
  obtain T3 where 3: "rbtree_left_rotate T2 w = Some T3"
    "moved T2 (plug cs (Nd (Nd wx w RED wk (Nd d b BLACK bk a)) p c pk t)) T3 ?t3"
    using moved_left [of T2 "FL p c pk t # cs" wx w RED wk d b BLACK bk a] moved_rep [OF 2(2)] by auto
  have m: "moved T (plug (?f # cs) t) T3 ?t3"
    using moved_trans [OF moved_trans [OF 1(2) 2(2)] 3(2)] wl by simp
  have f': "focus T3 (FR (Nd (Nd wx w RED wk d) b BLACK bk a) p c pk # cs) t"
    using focus_moved [OF f m] by simp
  have n: "nil T3 = nil T" using moved_nil [OF m] .
  show ?thesis
  proof (rule that [OF _ f' _ m])
    show "inner_nephew_right T (rootp (nil T) t) w = Some (T3, b)"
      using nephews_right [OF f] BLACK 1(1) 2(1) 3(1) focus_rd(2) [OF f'] nephews_right(5) [OF f'] n wl
      by (simp add: inner_nephew_right_def)
  qed (use wl BLACK in auto)
qed

lemma last_rotation_right_ok:
  assumes f: "focus T (FR (Nd wx w BLACK wk wl) p c pk # cs) t" (is "focus T (?f # cs) t")
    and r: "scol wx = RED"
  obtains T' where "last_rotation_right T (rootp (nil T) t) w = Some (T', root T')"
    and "moved T (plug (?f # cs) t) T' (plug cs (Nd (paint BLACK wx) w c wk (Nd wl p BLACK pk t)))"
proof -
  obtain a b bk d where wx: "wx = Nd d b RED bk a" using r by (cases wx) auto
  let ?t = "plug cs (Nd (Nd wx w BLACK wk wl) p c pk t)"
  have rep: "rep T ?t" using f by (simp add: focus_def)
  obtain T1 where 1: "wr (set_color c) w T = Some T1" "moved T ?t T1 (plug cs (Nd (Nd wx w c wk wl) p c pk t))"
    using moved_color [of T "FL p c pk t # cs" wx w BLACK wk wl c] rep by auto
  obtain T2 where 2: "wr (set_color BLACK) p T1 = Some T2"
    "moved T1 (plug cs (Nd (Nd wx w c wk wl) p c pk t)) T2 (plug cs (Nd (Nd wx w c wk wl) p BLACK pk t))"
    using moved_color [OF moved_rep [OF 1(2)]] by metis
  obtain T3 where 3: "wr (set_color BLACK) b T2 = Some T3"
    "moved T2 (plug cs (Nd (Nd wx w c wk wl) p BLACK pk t)) T3 (plug cs (Nd (Nd (paint BLACK wx) w c wk wl) p BLACK pk t))"
    using moved_color [of T2 "FL w c wk wl # FL p BLACK pk t # cs" d b RED bk a BLACK] moved_rep [OF 2(2)] wx by auto
  obtain T4 where 4: "rbtree_right_rotate T3 p = Some T4"
    "moved T3 (plug cs (Nd (Nd (paint BLACK wx) w c wk wl) p BLACK pk t)) T4
       (plug cs (Nd (paint BLACK wx) w c wk (Nd wl p BLACK pk t)))"
    using moved_right [OF moved_rep [OF 3(2)]] by metis
  have m: "moved T (plug (?f # cs) t) T4 (plug cs (Nd (paint BLACK wx) w c wk (Nd wl p BLACK pk t)))"
    using moved_trans [OF moved_trans [OF moved_trans [OF 1(2) 2(2)] 3(2)] 4(2)] by simp
  have "rd rleft w T2 = Some b"
    using rep_rdL(6) [OF moved_rep [OF 2(2)]] wx by simp
  then have "last_rotation_right T (rootp (nil T) t) w = Some (T4, root T4)"
    using focus_rd(2) [OF f] nephews_right(6) [OF f] 1(1) 2(1) 3(1) 4(1) by (simp add: last_rotation_right_def)
  with m show ?thesis using that by blast
qed

lemma black_sibling_right_ok:
  assumes f: "focus T (FR (Nd wx w BLACK wk wl) p c pk # cs) t" (is "focus T (?f # cs) t")
    and ok: "del_ok (FR (Nd wx w BLACK wk wl) p c pk # cs) t" and t: "scol t = BLACK"
  shows "del_iter (black_sibling_right T (rootp (nil T) t) w) T (plug (?f # cs) t)
           (2 * length cs + (if c = BLACK then 1 else 0))"
proof (cases "scol wl = BLACK \<and> scol wx = BLACK")
  case True
  note N = nephews_right [OF f]
  have rep: "rep T (plug (FL p c pk t # cs) (Nd wx w BLACK wk wl))" using f by (simp add: focus_def)
  let ?t' = "Nd (Nd wx w RED wk wl) p c pk t"
  obtain T1 where 1: "wr (set_color RED) w T = Some T1" "moved T (plug (?f # cs) t) T1 (plug cs ?t')"
    using moved_color [OF rep, of RED] by auto
  have f1: "focus T1 (FR (Nd wx w RED wk wl) p c pk # cs) t" using focus_moved [OF f] 1(2) by simp
  show ?thesis
  proof (rule del_iterI)
    show "black_sibling_right T (rootp (nil T) t) w = Some (T1, rootp (nil T1) ?t')"
      using N True 1(1) focus_rd(2) [OF f1] moved_nil [OF 1(2)] by (simp add: black_sibling_right_def)
    show "focus T1 cs ?t'" using focus_Nd moved_rep [OF 1(2)] by blast
    show "del_ok cs ?t'"
      using ok True t cblack_tl by (cases c) (auto simp: del_ok_def paint_id)
  qed (use 1(2) in \<open>auto simp: del_size_def\<close>)
next
  case False
  have inv: "invc (Nd wx w BLACK wk wl)" "invh (Nd wx w BLACK wk wl)"
    "bheight (Nd wx w BLACK wk wl) = Suc (bheight t)" "cblack (?f # cs)" "invc t" "invh t"
    "cinv (if c = BLACK then Suc (Suc (bheight t)) else Suc (bheight t)) cs" "c = RED \<longrightarrow> ccol cs = BLACK"
    using ok t by (auto simp: del_ok_def paint_id)
  have "\<exists>a b bk d. wl = Nd d b RED bk a" if "scol wx = BLACK"
    using False that by (cases wl) auto
  then obtain T1 wl' w' wk' wx' where 1: "inner_nephew_right T (rootp (nil T) t) w = Some (T1, w')"
    "focus T1 (FR (Nd wx' w' BLACK wk' wl') p c pk # cs) t" "scol wx' = RED"
    "moved T (plug (?f # cs) t) T1 (plug (FR (Nd wx' w' BLACK wk' wl') p c pk # cs) t)"
    "invc wl' \<and> invc wx' \<and> invh (Nd wx' w' BLACK wk' wl') \<and>
     bheight (Nd wx' w' BLACK wk' wl') = bheight (Nd wx w BLACK wk wl)"
    using inner_nephew_right_ok [OF f] inv(1,2) by metis
  obtain T2 where 2: "last_rotation_right T1 (rootp (nil T1) t) w' = Some (T2, root T2)"
    "moved T1 (plug (FR (Nd wx' w' BLACK wk' wl') p c pk # cs) t) T2
       (plug cs (Nd (paint BLACK wx') w' c wk' (Nd wl' p BLACK pk t)))"
    using last_rotation_right_ok [OF 1(2,3)] by metis
  have n: "nil T1 = nil T" using moved_nil [OF 1(4)] .
  have run: "black_sibling_right T (rootp (nil T) t) w = Some (T2, root T2)"
    using nephews_right [OF f] False 1(1) 2(1) n by (auto simp: black_sibling_right_def)
  have one: "1 \<le> 2 * length cs + (if c = BLACK then 1 else 0)"
    using inv(4) by (cases cs; cases c) auto
  show ?thesis
    by (rule del_iter_root [OF moved_trans [OF 1(4) 2(2)] run])
      (use one 1(3,5) inv in \<open>auto simp: bheight_paint_BLACK\<close>)
qed

lemma delete_iter_right:
  assumes f: "focus T (FR s p c pk # cs) t" (is "focus T (?f # cs) t")
    and ok: "del_ok (FR s p c pk # cs) t" and t: "scol t = BLACK"
  shows "del_iter (delete_fixup_right T (rootp (nil T) t)) T (plug (?f # cs) t) (2 * length (?f # cs))"
proof -
  have "bheight s = Suc (bheight t)" using ok by (simp add: del_ok_def)
  then obtain wl w wc wk wx where s: "s = Nd wx w wc wk wl" by (cases s) auto
  show ?thesis
  proof (cases wc)
    case BLACK
    with f s have f': "focus T (FR (Nd wx w BLACK wk wl) p c pk # cs) t" by simp
    have run: "delete_fixup_right T (rootp (nil T) t) = black_sibling_right T (rootp (nil T) t) w"
      using red_sibling_right_black [OF f'] by (simp add: delete_fixup_right_def)
    have rep: "rep T (plug (?f # cs) t)" using f by (simp add: focus_def)
    show ?thesis unfolding run
      by (rule del_iter_moved [OF moved_refl [OF rep]])
        (use black_sibling_right_ok [OF f'] ok t s BLACK in auto)
  next
    case RED
    have "bheight wl = Suc (bheight t)" using ok s RED by (simp add: del_ok_def)
    then obtain a b d bk e where wl: "wl = Nd e b d bk a" by (cases wl) auto
    obtain T1 where 1: "red_sibling_right T (rootp (nil T) t) = Some (T1, b)"
      "focus T1 (FR wl p RED pk # FR wx w BLACK wk # cs) t"
      "moved T (plug (?f # cs) t) T1 (plug (FR wl p RED pk # FR wx w BLACK wk # cs) t)"
      using red_sibling_right_red [where T = T and t = t and a = a and b = b and d = d and bk = bk and e = e] f s RED wl by metis
    have ok1: "del_ok (FR wl p RED pk # FR wx w BLACK wk # cs) t" and d: "d = BLACK"
      using ok s RED wl by (auto simp: del_ok_def cblack_iff split: if_splits)
    have run: "delete_fixup_right T (rootp (nil T) t) = black_sibling_right T1 (rootp (nil T1) t) b"
      using 1(1) moved_nil [OF 1(3)] by (simp add: delete_fixup_right_def)
    have "del_iter (black_sibling_right T1 (rootp (nil T1) t) b) T1
        (plug (FR wl p RED pk # FR wx w BLACK wk # cs) t) (2 * length (?f # cs))"
      using black_sibling_right_ok [where T = T1 and p = p and c = RED and pk = pk and wl = a and w = b
          and wk = bk and wx = e and cs = "FR wx w BLACK wk # cs" and t = t] 1(2) ok1 t wl d by auto
    then show ?thesis unfolding run using del_iter_moved [OF 1(3)] by blast
  qed
qed

section \<open>The deletion fix-up\<close>

lemma root_not_in_context:
  assumes "rep T (plug cs t)" and "cs \<noteq> []"
  shows "rootp (nil T) t \<noteq> root T"
proof -
  have c: "ctx_at (nodes T) (nil T) (root T) h cs \<Longrightarrow> cs \<noteq> [] \<Longrightarrow> root T \<in> set (caddrs cs)" for h
  proof (induction cs arbitrary: h)
    case (Cons f cs)
    then show ?case by (cases f; cases "cs = []") auto
  qed simp
  have "root T \<in> set (caddrs cs)" using c assms by (auto simp: rep_plug)
  moreover have "rootp (nil T) t \<notin> set (caddrs cs)"
    using assms(1) rootp_in [of "nil T" t] by (cases "rootp (nil T) t = nil T") (auto simp: rep_plug)
  ultimately show ?thesis by metis
qed

text \<open>Which of the two variants the loop takes.\<close>

lemma delete_loop_next:
  assumes f: "focus T (f # cs) t" and ok: "del_ok (f # cs) t" and t: "scol t = BLACK"
  obtains T' cs' t' where "delete_fixup_loop T (rootp (nil T) t) = delete_fixup_loop T' (rootp (nil T') t')"
    and "moved T (plug (f # cs) t) T' (plug cs' t')" and "focus T' cs' t'" and "del_ok cs' t'"
    and "del_size cs' t' < del_size (f # cs) t"
proof -
  let ?x = "rootp (nil T) t"
  have rep: "rep T (plug (f # cs) t)" using f by (simp add: focus_def)
  have x: "?x \<noteq> root T" using root_not_in_context [OF rep] by simp
  have c: "rd rcolor ?x T = Some BLACK" using rep_rd_color [OF rep] t by simp
  have p: "rd rparent ?x T = Some (faddr f)" using f by (simp add: focus_def)
  define r where "r = (if rd rleft (faddr f) T = Some ?x then delete_fixup_left T ?x else delete_fixup_right T ?x)"
  have it: "del_iter r T (plug (f # cs) t) (2 * length (f # cs)) \<and> rd rleft (faddr f) T \<noteq> None"
  proof (cases f)
    case (FL a d pk s)
    have "rd rleft a T = Some ?x" using rep_rd(2) [of T cs t a d pk s] rep FL by simp
    then show ?thesis using delete_iter_left [of T a d pk s cs t] f ok t FL by (simp add: r_def)
  next
    case (FR s a d pk)
    have l: "rd rleft a T = Some (rootp (nil T) s)" using rep_rd(2) [of T cs s a d pk t] rep FR by simp
    have "s \<noteq> Lf" using ok FR by (auto simp: del_ok_def)
    then obtain sl b sc sk sr where s: "s = Nd sl b sc sk sr" by (cases s) auto
    have "b \<noteq> ?x" using rep FR s rootp_in [of "nil T" t]
      by (cases "rootp (nil T) t = nil T") (auto simp: rep_plug)
    then have "rootp (nil T) s \<noteq> ?x" using s by simp
    then show ?thesis using delete_iter_right [of T s a d pk cs t] f ok t FR l by (simp add: r_def)
  qed
  then obtain T' cs' t' where r: "r = Some (T', rootp (nil T') t')" "moved T (plug (f # cs) t) T' (plug cs' t')"
    "focus T' cs' t'" "del_ok cs' t'" "del_size cs' t' \<le> 2 * length (f # cs)"
    unfolding del_iter_def by blast
  have "delete_fixup_loop T ?x = delete_fixup_loop T' (rootp (nil T') t')"
    using x c p it r(1) by (auto simp: delete_fixup_loop.simps [of T ?x] r_def split: if_splits)
  then show ?thesis using that r t by (simp add: del_size_def)
qed

lemma delete_loop_stop:
  assumes f: "focus T cs t" and "cs = [] \<or> scol t = RED"
  shows "delete_fixup_loop T (rootp (nil T) t) = Some (T, rootp (nil T) t)"
proof -
  have rep: "rep T (plug cs t)" using f by (simp add: focus_def)
  have "root T = rootp (nil T) t" if "cs = []" using rep that by (simp add: rep_def)
  then show ?thesis
    using assms(2) rep_rd_color [OF rep] by (auto simp: delete_fixup_loop.simps [of T "rootp (nil T) t"])
qed

lemma paint_focus:
  assumes "focus T cs t"
  shows "\<exists>T'. wr (set_color BLACK) (rootp (nil T) t) T = Some T' \<and> moved T (plug cs t) T' (plug cs (paint BLACK t))"
proof (cases t)
  case Lf
  obtain nn where nn: "nodes T (nil T) = Some nn" "rcolor nn = BLACK"
    using assms by (auto simp: focus_def rep_def)
  then have "nn\<lparr>rcolor := BLACK\<rparr> = nn" by (cases nn) simp
  then have "wr (set_color BLACK) (nil T) T = Some T" using nn(1) by (simp add: wr_def fun_upd_idem)
  then show ?thesis using Lf assms moved_refl by (simp add: focus_def)
next
  case (Nd l a c kv r)
  then show ?thesis using moved_color [of T cs l a c kv r BLACK] assms by (auto simp: focus_def)
qed

lemma del_ok_done:
  assumes "del_ok cs t" and "cs = [] \<or> scol t = RED"
  shows "rbt (plug cs (paint BLACK t))"
  using assms unfolding rbt_plug by (auto simp: del_ok_def bheight_paint_BLACK)

lemma rbtree_delete_fixup_ok:
  assumes "focus T cs t" and "del_ok cs t"
  shows "\<exists>T' t'. rbtree_delete_fixup T (rootp (nil T) t) = Some T' \<and> moved T (plug cs t) T' t' \<and> rbt t'"
proof -
  have "\<exists>T' cs' t'. delete_fixup_loop T (rootp (nil T) t) = Some (T', rootp (nil T') t') \<and>
      moved T (plug cs t) T' (plug cs' t') \<and> focus T' cs' t' \<and> rbt (plug cs' (paint BLACK t'))"
    using assms
  proof (induction "del_size cs t" arbitrary: T cs t rule: less_induct)
    case less
    show ?case
    proof (cases "cs = [] \<or> scol t = RED")
      case True
      then show ?thesis
        using delete_loop_stop [OF less.prems(1) True] del_ok_done [OF less.prems(2) True] less.prems(1)
          moved_refl by (auto simp: focus_def)
    next
      case False
      then obtain f ds where cs: "cs = f # ds" and t: "scol t = BLACK" by (cases cs) auto
      obtain T1 cs1 t1 where 1: "delete_fixup_loop T (rootp (nil T) t) = delete_fixup_loop T1 (rootp (nil T1) t1)"
        "moved T (plug cs t) T1 (plug cs1 t1)" "focus T1 cs1 t1" "del_ok cs1 t1" "del_size cs1 t1 < del_size cs t"
        using delete_loop_next [of T f ds t] less.prems t unfolding cs by metis
      from less.hyps [OF 1(5,3,4)] show ?thesis
        unfolding 1(1) using moved_trans [OF 1(2)] by blast
    qed
  qed
  then obtain T1 cs1 t1 where 1: "delete_fixup_loop T (rootp (nil T) t) = Some (T1, rootp (nil T1) t1)"
    "moved T (plug cs t) T1 (plug cs1 t1)" "focus T1 cs1 t1" "rbt (plug cs1 (paint BLACK t1))"
    by blast
  obtain T2 where "wr (set_color BLACK) (rootp (nil T1) t1) T1 = Some T2"
    "moved T1 (plug cs1 t1) T2 (plug cs1 (paint BLACK t1))"
    using paint_focus [OF 1(3)] by blast
  then show ?thesis using 1(1,4) moved_trans [OF 1(2)] by (auto simp: rbtree_delete_fixup_def)
qed

section \<open>Unlinking a node\<close>

text \<open>
  The sentinel's parent field may change, nothing else of it, and nothing outside the tree.
\<close>

definition same_but_nil :: "shape \<Rightarrow> rbtree \<Rightarrow> rbtree \<Rightarrow> bool" where
  "same_but_nil t T T' \<longleftrightarrow>
     nil T' = nil T \<and> (\<forall>q. q \<notin> set (addrs t) \<longrightarrow> q \<noteq> nil T \<longrightarrow> nodes T' q = nodes T q) \<and>
     (\<forall>nn. nodes T (nil T) = Some nn \<longrightarrow> (\<exists>p. nodes T' (nil T) = Some (nn\<lparr>rparent := p\<rparr>)))"

lemma same_but_nil_moved:
  assumes "same_but_nil s T T1" and "moved T1 t1 T2 t2" and "set (addrs t1) \<subseteq> set (addrs s)"
    and "nil T \<notin> set (addrs s)"
  shows "same_but_nil s T T2"
  using assms unfolding same_but_nil_def moved_def same_outside_def by (metis subsetD)

text \<open>The node \<open>y\<close> has at most one child \<open>s\<close>, which takes its place.\<close>

definition unlink :: "rbtree \<Rightarrow> addr \<Rightarrow> addr \<Rightarrow> rbtree option" where
  "unlink T y x =
     do { yp \<leftarrow> rd rparent y T;
          T1 \<leftarrow> wr (set_parent yp) x T;
          (if yp = nil T1 then Some (T1\<lparr>root := x\<rparr>)
           else do { l \<leftarrow> rd rleft yp T1;
                     if y = l then wr (set_left x) yp T1 else wr (set_right x) yp T1 }) }"

lemma unlink_ok:
  assumes rep: "rep T (plug cs (Nd l y c kv r))" and s: "l = Lf \<and> s = r \<or> r = Lf \<and> s = l"
  shows "\<exists>T'. unlink T y (rootp (nil T) s) = Some T' \<and> focus T' cs s \<and>
           nodes T' y = nodes T y \<and> same_but_nil (plug cs (Nd l y c kv r)) T T'"
proof -
  note R = rep [unfolded rep_plug]
  let ?p = "par_of (nil T) cs"
  obtain nn where nn: "nodes T (nil T) = Some nn" "rcolor nn = BLACK" using R by auto
  define N where "N = (if s = Lf then (nodes T)(nil T \<mapsto> nn\<lparr>rparent := ?p\<rparr>) else reparent (nil T) ?p s (nodes T))"
  define T1 where "T1 = T\<lparr>nodes := N\<rparr>"
  have sa: "set (addrs s) \<inter> set (caddrs cs) = {}" "y \<notin> set (addrs s)" "y \<notin> set (caddrs cs)" "y \<noteq> nil T"
    "nil T \<notin> set (caddrs cs)" "nil T \<notin> set (addrs s)" "distinct (addrs s)" "distinct (caddrs cs)"
    and st: "tree_at (nodes T) (nil T) y s" and cx: "ctx_at (nodes T) (nil T) (root T) y cs"
    using R s by auto
  have 1: "wr (set_parent ?p) (rootp (nil T) s) T = Some T1"
    using st nn(1) by (cases s) (simp_all add: wr_def T1_def N_def mk_node_def)
  have keep: "N q = nodes T q" if "q \<notin> set (addrs s)" "q \<noteq> nil T" for q
    using that by (simp add: N_def)
  have keepc: "N q = nodes T q" if "q \<in> set (caddrs cs)" for q
  proof -
    have "q \<notin> set (addrs s)" "q \<noteq> nil T" using that sa by auto
    then show ?thesis by (rule keep)
  qed
  define T2 where "T2 = T1\<lparr>root := (if cs = [] then rootp (nil T) s else root T1),
      nodes := relink (nil T) (rootp (nil T) s) cs (nodes T1)\<rparr>"
  have nil: "nil T1 = nil T" "nil T2 = nil T" by (simp_all add: T1_def T2_def)
  have 2: "(if ?p = nil T1 then Some (T1\<lparr>root := rootp (nil T) s\<rparr>)
     else do { l \<leftarrow> rd rleft ?p T1; if y = l then wr (set_left (rootp (nil T) s)) ?p T1
               else wr (set_right (rootp (nil T) s)) ?p T1 }) = Some T2"
    unfolding nil T2_def
    by (rule relink_left [where N = "nodes T" and rt = "root T"]) (use sa cx keepc nil in \<open>auto simp: T1_def\<close>)
  have run: "unlink T y (rootp (nil T) s) = Some T2"
    using rep_rd(4) [OF rep] 1 2 by (simp add: unlink_def)
  have n2: "nodes T2 q = N q" if "q \<notin> set (caddrs cs)" for q
    using that by (simp add: T2_def T1_def)
  have cx2: "ctx_at (nodes T2) (nil T2) (root T2) (rootp (nil T2) s) cs"
  proof -
    have "ctx_at N (nil T) (root T) y cs" using ctx_at_cong [of cs N "nodes T"] keepc cx by simp
    from ctx_at_relink [OF this sa(8), of "rootp (nil T) s"] show ?thesis
      by (simp add: T2_def T1_def split: if_splits)
  qed
  have st2: "tree_at (nodes T2) (nil T2) ?p s"
  proof -
    have "tree_at N (nil T) ?p s"
      using st sa(7) tree_at_reparent [of "nodes T" "nil T" y s ?p] by (cases s) (simp_all add: N_def)
    moreover have "nodes T2 q = N q" if "q \<in> set (addrs s)" for q using that sa(1) n2 by auto
    ultimately show ?thesis using tree_at_cong [of s "nodes T2" N] nil by simp
  qed
  have nl2: "\<exists>p. nodes T2 (nil T) = Some (nn\<lparr>rparent := p\<rparr>)"
  proof (cases s)
    case Lf
    then show ?thesis using n2 [OF sa(5)] by (auto simp: N_def)
  next
    case (Nd sl b sc sk sr)
    then have "nodes T2 (nil T) = Some nn" using n2 [OF sa(5)] sa(6) nn(1) by (simp add: N_def)
    then show ?thesis by (intro exI [of _ "rparent nn"]) simp
  qed
  have "rep T2 (plug cs s)"
    unfolding rep_plug using cx2 st2 nl2 sa nil nn(2) by auto
  moreover have "rd rparent (rootp (nil T2) s) T2 = Some (par_of (nil T2) cs)"
  proof (cases s)
    case Lf
    then show ?thesis using n2 [OF sa(5)] nil by (simp add: N_def rd_def)
  next
    case (Nd sl b sc sk sr)
    then show ?thesis using st2 nil by (simp add: rd_def mk_node_def)
  qed
  moreover have "nodes T2 y = nodes T y" using n2 [OF sa(3)] keep [OF sa(2,4)] by simp
  moreover have "same_but_nil (plug cs (Nd l y c kv r)) T T2"
    unfolding same_but_nil_def
  proof (intro conjI allI impI)
    show "nodes T2 q = nodes T q" if "q \<notin> set (addrs (plug cs (Nd l y c kv r)))" "q \<noteq> nil T" for q
      using that n2 keep s by (auto simp: set_addrs_plug)
  qed (use nl2 nn(1) nil in auto)
  ultimately show ?thesis using run by (auto simp: focus_def)
qed

section \<open>Deleting\<close>

lemma rbtree_mini_ok:
  assumes "rep T (plug cs t)" and "t \<noteq> Lf"
  shows "\<exists>ds y yc ykv yr. t = plug ds (Nd Lf y yc ykv yr) \<and> before ds = [] \<and> rbtree_mini T (rootp (nil T) t) = Some y"
  using assms
proof (induction t arbitrary: cs)
  case (Nd l a c kv r)
  note R = rep_rd [OF Nd.prems(1)]
  show ?case
  proof (cases "l = Lf")
    case True
    then show ?thesis using R
      by (intro exI [of _ "[]"] exI [of _ a] exI [of _ c] exI [of _ kv] exI [of _ r])
        (simp add: rbtree_mini.simps [of T a])
  next
    case False
    have rep: "rep T (plug (FL a c kv r # cs) l)" using Nd.prems(1) by simp
    obtain ds y yc ykv yr where l: "l = plug ds (Nd Lf y yc ykv yr)" "before ds = []"
      "rbtree_mini T (rootp (nil T) l) = Some y"
      using Nd.IH(1) [OF rep False] by blast
    have "rootp (nil T) l \<noteq> nil T" using rep False by (cases l) (auto simp: rep_plug)
    then have "rbtree_mini T a = Some y" using R l(3) by (simp add: rbtree_mini.simps [of T a])
    then show ?thesis using l
      by (intro exI [of _ "ds @ [FL a c kv r]"] exI [of _ y] exI [of _ yc] exI [of _ ykv] exI [of _ yr])
        (simp add: plug_append before_append)
  qed
qed simp

definition swap_kv :: "rbtree \<Rightarrow> addr \<Rightarrow> addr \<Rightarrow> rbtree option" where
  "swap_kv T z y =
     do { zk \<leftarrow> rd rkey z T; yk \<leftarrow> rd rkey y T;
          zv \<leftarrow> rd rvalue z T; yv \<leftarrow> rd rvalue y T;
          T' \<leftarrow> wr (\<lambda>n. n\<lparr>rkey := yk, rvalue := yv\<rparr>) z T;
          wr (\<lambda>n. n\<lparr>rkey := zk, rvalue := zv\<rparr>) y T' }"

lemma rbtree_delete_alt:
  "rbtree_delete T z =
     do { zl \<leftarrow> rd rleft z T;
          zr \<leftarrow> rd rright z T;
          y \<leftarrow> (if zl = nil T \<or> zr = nil T then Some z else rbtree_successor T z);
          yl \<leftarrow> rd rleft y T;
          yr \<leftarrow> rd rright y T;
          T2 \<leftarrow> unlink T y (if yl \<noteq> nil T then yl else if yr \<noteq> nil T then yr else nil T);
          T3 \<leftarrow> (if y \<noteq> z
                 then swap_kv T2 z y
                 else Some T2);
          yc \<leftarrow> rd rcolor y T3;
          T4 \<leftarrow> (if yc = BLACK
                 then rbtree_delete_fixup T3 (if yl \<noteq> nil T then yl else if yr \<noteq> nil T then yr else nil T)
                 else Some T3);
          Some (T4, y) }"
  by (simp add: rbtree_delete_def unlink_def swap_kv_def Let_def cong: if_cong)

text \<open>
  What is left after unlinking: a node that was black leaves a tree that lacks a black
  node at its place, a red one a red-black tree.
\<close>

lemma unlinked_shape:
  assumes "rbt (plug cs (Nd l y c kv r))" and s: "l = Lf \<and> s = r \<or> r = Lf \<and> s = l"
  shows "c = BLACK \<Longrightarrow> del_ok cs s" and "c = RED \<Longrightarrow> rbt (plug cs s)"
proof -
  have i: "invc s" "invh s" "cblack cs" "cinv (bheight (Nd l y c kv r)) cs" "bheight l = bheight r"
    "c = RED \<longrightarrow> scol s = BLACK \<and> ccol cs = BLACK \<and> cs \<noteq> []"
    using assms unfolding rbt_plug by (auto split: if_splits)
  have bs: "bheight s = bheight l" using s i(5) by auto
  show "del_ok cs s" if "c = BLACK" using i bs that by (simp add: del_ok_def)
  show "rbt (plug cs s)" if "c = RED" using i bs that unfolding rbt_plug by simp
qed

text \<open>The tail of \<open>rbtree_delete\<close> after the node was unlinked.\<close>

lemma delete_tail_ok:
  assumes f: "focus T cs s" and c: "c = BLACK \<longrightarrow> del_ok cs s" "c = RED \<longrightarrow> rbt (plug cs s)"
  shows "\<exists>T' t'. (if c = BLACK then rbtree_delete_fixup T (rootp (nil T) s) else Some T) = Some T' \<and>
           moved T (plug cs s) T' t' \<and> rbt t'"
proof (cases c)
  case BLACK
  then show ?thesis using rbtree_delete_fixup_ok [OF f] c(1) by simp
next
  case RED
  then show ?thesis using c(2) f moved_refl by (auto simp: focus_def)
qed

lemma rootp_choice:
  assumes "rep T (plug cs (Nd l y c kv r))" and "l = Lf \<or> r = Lf"
  shows "(if rootp (nil T) l \<noteq> nil T then rootp (nil T) l
          else if rootp (nil T) r \<noteq> nil T then rootp (nil T) r else nil T) =
         rootp (nil T) (if l = Lf then r else l)"
  using assms by (cases l; cases r) (auto simp: rep_plug)

text \<open>
  The tree \<open>t\<close> with the pairs \<open>xs @ kv # ys\<close> lost the pair in the middle and the node \<open>y\<close>.
\<close>

definition deleted ::
  "rbtree \<Rightarrow> shape \<Rightarrow> (cptr \<times> cptr) list \<Rightarrow> cptr \<times> cptr \<Rightarrow> (cptr \<times> cptr) list \<Rightarrow> rbtree \<Rightarrow> addr \<Rightarrow> bool" where
  "deleted T t xs kv ys T' y \<longleftrightarrow>
     (\<exists>t'. rep T' t' \<and> rbt t' \<and> map snd (inorder t) = xs @ kv # ys \<and>
        map snd (inorder t') = xs @ ys \<and> y \<in> set (addrs t) \<and> set (addrs t') = set (addrs t) - {y} \<and>
        (\<exists>n. nodes T' y = Some n \<and> (rkey n, rvalue n) = kv) \<and> same_but_nil t T T')"

lemma deletedI:
  "rep T' t' \<Longrightarrow> rbt t' \<Longrightarrow> map snd (inorder t) = xs @ kv # ys \<Longrightarrow> map snd (inorder t') = xs @ ys \<Longrightarrow>
   y \<in> set (addrs t) \<Longrightarrow> set (addrs t') = set (addrs t) - {y} \<Longrightarrow>
   \<exists>n. nodes T' y = Some n \<and> (rkey n, rvalue n) = kv \<Longrightarrow> same_but_nil t T T' \<Longrightarrow> deleted T t xs kv ys T' y"
  unfolding deleted_def by blast

text \<open>A node with at most one child.\<close>

lemma delete_simple:
  assumes rep: "rep T (plug cs (Nd l z c kv r))" (is "rep T ?t") and rbt: "rbt (plug cs (Nd l z c kv r))"
    and lf: "l = Lf \<or> r = Lf"
  shows "\<exists>T'. rbtree_delete T z = Some (T', z) \<and> deleted T ?t (map snd (before cs @ inorder l)) kv (map snd (inorder r @ after cs)) T' z"
proof -
  let ?s = "if l = Lf then r else l"
  have s: "l = Lf \<and> ?s = r \<or> r = Lf \<and> ?s = l" using lf by auto
  note R = rep_rd [OF rep]
  obtain T2 where T2: "unlink T z (rootp (nil T) ?s) = Some T2" "focus T2 cs ?s" "nodes T2 z = nodes T z"
    "same_but_nil ?t T T2"
    using unlink_ok [OF rep s] by blast
  have n2: "nil T2 = nil T" using T2(4) by (simp add: same_but_nil_def)
  note S = unlinked_shape [OF rbt s]
  obtain T4 t4 where T4: "(if c = BLACK then rbtree_delete_fixup T2 (rootp (nil T2) ?s) else Some T2) = Some T4"
    "moved T2 (plug cs ?s) T4 t4" "rbt t4"
    using delete_tail_ok [OF T2(2)] S by blast
  have nn: "rootp (nil T) l = nil T \<or> rootp (nil T) r = nil T" using lf by auto
  have rc: "rd rcolor z T2 = Some c" using R(1) T2(3) by (simp add: rd_def)
  have run: "rbtree_delete T z = Some (T4, z)"
    unfolding rbtree_delete_alt
    using R nn T2(1) rc T4(1) n2 by (simp add: rootp_choice [OF rep lf, simplified] split: if_splits)
  have d: "distinct (nil T # addrs ?t)" using rep by (simp add: rep_def)
  have sub: "set (addrs (plug cs ?s)) = set (addrs ?t) - {z}"
    using d s by (auto simp: set_addrs_plug distinct_addrs_plug)
  have z4: "nodes T4 z = nodes T z" using T4(2) T2(3) sub by (auto simp: moved_def same_outside_def)
  have io4: "inorder t4 = before cs @ inorder ?s @ after cs" using T4(2) by (simp add: moved_def inorder_plug)
  have "deleted T ?t (map snd (before cs @ inorder l)) kv (map snd (inorder r @ after cs)) T4 z"
  proof (rule deletedI [OF moved_rep [OF T4(2)] T4(3)])
    show "map snd (inorder ?t) = map snd (before cs @ inorder l) @ kv # map snd (inorder r @ after cs)"
      "map snd (inorder t4) = map snd (before cs @ inorder l) @ map snd (inorder r @ after cs)"
      using s by (auto simp: inorder_plug io4)
    show "set (addrs t4) = set (addrs ?t) - {z}" using T4(2) sub by (simp add: moved_def addrs_def)
    show "\<exists>n. nodes T4 z = Some n \<and> (rkey n, rvalue n) = kv"
      using z4 rep_read(1) [OF rep] by (auto simp: mk_node_def)
    show "same_but_nil ?t T T4" using same_but_nil_moved [OF T2(4) T4(2)] sub d by auto
  qed (simp add: set_addrs_plug)
  with run show ?thesis by blast
qed

lemma rep_kv:
  assumes "rep T (plug cs (Nd l a c kv r))"
  shows "wr (\<lambda>n. n\<lparr>rkey := fst kw, rvalue := snd kw\<rparr>) a T =
           Some (T\<lparr>nodes := (nodes T)(a \<mapsto> mk_node (nil T) l c kw r (par_of (nil T) cs))\<rparr>)"
    and "rep (T\<lparr>nodes := (nodes T)(a \<mapsto> mk_node (nil T) l c kw r (par_of (nil T) cs))\<rparr>)
           (plug cs (Nd l a c kw r))"
proof -
  show "wr (\<lambda>n. n\<lparr>rkey := fst kw, rvalue := snd kw\<rparr>) a T =
      Some (T\<lparr>nodes := (nodes T)(a \<mapsto> mk_node (nil T) l c kw r (par_of (nil T) cs))\<rparr>)"
    using rep_read [OF assms] by (simp add: wr_def mk_node_def)
  show "rep (T\<lparr>nodes := (nodes T)(a \<mapsto> mk_node (nil T) l c kw r (par_of (nil T) cs))\<rparr>)
           (plug cs (Nd l a c kw r))"
    using assms by (auto simp: rep_plug)
qed

lemma rep_outside:
  "q \<notin> set (addrs t) \<Longrightarrow> q \<noteq> nil T \<Longrightarrow> rep (T\<lparr>nodes := (nodes T)(q := v)\<rparr>) t = rep T t"
  by (simp add: rep_def)

text \<open>The swap of key and value between the node and its successor, which is unlinked.\<close>

lemma swap_ok:
  assumes f: "focus T (ds @ FR l z c kv # cs) s" and y: "nodes T y = Some ny" "y \<noteq> nil T"
      "y \<notin> set (addrs (plug (ds @ FR l z c kv # cs) s))"
  defines "kw \<equiv> (rkey ny, rvalue ny)"
  shows "\<exists>T'. swap_kv T z y = Some T' \<and>
           focus T' (ds @ FR l z c kw # cs) s \<and> nil T' = nil T \<and>
           nodes T' y = Some (ny\<lparr>rkey := fst kv, rvalue := snd kv\<rparr>) \<and>
           (\<forall>q. q \<noteq> y \<longrightarrow> q \<noteq> z \<longrightarrow> nodes T' q = nodes T q)"
proof -
  have e: "plug (ds @ FR l z c k # cs) s = plug cs (Nd l z c k (plug ds s))" for k by (simp add: plug_append)
  have rep: "rep T (plug cs (Nd l z c kv (plug ds s)))" using f unfolding focus_def e by simp
  note R = rep_rd [OF rep]
  have yz: "y \<noteq> z" "y \<notin> set (addrs (plug cs (Nd l z c kw (plug ds s))))"
    using y(3) unfolding e by (auto simp: set_addrs_plug)
  define T1 where "T1 = T\<lparr>nodes := (nodes T)(z \<mapsto> mk_node (nil T) l c kw (plug ds s) (par_of (nil T) cs))\<rparr>"
  define T2 where "T2 = T1\<lparr>nodes := (nodes T1)(y \<mapsto> ny\<lparr>rkey := fst kv, rvalue := snd kv\<rparr>)\<rparr>"
  have 1: "wr (\<lambda>n. n\<lparr>rkey := fst kw, rvalue := snd kw\<rparr>) z T = Some T1"
    "rep T1 (plug cs (Nd l z c kw (plug ds s)))"
    unfolding T1_def using rep_kv [OF rep] by blast+
  have n1: "nodes T1 y = Some ny" "nil T1 = nil T" using y(1) yz(1) by (simp_all add: T1_def)
  have 2: "wr (\<lambda>n. n\<lparr>rkey := fst kv, rvalue := snd kv\<rparr>) y T1 = Some T2"
    using n1 by (simp add: wr_def T2_def)
  have "rep T2 (plug cs (Nd l z c kw (plug ds s)))"
    unfolding T2_def using rep_outside [OF yz(2)] 1(2) y(2) n1(2) by simp
  moreover have "rd rparent (rootp (nil T2) s) T2 = Some (par_of (nil T2) (ds @ FR l z c kw # cs))"
  proof -
    have "y \<notin> set (addrs s)" "z \<notin> set (addrs s)"
      using y(3) rep unfolding e by (auto simp: rep_plug set_addrs_plug)
    then have "rootp (nil T) s \<noteq> y" "rootp (nil T) s \<noteq> z"
      using y(2) R(7) by (simp_all add: rootp_neq)
    moreover have "par_of (nil T) (ds @ FR l z c kw # cs) = par_of (nil T) (ds @ FR l z c kv # cs)"
      by (cases ds) auto
    ultimately show ?thesis using f by (simp add: focus_def rd_def T2_def T1_def)
  qed
  ultimately have "focus T2 (ds @ FR l z c kw # cs) s" unfolding focus_def e by simp
  moreover have "nodes T2 y = Some (ny\<lparr>rkey := fst kv, rvalue := snd kv\<rparr>)" "nil T2 = nil T"
    "\<forall>q. q \<noteq> y \<longrightarrow> q \<noteq> z \<longrightarrow> nodes T2 q = nodes T q" by (simp_all add: T2_def T1_def)
  moreover have "rd rkey y T = Some (fst kw)" "rd rvalue y T = Some (snd kw)"
    using y(1) by (simp_all add: rd_def kw_def)
  ultimately show ?thesis using R 1(1) 2 by (auto simp: swap_kv_def)
qed

text \<open>A node with two children.\<close>

lemma delete_inner:
  assumes rep: "rep T (plug cs (Nd l z c kv r))" (is "rep T ?t") and rbt: "rbt (plug cs (Nd l z c kv r))"
    and nlf: "l \<noteq> Lf" "r \<noteq> Lf"
  shows "\<exists>T' y. rbtree_delete T z = Some (T', y) \<and> deleted T ?t (map snd (before cs @ inorder l)) kv (map snd (inorder r @ after cs)) T' y"
proof -
  have "rep T (plug (FR l z c kv # cs) r)" using rep by simp
  then obtain ds y yc kw yr where r: "r = plug ds (Nd Lf y yc kw yr)" "before ds = []"
    and mini: "rbtree_mini T (rootp (nil T) r) = Some y"
    using rbtree_mini_ok nlf(2) by blast
  let ?cs = "\<lambda>k. ds @ FR l z c k # cs"
  have t: "?t = plug (?cs kv) (Nd Lf y yc kw yr)" by (simp add: plug_append r(1))
  have rep': "rep T (plug (?cs kv) (Nd Lf y yc kw yr))" and rbt': "rbt (plug (?cs kw) (Nd Lf y yc kw yr))"
    using rep rbt r(1) by (simp_all add: plug_append rbt_plug [of cs])
  note R = rep_rd [OF rep] and Y = rep_rd [OF rep']
  have d: "distinct (nil T # addrs ?t)" using rep by (simp add: rep_def)
  have nn: "rootp (nil T) l \<noteq> nil T" "rootp (nil T) r \<noteq> nil T"
    using rep nlf by (cases l; cases r; auto simp: rep_plug)+
  obtain T2 where T2: "unlink T y (rootp (nil T) yr) = Some T2" "focus T2 (?cs kv) yr" "nodes T2 y = nodes T y"
    "same_but_nil ?t T T2"
    using unlink_ok [OF rep', of yr] t by auto
  have n2: "nil T2 = nil T" using T2(4) by (simp add: same_but_nil_def)
  have sub: "set (addrs (plug (?cs k) yr)) = set (addrs ?t) - {y}" and yt: "y \<in> set (addrs ?t)" and yz: "y \<noteq> z"
    and zt: "z \<in> set (addrs ?t)" and yn: "y \<noteq> nil T" for k
    using d by (auto simp: set_addrs_plug distinct_addrs_plug plug_append r(1))
  define ny where "ny = mk_node (nil T) Lf yc kw yr (par_of (nil T) (?cs kv))"
  have y2: "nodes T2 y = Some ny" using T2(3) rep_read(1) [OF rep'] by (simp add: ny_def)
  have yout: "y \<notin> set (addrs (plug (?cs kv) yr))" unfolding sub by simp
  have kw: "kw = (rkey ny, rvalue ny)" by (simp add: ny_def mk_node_def)
  obtain T3 where sw: "swap_kv T2 z y = Some T3"
    and T3: "focus T3 (?cs kw) yr" "nil T3 = nil T2"
      "nodes T3 y = Some (ny\<lparr>rkey := fst kv, rvalue := snd kv\<rparr>)"
      "\<forall>q. q \<noteq> y \<longrightarrow> q \<noteq> z \<longrightarrow> nodes T3 q = nodes T2 q"
    using swap_ok [OF T2(2) y2 _ yout] yn n2 unfolding kw by auto
  note S = unlinked_shape [OF rbt', of yr]
  obtain T4 t4 where T4: "(if yc = BLACK then rbtree_delete_fixup T3 (rootp (nil T3) yr) else Some T3) = Some T4"
    "moved T3 (plug (?cs kw) yr) T4 t4" "rbt t4"
    using delete_tail_ok [OF T3(1)] S by blast
  have yc: "rd rcolor y T3 = Some yc" using T3(3) by (simp add: rd_def ny_def mk_node_def)
  have run: "rbtree_delete T z = Some (T4, y)"
    unfolding rbtree_delete_alt rbtree_successor_def
    using R nn mini Y T2(1) sw yz yc T4(1) n2 T3(2) by (auto split: if_splits)
  have "same_but_nil ?t T T3"
    using T2(4) T3 zt yt d unfolding same_but_nil_def by (metis distinct.simps(2))
  then have sbn: "same_but_nil ?t T T4"
    using same_but_nil_moved [OF _ T4(2)] sub d by auto
  have y4: "nodes T4 y = nodes T3 y" using T4(2) sub by (auto simp: moved_def same_outside_def)
  have io4: "inorder t4 = inorder (plug (?cs kw) yr)" using T4(2) by (simp add: moved_def)
  have "deleted T ?t (map snd (before cs @ inorder l)) kv (map snd (inorder r @ after cs)) T4 y"
  proof (rule deletedI [OF moved_rep [OF T4(2)] T4(3)])
    show "map snd (inorder ?t) = map snd (before cs @ inorder l) @ kv # map snd (inorder r @ after cs)"
      by (simp add: inorder_plug)
    show "map snd (inorder t4) = map snd (before cs @ inorder l) @ map snd (inorder r @ after cs)"
      using r(2) by (simp add: io4 inorder_plug plug_append r(1))
    show "set (addrs t4) = set (addrs ?t) - {y}" using T4(2) sub by (simp add: moved_def addrs_def)
    show "\<exists>n. nodes T4 y = Some n \<and> (rkey n, rvalue n) = kv" using y4 T3(3) by simp
  qed (use yt sbn in auto)
  with run show ?thesis by blast
qed

lemma rbtree_delete_ok:
  assumes "rep T (plug cs (Nd l z c kv r))" and "rbt (plug cs (Nd l z c kv r))"
  shows "\<exists>T' y. rbtree_delete T z = Some (T', y) \<and> 
           deleted T (plug cs (Nd l z c kv r)) (map snd (before cs @ inorder l)) kv (map snd (inorder r @ after cs)) T' y"
  using delete_simple [OF assms] delete_inner [OF assms] by blast

end
