(* ===== verification/Kvs_Rbtree.thy ===== *)
theory Kvs_Rbtree
  imports Rbtree_Delete Kv_Contract "HOL-Library.Multiset"
begin

text \<open>
  The red-black tree store of \<^verbatim>\<open>src/kvs_rbtree.c\<close>, lines 437--551: the operations the
  server calls, on top of the tree of \<^verbatim>\<open>Rbtree\<close>.
\<close>

section \<open>Operations\<close>

definition sizeof_rbtree_node :: size_t where
  "sizeof_rbtree_node = 48"

text \<open>\<open>junk\<close> is what the fresh block of a node holds; the C code does not clear it.\<close>

definition kvs_rbtree_create :: "rbtree_node \<Rightarrow> rbtree \<Rightarrow> heap \<Rightarrow> (int \<times> rbtree \<times> heap) res" where
  "kvs_rbtree_create junk T h =
     (let (p, h') = kvs_malloc sizeof_rbtree_node h
      in if p = 0 then undef
         else ret (0, T\<lparr>root := p, nil := p, nodes := (nodes T)(p \<mapsto> junk\<lparr>rcolor := BLACK\<rparr>)\<rparr>, h'))"

text \<open>
  The loop of \<open>kvs_rbtree_destory\<close> runs while the root is null, which it never is after
  \<open>kvs_rbtree_create\<close>; if it were, its first statement would dereference it.
\<close>

definition kvs_rbtree_destory :: "rbtree \<Rightarrow> heap \<Rightarrow> heap res" where
  "kvs_rbtree_destory T h = (if root T = 0 then undef else ret (kvs_free (nil T) h))"

definition kvs_rbtree_set ::
  "rbtree_node \<Rightarrow> rbtree \<Rightarrow> cstring option \<Rightarrow> cstring option \<Rightarrow> heap \<Rightarrow> (int \<times> rbtree \<times> heap) res" where
  "kvs_rbtree_set junk T ko vo h =
     (case (ko, vo) of
        (Some key, Some val) \<Rightarrow>
          let (node, h1) = kvs_malloc sizeof_rbtree_node h;
              (kcopy, h2) = kvs_strcopy key h1
          in if node = 0 then undef
             else let T1 = T\<lparr>nodes := (nodes T)(node \<mapsto> junk\<lparr>rkey := kcopy\<rparr>)\<rparr>
                  in if kcopy = CNull then ret (- 2, T1, h2)
                     else let (kvalue, h3) = kvs_strcopy val h2;
                              T2 = T\<lparr>nodes := (nodes T)(node \<mapsto> junk\<lparr>rkey := kcopy, rvalue := kvalue\<rparr>)\<rparr>
                          in if kvalue = CNull then ret (- 2, T2, h3)
                             else rbind (or_undef (rbtree_insert T2 node)) (\<lambda>T3. ret (0, T3, h3))
      | _ \<Rightarrow> ret (- 1, T, h))"

definition kvs_rbtree_get :: "rbtree \<Rightarrow> cstring option \<Rightarrow> cptr res" where
  "kvs_rbtree_get T ko =
     (case ko of
        None \<Rightarrow> ret CNull
      | Some key \<Rightarrow>
          rbind (or_undef (rbtree_search T key)) (\<lambda>node.
            if node = 0 then ret CNull
            else if node = nil T then ret CNull
            else or_undef (rd rvalue node T)))"

text \<open>The node is given to \<open>free\<close>, whose argument must be a live block of \<open>malloc\<close>.\<close>

definition free_ok :: "addr \<Rightarrow> heap \<Rightarrow> bool" where
  "free_ok p h \<longleftrightarrow> p = 0 \<or> p \<in> fst ` set (sys_blocks h) \<and> p \<notin> set (sys_freed h)"

definition kvs_rbtree_del :: "rbtree \<Rightarrow> cstring option \<Rightarrow> heap \<Rightarrow> (int \<times> rbtree \<times> heap) res" where
  "kvs_rbtree_del T ko h =
     (case ko of
        None \<Rightarrow> ret (- 1, T, h)
      | Some key \<Rightarrow>
          rbind (or_undef (rbtree_search T key)) (\<lambda>node.
            if node = 0 then ret (1, T, h)
            else rbind (or_undef (rbtree_delete T node)) (\<lambda>(T1, cur).
              if free_ok cur h
              then ret (0, T1\<lparr>nodes := (nodes T1)(cur := None)\<rparr>, free cur h)
              else undef)))"

definition kvs_rbtree_mod ::
  "rbtree \<Rightarrow> cstring option \<Rightarrow> cstring option \<Rightarrow> heap \<Rightarrow> (int \<times> rbtree \<times> heap) res" where
  "kvs_rbtree_mod T ko vo h =
     (case (ko, vo) of
        (Some key, Some val) \<Rightarrow>
          rbind (or_undef (rbtree_search T key)) (\<lambda>node.
            if node = 0 then ret (1, T, h)
            else if node = nil T then ret (1, T, h)
            else rbind (or_undef (rd rvalue node T)) (\<lambda>old.
              let h1 = kvs_free (caddr old) h;
                  (kvalue, h2) = kvs_strcopy val h1
              in rbind (or_undef (wr (\<lambda>n. n\<lparr>rvalue := kvalue\<rparr>) node T)) (\<lambda>T1.
                   ret (if kvalue = CNull then - 2 else 0, T1, h2))))
      | _ \<Rightarrow> ret (- 1, T, h))"

definition kvs_rbtree_exist :: "rbtree \<Rightarrow> cstring option \<Rightarrow> int res" where
  "kvs_rbtree_exist T ko =
     (case ko of
        None \<Rightarrow> ret (- 1)
      | Some key \<Rightarrow>
          rbind (or_undef (rbtree_search T key)) (\<lambda>node.
            ret (if node = 0 \<or> node = nil T then 1 else 0)))"

section \<open>Invariant and abstraction\<close>

text \<open>Reading a tree off the pointers.\<close>

partial_function (option) tree_of :: "rbtree \<Rightarrow> addr \<Rightarrow> shape option" where
  "tree_of T p =
     (if p = nil T then Some Lf
      else do { n \<leftarrow> nodes T p;
                l \<leftarrow> tree_of T (rleft n);
                r \<leftarrow> tree_of T (rright n);
                Some (Nd l p (rcolor n) (rkey n, rvalue n) r) })"

definition rb_shape :: "rbtree \<Rightarrow> shape" where
  "rb_shape T = (case tree_of T (root T) of Some t \<Rightarrow> t | None \<Rightarrow> Lf)"

definition rb_abs :: "rbtree \<Rightarrow> cstring \<rightharpoonup> cstring" where
  "rb_abs T = map_of (entries (inorder (rb_shape T)))"

definition elem_blocks :: "addr \<times> (cptr \<times> cptr) \<Rightarrow> addr list" where
  "elem_blocks e = [fst e, caddr (fst (snd e)), caddr (snd (snd e))]"

definition rb_blocks :: "rbtree \<Rightarrow> addr list" where
  "rb_blocks T = nil T # concat (map elem_blocks (inorder (rb_shape T)))"

definition rb_ok :: "rbtree \<Rightarrow> bool" where
  "rb_ok T \<longleftrightarrow>
     rep T (rb_shape T) \<and> rbt (rb_shape T) \<and> keys_ok (inorder (rb_shape T)) \<and> distinct (0 # rb_blocks T)"

lemma tree_of_rep:
  assumes "tree_at (nodes T) (nil T) p t" and "nil T \<notin> set (addrs t)"
  shows "tree_of T (rootp (nil T) t) = Some t"
  using assms
proof (induction t arbitrary: p)
  case Lf
  then show ?case by (simp add: tree_of.simps)
next
  case (Nd l a c kv r)
  then have "tree_of T (rootp (nil T) l) = Some l" "tree_of T (rootp (nil T) r) = Some r"
    by auto
  with Nd.prems show ?case by (auto simp: tree_of.simps [of T a] mk_node_def)
qed

lemma rb_shape_eq: "rep T t \<Longrightarrow> rb_shape T = t"
  using tree_of_rep [of T "nil T" t] by (simp add: rep_def rb_shape_def)

lemma rb_okD:
  assumes "rb_ok T"
  obtains t where "rb_shape T = t" and "rep T t" and "rbt t" and "keys_ok (inorder t)"
    and "rb_abs T = map_of (entries (inorder t))"
    and "rb_blocks T = nil T # concat (map elem_blocks (inorder t))" and "distinct (0 # rb_blocks T)"
  using assms by (auto simp: rb_ok_def rb_abs_def rb_blocks_def)

lemma rb_okI:
  assumes "rep T t" and "rbt t" and "keys_ok (inorder t)"
    and "distinct (0 # nil T # concat (map elem_blocks (inorder t)))"
  shows "rb_ok T" and "rb_abs T = map_of (entries (inorder t))"
    and "rb_blocks T = nil T # concat (map elem_blocks (inorder t))"
  using assms rb_shape_eq [OF assms(1)] by (simp_all add: rb_ok_def rb_abs_def rb_blocks_def)

lemma addrs_blocks: "set (addrs t) \<subseteq> set (concat (map elem_blocks (inorder t)))"
  by (auto simp: addrs_def elem_blocks_def)

section \<open>Reading\<close>

text \<open>What \<open>rbtree_search\<close> finds in a well-formed tree.\<close>

lemma rb_search:
  assumes ok: "rb_ok T"
  obtains (found) cs l a c ka va v r where "rb_shape T = plug cs (Nd l a c (CStr ka k, CStr va v) r)"
      and "rbtree_search T k = Some a" and "rb_abs T k = Some v" and "a \<noteq> nil T"
      and "rd rvalue a T = Some (CStr va v)"
  | (absent) "rbtree_search T k = Some (nil T)" and "rb_abs T k = None"
      and "k \<notin> skey ` set (inorder (rb_shape T))"
proof -
  obtain t where t: "rb_shape T = t" "rep T t" "keys_ok (inorder t)" "rb_abs T = map_of (entries (inorder t))"
    using ok by (rule rb_okD)
  have rt: "root T = rootp (nil T) t" using t(2) by (simp add: rep_def)
  have "rep T (plug [] t)" using t(2) by simp
  from search_from_ok [OF this t(3), of k] show ?thesis
  proof (elim disjE exE conjE)
    fix cs l a c kv r assume p: "t = plug cs (Nd l a c kv r)" "cstr_of (fst kv) = k"
      and s: "search_from T (rootp (nil T) t) k = Some a"
    have io: "inorder t = (before cs @ inorder l) @ (a, kv) # (inorder r @ after cs)"
      using p(1) by (simp add: inorder_plug)
    have "is_str (fst kv)" "is_str (snd kv)"
      using keys_ok_parts(3,4) [OF t(3) [unfolded io]] by simp_all
    then obtain ka va v where kv: "kv = (CStr ka k, CStr va v)" using p(2) by (cases kv) (auto elim!: is_strE)
    have "rb_abs T k = Some v"
      using map_of_sorted_mid(3) [OF t(3) [unfolded io], of k] by (simp add: t(4) io kv)
    moreover have "a \<noteq> nil T" "rd rvalue a T = Some (CStr va v)"
      using rep_rd [of T cs l a c kv r] t(2) p(1) kv by auto
    moreover have "rbtree_search T k = Some a" using s by (simp add: rbtree_search_def rt)
    ultimately show ?thesis using found p(1) kv t(1) by metis
  next
    assume n: "k \<notin> skey ` set (inorder t)" and s: "search_from T (rootp (nil T) t) k = Some (nil T)"
    have "rb_abs T k = None" using n by (simp add: t(4) map_of_eq_None_iff)
    then show ?thesis using absent s n t(1) by (simp add: rbtree_search_def rt)
  qed
qed

lemma rb_nonnull:
  assumes "rb_ok T" and "a \<in> set (addrs (rb_shape T))"
  shows "a \<noteq> 0"
  using assms addrs_blocks [of "rb_shape T"] by (auto simp: rb_ok_def rb_blocks_def)

lemma kvs_rbtree_get_eq:
  assumes ok: "rb_ok T"
  shows "case rb_abs T k of
           Some v \<Rightarrow> \<exists>a. kvs_rbtree_get T (Some k) = ret (CStr a v)
         | None \<Rightarrow> kvs_rbtree_get T (Some k) = ret CNull"
  using ok
proof (cases rule: rb_search [where k = k])
  case (found cs l a c ka va v r)
  have "a \<noteq> 0" using rb_nonnull [OF ok] found(1) by (simp add: set_addrs_plug)
  then show ?thesis using found by (simp add: kvs_rbtree_get_def)
next
  case absent
  then show ?thesis by (simp add: kvs_rbtree_get_def)
qed

lemma kvs_rbtree_exist_eq:
  assumes ok: "rb_ok T"
  shows "kvs_rbtree_exist T (Some k) = ret (if rb_abs T k = None then 1 else 0)"
  using ok
proof (cases rule: rb_search [where k = k])
  case (found cs l a c ka va v r)
  have "a \<noteq> 0" using rb_nonnull [OF ok] found(1) by (simp add: set_addrs_plug)
  then show ?thesis using found by (simp add: kvs_rbtree_exist_def)
next
  case absent
  then show ?thesis by (simp add: kvs_rbtree_exist_def)
qed

section \<open>Writing\<close>

text \<open>The store may hold more than the tree, as long as it is not in the way.\<close>

lemma rep_new_node:
  assumes "rep T t" and "z \<notin> set (addrs t)" and "z \<noteq> nil T"
  shows "rep (T\<lparr>nodes := (nodes T)(z \<mapsto> n)\<rparr>) t"
  using rep_outside [OF assms(2,3)] assms(1) by simp

lemma kvs_rbtree_set_eq:
  assumes ok: "rb_ok T" and inv: "heap_inv h L" and own: "set (rb_blocks T) \<subseteq> L" and mem: "mem_budget h (m + 3)"
  shows "\<exists>T' h' A. kvs_rbtree_set junk T (Some k) (Some v) h = ret (0, T', h') \<and> rb_ok T' \<and>
           rb_abs T' = (if rb_abs T k = None then (rb_abs T)(k \<mapsto> v) else rb_abs T) \<and>
           A \<inter> L = {} \<and> card A = 3 \<and> heap_inv h' (L \<union> A) \<and> mem_budget h' m \<and>
           set (rb_blocks T') = set (rb_blocks T) \<union> (if rb_abs T k = None then A else {})"
proof -
  obtain t where t: "rep T t" "rbt t" "keys_ok (inorder t)" "rb_abs T = map_of (entries (inorder t))"
    "rb_blocks T = nil T # concat (map elem_blocks (inorder t))" "distinct (0 # rb_blocks T)"
    using ok by (rule rb_okD)
  obtain z h1 a h2 b h3 where al: "kvs_malloc sizeof_rbtree_node h = (z, h1)" "kvs_strcopy k h1 = (CStr a k, h2)"
    "kvs_strcopy v h2 = (CStr b v, h3)" "distinct [0, z, a, b]"
    and A: "{z, a, b} \<inter> L = {}" "heap_inv h3 (L \<union> {z, a, b})" "mem_budget h3 m"
    using alloc_node_strings [OF inv mem] by blast
  let ?A = "{z, a, b}"
  have c3: "card ?A = 3" using al(4) by simp
  have zt: "z \<notin> set (addrs t)" "z \<noteq> nil T" using A(1) own addrs_blocks [of t] unfolding t(5) by auto
  define T1 where "T1 = T\<lparr>nodes := (nodes T)(z \<mapsto> junk\<lparr>rkey := CStr a k, rvalue := CStr b v\<rparr>)\<rparr>"
  have rep1: "rep T1 t" unfolding T1_def by (rule rep_new_node [OF t(1) zt])
  have n1: "nil T1 = nil T" "nodes T1 z = Some (junk\<lparr>rkey := CStr a k, rvalue := CStr b v\<rparr>)"
    by (simp_all add: T1_def)
  have run: "kvs_rbtree_set junk T (Some k) (Some v) h = rbind (or_undef (rbtree_insert T1 z)) (\<lambda>T3. ret (0, T3, h3))"
    using al by (simp add: kvs_rbtree_set_def T1_def)
  note I = rbtree_insert_ok [OF rep1 t(2,3) zt(1) _ n1(2), of a k b v]
  show ?thesis
  proof (cases "k \<in> skey ` set (inorder t)")
    case True
    then have some: "rb_abs T k \<noteq> None" using t(4) by (auto simp: map_of_eq_None_iff)
    have ins: "rbtree_insert T1 z = Some T1" using I True zt(2) n1(1) by simp
    have "rb_ok T1" "rb_abs T1 = rb_abs T" "rb_blocks T1 = rb_blocks T"
      using rb_okI [OF rep1 t(2,3)] t(4,5,6) n1(1) by simp_all
    then show ?thesis using run ins A c3 some
      by (intro exI [of _ T1] exI [of _ h3] exI [of _ ?A]) auto
  next
    case False
    then have none: "rb_abs T k = None" using t(4) by (simp add: map_of_eq_None_iff)
    obtain T' t' xs ys where T': "rbtree_insert T1 z = Some T'" "rep T' t'" "rbt t'" "inorder t = xs @ ys"
      "inorder t' = xs @ (z, (CStr a k, CStr b v)) # ys" "keys_ok (inorder t')" "nil T' = nil T"
      using I False zt(2) n1(1) by auto
    have bl: "set (concat (map elem_blocks (inorder t'))) = set (concat (map elem_blocks (inorder t))) \<union> ?A"
      by (auto simp: T'(4,5) elem_blocks_def)
    have "distinct (0 # nil T' # concat (map elem_blocks (inorder t')))"
      using t(6) A(1) own al(4) unfolding t(5) T'(4,5,7) by (auto simp: elem_blocks_def)
    note O = rb_okI [OF T'(2,3,6) this]
    have "k \<notin> fst ` set (entries xs)" using False T'(4) by auto
    then have "rb_abs T' = (rb_abs T)(k \<mapsto> v)"
      using map_of_insert_mid [of k "entries xs" v "entries ys"] unfolding O(2) t(4) T'(4,5)
      by (simp del: map_of_append)
    moreover have "set (rb_blocks T') = set (rb_blocks T) \<union> ?A"
      unfolding O(3) t(5) T'(7) using bl by auto
    ultimately show ?thesis using run T'(1) O(1) A c3 none
      by (intro exI [of _ T'] exI [of _ h3] exI [of _ ?A]) simp
  qed
qed

interpretation rb_reader: kv_reader rb_ok rb_abs "\<lambda>_. True"
  "\<lambda>s k. rbind (kvs_rbtree_get s (Some k)) (\<lambda>p. ret (p, s))"
proof
  fix s k v assume ok: "rb_ok s"
  note g = kvs_rbtree_get_eq [OF ok, of k]
  show "rb_abs s k = Some v \<Longrightarrow> \<exists>a. rbind (kvs_rbtree_get s (Some k)) (\<lambda>p. ret (p, s)) = ret (CStr a v, s)"
    using g by auto
  show "rb_abs s k = None \<Longrightarrow> rbind (kvs_rbtree_get s (Some k)) (\<lambda>p. ret (p, s)) = ret (CNull, s)"
    using g by auto
qed

interpretation rb_kv: kv_store rb_ok rb_abs "\<lambda>_. True"
  "\<lambda>s k. rbind (kvs_rbtree_get s (Some k)) (\<lambda>p. ret (p, s))"
  "\<lambda>s. set (rb_blocks s)" "\<lambda>s ks. True"
  "\<lambda>s k v h. kvs_rbtree_set junk s (Some k) (Some v) h" 0 for junk
proof
  fix s h L k v n and ks :: "cstring list"
  assume ok: "rb_ok s" and hp: "heap_inv h L" "set (rb_blocks s) \<subseteq> L" "mem_budget h (n + 3)"
  obtain s' h' A where 1: "kvs_rbtree_set junk s (Some k) (Some v) h = ret (0, s', h')" "rb_ok s'"
    "rb_abs s' = (if rb_abs s k = None then (rb_abs s)(k \<mapsto> v) else rb_abs s)" "A \<inter> L = {}"
    "heap_inv h' (L \<union> A)" "mem_budget h' n"
    "set (rb_blocks s') = set (rb_blocks s) \<union> (if rb_abs s k = None then A else {})"
    using kvs_rbtree_set_eq [OF ok hp] by metis
  have "heap_frame L (set (rb_blocks s)) (L \<union> A) (set (rb_blocks s'))"
    unfolding heap_frame_def 1(7) using hp(2) 1(4) by auto
  with 1 show "\<exists>s' h' L'. kvs_rbtree_set junk s (Some k) (Some v) h = ret (if rb_abs s k = None then 0 else 0, s', h') \<and> rb_ok s' \<and>
      rb_abs s' = (if rb_abs s k = None then (rb_abs s)(k \<mapsto> v) else rb_abs s) \<and> True \<and>
      heap_inv h' L' \<and> mem_budget h' n \<and> heap_frame L (set (rb_blocks s)) L' (set (rb_blocks s'))"
    by (intro exI [of _ s'] exI [of _ h'] exI [of _ "L \<union> A"]) simp
qed auto

section \<open>Changing a value\<close>

lemma wr_value:
  assumes "rep T (plug cs (Nd l a c (k, v) r))"
  shows "\<exists>T'. wr (\<lambda>n. n\<lparr>rvalue := w\<rparr>) a T = Some T' \<and> rep T' (plug cs (Nd l a c (k, w) r)) \<and> nil T' = nil T"
proof -
  let ?T = "T\<lparr>nodes := (nodes T)(a \<mapsto> mk_node (nil T) l c (k, w) r (par_of (nil T) cs))\<rparr>"
  have "wr (\<lambda>n. n\<lparr>rvalue := w\<rparr>) a T = Some ?T"
    using rep_read [OF assms] by (simp add: wr_def mk_node_def)
  then show ?thesis using rep_kv(2) [OF assms, of "(k, w)"] by auto
qed

text \<open>The blocks of the elements, nodes first.\<close>

definition kv_blocks :: "cptr \<times> cptr \<Rightarrow> addr list" where
  "kv_blocks kv = [caddr (fst kv), caddr (snd kv)]"

lemma mset_elem_blocks:
  "mset (concat (map elem_blocks es)) = mset (map fst es @ concat (map kv_blocks (map snd es)))"
  by (induction es) (simp_all add: elem_blocks_def kv_blocks_def)

lemma elem_blocks_parts:
  "set (concat (map elem_blocks es)) = set (map fst es @ concat (map kv_blocks (map snd es)))"
  "distinct (concat (map elem_blocks es)) = distinct (map fst es @ concat (map kv_blocks (map snd es)))"
  using mset_eq_setD [OF mset_elem_blocks [of es]] mset_eq_imp_distinct_iff [OF mset_elem_blocks [of es]]
  by simp_all

lemma rb_blocks_distinct:
  "distinct (0 # p # concat (map elem_blocks es)) \<longleftrightarrow>
     distinct (0 # p # map fst es @ concat (map kv_blocks (map snd es)))"
  using elem_blocks_parts [of es] by auto

lemma distinct_replace:
  "distinct (us @ a # vs) \<Longrightarrow> b \<notin> set (us @ vs) \<Longrightarrow> distinct (us @ b # vs)"
  by auto

lemma kvs_rbtree_mod_eq:
  assumes ok: "rb_ok T" and some: "rb_abs T k = Some w"
    and inv: "heap_inv h L" and own: "set (rb_blocks T) \<subseteq> L" and mem: "mem_budget h 1"
  shows "\<exists>T' h' a b. kvs_rbtree_mod T (Some k) (Some v) h = ret (0, T', h') \<and> rb_ok T' \<and>
           rb_abs T' = (rb_abs T)(k \<mapsto> v) \<and> a \<in> set (rb_blocks T) \<and> b \<notin> L - {a} \<and>
           heap_inv h' (L - {a} \<union> {b}) \<and> set (rb_blocks T') = set (rb_blocks T) - {a} \<union> {b}"
  using ok
proof (cases rule: rb_search [where k = k])
  case (found cs l p c ka va w' r)
  obtain t where t: "rb_shape T = t" "rep T t" "rbt t" "keys_ok (inorder t)" "rb_abs T = map_of (entries (inorder t))"
    "rb_blocks T = nil T # concat (map elem_blocks (inorder t))" "distinct (0 # rb_blocks T)"
    using ok by (rule rb_okD)
  let ?t = "\<lambda>q. plug cs (Nd l p c (CStr ka k, q) r)"
  let ?xs = "before cs @ inorder l" and ?ys = "inorder r @ after cs"
  have tt: "t = ?t (CStr va w')" using found(1) t(1) by simp
  have io: "inorder (?t q) = ?xs @ (p, (CStr ka k, q)) # ?ys" for q by (simp add: inorder_plug)
  have vaB: "va \<in> set (rb_blocks T)" unfolding t(6) tt io by (simp add: elem_blocks_def)
  obtain q h' where q: "kvs_strcopy v (kvs_free va h) = (q, h')" by fastforce
  have f: "heap_inv (kvs_free va h) (L - {va})" using kvs_alloc.release_live [OF inv] vaB own by auto
  have "\<exists>p. q = CStr p v" using kvs_strcopy_budget(1) [OF _ q, of 0] mem by simp
  then obtain b where b: "q = CStr b v" "b \<notin> L - {va}" "heap_inv h' (insert b (L - {va}))"
    using kvs_strcopy_heap_inv [OF f q] by auto
  obtain T' where T': "wr (\<lambda>n. n\<lparr>rvalue := CStr b v\<rparr>) p T = Some T'" "rep T' (?t (CStr b v))" "nil T' = nil T"
    using wr_value [of T cs l p c "CStr ka k" "CStr va w'" r] t(2) tt by blast
  have p0: "p \<noteq> 0" using rb_nonnull [OF ok] found(1) by (simp add: set_addrs_plug)
  have run: "kvs_rbtree_mod T (Some k) (Some v) h = ret (0, T', h')"
    using found(2,4,5) p0 q b(1) T'(1) by (simp add: kvs_rbtree_mod_def)
  have rb': "rbt (?t (CStr b v))" using t(3) unfolding tt rbt_plug by simp
  have ks: "keys_ok (inorder (?t (CStr b v)))" using t(4) unfolding tt io by (simp add: keys_ok_def)
  have b0: "b \<noteq> 0" using kvs_alloc.live_nonnull [OF b(3)] by auto
  define us where "us = 0 # nil T # concat (map elem_blocks ?xs) @ [p, ka]"
  define vs where "vs = concat (map elem_blocks ?ys)"
  have bl: "0 # nil T # concat (map elem_blocks (inorder (?t (CStr q w)))) = us @ q # vs" for q w
    unfolding io us_def vs_def by (simp add: elem_blocks_def)
  have bT: "0 # rb_blocks T = us @ va # vs" unfolding t(6) tt by (rule bl)
  have ds0: "distinct (us @ va # vs)" using t(7) unfolding bT .
  have sT: "insert 0 (set (rb_blocks T)) = set (us @ va # vs)" using arg_cong [OF bT, of set] by simp
  have "b \<notin> set (us @ vs)"
  proof
    assume "b \<in> set (us @ vs)"
    then have "b \<in> set (rb_blocks T)" "b \<noteq> va" using sT b0 ds0 by auto
    then show False using b(2) own by auto
  qed
  then have ds: "distinct (0 # nil T' # concat (map elem_blocks (inorder (?t (CStr b v)))))"
    unfolding T'(3) bl using distinct_replace [OF ds0] by blast
  note O = rb_okI [OF T'(2) rb' ks ds]
  have "k \<notin> fst ` set (entries ?xs)"
    unfolding entries_keys using keys_ok_parts(5) [OF t(4) [unfolded tt io]] by fastforce
  then have "rb_abs T' = (rb_abs T)(k \<mapsto> v)"
    using map_of_replace_mid [of k "entries ?xs" v "entries ?ys" w'] unfolding O(2) t(5) tt io
    by (simp del: map_of_append)
  moreover have "set (rb_blocks T') = set (rb_blocks T) - {va} \<union> {b}"
  proof -
    have bT': "0 # rb_blocks T' = us @ b # vs" unfolding O(3) T'(3) by (rule bl)
    have "set (rb_blocks T') = set (us @ b # vs) - {0}" "set (rb_blocks T) = set (us @ va # vs) - {0}"
      using ds t(7) arg_cong [OF bT', of set] sT unfolding O(3) [symmetric] by auto
    then show ?thesis using ds0 b0 by auto
  qed
  ultimately show ?thesis using run O(1) b vaB
    by (intro exI [of _ T'] exI [of _ h'] exI [of _ va] exI [of _ b]) simp
qed (use some in simp)

lemma kvs_rbtree_mod_miss:
  assumes ok: "rb_ok T" and "rb_abs T k = None"
  shows "kvs_rbtree_mod T (Some k) (Some v) h = ret (1, T, h)"
  using ok by (cases rule: rb_search [where k = k]) (use assms(2) in \<open>auto simp: kvs_rbtree_mod_def\<close>)

section \<open>Deleting a key\<close>

lemma kvs_rbtree_del_hit:
  assumes ok: "rb_ok T" and some: "rb_abs T k = Some w"
  shows "\<exists>T1 y ka va. rb_ok T1 \<and> rb_abs T1 = (rb_abs T)(k := None) \<and> y \<in> set (addrs (rb_shape T)) \<and>
           distinct [y, ka, va] \<and> {y, ka, va} \<subseteq> set (rb_blocks T) \<and>
           set (rb_blocks T1) = set (rb_blocks T) - {y, ka, va} \<and>
           kvs_rbtree_del T (Some k) h = (if free_ok y h then ret (0, T1, free y h) else undef)"
  using ok
proof (cases rule: rb_search [where k = k])
  case (found cs l p c ka va w' r)
  obtain t where t: "rb_shape T = t" "rep T t" "rbt t" "keys_ok (inorder t)" "rb_abs T = map_of (entries (inorder t))"
    "rb_blocks T = nil T # concat (map elem_blocks (inorder t))" "distinct (0 # rb_blocks T)"
    using ok by (rule rb_okD)
  let ?kv = "(CStr ka k, CStr va w')"
  have tt: "t = plug cs (Nd l p c ?kv r)" using found(1) t(1) by simp
  obtain T' y where del: "rbtree_delete T p = Some (T', y)" and D: "deleted T t (map snd (before cs @ inorder l)) ?kv (map snd (inorder r @ after cs)) T' y"
    using rbtree_delete_ok [of T cs l p c ?kv r] t(2,3) tt by blast
  obtain t' xs ys where D': "rep T' t'" "rbt t'" "map snd (inorder t) = xs @ ?kv # ys"
    "map snd (inorder t') = xs @ ys" "y \<in> set (addrs t)" "set (addrs t') = set (addrs t) - {y}" "nil T' = nil T"
    using D unfolding deleted_def same_but_nil_def by blast
  define T1 where "T1 = T'\<lparr>nodes := (nodes T')(y := None)\<rparr>"
  have y: "y \<notin> set (addrs t')" "y \<noteq> nil T'" using D'(6,7) t(2) D'(5) by (auto simp: rep_def)
  have rep1: "rep T1 t'" unfolding T1_def using rep_outside [OF y] D'(1) by simp
  have n1: "nil T1 = nil T" using D'(7) by (simp add: T1_def)
  have ent: "entries es = map (\<lambda>kv. (cstr_of (fst kv), cstr_of (snd kv))) (map snd es)" for es
    by (simp add: entries_def)
  have srt: "sorted_wrt (<) (map (\<lambda>kv. cstr_of (fst kv)) (map snd es)) \<longleftrightarrow> sorted_wrt (<) (map skey es)" for es
    by (simp add: comp_def)
  have str: "(\<forall>e\<in>set es. is_str (fst (snd e)) \<and> is_str (snd (snd e))) \<longleftrightarrow>
      (\<forall>kv\<in>set (map snd es). is_str (fst kv) \<and> is_str (snd kv))" for es :: "(addr \<times> (cptr \<times> cptr)) list"
    by auto
  have kt: "keys_ok (inorder t')"
    using t(4) unfolding keys_ok_def srt [symmetric] str D'(3,4) by (auto simp: sorted_wrt_append)
  have d0: "distinct (0 # nil T # addrs t @ concat (map kv_blocks (xs @ ?kv # ys)))"
    using t(7) unfolding t(6) rb_blocks_distinct D'(3) by (simp add: addrs_def)
  have "distinct (addrs t')" using D'(1) by (simp add: rep_def)
  then have "distinct (0 # nil T1 # addrs t' @ concat (map kv_blocks (xs @ ys)))"
    using d0 D'(6) n1 by auto
  then have ds: "distinct (0 # nil T1 # concat (map elem_blocks (inorder t')))"
    unfolding rb_blocks_distinct D'(4) by (simp add: addrs_def)
  note O = rb_okI [OF rep1 D'(2) kt ds]
  let ?e = "map (\<lambda>kv. (cstr_of (fst kv), cstr_of (snd kv)))"
  have kk: "k \<notin> fst ` set (?e xs)" "k \<notin> fst ` set (?e ys)"
    using t(4) unfolding keys_ok_def srt [symmetric] D'(3) by (auto simp: sorted_wrt_append)
  have "rb_abs T1 = (rb_abs T)(k := None)"
    using map_of_delete_mid [OF kk, of w'] unfolding O(2) t(5) ent D'(3,4) by (simp del: map_of_append)
  moreover have bl: "set (rb_blocks T) = insert (nil T) (set (addrs t) \<union> set (concat (map kv_blocks (xs @ ?kv # ys))))"
    "set (rb_blocks T1) = insert (nil T) (set (addrs t') \<union> set (concat (map kv_blocks (xs @ ys))))"
    unfolding O(3) t(6) set_simps elem_blocks_parts(1) D'(3,4) n1 by (simp_all add: addrs_def)
  have "set (rb_blocks T1) = set (rb_blocks T) - {y, ka, va}"
    unfolding bl D'(6) using d0 D'(5) by (auto simp: kv_blocks_def)
  moreover have "distinct [y, ka, va]" "{y, ka, va} \<subseteq> set (rb_blocks T)"
    unfolding bl using d0 D'(5) by (auto simp: kv_blocks_def)
  moreover have "p \<noteq> 0" using rb_nonnull [OF ok] found(1) by (simp add: set_addrs_plug)
  then have "kvs_rbtree_del T (Some k) h = (if free_ok y h then ret (0, T1, free y h) else undef)"
    using found(2) del by (simp add: kvs_rbtree_del_def T1_def)
  ultimately show ?thesis using O(1) D'(5) t(1)
    by (intro exI [of _ T1] exI [of _ y] exI [of _ ka] exI [of _ va]) simp
qed (use some in simp)

section \<open>Properties\<close>

text \<open>A tree with the pairs \<open>b\<close> to \<open>2\<close> at the root and \<open>a\<close> to \<open>1\<close> as its red left child.\<close>

definition demo_shape :: shape where
  "demo_shape = Nd (Nd Lf 1300 RED (CStr 1400 [97], CStr 1500 [49]) Lf) 1000 BLACK (CStr 1100 [98], CStr 1200 [50]) Lf"

definition demo_nil :: rbtree_node where
  "demo_nil = \<lparr>rcolor = BLACK, rright = 0, rleft = 0, rparent = 0, rkey = CNull, rvalue = CNull\<rparr>"

definition demo_rb :: rbtree where
  "demo_rb =
     \<lparr>root = 1000, nil = 8,
      nodes = [8 \<mapsto> demo_nil,
               1000 \<mapsto> \<lparr>rcolor = BLACK, rright = 8, rleft = 1300, rparent = 8, rkey = CStr 1100 [98], rvalue = CStr 1200 [50]\<rparr>,
               1300 \<mapsto> \<lparr>rcolor = RED, rright = 8, rleft = 8, rparent = 1000, rkey = CStr 1400 [97], rvalue = CStr 1500 [49]\<rparr>]\<rparr>"

lemma demo_rb_rep: "rep demo_rb demo_shape"
  by (simp add: rep_def demo_rb_def demo_shape_def demo_nil_def mk_node_def)

lemma demo_rb_facts [simp]:
  "rb_shape demo_rb = demo_shape" "rb_ok demo_rb" "rb_abs demo_rb = [[97] \<mapsto> [49], [98] \<mapsto> [50]]"
  "rb_blocks demo_rb = [8, 1300, 1400, 1500, 1000, 1100, 1200]"
proof -
  have k: "keys_ok (inorder demo_shape)" by (simp add: keys_ok_def demo_shape_def)
  have r: "rbt demo_shape" by (simp add: rbt_def demo_shape_def)
  have d: "distinct (0 # nil demo_rb # concat (map elem_blocks (inorder demo_shape)))"
    by (simp add: demo_shape_def demo_rb_def elem_blocks_def)
  note O = rb_okI [OF demo_rb_rep r k d]
  show "rb_shape demo_rb = demo_shape" using rb_shape_eq [OF demo_rb_rep] .
  show "rb_ok demo_rb" by (rule O(1))
  show "rb_abs demo_rb = [[97] \<mapsto> [49], [98] \<mapsto> [50]]" unfolding O(2) by (auto simp: demo_shape_def)
  show "rb_blocks demo_rb = [8, 1300, 1400, 1500, 1000, 1100, 1200]"
    unfolding O(3) by (simp add: demo_shape_def demo_rb_def elem_blocks_def)
qed

lemma demo_rb_heap [simp]: "heap_inv demo_heap {8, 1300, 1400, 1500, 1000, 1100, 1200}"
  by (rule demo_heap_inv) auto

text \<open>
  Property C6. On a well-formed tree with memory for a node and two strings,
  \<open>kvs_rbtree_set\<close> always returns 0: it adds the pair when the key is absent and leaves the
  map alone when it is present. The descent and the fix-up loop end, no pointer is followed
  that does not point to a node, and the result is a red-black search tree again.
\<close>

theorem kvs_rbtree_set_correct:
  assumes "rb_ok T" and "heap_inv h L" and "set (rb_blocks T) \<subseteq> L" and "mem_budget h 3"
  shows "\<exists>T' h' L'. kvs_rbtree_set junk T (Some k) (Some v) h = ret (0, T', h') \<and> rb_ok T' \<and>
           rb_abs T' = (if rb_abs T k = None then (rb_abs T)(k \<mapsto> v) else rb_abs T) \<and>
           heap_inv h' L' \<and> heap_frame L (set (rb_blocks T)) L' (set (rb_blocks T'))"
proof -
  obtain T' h' A where 1: "kvs_rbtree_set junk T (Some k) (Some v) h = ret (0, T', h')" "rb_ok T'"
    "rb_abs T' = (if rb_abs T k = None then (rb_abs T)(k \<mapsto> v) else rb_abs T)" "A \<inter> L = {}"
    "heap_inv h' (L \<union> A)"
    "set (rb_blocks T') = set (rb_blocks T) \<union> (if rb_abs T k = None then A else {})"
    using kvs_rbtree_set_eq [OF assms(1-3), of 0 junk k v] assms(4) by auto
  have "heap_frame L (set (rb_blocks T)) (L \<union> A) (set (rb_blocks T'))"
    unfolding heap_frame_def 1(6) using assms(3) 1(4) by auto
  with 1 show ?thesis by (intro exI [of _ T'] exI [of _ h'] exI [of _ "L \<union> A"]) simp
qed

theorem kvs_rbtree_set_correct_witness:
  "\<exists>T' h'. kvs_rbtree_set demo_nil demo_rb (Some [97, 97]) (Some [51]) demo_heap = ret (0, T', h') \<and>
     rb_abs T' = [[97] \<mapsto> [49], [98] \<mapsto> [50], [97, 97] \<mapsto> [51]]"
  using kvs_rbtree_set_correct [of demo_rb demo_heap "set (rb_blocks demo_rb)" demo_nil "[97, 97]" "[51]"]
  by auto

text \<open>
  A key that is set twice keeps its first value, the second call reports
  success, and the node and the two copies that it allocated are lost.
\<close>

theorem kvs_rbtree_set_twice:
  assumes "rb_ok T" and "heap_inv h L" and "set (rb_blocks T) \<subseteq> L" and "mem_budget h 3" and "rb_abs T k = Some w"
  shows "\<exists>T' h' A. kvs_rbtree_set junk T (Some k) (Some v) h = ret (0, T', h') \<and> rb_abs T' k = Some w \<and>
           heap_inv h' (L \<union> A) \<and> A \<inter> L = {} \<and> card A = 3 \<and> A \<inter> set (rb_blocks T') = {}"
proof -
  obtain T' h' A where "kvs_rbtree_set junk T (Some k) (Some v) h = ret (0, T', h')"
    "rb_abs T' = rb_abs T" "A \<inter> L = {}" "card A = 3" "heap_inv h' (L \<union> A)" "set (rb_blocks T') = set (rb_blocks T)"
    using kvs_rbtree_set_eq [OF assms(1-3), of 0 junk k v] assms(4,5) by auto
  then show ?thesis using assms(3,5) by (intro exI [of _ T'] exI [of _ h'] exI [of _ A]) auto
qed

theorem kvs_rbtree_set_twice_witness:
  "\<exists>T' h'. kvs_rbtree_set demo_nil demo_rb (Some [97]) (Some [51]) demo_heap = ret (0, T', h') \<and>
     rb_abs T' [97] = Some [49]"
  using kvs_rbtree_set_twice [of demo_rb demo_heap "set (rb_blocks demo_rb)" "[97]" "[49]" demo_nil "[51]"]
  by auto

text \<open>
  On a well-formed tree \<open>kvs_rbtree_get\<close> returns the stored value of a key, or null,
  and \<open>kvs_rbtree_exist\<close> returns 0 or 1.
\<close>

theorem kvs_rbtree_reads_correct:
  assumes "rb_ok T"
  shows "(case rb_abs T k of
            Some v \<Rightarrow> \<exists>a. kvs_rbtree_get T (Some k) = ret (CStr a v)
          | None \<Rightarrow> kvs_rbtree_get T (Some k) = ret CNull) \<and>
         kvs_rbtree_exist T (Some k) = ret (if rb_abs T k = None then 1 else 0)"
  using kvs_rbtree_get_eq [OF assms] kvs_rbtree_exist_eq [OF assms] by simp

theorem kvs_rbtree_reads_correct_witness:
  "\<exists>a. kvs_rbtree_get demo_rb (Some [97]) = ret (CStr a [49])"
  using kvs_rbtree_reads_correct [of demo_rb "[97]"] by simp

text \<open>
  On a well-formed tree with memory for the new value, \<open>kvs_rbtree_mod\<close> replaces
  the value of a present key and returns 0; for an absent key it returns 1 and changes nothing.
\<close>

theorem kvs_rbtree_mod_correct:
  assumes "rb_ok T" and "heap_inv h L" and "set (rb_blocks T) \<subseteq> L" and "mem_budget h 1"
  shows "\<exists>r T' h' L'. kvs_rbtree_mod T (Some k) (Some v) h = ret (r, T', h') \<and> rb_ok T' \<and>
           (if rb_abs T k = None then r = 1 \<and> T' = T else r = 0 \<and> rb_abs T' = (rb_abs T)(k \<mapsto> v)) \<and>
           heap_inv h' L' \<and> heap_frame L (set (rb_blocks T)) L' (set (rb_blocks T'))"
proof (cases "rb_abs T k")
  case None
  then show ?thesis
    using kvs_rbtree_mod_miss [OF assms(1) None, of v h] assms heap_frame_refl [OF assms(3)] by auto
next
  case (Some w)
  obtain T' h' a b where 1: "kvs_rbtree_mod T (Some k) (Some v) h = ret (0, T', h')" "rb_ok T'"
    "rb_abs T' = (rb_abs T)(k \<mapsto> v)" "a \<in> set (rb_blocks T)" "b \<notin> L - {a}" "heap_inv h' (L - {a} \<union> {b})"
    "set (rb_blocks T') = set (rb_blocks T) - {a} \<union> {b}"
    using kvs_rbtree_mod_eq [OF assms(1) Some assms(2-4), of v] by blast
  then have "heap_frame L (set (rb_blocks T)) (L - {a} \<union> {b}) (set (rb_blocks T'))"
    using assms(3) by (auto simp: heap_frame_def)
  with 1 Some show ?thesis
    by (intro exI [of _ 0] exI [of _ T'] exI [of _ h'] exI [of _ "L - {a} \<union> {b}"]) simp
qed

theorem kvs_rbtree_mod_correct_witness:
  "\<exists>T' h'. kvs_rbtree_mod demo_rb (Some [97]) (Some [51]) demo_heap = ret (0, T', h') \<and>
     rb_abs T' = [[97] \<mapsto> [51], [98] \<mapsto> [50]]"
  using kvs_rbtree_mod_correct [of demo_rb demo_heap "set (rb_blocks demo_rb)" "[97]" "[51]"]
  by (auto simp: fun_upd_twist)



text \<open>
  Property C7. \<open>rbtree_delete\<close> of a node of a red-black tree ends, follows only valid pointers,
  and unlinks exactly one node, which then carries the key and value that were to be
  deleted; what remains is a red-black tree with all the other pairs in the same order.
\<close>

theorem rbtree_delete_correct:
  assumes "rep T t" and "rbt t" and "t = plug cs (Nd l z c kv r)"
  shows "\<exists>T' y t' n. rbtree_delete T z = Some (T', y) \<and> rep T' t' \<and> rbt t' \<and>
           map snd (inorder t') = map snd (before cs @ inorder l) @ map snd (inorder r @ after cs) \<and>
           set (addrs t') = set (addrs t) - {y} \<and> y \<in> set (addrs t) \<and>
           nodes T' y = Some n \<and> (rkey n, rvalue n) = kv"
proof -
  obtain T' y where "rbtree_delete T z = Some (T', y)"
    "deleted T t (map snd (before cs @ inorder l)) kv (map snd (inorder r @ after cs)) T' y"
    using rbtree_delete_ok [of T cs l z c kv r] assms by blast
  then show ?thesis unfolding deleted_def by blast
qed

theorem rbtree_delete_correct_witness:
  "\<exists>T' y t'. rbtree_delete demo_rb 1000 = Some (T', y) \<and> rep T' t' \<and> rbt t' \<and>
     map snd (inorder t') = [(CStr 1400 [97], CStr 1500 [49])]"
proof -
  let ?l = "Nd Lf 1300 RED (CStr 1400 [97], CStr 1500 [49]) Lf"
  have "rbt demo_shape" by (simp add: rbt_def demo_shape_def)
  moreover have "demo_shape = plug [] (Nd ?l 1000 BLACK (CStr 1100 [98], CStr 1200 [50]) Lf)"
    by (simp add: demo_shape_def)
  ultimately obtain T' y t' where "rbtree_delete demo_rb 1000 = Some (T', y)" "rep T' t'" "rbt t'"
    "map snd (inorder t') = map snd (before [] @ inorder ?l) @ map snd (inorder Lf @ after [])"
    using rbtree_delete_correct [OF demo_rb_rep] by blast
  then show ?thesis by (intro exI [of _ T'] exI [of _ y] exI [of _ t']) simp
qed

text \<open>
  Property C9. \<open>kvs_rbtree_del\<close> of a present key, when every node is a block of the system
  allocator: it returns 0, the key is gone and nothing else, and the tree is well-formed.
  Only the node is given back: the blocks of the key and the value stay allocated.
\<close>

theorem kvs_rbtree_del_correct:
  assumes "rb_ok T" and "rb_abs T k = Some w"
    and "\<And>a. a \<in> set (addrs (rb_shape T)) \<Longrightarrow> free_ok a h"
  shows "\<exists>T' y ka va. kvs_rbtree_del T (Some k) h = ret (0, T', free y h) \<and> rb_ok T' \<and>
           rb_abs T' = (rb_abs T)(k := None) \<and> distinct [y, ka, va] \<and>
           {y, ka, va} \<subseteq> set (rb_blocks T) \<and> set (rb_blocks T') = set (rb_blocks T) - {y, ka, va}"
proof -
  obtain T1 y ka va where 1: "rb_ok T1" "rb_abs T1 = (rb_abs T)(k := None)" "y \<in> set (addrs (rb_shape T))"
    "distinct [y, ka, va]" "{y, ka, va} \<subseteq> set (rb_blocks T)" "set (rb_blocks T1) = set (rb_blocks T) - {y, ka, va}"
    "kvs_rbtree_del T (Some k) h = (if free_ok y h then ret (0, T1, free y h) else undef)"
    using kvs_rbtree_del_hit [OF assms(1,2), of h] by (elim exE conjE)
  have "kvs_rbtree_del T (Some k) h = ret (0, T1, free y h)" using 1(7) assms(3) [OF 1(3)] by simp
  with 1 show ?thesis
    by (intro exI [of _ T1] exI [of _ y] exI [of _ ka] exI [of _ va] conjI)
qed

theorem kvs_rbtree_del_correct_witness:
  "\<exists>T' h'. kvs_rbtree_del demo_rb (Some [98]) (demo_heap\<lparr>sys_blocks := [(1000, 48), (1300, 48)]\<rparr>) = ret (0, T', h') \<and>
     rb_abs T' = [[97] \<mapsto> [49]]"
proof -
  let ?h = "demo_heap\<lparr>sys_blocks := [(1000, 48), (1300, 48)]\<rparr>"
  have f: "free_ok a ?h" if "a \<in> set (addrs (rb_shape demo_rb))" for a
    using that by (auto simp: demo_shape_def free_ok_def demo_heap_def)
  have "(rb_abs demo_rb)([98] := None) = [[97] \<mapsto> [49]]" by auto
  then show ?thesis using kvs_rbtree_del_correct [of demo_rb "[98]" "[50]" ?h, OF _ _ f] by auto
qed

text \<open>
  The nodes of a tree normally come from the chunk pool, but \<open>kvs_rbtree_del\<close> gives
  the node to \<open>free\<close>: when no node is a block of the system allocator, deleting a present
  key is undefined.
\<close>

theorem kvs_rbtree_del_pool_undefined:
  assumes "rb_ok T" and "rb_abs T k = Some w"
    and "set (addrs (rb_shape T)) \<inter> fst ` set (sys_blocks h) = {}"
  shows "kvs_rbtree_del T (Some k) h = undef"
proof -
  obtain T1 y where y: "y \<in> set (addrs (rb_shape T))"
    "kvs_rbtree_del T (Some k) h = (if free_ok y h then ret (0, T1, free y h) else undef)"
    using kvs_rbtree_del_hit [OF assms(1,2), of h] by blast
  have "\<not> free_ok y h" using y(1) assms(3) rb_nonnull [OF assms(1) y(1)] by (auto simp: free_ok_def)
  with y(2) show ?thesis by simp
qed

theorem kvs_rbtree_del_pool_undefined_witness:
  "kvs_rbtree_del demo_rb (Some [97]) demo_heap = undef"
  using kvs_rbtree_del_pool_undefined [of demo_rb "[97]" "[49]" demo_heap] by (simp add: demo_heap_def)

text \<open>
  Property C10. \<open>kvs_rbtree_del\<close> does not ask whether the search ended at the sentinel: deleting an
  absent key goes on with the sentinel as the node, and where the child pointers of the
  sentinel are null, as in zeroed memory, it dereferences a null pointer.
\<close>

theorem kvs_rbtree_del_absent_undefined:
  assumes "rb_ok T" and "rb_abs T k = None"
    and "nodes T (nil T) = Some nn" and "rleft nn = 0" and "rright nn = 0" and "nodes T 0 = None"
  shows "kvs_rbtree_del T (Some k) h = undef"
proof -
  have n0: "nil T \<noteq> 0" using assms(1) by (auto simp: rb_ok_def rb_blocks_def)
  have m: "rbtree_mini T 0 = None" using assms(6) by (simp add: rbtree_mini.simps [of T 0] rd_def)
  have "rbtree_delete T (nil T) = None"
    using assms(3-5) n0 m by (simp add: rbtree_delete_def rbtree_successor_def rd_def)
  moreover have "rbtree_search T k = Some (nil T)"
    using assms(1) by (cases rule: rb_search [where k = k]) (use assms(2) in auto)
  ultimately show ?thesis using n0 by (simp add: kvs_rbtree_del_def)
qed

theorem kvs_rbtree_del_absent_undefined_witness:
  "kvs_rbtree_del demo_rb (Some [99]) demo_heap = undef"
proof (rule kvs_rbtree_del_absent_undefined)
  show "nodes demo_rb (nil demo_rb) = Some demo_nil" "nodes demo_rb 0 = None" by (simp_all add: demo_rb_def)
qed (simp_all add: demo_nil_def)

lemma kvs_rbtree_destory_run:
  assumes "rb_ok T" and "heap_inv h L" and "set (rb_blocks T) \<subseteq> L"
  shows "\<exists>h'. kvs_rbtree_destory T h = ret h' \<and> heap_inv h' (L - {nil T})"
proof -
  have "root T = rootp (nil T) (rb_shape T)" "nil T \<noteq> 0" "nil T \<in> L"
    using assms(1,3) by (auto simp: rb_ok_def rep_def rb_blocks_def)
  moreover have "rootp (nil T) (rb_shape T) \<noteq> 0"
    using rb_nonnull [OF assms(1)] calculation(2) rootp_in [of "nil T" "rb_shape T"] by metis
  ultimately show ?thesis
    using kvs_alloc.release_live [OF assms(2)] by (auto simp: kvs_rbtree_destory_def)
qed

text \<open>
  \<open>kvs_rbtree_create\<close> makes an empty well-formed tree, whatever the fresh memory
  holds; \<open>kvs_rbtree_destory\<close> of any well-formed tree gives back the sentinel only, because
  the condition of its loop is false from the start.
\<close>

theorem kvs_rbtree_create_destory:
  assumes "heap_inv h L" and "kvs_rbtree_create junk T h = ret (r, T', h')"
  shows "r = 0 \<and> rb_ok T' \<and> rb_abs T' = Map.empty \<and> heap_inv h' (insert (nil T') L) \<and> nil T' \<notin> L \<and>
         (\<forall>T2 h2 L2. rb_ok T2 \<longrightarrow> heap_inv h2 L2 \<longrightarrow> set (rb_blocks T2) \<subseteq> L2 \<longrightarrow>
            (\<exists>h3. kvs_rbtree_destory T2 h2 = ret h3 \<and> heap_inv h3 (L2 - {nil T2})))"
proof -
  obtain p where p: "kvs_malloc sizeof_rbtree_node h = (p, h')" "p \<noteq> 0" "r = 0"
    "T' = T\<lparr>root := p, nil := p, nodes := (nodes T)(p \<mapsto> junk\<lparr>rcolor := BLACK\<rparr>)\<rparr>"
    using assms(2) by (auto simp: kvs_rbtree_create_def split: prod.splits if_splits)
  have rep: "rep T' Lf" by (simp add: rep_def p(4))
  have "rb_ok T'" "rb_abs T' = Map.empty"
    using rb_okI [OF rep] p(2,4) by (simp_all add: rbt_def keys_ok_def)
  moreover have "p \<notin> L" "heap_inv h' (insert p L)" using kvs_alloc.alloc_Some [OF assms(1) p(1,2)] by auto
  ultimately show ?thesis using p(3,4) kvs_rbtree_destory_run by auto
qed

theorem kvs_rbtree_create_destory_witness:
  "\<exists>T' h'. kvs_rbtree_create demo_nil demo_rb demo_heap = ret (0, T', h') \<and> rb_ok T' \<and> rb_abs T' = Map.empty"
proof -
  obtain T' h' where "kvs_rbtree_create demo_nil demo_rb demo_heap = ret (0, T', h')"
    by (simp add: kvs_rbtree_create_def kvs_malloc_def kvs_mempool_alloc_def demo_heap_def
        sizeof_rbtree_node_def POOL_CHUNK_SIZE_def)
  then show ?thesis using kvs_rbtree_create_destory [of demo_heap "{}"] demo_heap_inv [of "{}"] by auto
qed

end
