(* ===== verification/Skiptable.thy ===== *)
theory Skiptable
  imports Mempool "HOL-Library.Monad_Syntax"
begin

text \<open>
  The skip list of \<^verbatim>\<open>src/kvs_skiptable.c\<close>, at the level of its pointers: nodes live in a store
  that maps addresses to the fields of the node, \<open>forward\<close> is the array of a node with one
  entry per level. Nodes and strings come from \<open>malloc\<close> and \<open>strdup\<close> of the C library.

  As for the red-black tree the inner functions return an \<open>option\<close>: \<open>None\<close> means that a
  null or wild pointer was followed, an array was indexed out of bounds, or a loop does
  not end.
\<close>

section \<open>Scores\<close>

text \<open>
  A \<open>double\<close> is the bit pattern of IEEE 754 binary64: a sign bit, eleven bits of exponent
  and 52 bits of fraction. Ordering the patterns as sign and magnitude orders the numbers;
  the two zeros are equal and a NaN is unordered.
\<close>

type_synonym double = uint64

definition is_nan :: "double \<Rightarrow> bool" where
  "is_nan d \<longleftrightarrow> 0x7FF0000000000000 < (d AND 0x7FFFFFFFFFFFFFFF)"

definition dbl_rank :: "double \<Rightarrow> int" where
  "dbl_rank d = (if d < 0x8000000000000000 then uint d
                 else - uint (d AND 0x7FFFFFFFFFFFFFFF))"

definition dbl_less :: "double \<Rightarrow> double \<Rightarrow> bool" where
  "dbl_less a b \<longleftrightarrow> \<not> is_nan a \<and> \<not> is_nan b \<and> dbl_rank a < dbl_rank b"

definition dbl_le :: "double \<Rightarrow> double \<Rightarrow> bool" where
  "dbl_le a b \<longleftrightarrow> \<not> is_nan a \<and> \<not> is_nan b \<and> dbl_rank a \<le> dbl_rank b"

definition dbl_eq :: "double \<Rightarrow> double \<Rightarrow> bool" where
  "dbl_eq a b \<longleftrightarrow> \<not> is_nan a \<and> \<not> is_nan b \<and> dbl_rank a = dbl_rank b"

section \<open>State\<close>

definition SKIP_MAX_LEVEL :: nat where
  "SKIP_MAX_LEVEL = 6"

record SkipNode =
  sk_key :: cptr
  sk_value :: cptr
  sk_score :: double
  sk_forward :: addr
  sk_next :: "addr list"

text \<open>
  \<open>sk_forward\<close> is the address of the \<open>forward\<close> array and \<open>sk_next\<close> its contents. The lock
  is a reader-writer lock that each operation takes and releases; \<open>sk_lock\<close> says that
  somebody else holds it.
\<close>

record SkipList =
  sk_level :: nat
  sk_header :: addr
  sk_nodes :: "addr \<Rightarrow> SkipNode option"
  sk_length :: int
  sk_lock :: bool

text \<open>\<open>rand\<close> is an arbitrary sequence of answers.\<close>

record rng =
  rnd :: "nat \<Rightarrow> uint32"
  rnd_calls :: nat

definition rand :: "rng \<Rightarrow> uint32 \<times> rng" where
  "rand g = (rnd g (rnd_calls g), g\<lparr>rnd_calls := Suc (rnd_calls g)\<rparr>)"

text \<open>
  The test of \<open>randomLevel\<close> against \<open>0.5 * 0xFFFF\<close>, which is 32767.5: an integer is below
  it if it is at most 32767. The argument counts the levels that are left; \<open>rand\<close> is also
  called when none is.
\<close>

fun random_level_loop :: "nat \<Rightarrow> nat \<Rightarrow> rng \<Rightarrow> nat \<times> rng" where
  "random_level_loop 0 level g = (level, snd (rand g))"
| "random_level_loop (Suc n) level g =
     (let (r, g') = rand g
      in if r AND 0xFFFF \<le> 32767 then random_level_loop n (Suc level) g' else (level, g'))"

definition randomLevel :: "rng \<Rightarrow> nat \<times> rng" where
  "randomLevel g = random_level_loop SKIP_MAX_LEVEL 0 g"

definition strdup :: "cstring \<Rightarrow> heap \<Rightarrow> cptr \<times> heap" where
  "strdup s h =
     (let (p, h') = malloc (of_nat (length s + 1)) h
      in (if p = 0 then CNull else CStr p s, h'))"

definition sizeof_SkipNode :: size_t where
  "sizeof_SkipNode = 32"

definition createSkipNode ::
  "nat \<Rightarrow> cstring \<Rightarrow> cstring \<Rightarrow> double \<Rightarrow> heap \<Rightarrow> (addr \<times> SkipNode \<times> heap) option" where
  "createSkipNode level key val score h =
     (let (node, h1) = malloc sizeof_SkipNode h;
          (kcopy, h2) = strdup key h1;
          (vcopy, h3) = strdup val h2;
          (fwd, h4) = malloc (of_nat (level + 1) * sizeof_ptr) h3
      in if node = 0 \<or> fwd = 0 then None
         else Some (node, \<lparr>sk_key = kcopy, sk_value = vcopy, sk_score = score,
                           sk_forward = fwd, sk_next = replicate (level + 1) 0\<rparr>, h4))"

section \<open>Walking the list\<close>

text \<open>\<open>p->forward[i]\<close>, read and written.\<close>

definition fwd_get :: "(addr \<Rightarrow> SkipNode option) \<Rightarrow> addr \<Rightarrow> nat \<Rightarrow> addr option" where
  "fwd_get ns p i =
     do { n \<leftarrow> ns p; if i < length (sk_next n) then Some (sk_next n ! i) else None }"

definition fwd_set :: "addr \<Rightarrow> nat \<Rightarrow> addr \<Rightarrow> (addr \<Rightarrow> SkipNode option) \<Rightarrow> (addr \<Rightarrow> SkipNode option) option" where
  "fwd_set p i q ns =
     do { n \<leftarrow> ns p;
          if i < length (sk_next n) then Some (ns(p \<mapsto> n\<lparr>sk_next := (sk_next n)[i := q]\<rparr>)) else None }"

definition sk_strcmp :: "cptr \<Rightarrow> cstring \<Rightarrow> int option" where
  "sk_strcmp p key = (case cread p of Inr s \<Rightarrow> Some (strcmp s key) | Inl e \<Rightarrow> None)"

text \<open>
  The inner loop of the search: on level \<open>i\<close>, go on while the next node comes \<open>before\<close>
  what is searched.
\<close>

partial_function (option) skip_advance ::
  "(SkipNode \<Rightarrow> bool option) \<Rightarrow> (addr \<Rightarrow> SkipNode option) \<Rightarrow> nat \<Rightarrow> addr \<Rightarrow> addr option" where
  "skip_advance before ns i cur =
     do { f \<leftarrow> fwd_get ns cur i;
          if f = 0 then Some cur
          else do { n \<leftarrow> ns f;
                    b \<leftarrow> before n;
                    if b then skip_advance before ns i f else Some cur } }"

text \<open>The outer loop: from the top level down, recording where the search left each level.\<close>

fun skip_descend ::
  "(SkipNode \<Rightarrow> bool option) \<Rightarrow> (addr \<Rightarrow> SkipNode option) \<Rightarrow> nat \<Rightarrow> addr \<Rightarrow>
   (addr \<times> (nat \<Rightarrow> addr option)) option" where
  "skip_descend before ns 0 cur =
     do { c \<leftarrow> skip_advance before ns 0 cur; Some (c, [0 \<mapsto> c]) }"
| "skip_descend before ns (Suc i) cur =
     do { c \<leftarrow> skip_advance before ns (Suc i) cur;
          (d, upd) \<leftarrow> skip_descend before ns i c;
          Some (d, upd(Suc i \<mapsto> c)) }"

definition zadd_before :: "cstring \<Rightarrow> double \<Rightarrow> SkipNode \<Rightarrow> bool option" where
  "zadd_before key score n =
     (if dbl_less (sk_score n) score then Some True
      else if dbl_eq (sk_score n) score then map_option (\<lambda>c. c < 0) (sk_strcmp (sk_key n) key)
      else Some False)"

definition zrem_before :: "cstring \<Rightarrow> SkipNode \<Rightarrow> bool option" where
  "zrem_before key n = map_option (\<lambda>c. c < 0) (sk_strcmp (sk_key n) key)"

section \<open>Operations\<close>

text \<open>The loops of \<open>kvs_skiptable_zadd\<close> that complete \<open>update\<close> and link the new node in.\<close>

definition zadd_update :: "(nat \<Rightarrow> addr option) \<Rightarrow> SkipList \<Rightarrow> nat \<Rightarrow> nat \<Rightarrow> addr option" where
  "zadd_update upd lst level =
     (\<lambda>i. if sk_level lst < i \<and> i \<le> level then Some (sk_header lst) else upd i)"

fun skip_link ::
  "(nat \<Rightarrow> addr option) \<Rightarrow> addr \<Rightarrow> nat \<Rightarrow> nat \<Rightarrow> (addr \<Rightarrow> SkipNode option) \<Rightarrow> (addr \<Rightarrow> SkipNode option) option" where
  "skip_link upd p i 0 ns = Some ns"
| "skip_link upd p i (Suc n) ns =
     do { u \<leftarrow> upd i;
          f \<leftarrow> fwd_get ns u i;
          ns1 \<leftarrow> fwd_set p i f ns;
          ns2 \<leftarrow> fwd_set u i p ns1;
          skip_link upd p (Suc i) n ns2 }"

text \<open>The test \<open>current && current->score == score && strcmp(current->key, key) == 0\<close>.\<close>

definition zadd_hit :: "cstring \<Rightarrow> double \<Rightarrow> (addr \<Rightarrow> SkipNode option) \<Rightarrow> addr \<Rightarrow> bool option" where
  "zadd_hit key score ns c =
     (if c = 0 then Some False
      else do { n \<leftarrow> ns c;
                if dbl_eq (sk_score n) score then map_option (\<lambda>x. x = 0) (sk_strcmp (sk_key n) key)
                else Some False })"

definition zadd_locked ::
  "SkipList \<Rightarrow> cstring \<Rightarrow> cstring \<Rightarrow> double \<Rightarrow> rng \<Rightarrow> heap \<Rightarrow> (int \<times> SkipList \<times> rng \<times> heap) option" where
  "zadd_locked lst key val score g h =
     do { (cur, upd) \<leftarrow> skip_descend (zadd_before key score) (sk_nodes lst) (sk_level lst) (sk_header lst);
          c \<leftarrow> fwd_get (sk_nodes lst) cur 0;
          hit \<leftarrow> zadd_hit key score (sk_nodes lst) c;
          if hit
          then do { n \<leftarrow> sk_nodes lst c;
                    let h1 = free (caddr (sk_value n)) h;
                        (v, h2) = strdup val h1
                    in Some (1, lst\<lparr>sk_nodes := (sk_nodes lst)(c \<mapsto> n\<lparr>sk_value := v\<rparr>)\<rparr>, g, h2) }
          else let (level, g') = randomLevel g;
                   upd' = zadd_update upd lst level
               in do { (p, n, h') \<leftarrow> createSkipNode level key val score h;
                       ns \<leftarrow> skip_link upd' p 0 (level + 1) ((sk_nodes lst)(p \<mapsto> n));
                       Some (0, lst\<lparr>sk_level := max level (sk_level lst), sk_nodes := ns,
                                    sk_length := sk_length lst + 1\<rparr>, g', h') } }"

definition kvs_skiptable_zadd ::
  "SkipList \<Rightarrow> cstring \<Rightarrow> cstring \<Rightarrow> double \<Rightarrow> rng \<Rightarrow> heap \<Rightarrow> (int \<times> SkipList \<times> rng \<times> heap) res" where
  "kvs_skiptable_zadd lst key val score g h =
     (if sk_lock lst then deadlock else or_undef (zadd_locked lst key val score g h))"

text \<open>The loop that unlinks the node from level 0 upwards until it is not met any more.\<close>

fun skip_unlink ::
  "(nat \<Rightarrow> addr option) \<Rightarrow> addr \<Rightarrow> nat \<Rightarrow> nat \<Rightarrow> (addr \<Rightarrow> SkipNode option) \<Rightarrow> (addr \<Rightarrow> SkipNode option) option" where
  "skip_unlink upd c i 0 ns = Some ns"
| "skip_unlink upd c i (Suc n) ns =
     do { u \<leftarrow> upd i;
          f \<leftarrow> fwd_get ns u i;
          if f \<noteq> c then Some ns
          else do { q \<leftarrow> fwd_get ns c i;
                    ns' \<leftarrow> fwd_set u i q ns;
                    skip_unlink upd c (Suc i) n ns' } }"

fun skip_shrink :: "(addr \<Rightarrow> SkipNode option) \<Rightarrow> addr \<Rightarrow> nat \<Rightarrow> nat option" where
  "skip_shrink ns hdr 0 = Some 0"
| "skip_shrink ns hdr (Suc level) =
     do { f \<leftarrow> fwd_get ns hdr (Suc level);
          if f = 0 then skip_shrink ns hdr level else Some (Suc level) }"

text \<open>\<open>free\<close> of the strings, the \<open>forward\<close> array and the node itself.\<close>

definition free_SkipNode :: "addr \<Rightarrow> SkipNode \<Rightarrow> heap \<Rightarrow> heap" where
  "free_SkipNode p n h =
     free p (free (sk_forward n) (free (caddr (sk_value n)) (free (caddr (sk_key n)) h)))"

definition zrem_locked :: "SkipList \<Rightarrow> cstring \<Rightarrow> heap \<Rightarrow> (int \<times> SkipList \<times> heap) option" where
  "zrem_locked lst key h =
     do { (cur, upd) \<leftarrow> skip_descend (zrem_before key) (sk_nodes lst) (sk_level lst) (sk_header lst);
          c \<leftarrow> fwd_get (sk_nodes lst) cur 0;
          if c = 0 then Some (- 1, lst, h)
          else do { n \<leftarrow> sk_nodes lst c;
                    x \<leftarrow> sk_strcmp (sk_key n) key;
                    if x \<noteq> 0 then Some (- 1, lst, h)
                    else do { ns \<leftarrow> skip_unlink upd c 0 (sk_level lst + 1) (sk_nodes lst);
                              level \<leftarrow> skip_shrink (ns(c := None)) (sk_header lst) (sk_level lst);
                              Some (0, lst\<lparr>sk_level := level, sk_nodes := ns(c := None),
                                           sk_length := sk_length lst - 1\<rparr>, free_SkipNode c n h) } } }"

definition kvs_skiptable_zrem :: "SkipList \<Rightarrow> cstring \<Rightarrow> heap \<Rightarrow> (int \<times> SkipList \<times> heap) res" where
  "kvs_skiptable_zrem lst key h =
     (if sk_lock lst then deadlock else or_undef (zrem_locked lst key h))"

text \<open>
  A \<open>ZRangeEntry\<close> holds at most 127 bytes of the key and of the value: the file redefines
  \<open>MAX_VALUE_LEN\<close> to 128.
\<close>

record ZRangeEntry =
  z_key :: cstring
  z_value :: cstring
  z_score :: double

definition zrange_entry :: "SkipNode \<Rightarrow> ZRangeEntry option" where
  "zrange_entry n =
     (case (cread (sk_key n), cread (sk_value n)) of
        (Inr k, Inr v) \<Rightarrow> Some \<lparr>z_key = take 127 k, z_value = take 127 v, z_score = sk_score n\<rparr>
      | _ \<Rightarrow> None)"

partial_function (option) zrange_skip :: "(addr \<Rightarrow> SkipNode option) \<Rightarrow> double \<Rightarrow> addr \<Rightarrow> addr option" where
  "zrange_skip ns mi c =
     (if c = 0 then Some 0
      else do { n \<leftarrow> ns c;
                if dbl_less (sk_score n) mi then do { q \<leftarrow> fwd_get ns c 0; zrange_skip ns mi q }
                else Some c })"

fun zrange_collect ::
  "(addr \<Rightarrow> SkipNode option) \<Rightarrow> double \<Rightarrow> nat \<Rightarrow> addr \<Rightarrow> ZRangeEntry list option" where
  "zrange_collect ns mx 0 c =
     (if c = 0 then Some [] else do { n \<leftarrow> ns c; Some [] })"
| "zrange_collect ns mx (Suc room) c =
     (if c = 0 then Some []
      else do { n \<leftarrow> ns c;
                if dbl_le (sk_score n) mx
                then do { e \<leftarrow> zrange_entry n;
                          q \<leftarrow> fwd_get ns c 0;
                          es \<leftarrow> zrange_collect ns mx room q;
                          Some (e # es) }
                else Some [] })"

definition kvs_skiptable_zrange_entries ::
  "SkipList \<Rightarrow> double \<Rightarrow> double \<Rightarrow> nat \<Rightarrow> ZRangeEntry list res" where
  "kvs_skiptable_zrange_entries lst mi mx max_results =
     (if sk_lock lst then deadlock
      else or_undef (do { c \<leftarrow> fwd_get (sk_nodes lst) (sk_header lst) 0;
                          c' \<leftarrow> zrange_skip (sk_nodes lst) mi c;
                          zrange_collect (sk_nodes lst) mx max_results c' }))"

definition kvs_skiptable_create :: "SkipList option \<Rightarrow> heap \<Rightarrow> (int \<times> SkipList option \<times> heap) res" where
  "kvs_skiptable_create inst h =
     (case inst of
        None \<Rightarrow> ret (- 1, None, h)
      | Some lst \<Rightarrow>
          rbind (or_undef (createSkipNode SKIP_MAX_LEVEL [] [] 0 h)) (\<lambda>(p, n, h').
            ret (0, Some (lst\<lparr>sk_level := 0, sk_header := p, sk_nodes := (sk_nodes lst)(p \<mapsto> n),
                              sk_length := 0, sk_lock := False\<rparr>), h')))"

partial_function (option) skip_free_all ::
  "(addr \<Rightarrow> SkipNode option) \<Rightarrow> addr \<Rightarrow> heap \<Rightarrow> ((addr \<Rightarrow> SkipNode option) \<times> heap) option" where
  "skip_free_all ns cur h =
     (if cur = 0 then Some (ns, h)
      else do { n \<leftarrow> ns cur;
                nxt \<leftarrow> fwd_get ns cur 0;
                skip_free_all (ns(cur := None)) nxt (free_SkipNode cur n h) })"

definition kvs_skiptable_destory :: "SkipList option \<Rightarrow> heap \<Rightarrow> (SkipList option \<times> heap) res" where
  "kvs_skiptable_destory inst h =
     (case inst of
        None \<Rightarrow> ret (None, h)
      | Some lst \<Rightarrow>
          rbind (or_undef (skip_free_all (sk_nodes lst) (sk_header lst) h)) (\<lambda>(ns, h').
            ret (Some (lst\<lparr>sk_nodes := ns, sk_header := 0, sk_level := 0, sk_length := 0\<rparr>), h')))"

section \<open>The table of named sets\<close>

definition ZSET_TABLE_SIZE :: nat where
  "ZSET_TABLE_SIZE = 1024"

definition zset_hash :: "cstring \<Rightarrow> uint32" where
  "zset_hash str =
     foldl (\<lambda>hs c. (push_bit 5 hs + hs) + signed c) 5381 str mod of_nat ZSET_TABLE_SIZE"

text \<open>A bucket is the list of its entries, a name and the address of a list.\<close>

fun zset_find :: "(cstring \<times> addr) list \<Rightarrow> cstring \<Rightarrow> addr" where
  "zset_find [] name = 0"
| "zset_find ((n, z) # es) name = (if strcmp n name = 0 then z else zset_find es name)"

definition find_zset :: "(nat \<Rightarrow> (cstring \<times> addr) list) \<Rightarrow> cstring \<Rightarrow> addr" where
  "find_zset zset_table name = zset_find (zset_table (unat (zset_hash name))) name"

end
