(* ===== verification/Stdio.thy ===== *)
theory Stdio
  imports Prelude
begin

text \<open>
  What the persistence code uses of the operating system and of the C library: a file
  system of named byte sequences, \<open>FILE\<close> streams, the clock, and the byte order of
  integers in memory.

  A write to an open stream succeeds (a full disk is not modelled) and reaches the file
  when the stream is closed; the program closes every stream it opens on every path.
\<close>

section \<open>Integers in memory\<close>

text \<open>Little-endian, as \<open>fwrite(&x, sizeof(x), 1, fp)\<close> stores them.\<close>

fun le_bytes :: "nat \<Rightarrow> nat \<Rightarrow> byte list" where
  "le_bytes 0 x = []"
| "le_bytes (Suc n) x = of_nat x # le_bytes n (x div 256)"

fun le_value :: "byte list \<Rightarrow> nat" where
  "le_value [] = 0"
| "le_value (b # bs) = unat b + 256 * le_value bs"

lemma length_le_bytes [simp, codec_simps]: "length (le_bytes n x) = n"
  by (induction n arbitrary: x) auto

lemma unat_of_nat_byte: "unat (of_nat x :: byte) = x mod 256"
  by (simp add: unat_of_nat)

lemma le_value_le_bytes_mod: "le_value (le_bytes n x) = x mod 256 ^ n"
proof (induction n arbitrary: x)
  case 0
  then show ?case by simp
next
  case (Suc n)
  have "x mod 256 ^ Suc n = x mod 256 + 256 * (x div 256 mod 256 ^ n)"
    by (simp add: mod_mult2_eq)
  then show ?case using Suc by (simp add: unat_of_nat_byte)
qed

lemma le_value_le_bytes [codec_simps]: "x < 256 ^ n \<Longrightarrow> le_value (le_bytes n x) = x"
  by (simp add: le_value_le_bytes_mod)

lemma le_value_less: "le_value bs < 256 ^ length bs"
proof (induction bs)
  case Nil
  then show ?case by simp
next
  case (Cons b bs)
  have "unat b < 256" using unsigned_less [of b, where ?'a = nat] by simp
  then have "unat b + 256 * le_value bs < 256 + 256 * le_value bs" by simp
  also have "\<dots> = 256 * Suc (le_value bs)" by simp
  also have "\<dots> \<le> 256 * 256 ^ length bs" using Cons by (intro mult_le_mono) auto
  finally show ?case by simp
qed

lemma le_bytes_le_value: "le_bytes (length bs) (le_value bs) = bs"
proof (induction bs)
  case Nil
  then show ?case by simp
next
  case (Cons b bs)
  have b: "unat b < 256" using unsigned_less [of b, where ?'a = nat] by simp
  have "unat (of_nat (unat b + 256 * le_value bs) :: byte) = (unat b + 256 * le_value bs) mod 256"
    by (rule unat_of_nat_byte)
  also have "\<dots> = unat b" using b by simp
  finally have "(of_nat (unat b + 256 * le_value bs) :: byte) = b"
    by (simp only: word_unat_eq_iff)
  then show ?case using Cons b by simp
qed

text \<open>A \<open>uint16_t\<close>, \<open>uint32_t\<close> or \<open>uint64_t\<close> object.\<close>

definition le16 :: "uint16 \<Rightarrow> byte list" where
  "le16 w = le_bytes 2 (unat w)"

definition le32 :: "uint32 \<Rightarrow> byte list" where
  "le32 w = le_bytes 4 (unat w)"

definition le64 :: "uint64 \<Rightarrow> byte list" where
  "le64 w = le_bytes 8 (unat w)"

definition of_le16 :: "byte list \<Rightarrow> uint16" where
  "of_le16 bs = of_nat (le_value bs)"

definition of_le32 :: "byte list \<Rightarrow> uint32" where
  "of_le32 bs = of_nat (le_value bs)"

definition of_le64 :: "byte list \<Rightarrow> uint64" where
  "of_le64 bs = of_nat (le_value bs)"

lemma length_le [simp, codec_simps]: "length (le16 a) = 2" "length (le32 b) = 4" "length (le64 c) = 8"
  by (simp_all add: le16_def le32_def le64_def)

lemma of_le16_le16 [simp, codec_simps]: "of_le16 (le16 w) = w"
proof -
  have "unat w < 256 ^ 2" using unsigned_less [of w, where ?'a = nat] by simp
  then show ?thesis by (simp only: of_le16_def le16_def le_value_le_bytes) simp
qed

lemma of_le32_le32 [simp, codec_simps]: "of_le32 (le32 w) = w"
proof -
  have "unat w < 256 ^ 4" using unsigned_less [of w, where ?'a = nat] by simp
  then show ?thesis by (simp only: of_le32_def le32_def le_value_le_bytes) simp
qed

lemma of_le64_le64 [simp, codec_simps]: "of_le64 (le64 w) = w"
proof -
  have "unat w < 256 ^ 8" using unsigned_less [of w, where ?'a = nat] by simp
  then show ?thesis by (simp only: of_le64_def le64_def le_value_le_bytes) simp
qed

lemma le32_of_le32: "length bs = 4 \<Longrightarrow> le32 (of_le32 bs) = bs"
proof -
  assume "length bs = 4"
  moreover from this have "le_value bs < 2 ^ 32" using le_value_less [of bs] by simp
  ultimately show ?thesis
    using le_bytes_le_value [of bs] by (simp add: le32_def of_le32_def unat_of_nat)
qed

section \<open>The file system\<close>

record tm =
  tm_year :: int
  tm_mon :: int
  tm_mday :: int
  tm_hour :: int
  tm_min :: int
  tm_sec :: int

text \<open>
  \<open>files\<close> are the files by path and \<open>dirs\<close> the directories that exist. \<open>may_read\<close> and
  \<open>may_write\<close> say which paths the process may open (the latter may depend on the
  directories that exist), \<open>may_mkdir\<close> whether it can create a directory. The answers of
  \<open>time\<close> are an arbitrary sequence.
\<close>

record os =
  files :: "cstring \<Rightarrow> byte list option"
  dirs :: "cstring list"
  may_read :: "cstring \<Rightarrow> bool"
  may_write :: "cstring list \<Rightarrow> cstring \<Rightarrow> bool"
  may_mkdir :: "cstring \<Rightarrow> bool"
  clock :: "nat \<Rightarrow> uint64"
  clock_reads :: nat
  localtime :: "uint64 \<Rightarrow> tm"

definition sys_time :: "os \<Rightarrow> uint64 \<times> os" where
  "sys_time w = (clock w (clock_reads w), w\<lparr>clock_reads := Suc (clock_reads w)\<rparr>)"

text \<open>\<open>access(path, F_OK) == 0\<close> and \<open>stat(path, &st) == 0\<close>.\<close>

definition path_exists :: "cstring \<Rightarrow> os \<Rightarrow> bool" where
  "path_exists p w \<longleftrightarrow> files w p \<noteq> None \<or> p \<in> set (dirs w)"

definition sys_mkdir :: "cstring \<Rightarrow> os \<Rightarrow> os" where
  "sys_mkdir p w = (if path_exists p w \<or> \<not> may_mkdir w p then w else w\<lparr>dirs := p # dirs w\<rparr>)"

section \<open>Streams\<close>

datatype file_mode = RB | WB

record FILE =
  f_path :: cstring
  f_mode :: file_mode
  f_data :: "byte list"
  f_pos :: nat
  f_eof :: bool

text \<open>\<open>fopen\<close> for reading; a directory opens as well, but nothing can be read from it.\<close>

definition fopen_rb :: "cstring \<Rightarrow> os \<Rightarrow> FILE option" where
  "fopen_rb p w =
     (if \<not> may_read w p then None
      else case files w p of
             Some d \<Rightarrow> Some \<lparr>f_path = p, f_mode = RB, f_data = d, f_pos = 0, f_eof = False\<rparr>
           | None \<Rightarrow> if p \<in> set (dirs w)
                     then Some \<lparr>f_path = p, f_mode = RB, f_data = [], f_pos = 0, f_eof = False\<rparr>
                     else None)"

text \<open>\<open>fopen\<close> for writing creates the file or empties it.\<close>

definition fopen_wb :: "cstring \<Rightarrow> os \<Rightarrow> (FILE \<times> os) option" where
  "fopen_wb p w =
     (if p \<in> set (dirs w) \<or> \<not> may_write w (dirs w) p then None
      else Some (\<lparr>f_path = p, f_mode = WB, f_data = [], f_pos = 0, f_eof = False\<rparr>,
                 w\<lparr>files := (files w)(p \<mapsto> [])\<rparr>))"

definition fclose :: "FILE \<Rightarrow> os \<Rightarrow> os" where
  "fclose f w = (if f_mode f = WB then w\<lparr>files := (files w)(f_path f \<mapsto> f_data f)\<rparr> else w)"

text \<open>A write overwrites at the position, and fills a gap before it with zeros.\<close>

definition write_at :: "nat \<Rightarrow> byte list \<Rightarrow> byte list \<Rightarrow> byte list" where
  "write_at p bs d = take p (d @ replicate (p - length d) 0) @ bs @ drop (p + length bs) d"

definition fwrite :: "byte list \<Rightarrow> FILE \<Rightarrow> FILE" where
  "fwrite bs f =
     (if f_mode f = WB
      then f\<lparr>f_data := write_at (f_pos f) bs (f_data f), f_pos := f_pos f + length bs\<rparr> else f)"

text \<open>
  \<open>fread\<close> of \<open>n\<close> bytes returns the bytes it got. On a stream that was opened with
  \<open>"wb"\<close> it gets none: the stream is not open for reading.
\<close>

definition fread :: "nat \<Rightarrow> FILE \<Rightarrow> byte list \<times> FILE" where
  "fread n f =
     (if f_mode f = RB
      then let bs = take n (drop (f_pos f) (f_data f))
           in (bs, f\<lparr>f_pos := f_pos f + length bs, f_eof := f_eof f \<or> length bs < n\<rparr>)
      else ([], f))"

definition ftell :: "FILE \<Rightarrow> nat" where
  "ftell f = f_pos f"

definition fseek :: "nat \<Rightarrow> FILE \<Rightarrow> FILE" where
  "fseek p f = f\<lparr>f_pos := p, f_eof := False\<rparr>"

definition fseek_end :: "FILE \<Rightarrow> FILE" where
  "fseek_end f = f\<lparr>f_pos := length (f_data f), f_eof := False\<rparr>"

lemma write_at_end [simp]: "write_at (length d) bs d = d @ bs"
  by (simp add: write_at_def)

lemma write_at_front: "length bs \<le> length d \<Longrightarrow> write_at 0 bs d = bs @ drop (length bs) d"
  by (simp add: write_at_def)

text \<open>A stream that is written sequentially.\<close>

definition at_end :: "FILE \<Rightarrow> bool" where
  "at_end f \<longleftrightarrow> f_mode f = WB \<and> f_pos f = length (f_data f)"

lemma fwrite_at_end:
  "at_end f \<Longrightarrow> fwrite bs f = f\<lparr>f_data := f_data f @ bs, f_pos := length (f_data f @ bs)\<rparr>"
  by (simp add: fwrite_def at_end_def)

lemma at_end_fwrite [simp]: "at_end f \<Longrightarrow> at_end (fwrite bs f)"
  by (simp add: fwrite_at_end) (simp add: at_end_def)

lemma fwrite_fwrite: "at_end f \<Longrightarrow> fwrite cs (fwrite bs f) = fwrite (bs @ cs) f"
  using write_at_end [of "f_data f @ bs"]
  by (simp add: fwrite_at_end) (simp add: fwrite_def at_end_def add.assoc)

end
