(* ===== verification/Rdb_Config.thy ===== *)
theory Rdb_Config
  imports Stdio
begin

text \<open>
  The configuration of the persistence module (\<^verbatim>\<open>src/kv_RDB.c\<close>, lines 5--13, 470--639 and
  886--940): the structure, the reader and writer of the configuration file, and the
  setters. A flag of the structure is only ever 0 or 1 and is a \<open>bool\<close> here; the two
  paths are arrays of 512 bytes and hold at most 511 characters.
\<close>

section \<open>State\<close>

record rdb_config =
  save_interval :: int
  rdb_file :: cstring
  rdb_enabled :: bool
  rdb_compression :: bool
  rdb_crc64 :: bool
  rdb_backup :: bool
  backup_dir :: cstring

definition default_config :: rdb_config where
  "default_config =
     \<lparr>save_interval = 300, rdb_file = lit ''kvs.rdb'', rdb_enabled = True, rdb_compression = False,
      rdb_crc64 = True, rdb_backup = True, backup_dir = lit ''./backup''\<rparr>"

definition MAX_PATH_LEN :: nat where
  "MAX_PATH_LEN = 512"

definition MAX_CONFIG_LINE :: nat where
  "MAX_CONFIG_LINE = 256"

definition RDB_CONFIG_FILE :: cstring where
  "RDB_CONFIG_FILE = lit ''kvs.conf''"

text \<open>\<open>strncpy(dst, src, MAX_PATH_LEN - 1); dst[MAX_PATH_LEN - 1] = 0\<close>.\<close>

definition copy_path :: "cstring \<Rightarrow> cstring" where
  "copy_path s = take (MAX_PATH_LEN - 1) s"

section \<open>Numbers as text\<close>

text \<open>\<open>%d\<close> of \<open>printf\<close>.\<close>

fun nat_digits :: "nat \<Rightarrow> cstring" where
  "nat_digits n =
     (if n < 10 then [of_nat (48 + n)] else nat_digits (n div 10) @ [of_nat (48 + n mod 10)])"

declare nat_digits.simps [simp del]

definition int_digits :: "int \<Rightarrow> cstring" where
  "int_digits i = (if i < 0 then 45 # nat_digits (nat (- i)) else nat_digits (nat i))"

text \<open>
  \<open>atoi\<close>: white space, an optional sign, digits. As in the GNU C library the value is
  that of \<open>strtol\<close>, which saturates at 64 bits, converted to \<open>int\<close>.
\<close>

definition is_digit :: "byte \<Rightarrow> bool" where
  "is_digit b \<longleftrightarrow> 48 \<le> b \<and> b \<le> 57"

definition is_space :: "byte \<Rightarrow> bool" where
  "is_space b \<longleftrightarrow> b = 32 \<or> (9 \<le> b \<and> b \<le> 13)"

definition digits_value :: "cstring \<Rightarrow> int" where
  "digits_value ds = foldl (\<lambda>acc d. 10 * acc + (uint d - 48)) 0 (takeWhile is_digit ds)"

definition to_int32 :: "int \<Rightarrow> int" where
  "to_int32 i = sint (word_of_int (max (- (2 ^ 63)) (min (2 ^ 63 - 1) i)) :: 32 word)"

definition atoi :: "cstring \<Rightarrow> int" where
  "atoi s =
     (case dropWhile is_space s of
        [] \<Rightarrow> 0
      | c # cs \<Rightarrow> if c = 45 then to_int32 (- digits_value cs)
                  else if c = 43 then to_int32 (digits_value cs)
                  else to_int32 (digits_value (c # cs)))"

section \<open>Reading the configuration file\<close>

text \<open>\<open>fgets\<close>: at most \<open>n\<close> bytes, up to and including the first newline.\<close>

fun fgets :: "nat \<Rightarrow> byte list \<Rightarrow> byte list \<times> byte list" where
  "fgets 0 bs = ([], bs)"
| "fgets (Suc n) [] = ([], [])"
| "fgets (Suc n) (b # bs) =
     (if b = 10 then ([b], bs) else let (l, r) = fgets n bs in (b # l, r))"

lemma fgets_rest: "length (snd (fgets n bs)) \<le> length bs"
  by (induction n bs rule: fgets.induct) (auto split: prod.splits)

lemma fgets_rest_less: "0 < n \<Longrightarrow> bs \<noteq> [] \<Longrightarrow> length (snd (fgets n bs)) < length bs"
  using fgets_rest by (cases n; cases bs) (auto split: prod.splits simp: less_Suc_eq_le, metis snd_conv)

text \<open>
  Removing the spaces at the end: the first character is never removed (it is not a space
  unless the string is empty, since leading spaces were skipped before).
\<close>

fun trim_end :: "cstring \<Rightarrow> cstring" where
  "trim_end [] = []"
| "trim_end (c # cs) = c # rev (dropWhile (\<lambda>b. b = 32) (rev cs))"

definition flag_value :: "cstring \<Rightarrow> bool" where
  "flag_value v \<longleftrightarrow> strcmp v (lit ''yes'') = 0 \<or> strcmp v (lit ''1'') = 0"

definition config_set :: "cstring \<Rightarrow> cstring \<Rightarrow> rdb_config \<Rightarrow> rdb_config" where
  "config_set key val c =
     (if strcmp key (lit ''save_interval'') = 0 then c\<lparr>save_interval := atoi val\<rparr>
      else if strcmp key (lit ''rdb_file'') = 0 then c\<lparr>rdb_file := copy_path val\<rparr>
      else if strcmp key (lit ''rdb_enabled'') = 0 then c\<lparr>rdb_enabled := flag_value val\<rparr>
      else if strcmp key (lit ''rdb_compression'') = 0 then c\<lparr>rdb_compression := flag_value val\<rparr>
      else if strcmp key (lit ''rdb_backup'') = 0 then c\<lparr>rdb_backup := flag_value val\<rparr>
      else if strcmp key (lit ''backup_dir'') = 0 then c\<lparr>backup_dir := copy_path val\<rparr>
      else if strcmp key (lit ''rdb_crc64'') = 0 then c\<lparr>rdb_crc64 := flag_value val\<rparr>
      else c)"

text \<open>The body of the loop; \<open>buf\<close> is the line as \<open>fgets\<close> left it in the buffer.\<close>

definition config_line :: "byte list \<Rightarrow> rdb_config \<Rightarrow> rdb_config" where
  "config_line buf c =
     (let line = str_at buf
      in if line \<noteq> [] \<and> (hd line = 35 \<or> hd line = 10 \<or> hd line = 13) then c
         else let line = takeWhile (\<lambda>b. b \<noteq> 10) line;
                  line = takeWhile (\<lambda>b. b \<noteq> 13) line
              in if 61 \<notin> set line then c
                 else let key = dropWhile (\<lambda>b. b = 32) (takeWhile (\<lambda>b. b \<noteq> 61) line);
                          val = dropWhile (\<lambda>b. b = 32) (tl (dropWhile (\<lambda>b. b \<noteq> 61) line))
                      in config_set (trim_end key) (trim_end val) c)"

function config_lines :: "byte list \<Rightarrow> rdb_config \<Rightarrow> rdb_config" where
  "config_lines bs c =
     (if bs = [] then c
      else let (line, rest) = fgets (MAX_CONFIG_LINE - 1) bs
           in config_lines rest (config_line line c))"
  by pat_completeness auto
termination
proof (relation "measure (\<lambda>(bs, c). length bs)", goal_cases)
  case 1
  then show ?case by simp
next
  case (2 bs c x line rest)
  then show ?case using fgets_rest_less [of "MAX_CONFIG_LINE - 1" bs]
    by (cases "fgets (MAX_CONFIG_LINE - 1) bs") (auto simp: MAX_CONFIG_LINE_def)
qed

declare config_lines.simps [simp del]

definition rdb_config_load :: "cstring \<Rightarrow> rdb_config \<Rightarrow> os \<Rightarrow> int \<times> rdb_config" where
  "rdb_config_load config_file c w =
     (case fopen_rb config_file w of
        None \<Rightarrow> (- 1, c)
      | Some fp \<Rightarrow> (0, config_lines (f_data fp) c))"

section \<open>Writing the configuration file\<close>

definition yes_no :: "bool \<Rightarrow> cstring" where
  "yes_no b = (if b then lit ''yes'' else lit ''no'')"

text \<open>The lines of the file; the comments are the UTF-8 text of the source.\<close>

definition config_text :: "rdb_config \<Rightarrow> byte list list" where
  "config_text c =
     [lit ''# KVS RDB '' @ [0xE9, 0x85, 0x8D, 0xE7, 0xBD, 0xAE, 0xE6, 0x96, 0x87, 0xE4, 0xBB, 0xB6],
      lit ''# '' @ [0xE6, 0xA0, 0xBC, 0xE5, 0xBC, 0x8F] @ lit '': key = value'',
      lit ''# '' @ [0xE6, 0xB3, 0xA8, 0xE9, 0x87, 0x8A, 0xE4, 0xBB, 0xA5] @ lit '' # '' @
        [0xE5, 0xBC, 0x80, 0xE5, 0xA4, 0xB4],
      [],
      lit ''# '' @ [0xE8, 0x87, 0xAA, 0xE5, 0x8A, 0xA8, 0xE4, 0xBF, 0x9D, 0xE5, 0xAD, 0x98, 0xE9, 0x97,
        0xB4, 0xE9, 0x9A, 0x94, 0xEF, 0xBC, 0x88, 0xE7, 0xA7, 0x92, 0xEF, 0xBC, 0x89],
      lit ''save_interval = '' @ int_digits (save_interval c), [],
      lit ''# RDB '' @ [0xE6, 0x96, 0x87, 0xE4, 0xBB, 0xB6, 0xE8, 0xB7, 0xAF, 0xE5, 0xBE, 0x84],
      lit ''rdb_file = '' @ rdb_file c, [],
      lit ''# '' @ [0xE6, 0x98, 0xAF, 0xE5, 0x90, 0xA6, 0xE5, 0x90, 0xAF, 0xE7, 0x94, 0xA8] @ lit '' RDB'',
      lit ''rdb_enabled = '' @ yes_no (rdb_enabled c), [],
      lit ''# '' @ [0xE6, 0x98, 0xAF, 0xE5, 0x90, 0xA6, 0xE5, 0x90, 0xAF, 0xE7, 0x94, 0xA8, 0xE5, 0x8E,
        0x8B, 0xE7, 0xBC, 0xA9, 0xEF, 0xBC, 0x88, 0xE5, 0x8F, 0xAF, 0xE9, 0x80, 0x89, 0xEF, 0xBC, 0x89],
      lit ''rdb_compression = '' @ yes_no (rdb_compression c), [],
      lit ''# '' @ [0xE6, 0x98, 0xAF, 0xE5, 0x90, 0xA6, 0xE5, 0x90, 0xAF, 0xE7, 0x94, 0xA8] @
        lit ''CRC64'' @ [0xE6, 0xA0, 0xA1, 0xE9, 0xAA, 0x8C],
      lit ''rdb_crc64 = '' @ yes_no (rdb_crc64 c), [],
      lit ''# '' @ [0xE6, 0x98, 0xAF, 0xE5, 0x90, 0xA6, 0xE5, 0x90, 0xAF, 0xE7, 0x94, 0xA8, 0xE5, 0xA4,
        0x87, 0xE4, 0xBB, 0xBD],
      lit ''rdb_backup = '' @ yes_no (rdb_backup c), [],
      lit ''# '' @ [0xE5, 0xA4, 0x87, 0xE4, 0xBB, 0xBD, 0xE7, 0x9B, 0xAE, 0xE5, 0xBD, 0x95],
      lit ''backup_dir = '' @ backup_dir c]"

definition lines_bytes :: "byte list list \<Rightarrow> byte list" where
  "lines_bytes ls = concat (map (\<lambda>l. l @ [10]) ls)"

definition rdb_config_save :: "cstring \<Rightarrow> rdb_config \<Rightarrow> os \<Rightarrow> int \<times> os" where
  "rdb_config_save config_file c w =
     (case fopen_wb config_file w of
        None \<Rightarrow> (- 1, w)
      | Some (fp, w1) \<Rightarrow> (0, fclose (fwrite (lines_bytes (config_text c)) fp) w1))"

definition rdb_config_init :: "rdb_config \<Rightarrow> os \<Rightarrow> int \<times> rdb_config \<times> os" where
  "rdb_config_init c w =
     (let (r, c') = rdb_config_load RDB_CONFIG_FILE c w
      in if r \<noteq> 0 then (0, c', snd (rdb_config_save RDB_CONFIG_FILE c' w)) else (0, c', w))"

section \<open>Setters\<close>

definition rdb_config_set_save_interval :: "int \<Rightarrow> rdb_config \<Rightarrow> int \<times> rdb_config" where
  "rdb_config_set_save_interval interval c =
     (if interval \<le> 0 then (- 1, c) else (0, c\<lparr>save_interval := interval\<rparr>))"

definition rdb_config_set_rdb_file :: "cstring option \<Rightarrow> rdb_config \<Rightarrow> int \<times> rdb_config" where
  "rdb_config_set_rdb_file fo c =
     (case fo of None \<Rightarrow> (- 1, c) | Some f \<Rightarrow> (0, c\<lparr>rdb_file := copy_path f\<rparr>))"

definition rdb_config_set_enabled :: "int \<Rightarrow> rdb_config \<Rightarrow> int \<times> rdb_config" where
  "rdb_config_set_enabled enabled c = (0, c\<lparr>rdb_enabled := enabled \<noteq> 0\<rparr>)"

definition rdb_config_set_compression :: "int \<Rightarrow> rdb_config \<Rightarrow> int \<times> rdb_config" where
  "rdb_config_set_compression enabled c = (0, c\<lparr>rdb_compression := enabled \<noteq> 0\<rparr>)"

definition rdb_config_set_crc64 :: "int \<Rightarrow> rdb_config \<Rightarrow> int \<times> rdb_config" where
  "rdb_config_set_crc64 enabled c = (0, c\<lparr>rdb_crc64 := enabled \<noteq> 0\<rparr>)"

definition rdb_config_set_backup :: "int \<Rightarrow> cstring option \<Rightarrow> rdb_config \<Rightarrow> int \<times> rdb_config" where
  "rdb_config_set_backup enabled dir c =
     (let c1 = c\<lparr>rdb_backup := enabled \<noteq> 0\<rparr>
      in (0, case dir of None \<Rightarrow> c1 | Some d \<Rightarrow> c1\<lparr>backup_dir := copy_path d\<rparr>))"

text \<open>The functions kept for compatibility.\<close>

definition kvs_rdb_set_path :: "cstring option \<Rightarrow> rdb_config \<Rightarrow> int \<times> rdb_config" where
  "kvs_rdb_set_path path c = rdb_config_set_rdb_file path c"

definition kvs_rdb_set_directory :: "cstring option \<Rightarrow> rdb_config \<Rightarrow> int \<times> rdb_config" where
  "kvs_rdb_set_directory dir c = rdb_config_set_backup 1 dir c"

definition kvs_rdb_set_filename :: "cstring option \<Rightarrow> rdb_config \<Rightarrow> int \<times> rdb_config" where
  "kvs_rdb_set_filename filename c = rdb_config_set_rdb_file filename c"

definition kvs_rdb_set_auto_save :: "int \<Rightarrow> int \<Rightarrow> rdb_config \<Rightarrow> int \<times> rdb_config" where
  "kvs_rdb_set_auto_save enabled interval c =
     (let c1 = snd (rdb_config_set_enabled enabled c)
      in (0, if 0 < interval then snd (rdb_config_set_save_interval interval c1) else c1))"

text \<open>\<open>None\<close> is a null buffer; otherwise the result is the string left in the buffer.\<close>

definition kvs_rdb_get_full_path :: "bool \<Rightarrow> nat \<Rightarrow> rdb_config \<Rightarrow> int \<times> cstring option" where
  "kvs_rdb_get_full_path full_path_given max_len c =
     (if \<not> full_path_given \<or> max_len = 0 then (- 1, None)
      else (0, Some (take (max_len - 1) (rdb_file c))))"

definition kvs_rdb_init_config :: "rdb_config \<Rightarrow> os \<Rightarrow> int \<times> rdb_config \<times> os" where
  "kvs_rdb_init_config c w = rdb_config_init c w"

section \<open>Text and numbers, read back\<close>

lemma fgets_line: "10 \<notin> set l \<Longrightarrow> length l < n \<Longrightarrow> fgets n (l @ 10 # r) = (l @ [10], r)"
proof (induction l arbitrary: n)
  case Nil
  then show ?case by (cases n) auto
next
  case (Cons b l)
  then show ?case by (cases n) auto
qed

lemma config_lines_line:
  "10 \<notin> set l \<Longrightarrow> length l < 255 \<Longrightarrow>
   config_lines (l @ 10 # r) c = config_lines r (config_line (l @ [10]) c)"
  by (subst config_lines.simps) (simp add: fgets_line MAX_CONFIG_LINE_def)

lemma config_line_comment: "config_line (35 # l) c = c"
  by (simp add: config_line_def str_at_def)

lemma config_line_blank: "config_line ([] @ [10]) c = c"
  by (simp add: config_line_def str_at_def)

definition clean :: "cstring \<Rightarrow> bool" where
  "clean v \<longleftrightarrow> is_cstr v \<and> 10 \<notin> set v \<and> 13 \<notin> set v \<and> (v \<noteq> [] \<longrightarrow> hd v \<noteq> 32 \<and> last v \<noteq> 32)"

lemma drop_end_spaces: "(xs \<noteq> [] \<longrightarrow> last xs \<noteq> 32) \<Longrightarrow> rev (dropWhile (\<lambda>b. b = 32) (rev xs)) = xs"
  by (cases xs rule: rev_cases) auto

lemma trim_end_space: "k \<noteq> [] \<Longrightarrow> last k \<noteq> 32 \<Longrightarrow> trim_end (k @ [32]) = k"
  by (cases k) (auto simp: drop_end_spaces split: if_splits)

lemma trim_end_clean: "(v \<noteq> [] \<longrightarrow> last v \<noteq> 32) \<Longrightarrow> trim_end v = v"
  by (cases v) (auto simp: drop_end_spaces split: if_splits)

text \<open>A line with an entry; the newline is missing if the line was cut off.\<close>

lemma config_line_entry:
  assumes "k \<noteq> []" and "hd k \<noteq> 35" and "clean k" and "61 \<notin> set k" and "clean v" and "nl = [] \<or> nl = [10]"
  shows "config_line (((k @ [32, 61, 32]) @ v) @ nl) c = config_set k v c"
proof -
  let ?l = "(k @ [32, 61, 32]) @ v"
  have nz: "is_cstr ?l" and no10: "10 \<notin> set ?l" and no13: "13 \<notin> set ?l"
    using assms by (auto simp: clean_def is_cstr_def)
  have str: "str_at (?l @ nl) = ?l @ nl"
    using nz assms(6) by (intro str_at_id) (auto simp: is_cstr_def)
  have cut: "takeWhile (\<lambda>b. b \<noteq> 10) (?l @ nl) = ?l"
    using no10 assms(6) by (subst takeWhile_append2) auto
  have cr: "takeWhile (\<lambda>b. b \<noteq> 13) ?l = ?l"
    using no13 by (auto simp: takeWhile_eq_all_conv)
  have key: "takeWhile (\<lambda>b. b \<noteq> 61) ?l = k @ [32]"
    using assms(4) by (simp only: append_assoc, subst takeWhile_append2) auto
  have val: "dropWhile (\<lambda>b. b \<noteq> 61) ?l = 61 # 32 # v"
    using assms(4) by (simp only: append_assoc, subst dropWhile_append2) auto
  have k: "trim_end (dropWhile (\<lambda>b. b = 32) (k @ [32])) = k"
    using assms(1,3) trim_end_space [of k] by (cases k) (auto simp: clean_def simp del: trim_end.simps)
  have v: "trim_end (dropWhile (\<lambda>b. b = 32) (32 # v)) = v"
    using assms(5) by (cases v) (auto simp: clean_def trim_end_clean simp del: trim_end.simps)
  have ne: "?l @ nl \<noteq> []" "61 \<in> set ?l" by simp_all
  have "hd (?l @ nl) \<noteq> 35" "hd (?l @ nl) \<noteq> 10" "hd (?l @ nl) \<noteq> 13"
    using assms(1,2,3) by (cases k; auto simp: clean_def)+
  with ne show ?thesis
    by (simp only: config_line_def Let_def str cut cr key val k v list.sel simp_thms if_False)
qed

lemma digit_byte: "n < 10 \<Longrightarrow> unat (of_nat (48 + n) :: byte) = 48 + n"
  by (subst unat_of_nat_byte) simp

lemma is_digit_byte: "n < 10 \<Longrightarrow> is_digit (of_nat (48 + n))"
  using digit_byte [of n] by (simp add: is_digit_def word_le_nat_alt)

lemma nat_digits_digits: "\<forall>d\<in>set (nat_digits n). is_digit d"
proof (induction n rule: nat_digits.induct)
  case (1 n)
  then show ?case
    using is_digit_byte [of n] is_digit_byte [of "n mod 10"]
    by (subst nat_digits.simps) (auto simp del: of_nat_add)
qed

lemma nat_digits_not_Nil [simp]: "nat_digits n \<noteq> []"
  by (subst nat_digits.simps) simp

lemma digits_value_append:
  "\<forall>d\<in>set ds. is_digit d \<Longrightarrow> is_digit e \<Longrightarrow> digits_value (ds @ [e]) = 10 * digits_value ds + (uint e - 48)"
  by (simp add: digits_value_def takeWhile_eq_all_conv [THEN iffD2])

lemma digits_value_nat_digits: "digits_value (nat_digits n) = int n"
proof (induction n rule: nat_digits.induct)
  case (1 n)
  have u: "uint (of_nat (48 + m) :: byte) = 48 + int m" if "m < 10" for m
    using digit_byte [OF that] by (simp only: uint_nat)
  show ?case
  proof (cases "n < 10")
    case True
    then show ?thesis
      using is_digit_byte [OF True] u [OF True]
      by (subst nat_digits.simps) (simp add: digits_value_def del: of_nat_add)
  next
    case False
    have m: "n mod 10 < 10" by simp
    have "digits_value (nat_digits n) = digits_value (nat_digits (n div 10) @ [of_nat (48 + n mod 10)])"
      using False by (subst nat_digits.simps) simp
    also have "\<dots> = 10 * int (n div 10) + int (n mod 10)"
      using digits_value_append [OF nat_digits_digits is_digit_byte [OF m]] u [OF m] 1 [OF False]
      by (simp del: of_nat_add)
    also have "\<dots> = int n" by presburger
    finally show ?thesis .
  qed
qed

lemma to_int32_id: "- (2 ^ 31) \<le> i \<Longrightarrow> i < 2 ^ 31 \<Longrightarrow> to_int32 i = i"
  by (simp add: to_int32_def sint_sbintrunc' signed_take_bit_int_eq_self)

lemma is_digit_not: "is_digit d \<Longrightarrow> \<not> is_space d \<and> d \<noteq> 45 \<and> d \<noteq> 43 \<and> d \<noteq> 0 \<and> d \<noteq> 10 \<and> d \<noteq> 13 \<and> d \<noteq> 32"
  by (auto simp: is_digit_def is_space_def word_le_nat_alt)

lemma atoi_int_digits:
  assumes "- (2 ^ 31) \<le> i" and "i < 2 ^ 31"
  shows "atoi (int_digits i) = i"
proof (cases "i < 0")
  case True
  then show ?thesis
    using assms by (simp add: atoi_def int_digits_def is_space_def digits_value_nat_digits to_int32_id)
next
  case False
  obtain d ds where d: "nat_digits (nat i) = d # ds"
    using nat_digits_not_Nil by (cases "nat_digits (nat i)") auto
  moreover have "is_digit d" using nat_digits_digits [of "nat i"] d by simp
  ultimately show ?thesis
    using False assms is_digit_not [of d] digits_value_nat_digits [of "nat i"]
    by (simp add: atoi_def int_digits_def to_int32_id)
qed

lemma clean_int_digits: "clean (int_digits i)"
proof -
  let ?ok = "\<lambda>d. d \<noteq> 0 \<and> d \<noteq> 10 \<and> d \<noteq> 13 \<and> d \<noteq> (32 :: byte)"
  have "\<forall>d\<in>set (nat_digits n). ?ok d" for n
    using nat_digits_digits [of n] is_digit_not by blast
  then have all: "\<forall>d\<in>set (int_digits i). ?ok d"
    by (simp add: int_digits_def)
  moreover have "int_digits i \<noteq> []"
    by (simp add: int_digits_def)
  ultimately have "?ok (hd (int_digits i))" "?ok (last (int_digits i))"
    using hd_in_set last_in_set by blast+
  with all show ?thesis
    by (auto simp: clean_def is_cstr_def)
qed

lemma length_nat_digits: "n < 10 ^ k \<Longrightarrow> 0 < k \<Longrightarrow> length (nat_digits n) \<le> k"
proof (induction n arbitrary: k rule: nat_digits.induct)
  case (1 n)
  show ?case
  proof (cases "n < 10")
    case True
    then show ?thesis using 1(3) by (subst nat_digits.simps) simp
  next
    case False
    then obtain j where k: "k = Suc j" "0 < j" using 1(2,3) by (cases k; cases "k - 1") auto
    then have "n div 10 < 10 ^ j" using 1(2) by (simp add: div_less_iff_less_mult)
    then show ?thesis using 1(1) [OF False, of j] k False by (subst nat_digits.simps) simp
  qed
qed

lemma length_int_digits: "- (2 ^ 31) \<le> i \<Longrightarrow> i < 2 ^ 31 \<Longrightarrow> length (int_digits i) \<le> 11"
  using length_nat_digits [of "nat i" 10] length_nat_digits [of "nat (- i)" 10]
  by (cases "i < 0"; cases "nat i < 10000000000") (auto simp: int_digits_def)


definition config_ok :: "rdb_config \<Rightarrow> bool" where
  "config_ok c \<longleftrightarrow>
     - (2 ^ 31) \<le> save_interval c \<and> save_interval c < 2 ^ 31 \<and>
     clean (rdb_file c) \<and> length (rdb_file c) \<le> 243 \<and>
     clean (backup_dir c) \<and> length (backup_dir c) \<le> 241"

lemma config_keys:
  "lit ''save_interval = '' = lit ''save_interval'' @ [32, 61, 32]"
  "lit ''rdb_file = '' = lit ''rdb_file'' @ [32, 61, 32]"
  "lit ''rdb_enabled = '' = lit ''rdb_enabled'' @ [32, 61, 32]"
  "lit ''rdb_compression = '' = lit ''rdb_compression'' @ [32, 61, 32]"
  "lit ''rdb_crc64 = '' = lit ''rdb_crc64'' @ [32, 61, 32]"
  "lit ''rdb_backup = '' = lit ''rdb_backup'' @ [32, 61, 32]"
  "lit ''backup_dir = '' = lit ''backup_dir'' @ [32, 61, 32]"
  by (simp_all add: lit_def)

lemma fgets_fit: "\<forall>l\<in>set (config_text c). 10 \<notin> set l \<and> length l < 255" if "config_ok c"
  using that length_int_digits [of "save_interval c"] clean_int_digits [of "save_interval c"]
  by (simp add: config_text_def config_ok_def clean_def lit_def yes_no_def)

lemma config_line_key:
  assumes "clean v" "k \<in> {lit ''save_interval'', lit ''rdb_file'', lit ''rdb_enabled'', lit ''rdb_compression'',
             lit ''rdb_crc64'', lit ''rdb_backup'', lit ''backup_dir''}" "nl = [] \<or> nl = [10]"
  shows "config_line (((k @ [32, 61, 32]) @ v) @ nl) c = config_set k v c"
proof -
  have "k \<noteq> [] \<and> hd k \<noteq> 35 \<and> clean k \<and> 61 \<notin> set k"
    using assms(2) by (auto simp: lit_def clean_def)
  then show ?thesis using config_line_entry assms(1,3) by blast
qed

lemma config_sets:
  "config_set (lit ''save_interval'') v c = c\<lparr>save_interval := atoi v\<rparr>"
  "config_set (lit ''rdb_file'') v c = c\<lparr>rdb_file := copy_path v\<rparr>"
  "config_set (lit ''rdb_enabled'') v c = c\<lparr>rdb_enabled := flag_value v\<rparr>"
  "config_set (lit ''rdb_compression'') v c = c\<lparr>rdb_compression := flag_value v\<rparr>"
  "config_set (lit ''rdb_crc64'') v c = c\<lparr>rdb_crc64 := flag_value v\<rparr>"
  "config_set (lit ''rdb_backup'') v c = c\<lparr>rdb_backup := flag_value v\<rparr>"
  "config_set (lit ''backup_dir'') v c = c\<lparr>backup_dir := copy_path v\<rparr>"
  by (simp_all add: config_set_def lit_def)

lemma flag_yes_no [simp]: "flag_value (yes_no b) = b" "clean (yes_no b)"
  by (auto simp: flag_value_def yes_no_def lit_def clean_def)

lemma lit_hash: "config_line ((lit ''# '' @ l) @ [10]) c = c" "config_line ((lit ''# RDB '' @ l) @ [10]) c = c"
  "config_line ((lit ''# KVS RDB '' @ l) @ [10]) c = c"
  by (simp_all add: lit_def config_line_comment)

text \<open>The lines before the entry of the data file, that entry, and the lines after it.\<close>

lemma config_text_split:
  "config_text c = take 8 (config_text c) @ (lit ''rdb_file = '' @ rdb_file c) # drop 9 (config_text c)"
  by (simp add: config_text_def)

lemma config_pre_read:
  assumes "- (2 ^ 31) \<le> save_interval c" and "save_interval c < 2 ^ 31"
  shows "fold (\<lambda>l. config_line (l @ [10])) (take 8 (config_text c)) c0 = c0\<lparr>save_interval := save_interval c\<rparr>"
  using atoi_int_digits [OF assms] clean_int_digits
  by (simp add: config_text_def config_keys lit_hash config_line_blank config_line_key config_sets
        del: append_assoc append.simps)

lemma config_post_read:
  assumes "clean (backup_dir c)" and "length (backup_dir c) < MAX_PATH_LEN"
  shows "fold (\<lambda>l. config_line (l @ [10])) (drop 9 (config_text c)) c0 =
           c\<lparr>save_interval := save_interval c0, rdb_file := rdb_file c0\<rparr>"
  using assms
  by (simp add: config_text_def config_keys lit_hash config_line_blank config_line_key config_sets copy_path_def
        del: append_assoc append.simps)

lemma fgets_long: "10 \<notin> set l \<Longrightarrow> length l = n \<Longrightarrow> fgets n (l @ r) = (l, r)"
proof (induction l arbitrary: n)
  case Nil
  then show ?case by (cases n) auto
next
  case (Cons b l)
  then show ?case by (cases n) auto
qed

lemma config_line_no_eq: "61 \<notin> set l \<Longrightarrow> config_line l c = c"
  by (auto simp: config_line_def Let_def str_at_def dest!: set_takeWhileD)

lemma config_lines_append:
  "\<forall>l\<in>set ls. 10 \<notin> set l \<and> length l < 255 \<Longrightarrow>
   config_lines (lines_bytes ls @ r) c = config_lines r (fold (\<lambda>l. config_line (l @ [10])) ls c)"
proof (induction ls arbitrary: c)
  case Nil
  then show ?case by (simp add: lines_bytes_def)
next
  case (Cons l ls)
  have "lines_bytes (l # ls) @ r = l @ 10 # lines_bytes ls @ r" by (simp add: lines_bytes_def)
  then show ?case using Cons by (simp add: config_lines_line)
qed

lemma config_lines_Nil [simp]: "config_lines [] c = c"
  by (simp add: config_lines.simps)

lemma config_text_around:
  assumes "config_ok (c\<lparr>rdb_file := []\<rparr>)"
    and "\<And>r c1. config_lines ((lit ''rdb_file = '' @ rdb_file c) @ 10 # r) c1 = config_lines r (c1\<lparr>rdb_file := p\<rparr>)"
  shows "config_lines (lines_bytes (config_text c)) c0 = c\<lparr>rdb_file := p\<rparr>"
proof -
  let ?e = "c\<lparr>rdb_file := []\<rparr>" and ?pre = "take 8 (config_text c)" and ?post = "drop 9 (config_text c)"
  have "take 8 (config_text ?e) = ?pre" "drop 9 (config_text ?e) = ?post"
    by (simp_all add: config_text_def)
  then have fit: "\<forall>l\<in>set ?pre. 10 \<notin> set l \<and> length l < 255" "\<forall>l\<in>set ?post. 10 \<notin> set l \<and> length l < 255"
    using fgets_fit [OF assms(1)] by (metis in_set_takeD, metis in_set_dropD)
  have "lines_bytes (config_text c) =
          lines_bytes ?pre @ (lit ''rdb_file = '' @ rdb_file c) @ 10 # lines_bytes ?post @ []"
    by (subst config_text_split) (simp add: lines_bytes_def)
  then show ?thesis
    using fit assms config_pre_read [of c c0] config_post_read [of c]
    by (simp only: config_lines_append config_lines_Nil) (simp add: config_ok_def MAX_PATH_LEN_def)
qed

lemma config_text_read:
  assumes "config_ok c"
  shows "config_lines (lines_bytes (config_text c)) c0 = c"
proof -
  have path: "clean (rdb_file c)" "length (rdb_file c) \<le> 243" "config_ok (c\<lparr>rdb_file := []\<rparr>)"
    using assms by (simp_all add: config_ok_def clean_def)
  let ?l = "(lit ''rdb_file'' @ [32, 61, 32]) @ rdb_file c"
  have "10 \<notin> set ?l" "length ?l < 255"
    using path by (simp_all add: lit_def clean_def)
  moreover have "config_line (?l @ [10]) c1 = c1\<lparr>rdb_file := rdb_file c\<rparr>" for c1
    using config_line_key [of "rdb_file c" "lit ''rdb_file''" "[10]" c1] path
    by (simp add: config_sets copy_path_def MAX_PATH_LEN_def)
  ultimately have "config_lines (?l @ 10 # r) c1 = config_lines r (c1\<lparr>rdb_file := rdb_file c\<rparr>)" for r c1
    using config_lines_line [of ?l r c1] by simp
  then show ?thesis
    using config_text_around [OF path(3), of "rdb_file c"] config_keys(2) by simp
qed

text \<open>
  Property C20. Writing the configuration to a file and reading it back gives the same
  configuration, whatever the configuration was before, as long as the paths contain no
  line break and no spaces at their ends and every line fits into the buffer of the reader.
\<close>

theorem rdb_config_roundtrip:
  assumes "config_ok c" and "f \<notin> set (dirs w)" and "may_write w (dirs w) f" and "may_read w f"
  shows "\<exists>w'. rdb_config_save f c w = (0, w') \<and> rdb_config_load f c0 w' = (0, c)"
  using assms config_text_read
  by (simp add: rdb_config_save_def rdb_config_load_def fopen_wb_def fopen_rb_def fclose_def fwrite_def write_at_def)

text \<open>
  A path of more than 244 characters does not survive: the structure and the
  writer allow 511, but the reader's line buffer cuts the line off and drops the rest.
\<close>

theorem rdb_config_long_path_cut:
  assumes "config_ok (c\<lparr>rdb_file := []\<rparr>)" and "clean (rdb_file c)"
    and "32 \<notin> set (rdb_file c)" and "61 \<notin> set (rdb_file c)"
    and "244 < length (rdb_file c)" and "length (rdb_file c) < 499"
    and "f \<notin> set (dirs w)" and "may_write w (dirs w) f" and "may_read w f"
  shows "\<exists>w'. rdb_config_save f c w = (0, w') \<and>
              rdb_config_load f c0 w' = (0, c\<lparr>rdb_file := take 244 (rdb_file c)\<rparr>)"
proof -
  let ?p = "take 244 (rdb_file c)" and ?q = "drop 244 (rdb_file c)"
  let ?l = "(lit ''rdb_file'' @ [32, 61, 32]) @ ?p"
  have sub: "set ?p \<subseteq> set (rdb_file c)" "?p \<noteq> []" using assms(5) by (auto dest: in_set_takeD)
  then have "hd ?p \<in> set (rdb_file c)" "last ?p \<in> set (rdb_file c)"
    by (meson hd_in_set subsetD, meson last_in_set subsetD)
  then have "hd ?p \<noteq> 32" "last ?p \<noteq> 32" using assms(3) by metis+
  then have p: "clean ?p" using assms(2) sub by (auto simp: clean_def is_cstr_def)
  have q: "10 \<notin> set ?q" "61 \<notin> set ?q" "length ?q < 255"
    using assms(2,4,6) by (auto simp: clean_def dest: in_set_dropD)
  have "config_lines (?l @ ?q @ 10 # r) c1 = config_lines r (c1\<lparr>rdb_file := ?p\<rparr>)" for r c1
  proof -
    have "10 \<notin> set ?l" "length ?l = 255"
      using p assms(5) by (simp_all add: lit_def clean_def)
    then have "fgets (MAX_CONFIG_LINE - 1) (?l @ ?q @ 10 # r) = (?l, ?q @ 10 # r)"
      using fgets_long [of ?l 255] by (simp only: MAX_CONFIG_LINE_def) simp
    then have "config_lines (?l @ ?q @ 10 # r) c1 = config_lines (?q @ 10 # r) (config_line ?l c1)"
      by (subst config_lines.simps) (simp only: append_is_Nil_conv list.simps simp_thms if_False Let_def prod.case)
    also have "config_line ?l c1 = c1\<lparr>rdb_file := ?p\<rparr>"
      using config_line_key [of ?p "lit ''rdb_file''" "[]" c1] p
      by (simp add: config_sets copy_path_def MAX_PATH_LEN_def)
    also have "config_lines (?q @ 10 # r) \<dots> = config_lines r (config_line (?q @ [10]) \<dots>)"
      using q by (intro config_lines_line) auto
    finally show ?thesis using q(2) by (simp add: config_line_no_eq)
  qed
  moreover have "(lit ''rdb_file = '' @ rdb_file c) @ 10 # r = ?l @ ?q @ 10 # r" for r
    by (simp add: config_keys)
  ultimately have "config_lines (lines_bytes (config_text c)) c0 = c\<lparr>rdb_file := ?p\<rparr>"
    using config_text_around [OF assms(1)] by metis
  then show ?thesis
    using assms(7-9)
    by (simp add: rdb_config_save_def rdb_config_load_def fopen_wb_def fopen_rb_def fclose_def fwrite_def write_at_def)
qed

section \<open>Limits\<close>

text \<open>
  The paths always fit their arrays, and the interval is positive as long as it is only
  changed through the setters.
\<close>

definition paths_fit :: "rdb_config \<Rightarrow> bool" where
  "paths_fit c \<longleftrightarrow> length (rdb_file c) < MAX_PATH_LEN \<and> length (backup_dir c) < MAX_PATH_LEN"

lemma copy_path_fits [simp]: "length (copy_path s) < MAX_PATH_LEN"
  by (simp add: copy_path_def MAX_PATH_LEN_def)

lemma paths_fit_config_line: "paths_fit c \<Longrightarrow> paths_fit (config_line l c)"
  by (simp add: config_line_def config_set_def Let_def paths_fit_def)

lemma paths_fit_config_lines: "paths_fit c \<Longrightarrow> paths_fit (config_lines bs c)"
proof (induction bs c rule: config_lines.induct)
  case (1 bs c)
  then show ?case
    by (subst config_lines.simps)
      (cases "fgets (MAX_CONFIG_LINE - 1) bs", simp add: paths_fit_config_line)
qed

text \<open>
  No configuration file and no setter can make a path overflow its array;
  the setters reject or keep out an interval that is not positive, while the reader of the
  configuration file stores whatever number it finds.
\<close>

theorem rdb_config_limits:
  assumes "paths_fit c"
  shows "paths_fit (snd (rdb_config_load f c w)) \<and>
         paths_fit (snd (rdb_config_set_rdb_file file c)) \<and>
         paths_fit (snd (rdb_config_set_backup e dir c)) \<and>
         (0 < save_interval c \<longrightarrow>
            0 < save_interval (snd (rdb_config_set_save_interval i c)) \<and>
            0 < save_interval (snd (kvs_rdb_set_auto_save e i c))) \<and>
         (- (2 ^ 31) \<le> j \<and> j < 2 ^ 31 \<and> may_read w f \<and>
            files w f = Some (lit ''save_interval = '' @ int_digits j @ [10]) \<longrightarrow>
            rdb_config_load f c w = (0, c\<lparr>save_interval := j\<rparr>))"
proof (intro conjI impI)
  show "paths_fit (snd (rdb_config_load f c w))"
    using assms by (simp add: rdb_config_load_def paths_fit_config_lines split: option.splits)
  show "paths_fit (snd (rdb_config_set_rdb_file file c))" "paths_fit (snd (rdb_config_set_backup e dir c))"
    using assms
    by (simp_all add: rdb_config_set_rdb_file_def rdb_config_set_backup_def paths_fit_def Let_def split: option.splits)
  show "0 < save_interval (snd (rdb_config_set_save_interval i c))"
    "0 < save_interval (snd (kvs_rdb_set_auto_save e i c))" if "0 < save_interval c"
    using that
    by (simp_all add: rdb_config_set_save_interval_def kvs_rdb_set_auto_save_def rdb_config_set_enabled_def Let_def)
  assume a: "- (2 ^ 31) \<le> j \<and> j < 2 ^ 31 \<and> may_read w f \<and>
    files w f = Some (lit ''save_interval = '' @ int_digits j @ [10])"
  then have j: "- (2 ^ 31) \<le> j" "j < 2 ^ 31" by simp_all
  let ?l = "(lit ''save_interval'' @ [32, 61, 32]) @ int_digits j"
  have "10 \<notin> set ?l" "length ?l < 255"
    using clean_int_digits [of j] length_int_digits [OF j] by (simp_all add: lit_def clean_def)
  then have "config_lines (?l @ [10]) c = config_line (?l @ [10]) c"
    using config_lines_line [of ?l "[]" c] by simp
  also have "\<dots> = c\<lparr>save_interval := j\<rparr>"
    using config_line_key [of "int_digits j" "lit ''save_interval''" "[10]" c] clean_int_digits [of j]
      atoi_int_digits [OF j] by (simp add: config_sets)
  finally show "rdb_config_load f c w = (0, c\<lparr>save_interval := j\<rparr>)"
    using a by (simp add: rdb_config_load_def fopen_rb_def config_keys)
qed

section \<open>Witnesses\<close>

definition demo_os :: os where
  "demo_os =
     \<lparr>files = Map.empty, dirs = [], may_read = (\<lambda>_. True), may_write = (\<lambda>_ _. True), may_mkdir = (\<lambda>_. True),
      clock = (\<lambda>_. 7), clock_reads = 0,
      localtime = (\<lambda>_. \<lparr>tm_year = 126, tm_mon = 0, tm_mday = 1, tm_hour = 2, tm_min = 3, tm_sec = 4\<rparr>)\<rparr>"

lemma default_config_ok: "config_ok default_config"
  by (simp add: config_ok_def default_config_def clean_def lit_def)

theorem rdb_config_roundtrip_witness:
  "\<exists>w'. rdb_config_save RDB_CONFIG_FILE default_config demo_os = (0, w') \<and>
        rdb_config_load RDB_CONFIG_FILE (default_config\<lparr>save_interval := 1\<rparr>) w' = (0, default_config)"
  by (rule rdb_config_roundtrip) (simp_all add: default_config_ok demo_os_def)

theorem rdb_config_long_path_cut_witness:
  "\<exists>w'. rdb_config_save RDB_CONFIG_FILE (default_config\<lparr>rdb_file := replicate 300 97\<rparr>) demo_os = (0, w') \<and>
        rdb_config_load RDB_CONFIG_FILE default_config w' =
          (0, default_config\<lparr>rdb_file := replicate 244 97\<rparr>)"
  using rdb_config_long_path_cut [of "default_config\<lparr>rdb_file := replicate 300 97\<rparr>" RDB_CONFIG_FILE demo_os default_config]
    default_config_ok
  by (simp add: config_ok_def clean_def demo_os_def is_cstr_def)

theorem rdb_config_limits_witness:
  "rdb_config_load RDB_CONFIG_FILE default_config
     (demo_os\<lparr>files := [RDB_CONFIG_FILE \<mapsto> lit ''save_interval = '' @ int_digits (- 5) @ [10]]\<rparr>) =
   (0, default_config\<lparr>save_interval := - 5\<rparr>)"
  using rdb_config_limits [of default_config RDB_CONFIG_FILE
      "demo_os\<lparr>files := [RDB_CONFIG_FILE \<mapsto> lit ''save_interval = '' @ int_digits (- 5) @ [10]]\<rparr>" None 0 None 1 "- 5"]
  by (simp add: paths_fit_def default_config_def lit_def MAX_PATH_LEN_def demo_os_def)

end
