(* ===== verification/Engine.thy ===== *)
theory Engine
  imports Kvs_Array Kvs_Hash Kvs_Rbtree Skiptable Rdb_Config
begin

text \<open>
  The global state of the process: the four stores, the allocator they share, the
  configuration and the operating system. The invariant says that each store is well
  formed and that no two of them share a block; it is what the request handler and the
  snapshot loader rely on.
\<close>

section \<open>State\<close>

text \<open>
  \<open>fresh_node\<close> is what a fresh block of a tree node holds before it is written, see
  \<open>kvs_rbtree_set\<close>. The variable \<open>last_save_time\<close> is the copy of the translation unit
  \<^verbatim>\<open>kv_RDB.c\<close>.
\<close>

record kvs_engine =
  global_array :: kvs_array
  global_rbtree :: rbtree
  global_hash :: kvs_hash
  global_skiptable :: SkipList
  engine_heap :: heap
  fresh_node :: rbtree_node
  g_rdb_config :: rdb_config
  engine_os :: os
  last_save_time :: uint64
  engine_rng :: rng

section \<open>Writing to a store\<close>

definition engine_array_set :: "cstring option \<Rightarrow> cstring option \<Rightarrow> kvs_engine \<Rightarrow> (int \<times> kvs_engine) res" where
  "engine_array_set ko vo e =
     rbind (kvs_array_set (global_array e) ko vo (engine_heap e)) (\<lambda>(r, a, h).
       ret (r, e\<lparr>global_array := a, engine_heap := h\<rparr>))"

definition engine_rbtree_set :: "cstring option \<Rightarrow> cstring option \<Rightarrow> kvs_engine \<Rightarrow> (int \<times> kvs_engine) res" where
  "engine_rbtree_set ko vo e =
     rbind (kvs_rbtree_set (fresh_node e) (global_rbtree e) ko vo (engine_heap e)) (\<lambda>(r, t, h).
       ret (r, e\<lparr>global_rbtree := t, engine_heap := h\<rparr>))"

definition engine_hash_set :: "cstring option \<Rightarrow> cstring option \<Rightarrow> kvs_engine \<Rightarrow> (int \<times> kvs_engine) res" where
  "engine_hash_set ko vo e =
     rbind (kvs_hash_set (global_hash e) ko vo (engine_heap e)) (\<lambda>(r, hs, h).
       ret (r, e\<lparr>global_hash := hs, engine_heap := h\<rparr>))"

section \<open>The invariant\<close>

definition engine_inv :: "kvs_engine \<Rightarrow> addr set \<Rightarrow> bool" where
  "engine_inv e L \<longleftrightarrow>
     array_ok (global_array e) \<and> rb_ok (global_rbtree e) \<and> hash_ok (global_hash e) \<and>
     heap_inv (engine_heap e) L \<and>
     set (array_blocks (global_array e)) \<subseteq> L \<and> set (rb_blocks (global_rbtree e)) \<subseteq> L \<and>
     set (hash_blocks (global_hash e)) \<subseteq> L \<and>
     set (array_blocks (global_array e)) \<inter> set (rb_blocks (global_rbtree e)) = {} \<and>
     set (array_blocks (global_array e)) \<inter> set (hash_blocks (global_hash e)) = {} \<and>
     set (rb_blocks (global_rbtree e)) \<inter> set (hash_blocks (global_hash e)) = {}"

lemma heap_frame_other:
  "heap_frame L B L' B' \<Longrightarrow> C \<subseteq> L \<Longrightarrow> B \<inter> C = {} \<Longrightarrow> C \<subseteq> L' \<and> B' \<inter> C = {}"
  unfolding heap_frame_def by blast

text \<open>The blocks of the three stores; what lies outside them belongs to somebody else.\<close>

definition store_blocks :: "kvs_engine \<Rightarrow> addr set" where
  "store_blocks e =
     set (array_blocks (global_array e)) \<union> set (rb_blocks (global_rbtree e)) \<union> set (hash_blocks (global_hash e))"

text \<open>What one store does to its blocks is a frame for the three of them.\<close>

lemma heap_frame_part:
  "heap_frame L B L' B' \<Longrightarrow> C \<subseteq> L \<Longrightarrow> B \<inter> C = {} \<Longrightarrow> heap_frame L (B \<union> C) L' (B' \<union> C)"
  unfolding heap_frame_def by blast

lemma store_frame:
  assumes "engine_inv e L"
  shows "heap_frame L (set (array_blocks (global_array e))) L' (set (array_blocks a)) \<Longrightarrow>
      heap_frame L (store_blocks e) L' (store_blocks (e\<lparr>global_array := a, engine_heap := h\<rparr>))"
    and "heap_frame L (set (rb_blocks (global_rbtree e))) L' (set (rb_blocks t)) \<Longrightarrow>
      heap_frame L (store_blocks e) L' (store_blocks (e\<lparr>global_rbtree := t, engine_heap := h\<rparr>))"
    and "heap_frame L (set (hash_blocks (global_hash e))) L' (set (hash_blocks hs)) \<Longrightarrow>
      heap_frame L (store_blocks e) L' (store_blocks (e\<lparr>global_hash := hs, engine_heap := h\<rparr>))"
proof -
  let ?A = "set (array_blocks (global_array e))" and ?T = "set (rb_blocks (global_rbtree e))"
    and ?H = "set (hash_blocks (global_hash e))"
  have own: "?A \<subseteq> L" "?T \<subseteq> L" "?H \<subseteq> L" "?A \<inter> ?T = {}" "?A \<inter> ?H = {}" "?T \<inter> ?H = {}"
    using assms by (simp_all add: engine_inv_def)
  have eq: "store_blocks e = ?A \<union> (?T \<union> ?H)" "store_blocks e = ?T \<union> (?A \<union> ?H)" "store_blocks e = ?H \<union> (?A \<union> ?T)"
    by (auto simp: store_blocks_def)
  show "heap_frame L (store_blocks e) L' (store_blocks (e\<lparr>global_array := a, engine_heap := h\<rparr>))"
    if "heap_frame L ?A L' (set (array_blocks a))"
    using heap_frame_part [OF that, of "?T \<union> ?H"] own eq(1) by (simp add: store_blocks_def Un_assoc Int_Un_distrib)
  show "heap_frame L (store_blocks e) L' (store_blocks (e\<lparr>global_rbtree := t, engine_heap := h\<rparr>))"
    if "heap_frame L ?T L' (set (rb_blocks t))"
    using heap_frame_part [OF that, of "?A \<union> ?H"] own eq(2) by (simp add: store_blocks_def Un_ac Int_Un_distrib Int_commute)
  show "heap_frame L (store_blocks e) L' (store_blocks (e\<lparr>global_hash := hs, engine_heap := h\<rparr>))"
    if "heap_frame L ?H L' (set (hash_blocks hs))"
    using heap_frame_part [OF that, of "?A \<union> ?T"] own eq(3) by (simp add: store_blocks_def Un_ac Int_Un_distrib Int_commute)
qed

text \<open>The maps the stores hold, by the type a snapshot record has for the store.\<close>

definition engine_map :: "kvs_engine \<Rightarrow> byte \<Rightarrow> cstring \<rightharpoonup> cstring" where
  "engine_map e ty =
     (if ty = 0 then array_abs (global_array e) else if ty = 1 then rb_abs (global_rbtree e)
      else if ty = 2 then hash_abs (global_hash e) else Map.empty)"

definition first_wins :: "(cstring \<rightharpoonup> cstring) \<Rightarrow> cstring \<Rightarrow> cstring \<Rightarrow> (cstring \<rightharpoonup> cstring)" where
  "first_wins m k v = (if m k = None then m(k \<mapsto> v) else m)"

text \<open>Nothing but the stores and the allocator differs.\<close>

definition same_env :: "kvs_engine \<Rightarrow> kvs_engine \<Rightarrow> bool" where
  "same_env e e' \<longleftrightarrow>
     e' = e\<lparr>global_array := global_array e', global_rbtree := global_rbtree e', global_hash := global_hash e',
            engine_heap := engine_heap e'\<rparr>"

lemma same_envD:
  "same_env e e' \<Longrightarrow> g_rdb_config e' = g_rdb_config e \<and> engine_os e' = engine_os e \<and>
     global_skiptable e' = global_skiptable e \<and> last_save_time e' = last_save_time e"
  by (simp add: same_env_def) (metis kvs_engine.select_convs(4,7,8,9) kvs_engine.surjective kvs_engine.update_convs(1-3,5))

lemma same_env_refl [simp]: "same_env e e"
  by (simp add: same_env_def)

lemma same_env_trans: "same_env e e' \<Longrightarrow> same_env e' e'' \<Longrightarrow> same_env e e''"
  unfolding same_env_def by (cases e; cases e'; cases e'') simp

text \<open>
  A change of the stores from the blocks \<open>L\<close> to \<open>L'\<close> that leaves the rest of the engine and the
  blocks of others alone.
\<close>

definition keeps_rest :: "kvs_engine \<Rightarrow> addr set \<Rightarrow> kvs_engine \<Rightarrow> addr set \<Rightarrow> bool" where
  "keeps_rest e L e' L' \<longleftrightarrow> same_env e e' \<and> heap_frame L (store_blocks e) L' (store_blocks e')"

lemma keeps_rest_trans: "keeps_rest e L e' L' \<Longrightarrow> keeps_rest e' L' e'' L'' \<Longrightarrow> keeps_rest e L e'' L''"
  unfolding keeps_rest_def by (meson same_env_trans heap_frame_trans)

lemma keeps_rest_heap: "engine_inv e L \<Longrightarrow> keeps_rest e L (e\<lparr>engine_heap := h\<rparr>) L"
proof -
  assume "engine_inv e L"
  then have "store_blocks e \<subseteq> L" by (simp add: engine_inv_def store_blocks_def)
  moreover have "store_blocks (e\<lparr>engine_heap := h\<rparr>) = store_blocks e" by (simp add: store_blocks_def)
  ultimately show ?thesis by (simp add: keeps_rest_def heap_frame_refl) (simp add: same_env_def)
qed

lemma keeps_rest_refl: "engine_inv e L \<Longrightarrow> keeps_rest e L e L"
  using keeps_rest_heap [of e L "engine_heap e"] by simp

lemma keeps_rest_env: "keeps_rest e L e' L' \<Longrightarrow> same_env e e'"
  by (simp add: keeps_rest_def)

lemma engine_array_set_ok:
  assumes inv: "engine_inv e L" and mem: "mem_budget (engine_heap e) (n + 3)"
    and room: "total (global_array e) + Suc m \<le> KVS_ARRAY_SIZE"
  shows "\<exists>e' L'. engine_array_set (Some k) (Some v) e = ret (if engine_map e 0 k = None then 0 else 1, e') \<and>
           engine_inv e' L' \<and>
           engine_map e' = (engine_map e)(0 := first_wins (engine_map e 0) k v) \<and>
           mem_budget (engine_heap e') n \<and> total (global_array e') + m \<le> KVS_ARRAY_SIZE \<and> keeps_rest e L e' L'"
proof -
  obtain r a h L' where 1: "kvs_array_set (global_array e) (Some k) (Some v) (engine_heap e) = ret (r, a, h)"
    "r = (if array_abs (global_array e) k = None then 0 else 1)" "array_ok a"
    "array_abs a = (if array_abs (global_array e) k = None then (array_abs (global_array e))(k \<mapsto> v)
                    else array_abs (global_array e))"
    "total a + length (replicate m k) \<le> KVS_ARRAY_SIZE" "heap_inv h L'" "mem_budget h n"
    "heap_frame L (set (array_blocks (global_array e))) L' (set (array_blocks a))"
    using array_kv.set_first_wins [of "global_array e" "engine_heap e" L n k "replicate m k" v] inv mem room
    unfolding engine_inv_def by auto
  let ?e = "e\<lparr>global_array := a, engine_heap := h\<rparr>"
  have "engine_inv ?e L'"
    using inv 1(3,6) 1(8) [unfolded heap_frame_def]
      heap_frame_other [OF 1(8), of "set (rb_blocks (global_rbtree e))"]
      heap_frame_other [OF 1(8), of "set (hash_blocks (global_hash e))"]
    unfolding engine_inv_def by simp
  moreover have "engine_map ?e = (engine_map e)(0 := first_wins (engine_map e 0) k v)"
    using 1(4) by (simp add: engine_map_def first_wins_def fun_eq_iff)
  ultimately show ?thesis
    using 1 store_frame(1) [OF inv 1(8)] by (intro exI [of _ ?e] exI [of _ L'])
      (simp add: engine_array_set_def engine_map_def keeps_rest_def same_env_def)
qed

lemma engine_rbtree_set_ok:
  assumes inv: "engine_inv e L" and mem: "mem_budget (engine_heap e) (n + 3)"
  shows "\<exists>e' L'. engine_rbtree_set (Some k) (Some v) e = ret (0, e') \<and>
           engine_inv e' L' \<and>
           engine_map e' = (engine_map e)(1 := first_wins (engine_map e 1) k v) \<and>
           mem_budget (engine_heap e') n \<and> global_array e' = global_array e \<and> keeps_rest e L e' L'"
proof -
  obtain r t h L' where 1:
    "kvs_rbtree_set (fresh_node e) (global_rbtree e) (Some k) (Some v) (engine_heap e) = ret (r, t, h)"
    "r = (if rb_abs (global_rbtree e) k = None then 0 else 0)" "rb_ok t"
    "rb_abs t = (if rb_abs (global_rbtree e) k = None then (rb_abs (global_rbtree e))(k \<mapsto> v)
                 else rb_abs (global_rbtree e))"
    "heap_inv h L'" "mem_budget h n"
    "heap_frame L (set (rb_blocks (global_rbtree e))) L' (set (rb_blocks t))"
    using rb_kv.set_first_wins [where s = "global_rbtree e" and h = "engine_heap e" and L = L and n = n and k = k
        and v = v and junk = "fresh_node e"] inv mem
    unfolding engine_inv_def by auto
  let ?e = "e\<lparr>global_rbtree := t, engine_heap := h\<rparr>"
  have "engine_inv ?e L'"
    using inv 1(3,5) 1(7) [unfolded heap_frame_def]
      heap_frame_other [OF 1(7), of "set (array_blocks (global_array e))"]
      heap_frame_other [OF 1(7), of "set (hash_blocks (global_hash e))"]
    unfolding engine_inv_def by (simp add: Int_commute)
  moreover have "engine_map ?e = (engine_map e)(1 := first_wins (engine_map e 1) k v)"
    using 1(4) by (simp add: engine_map_def first_wins_def fun_eq_iff)
  ultimately show ?thesis
    using 1 store_frame(2) [OF inv 1(7)] by (intro exI [of _ ?e] exI [of _ L'])
      (simp add: engine_rbtree_set_def engine_map_def keeps_rest_def same_env_def)
qed

lemma engine_hash_set_ok:
  assumes inv: "engine_inv e L" and mem: "mem_budget (engine_heap e) (n + 3)"
    and key: "hash_index k \<noteq> None"
  shows "\<exists>e' L'. engine_hash_set (Some k) (Some v) e = ret (if engine_map e 2 k = None then 0 else 1, e') \<and>
           engine_inv e' L' \<and>
           engine_map e' = (engine_map e)(2 := first_wins (engine_map e 2) k v) \<and>
           mem_budget (engine_heap e') n \<and> global_array e' = global_array e \<and> keeps_rest e L e' L'"
proof -
  obtain r t h L' where 1: "kvs_hash_set (global_hash e) (Some k) (Some v) (engine_heap e) = ret (r, t, h)"
    "r = (if hash_abs (global_hash e) k = None then 0 else 1)" "hash_ok t"
    "hash_abs t = (if hash_abs (global_hash e) k = None then (hash_abs (global_hash e))(k \<mapsto> v)
                   else hash_abs (global_hash e))"
    "heap_inv h L'" "mem_budget h n"
    "heap_frame L (set (hash_blocks (global_hash e))) L' (set (hash_blocks t))"
    using hash_kv.set_first_wins [of "global_hash e" "engine_heap e" L n k "[]" v] inv mem key
    unfolding engine_inv_def by auto
  let ?e = "e\<lparr>global_hash := t, engine_heap := h\<rparr>"
  have "engine_inv ?e L'"
    using inv 1(3,5) 1(7) [unfolded heap_frame_def]
      heap_frame_other [OF 1(7), of "set (array_blocks (global_array e))"]
      heap_frame_other [OF 1(7), of "set (rb_blocks (global_rbtree e))"]
    unfolding engine_inv_def by (simp add: Int_commute)
  moreover have "engine_map ?e = (engine_map e)(2 := first_wins (engine_map e 2) k v)"
    using 1(4) by (simp add: engine_map_def first_wins_def fun_eq_iff)
  ultimately show ?thesis
    using 1 store_frame(3) [OF inv 1(7)] by (intro exI [of _ ?e] exI [of _ L'])
      (simp add: engine_hash_set_def engine_map_def keeps_rest_def same_env_def)
qed

section \<open>Empty stores\<close>

lemma array_empty:
  assumes "total a = 0" and "\<not> array_mutex a"
  shows "array_ok a" and "array_abs a = Map.empty" and "array_blocks a = [array_table a]"
  using assms by (simp_all add: array_ok_def array_abs_def array_blocks_def array_entries_def no_holes_def)

lemma rb_empty:
  assumes "root T = nil T" and "nil T \<noteq> 0" and "nodes T (nil T) = Some n" and "rcolor n = BLACK"
  shows "rb_ok T" and "rb_abs T = Map.empty" and "rb_blocks T = [nil T]" and "rb_shape T = Lf"
proof -
  have rep: "rep T Lf" using assms by (simp add: rep_def)
  show "rb_ok T" "rb_abs T = Map.empty" "rb_blocks T = [nil T]" "rb_shape T = Lf"
    using rb_okI [OF rep] rb_shape_eq [OF rep] assms(2) by (simp_all add: rbt_def keys_ok_def)
qed

lemma hash_empty:
  assumes "max_slots hs = MAX_TABLE_SIZE" and "count hs = 0" and "\<forall>i<MAX_TABLE_SIZE. buckets hs i = Some []"
  shows "hash_ok hs" and "hash_abs hs = Map.empty" and "hash_blocks hs = [hash_nodes hs]"
proof -
  have b: "bucket_list hs i = []" if "i < MAX_TABLE_SIZE" for i
    using assms(3) that by (simp add: bucket_list_def)
  then have "concat (map (\<lambda>i. chain_blocks (bucket_list hs i)) [0..<MAX_TABLE_SIZE]) = []" by simp
  then show blocks: "hash_blocks hs = [hash_nodes hs]" by (simp only: hash_blocks_def)
  show "hash_abs hs = Map.empty"
    using hash_index_bound b by (fastforce simp: hash_abs_def split: option.split)
  show "hash_ok hs"
    using assms b blocks by (simp add: hash_ok_def chain_ok_def)
qed

section \<open>Witnesses\<close>

definition demo_rb0 :: rbtree where
  "demo_rb0 = \<lparr>root = 2000, nil = 2000, nodes = [2000 \<mapsto> demo_nil]\<rparr>"

definition demo_hash0 :: kvs_hash where
  "demo_hash0 = \<lparr>hash_nodes = 3000, buckets = (\<lambda>_. Some []), max_slots = 1024, count = 0\<rparr>"

definition demo_engine :: kvs_engine where
  "demo_engine =
     \<lparr>global_array = demo_array, global_rbtree = demo_rb0, global_hash = demo_hash0,
      global_skiptable = \<lparr>sk_level = 0, sk_header = 0, sk_nodes = Map.empty, sk_length = 0, sk_lock = False\<rparr>,
      engine_heap = demo_heap, fresh_node = demo_nil, g_rdb_config = default_config\<lparr>rdb_crc64 := False\<rparr>,
      engine_os = demo_os, last_save_time = 0, engine_rng = \<lparr>rnd = (\<lambda>_. 0), rnd_calls = 0\<rparr>\<rparr>"

text \<open>The same engine with an empty array.\<close>

definition demo_engine0 :: kvs_engine where
  "demo_engine0 = demo_engine\<lparr>global_array := demo_array\<lparr>total := 0\<rparr>\<rparr>"

lemma demo_empty_stores [simp]:
  "rb_ok demo_rb0" "rb_abs demo_rb0 = Map.empty" "rb_blocks demo_rb0 = [2000]" "rb_shape demo_rb0 = Lf"
  "hash_ok demo_hash0" "hash_abs demo_hash0 = Map.empty" "hash_blocks demo_hash0 = [3000]"
  "array_ok (demo_array\<lparr>total := 0\<rparr>)" "array_abs (demo_array\<lparr>total := 0\<rparr>) = Map.empty"
  "array_blocks (demo_array\<lparr>total := 0\<rparr>) = [8]"
  using rb_empty [of demo_rb0 demo_nil] hash_empty [of demo_hash0] array_empty [of "demo_array\<lparr>total := 0\<rparr>"]
  by (simp_all add: demo_rb0_def demo_hash0_def demo_nil_def MAX_TABLE_SIZE_def demo_array_def)

lemma demo_engine_inv:
  "engine_inv demo_engine {8, 1000, 1100, 2000, 3000}" "engine_inv demo_engine0 {8, 1000, 1100, 2000, 3000}"
proof -
  have "heap_inv demo_heap {8, 1000, 1100, 2000, 3000}" by (rule demo_heap_inv) auto
  then show "engine_inv demo_engine {8, 1000, 1100, 2000, 3000}" "engine_inv demo_engine0 {8, 1000, 1100, 2000, 3000}"
    by (simp_all add: engine_inv_def demo_engine_def demo_engine0_def)
qed

lemma demo_engine_map:
  "engine_map demo_engine t = (if t = 0 then [[97] \<mapsto> [49]] else Map.empty)"
  "engine_map demo_engine0 t = Map.empty"
proof -
  have "array_abs demo_array = [[97] \<mapsto> [49]]" by (simp add: array_abs_def)
  then show "engine_map demo_engine t = (if t = 0 then [[97] \<mapsto> [49]] else Map.empty)"
    "engine_map demo_engine0 t = Map.empty"
    by (simp_all add: engine_map_def demo_engine_def demo_engine0_def)
qed

end
