(* ===== verification/Rdb_Format.thy ===== *)
theory Rdb_Format
  imports Stdio
begin

text \<open>
  The format of a snapshot file (\<^verbatim>\<open>src/kvstore.h\<close>, lines 34--90, and \<^verbatim>\<open>src/kv_RDB.c\<close>): the CRC,
  the header, the records and the footer, as the bytes that \<open>fwrite\<close> puts into the file.
  Both structures are packed: the header has 32 bytes and the footer 20.
\<close>

section \<open>The checksum\<close>

text \<open>
  The array of the source is declared with 256 elements but initialised with 152; the
  others are zero.
\<close>

definition crc64_table :: "uint64 list" where
  "crc64_table =
     [
      0x0000000000000000, 0x42F0E1EBA9EA3693, 0x85E1C3D753D46D26, 0xC711223CFA3E5BB5,
      0x493366450E42ECDF, 0x0BC387AEA7A8DA4C, 0xCCD2A5925D9681F9, 0x8E224479F47CB76A,
      0x9266CC8A1C85D9BE, 0xD0962D61B56FEF2D, 0x17870F5D4F51B498, 0x5577EEB6E6BB820B,
      0xDB55AACF12C73561, 0x99A54B24BB2D03F2, 0x5EB4691841135847, 0x1C4488F3E8F96ED4,
      0x663D78FF90E185EF, 0x24CD9914390BB37C, 0xE3DCBB28C335E8C9, 0xA12C5AC36ADFDE5A,
      0x2F0E1EBA9EA36930, 0x6DFEFF5137495FA3, 0xAAEFDD6DCD770416, 0xE81F3C86649D3285,
      0xF45BB4758C645C51, 0xB6AB559E258E6AC2, 0x71BA77A2DFB03177, 0x334A9649765A07E4,
      0xBD68D2308226B08E, 0xFF9833DB2BCC861D, 0x388911E7D1F2DDA8, 0x7A79F00C7818EB3B,
      0xCC7AF1FF21C30BDE, 0x8E8A101488293D4D, 0x499B3228721766F8, 0x0B6BD3C3DBFD506B,
      0x854997BA2F81E701, 0xC7B97651866BD192, 0x00A8546D7C558A27, 0x4258B586D5BFBCB4,
      0x5E1C3D753D46D260, 0x1CECDC9E94ACE4F3, 0xDBFDFEA26E92BF46, 0x990D1F49C77889D5,
      0x172F5B3033043EBF, 0x55DFBADB9AEE082C, 0x92CE98E760D05399, 0xD03E790CC93A650A,
      0xAA478900B1228E31, 0xE8B768EB18C8B8A2, 0x2FA64AD7E2F6E317, 0x6D56AB3C4B1CD584,
      0xE374EF45BF6062EE, 0xA1840EAE168A547D, 0x66952C92ECB40FC8, 0x2465CD79455E395B,
      0x3821458AADA7578F, 0x7AD1A461044D611C, 0xBDC0865DFE733AA9, 0xFF3067B657990C3A,
      0x711223CFA3E5BB50, 0x33E2C2240A0F8DC3, 0xF4F3E018F031D676, 0xB60301F359DBE0E5,
      0xDA050215EA6C212F, 0x98F5E3FE438617BC, 0x5FE4C1C2B9B84C09, 0x1D14202910527A9A,
      0x93366450E42ECDF0, 0xD1C685BB4DC4FB63, 0x16D7A787B7FAA0D6, 0x5427466C1E109645,
      0x4863CE9FF6E9F891, 0x0A932F745F03CE02, 0xCD820D48A53D95B7, 0x8F72ECA30CD7A324,
      0x0150A8DAF8AB144E, 0x43A04931514122DD, 0x84B16B0DAB7F7968, 0xC6418AE602954FFB,
      0xBC387AEA7A8DA4C0, 0xFEC89B01D3679253, 0x39D9B93D2959C9E6, 0x7B2958D680B3FF75,
      0xF50B1CAF74CF481F, 0xB7FBFD44DD257E8C, 0x70EADF78271B2539, 0x321A3E938EF113AA,
      0x2E5EB66066087D7E, 0x6CAE578BCFE24BED, 0xABBF75B735DC1058, 0xE94F945C9C3626CB,
      0x676DD025684A91A1, 0x259D31CEC1A0A732, 0xE28C13F23B9EFC87, 0xA07CF2199274CA14,
      0x167FF3EACBAF2AF1, 0x548F120162451C62, 0x939E303D987B47D7, 0xD16ED1D631917144,
      0x5F4C95AFC5EDC62E, 0x1DBC74446C07F0BD, 0xDAAD56789639AB08, 0x985DB7933FD39D9B,
      0x84193F60D72AF3AF, 0xC6E9DE8B7EC0C53C, 0x01F8FCB784FE9E89, 0x43081D5C2D14A81A,
      0xCD2A5925D9681F70, 0x8FDAB8CE708229E3, 0x4A6ACB4778EC7256, 0x089A2AACD10644C5,
      0x14DEA25F39FF2A61, 0x562E43B490151CF2, 0x913F61886A2B4747, 0xD3CF8063C3C171D4,
      0x5DFB059B1B3DC6BE, 0x1F0BE470B2D7F02D, 0xD81AC64C48E9AB98, 0x9AFAC7A7E1039D0B,
      0x86B64F5409FAF3DF, 0xC446AEBFA010C54C, 0x03578C835A2E9EF9, 0x41A76D68F3C4A86A,
      0xCF85291107B81F00, 0x8D75C8FAAE522993, 0x4A64EAC6546C7226, 0x08940B2DFD8644B5,
      0x72EDFB21859EAF8E, 0x301D1ACACEF4991D, 0xF70C38F634CAC2A8, 0xB5FCD91D9D20F43B,
      0x3BDED5646A5C4351, 0x792E348FC3B675C2, 0xBE3F16B339882E77, 0xFCCFF758906218E4,
      0xE08B7FAF789B7630, 0xA27B9E44D17140A3, 0x656ABC782B4F1B16, 0x279A5D9382A52D85,
      0xA9BA19EAB6D99AEF, 0xEB4AF8011F33AC7C, 0x2C5BDADDC50DF7C9, 0x6EA55B366CF7C15A,
      0x72E1DA21871EAF8E, 0x30113BCACEF4991D, 0xF70019F634CAC2A8, 0xB5F0F81D9D20F43B,
      0x3BD2BC64695C4351, 0x79225D8FC0B675C2, 0xBE337FB33A882E77, 0xFCC39E58936218E4
     ] @ replicate 104 0"

definition crc64_step :: "uint64 \<Rightarrow> byte \<Rightarrow> uint64" where
  "crc64_step crc b = (crc64_table ! unat ((crc XOR ucast b) AND 0xFF)) XOR drop_bit 8 crc"

definition rdb_calculate_crc64 :: "byte list \<Rightarrow> uint64" where
  "rdb_calculate_crc64 bytes = foldl crc64_step 0xFFFFFFFFFFFFFFFF bytes XOR 0xFFFFFFFFFFFFFFFF"

section \<open>Header and footer\<close>

definition RDB_MAGIC :: uint32 where
  "RDB_MAGIC = 0x5244424B"

definition RDB_VERSION :: uint32 where
  "RDB_VERSION = 1"

record rdb_header =
  rh_magic :: uint32
  rh_version :: uint32
  rh_flags :: uint32
  rh_data_size :: uint32
  rh_record_count :: uint32
  rh_save_time :: uint64
  rh_padding :: uint32

definition sizeof_header :: nat where
  "sizeof_header = 32"

definition header_bytes :: "rdb_header \<Rightarrow> byte list" where
  "header_bytes h =
     le32 (rh_magic h) @ le32 (rh_version h) @ le32 (rh_flags h) @ le32 (rh_data_size h) @
     le32 (rh_record_count h) @ le64 (rh_save_time h) @ le32 (rh_padding h)"

definition header_of :: "byte list \<Rightarrow> rdb_header" where
  "header_of bs =
     \<lparr>rh_magic = of_le32 (take 4 bs), rh_version = of_le32 (take 4 (drop 4 bs)),
      rh_flags = of_le32 (take 4 (drop 8 bs)), rh_data_size = of_le32 (take 4 (drop 12 bs)),
      rh_record_count = of_le32 (take 4 (drop 16 bs)), rh_save_time = of_le64 (take 8 (drop 20 bs)),
      rh_padding = of_le32 (take 4 (drop 28 bs))\<rparr>"

record rdb_footer =
  rf_eof_marker :: "byte list"
  rf_crc64 :: uint64
  rf_footer_size :: uint32
  rf_padding :: uint32

definition RDB_FOOTER_SIZE :: nat where
  "RDB_FOOTER_SIZE = 4 + 8 + 4 + 4"

text \<open>The four bytes of the string literal \<open>"EOF"\<close>.\<close>

definition RDB_EOF_MARKER :: "byte list" where
  "RDB_EOF_MARKER = lit ''EOF'' @ [0]"

definition footer_bytes :: "rdb_footer \<Rightarrow> byte list" where
  "footer_bytes f = rf_eof_marker f @ le64 (rf_crc64 f) @ le32 (rf_footer_size f) @ le32 (rf_padding f)"

definition footer_of :: "byte list \<Rightarrow> rdb_footer" where
  "footer_of bs =
     \<lparr>rf_eof_marker = take 4 bs, rf_crc64 = of_le64 (take 8 (drop 4 bs)),
      rf_footer_size = of_le32 (take 4 (drop 12 bs)), rf_padding = of_le32 (take 4 (drop 16 bs))\<rparr>"

lemma length_header_bytes [simp, codec_simps]: "length (header_bytes h) = 32"
  by (simp add: header_bytes_def)

lemma length_footer_bytes [codec_simps]: "length (rf_eof_marker f) = 4 \<Longrightarrow> length (footer_bytes f) = 20"
  by (simp add: footer_bytes_def)

lemma header_of_bytes [simp, codec_simps]: "header_of (header_bytes h) = h"
  by (simp add: header_of_def header_bytes_def)

lemma footer_of_bytes [codec_simps]: "length (rf_eof_marker f) = 4 \<Longrightarrow> footer_of (footer_bytes f) = f"
  by (simp add: footer_of_def footer_bytes_def)

section \<open>Records\<close>

text \<open>
  One record: the type, then key and value, each preceded by its length as a \<open>uint16_t\<close>.
  Only as many bytes are written as the truncated length says.
\<close>

definition record_bytes :: "byte \<Rightarrow> cstring \<Rightarrow> cstring \<Rightarrow> byte list" where
  "record_bytes ty k v =
     (let key_len = (of_nat (length k) :: uint16); val_len = (of_nat (length v) :: uint16)
      in ty # le16 key_len @ take (unat key_len) k @ le16 val_len @ take (unat val_len) v)"

section \<open>What the checksum sees\<close>

lemma length_crc64_table: "length crc64_table = 256"
  by (simp add: crc64_table_def)

lemma crc64_index: "unat ((crc XOR ucast (b :: byte)) AND (0xFF :: uint64)) < length crc64_table"
proof -
  have "(crc XOR ucast b) AND (0xFF :: uint64) \<le> 0xFF" by (rule word_and_le1)
  then show ?thesis by (simp add: length_crc64_table word_le_nat_alt)
qed

text \<open>
  In the first step the index is the complement of the byte, so every byte up to 103 hits
  the part of the table that was left zero.
\<close>

lemma crc64_first_index: "(0xFFFFFFFFFFFFFFFF XOR ucast b) AND (0xFF :: uint64) = ucast (NOT b :: byte)"
proof -
  have "(- 1 XOR ucast b) AND (mask 8 :: uint64) = ucast (NOT b)"
    by (rule bit_word_eqI) (auto simp: bit_simps)
  moreover have "(- 1 :: uint64) = 0xFFFFFFFFFFFFFFFF" "(mask 8 :: uint64) = 0xFF"
    by (simp_all add: mask_eq_exp_minus_1)
  ultimately show ?thesis by (simp only:)
qed

lemma unat_not_byte: "unat (NOT b :: byte) = 255 - unat b"
proof -
  have "NOT b = 255 - b" by (simp add: not_eq_complement)
  moreover have "b \<le> 255" using word_le_nat_alt [of b 255] unsigned_less [of b, where ?'a = nat] by simp
  ultimately show ?thesis by (simp add: unat_sub)
qed

lemma crc64_first_byte:
  assumes "b \<le> 103"
  shows "crc64_step 0xFFFFFFFFFFFFFFFF b = 0x00FFFFFFFFFFFFFF"
proof -
  have "unat b \<le> 103" using assms by (simp add: word_le_nat_alt)
  then have j: "unat (NOT b :: byte) = 152 + (103 - unat b)"
    unfolding unat_not_byte by arith
  have "crc64_table ! (152 + j) = 0" if "j < 104" for j
    using that by (simp add: crc64_table_def nth_append)
  from this [of "103 - unat b"] have "crc64_table ! (152 + (103 - unat b)) = 0" by simp
  then show ?thesis
    using j by (simp only: crc64_step_def crc64_first_index) (simp add: unsigned_ucast_eq take_bit_eq_mod)
qed

text \<open>
  The checksum does not notice a change of the first byte of the data between
  any two values up to 103. This byte is the type of the first record (0, 1 or 2): with a
  changed type the record would be loaded into another store.
\<close>

theorem crc64_first_byte_unnoticed:
  assumes "a \<le> 103" and "b \<le> 103"
  shows "rdb_calculate_crc64 (a # bs) = rdb_calculate_crc64 (b # bs)"
  using assms by (simp add: rdb_calculate_crc64_def crc64_first_byte)

theorem crc64_first_byte_unnoticed_witness:
  "rdb_calculate_crc64 (record_bytes 0 [107] [118]) = rdb_calculate_crc64 (record_bytes 2 [107] [118])"
  using crc64_first_byte_unnoticed [of 0 2] by (simp add: record_bytes_def)

end
