(* ===== verification/Rdb.thy ===== *)
theory Rdb
  imports Engine Rdb_Format
begin

text \<open>
  Snapshots (\<^verbatim>\<open>src/kv_RDB.c\<close>): writing the stores to a file, checking a file, loading it, the
  backups, the initialisation of the module and one round of the autosave thread. The
  messages the functions print are left out.
\<close>

section \<open>Backups\<close>

text \<open>\<open>%04d\<close> and \<open>%02d\<close>.\<close>

definition pad_digits :: "nat \<Rightarrow> int \<Rightarrow> cstring" where
  "pad_digits n i =
     (if i < 0 then 45 # replicate (n - 1 - length (nat_digits (nat (- i)))) 48 @ nat_digits (nat (- i))
      else replicate (n - length (nat_digits (nat i))) 48 @ nat_digits (nat i))"

definition backup_name :: "cstring \<Rightarrow> tm \<Rightarrow> cstring" where
  "backup_name dir t =
     dir @ lit ''/kvs_backup_'' @ pad_digits 4 (tm_year t + 1900) @ pad_digits 2 (tm_mon t + 1) @
     pad_digits 2 (tm_mday t) @ lit ''_'' @ pad_digits 2 (tm_hour t) @ pad_digits 2 (tm_min t) @
     pad_digits 2 (tm_sec t) @ lit ''.rdb''"

lemma fread_rb:
  assumes "f_mode f = RB" and "fread n f = (bs, f')"
  shows "bs = take n (drop (f_pos f) (f_data f))" and "f_data f' = f_data f" and "f_mode f' = RB"
    and "f_pos f' = f_pos f + length bs"
  using assms by (auto simp: fread_def Let_def)

lemma fread_shrinks:
  assumes "fread n f = (bs, f')" and "bs \<noteq> []"
  shows "length (f_data f') - f_pos f' < length (f_data f) - f_pos f"
proof -
  have "f_mode f = RB" using assms by (auto simp: fread_def split: if_splits)
  from fread_rb [OF this assms(1)] assms(2) show ?thesis
    by (auto simp: min_def split: if_splits)
qed

text \<open>The loop that copies a file in blocks of 4096 bytes.\<close>

function copy_blocks :: "FILE \<Rightarrow> FILE \<Rightarrow> FILE" where
  "copy_blocks src dst =
     (let (bs, src') = fread 4096 src
      in if bs = [] then dst else copy_blocks src' (fwrite bs dst))"
  by pat_completeness auto
termination
proof (relation "measure (\<lambda>(src, dst). length (f_data src) - f_pos src)", goal_cases)
  case 1
  then show ?case by simp
next
  case (2 src dst x bs src')
  then show ?case using fread_shrinks [of 4096 src bs src'] by simp
qed

declare copy_blocks.simps [simp del]

text \<open>
  What a stream that was opened before reads now: if the same path was opened for writing
  in between, the file is empty.
\<close>

definition stream_view :: "FILE \<Rightarrow> os \<Rightarrow> FILE" where
  "stream_view f w = f\<lparr>f_data := (case files w (f_path f) of Some d \<Rightarrow> d | None \<Rightarrow> [])\<rparr>"

definition rdb_create_backup :: "cstring \<Rightarrow> rdb_config \<Rightarrow> os \<Rightarrow> int \<times> os" where
  "rdb_create_backup filename c w =
     (if \<not> rdb_backup c then (0, w)
      else let w1 = (if path_exists (backup_dir c) w then w else sys_mkdir (backup_dir c) w);
               (now, w2) = sys_time w1;
               tm_info = localtime w2 now
           in if MAX_PATH_LEN - 50 \<le> length (backup_dir c) then (- 1, w2)
              else let backup_file = backup_name (backup_dir c) tm_info
                   in if MAX_PATH_LEN \<le> length backup_file then (- 1, w2)
                      else case fopen_rb filename w2 of
                             None \<Rightarrow> (- 1, w2)
                           | Some src \<Rightarrow>
                               (case fopen_wb backup_file w2 of
                                  None \<Rightarrow> (- 1, w2)
                                | Some (dst, w3) \<Rightarrow> (0, fclose (copy_blocks (stream_view src w3) dst) w3)))"

section \<open>Saving\<close>

fun save_array :: "(nat \<Rightarrow> kvs_array_item option) \<Rightarrow> nat \<Rightarrow> nat \<Rightarrow> FILE \<Rightarrow> nat \<Rightarrow> (FILE \<times> nat) res" where
  "save_array t i 0 fp record_count = ret (fp, record_count)"
| "save_array t i (Suc n) fp record_count =
     (case t i of
        None \<Rightarrow> undef
      | Some item \<Rightarrow>
          if item_key item = CNull then save_array t (Suc i) n fp record_count
          else rbind (cread (item_key item)) (\<lambda>k.
                 rbind (cread (item_value item)) (\<lambda>v.
                   save_array t (Suc i) n (fwrite (record_bytes 0 k v) fp) (Suc record_count))))"

definition rbtree_save_callback :: "rbtree \<Rightarrow> addr \<Rightarrow> FILE \<Rightarrow> FILE res" where
  "rbtree_save_callback T node fp =
     (if node = 0 then ret fp
      else rbind (or_undef (nodes T node)) (\<lambda>n.
        if rkey n = CNull then ret fp
        else rbind (cread (rkey n)) (\<lambda>k.
               rbind (cread (rvalue n)) (\<lambda>v. ret (fwrite (record_bytes 1 k v) fp)))))"

definition kvs_rbtree_traverse :: "rbtree \<Rightarrow> FILE \<Rightarrow> FILE res" where
  "kvs_rbtree_traverse T fp =
     (if root T \<noteq> 0 \<and> root T \<noteq> nil T then rbtree_save_callback T (root T) fp else ret fp)"

fun hash_save_callback :: "hashnode list \<Rightarrow> FILE \<Rightarrow> FILE res" where
  "hash_save_callback [] fp = ret fp"
| "hash_save_callback (n # ns) fp =
     rbind (cread (node_key n)) (\<lambda>k.
       rbind (cread (node_value n)) (\<lambda>v.
         hash_save_callback ns (fwrite (record_bytes 2 k v) fp)))"

fun kvs_hash_traverse :: "kvs_hash \<Rightarrow> nat \<Rightarrow> nat \<Rightarrow> FILE \<Rightarrow> FILE res" where
  "kvs_hash_traverse hs i 0 fp = ret fp"
| "kvs_hash_traverse hs i (Suc n) fp =
     (case buckets hs i of
        None \<Rightarrow> undef
      | Some ns \<Rightarrow> rbind (hash_save_callback ns fp) (\<lambda>fp'. kvs_hash_traverse hs (Suc i) n fp'))"

text \<open>
  The block that reads the data back from the stream, computes the checksum and writes the
  footer. The first component tells whether the function goes on.
\<close>

definition write_footer :: "nat \<Rightarrow> rdb_header \<Rightarrow> FILE \<Rightarrow> heap \<Rightarrow> bool \<times> FILE \<times> heap" where
  "write_footer data_start header fp h =
     (let fp1 = fseek data_start fp;
          (data_buffer, h1) = malloc (ucast (rh_data_size header)) h
      in if data_buffer = 0 then (False, fp1, h1)
         else let (bytes, fp2) = fread (unat (rh_data_size header)) fp1
              in if length bytes \<noteq> unat (rh_data_size header) then (False, fp2, free data_buffer h1)
                 else let current_pos = ftell fp2;
                          aligned_pos = (current_pos + 7) div 8 * 8;
                          fp3 = fwrite (replicate (aligned_pos - current_pos) 0) fp2;
                          footer = \<lparr>rf_eof_marker = RDB_EOF_MARKER, rf_crc64 = rdb_calculate_crc64 bytes,
                                    rf_footer_size = of_nat RDB_FOOTER_SIZE, rf_padding = 0\<rparr>
                      in (True, fwrite (footer_bytes footer) fp3, free data_buffer h1))"

definition save_header :: "rdb_config \<Rightarrow> uint64 \<Rightarrow> rdb_header" where
  "save_header c now =
     \<lparr>rh_magic = RDB_MAGIC, rh_version = RDB_VERSION,
      rh_flags = (if rdb_compression c then 1 else 0) OR (if rdb_crc64 c then 2 else 0),
      rh_data_size = 0, rh_record_count = 0, rh_save_time = now, rh_padding = 0\<rparr>"

text \<open>The three stores, one after the other; only the records of the array are counted.\<close>

definition save_stores :: "kvs_engine \<Rightarrow> FILE \<Rightarrow> (FILE \<times> nat) res" where
  "save_stores e fp =
     rbind (save_array (slots (global_array e)) 0 (total (global_array e)) fp 0) (\<lambda>(fp1, record_count).
       rbind (kvs_rbtree_traverse (global_rbtree e) fp1) (\<lambda>fp2.
         rbind (kvs_hash_traverse (global_hash e) 0 (max_slots (global_hash e)) fp2) (\<lambda>fp3.
           ret (fp3, record_count))))"

definition kvs_rdb_save :: "cstring \<Rightarrow> kvs_engine \<Rightarrow> (int \<times> kvs_engine) res" where
  "kvs_rdb_save filename e =
     (let c = g_rdb_config e; w = engine_os e
      in if \<not> rdb_enabled c then ret (0, e)
         else let w1 = (if rdb_backup c \<and> path_exists filename w then snd (rdb_create_backup filename c w) else w)
              in case fopen_wb filename w1 of
                   None \<Rightarrow> ret (- 1, e\<lparr>engine_os := w1\<rparr>)
                 | Some (fp0, w2) \<Rightarrow>
                     let (now, w3) = sys_time w2;
                         header = save_header c now;
                         fp1 = fwrite (header_bytes header) fp0;
                         data_start = ftell fp1
                     in rbind (save_stores e fp1) (\<lambda>(fp2, record_count).
                          let header' = header\<lparr>rh_data_size := of_nat (ftell fp2 - data_start),
                                               rh_record_count := of_nat record_count\<rparr>;
                              (ok, fp3, h) = (if rdb_crc64 c then write_footer data_start header' fp2 (engine_heap e)
                                              else (True, fp2, engine_heap e))
                          in if \<not> ok then ret (- 1, e\<lparr>engine_os := fclose fp3 w3, engine_heap := h\<rparr>)
                             else let fp4 = fwrite (header_bytes header') (fseek 0 fp3);
                                      (now', w4) = sys_time (fclose fp4 w3)
                                  in ret (0, e\<lparr>engine_os := w4, engine_heap := h, last_save_time := now'\<rparr>)))"

text \<open>One round of the autosave thread, after its sleep.\<close>

definition auto_save_round :: "kvs_engine \<Rightarrow> kvs_engine res" where
  "auto_save_round e =
     (if \<not> rdb_enabled (g_rdb_config e) then ret e
      else rbind (array_lock (global_array e)) (\<lambda>a.
        rbind (kvs_rdb_save (rdb_file (g_rdb_config e)) (e\<lparr>global_array := a\<rparr>)) (\<lambda>(r, e').
          ret (e'\<lparr>global_array := array_unlock (global_array e')\<rparr>))))"

section \<open>Checking a file\<close>

text \<open>The part of \<open>rdb_verify_file_integrity\<close> that is executed if checksums are enabled.\<close>

definition verify_crc :: "rdb_header \<Rightarrow> FILE \<Rightarrow> heap \<Rightarrow> int \<times> heap" where
  "verify_crc header fp h =
     (let file_size = ftell (fseek_end fp)
      in if file_size < sizeof_header + unat (rh_data_size header) + RDB_FOOTER_SIZE then (- 1, h)
         else let (bs, fp1) = fread RDB_FOOTER_SIZE (fseek (file_size - RDB_FOOTER_SIZE) fp);
                  footer = footer_of bs
              in if length bs \<noteq> RDB_FOOTER_SIZE then (- 1, h)
                 else if rf_eof_marker footer \<noteq> RDB_EOF_MARKER then (- 1, h)
                 else if rf_footer_size footer \<noteq> of_nat RDB_FOOTER_SIZE then (- 1, h)
                 else let fp2 = fseek sizeof_header fp1;
                          (data_buffer, h1) = malloc (ucast (rh_data_size header)) h
                      in if data_buffer = 0 then (- 1, h1)
                         else let (bytes, fp3) = fread (unat (rh_data_size header)) fp2
                              in if length bytes \<noteq> unat (rh_data_size header) then (- 1, free data_buffer h1)
                                 else if rdb_calculate_crc64 bytes \<noteq> rf_crc64 footer
                                 then (- 1, free data_buffer h1) else (0, free data_buffer h1))"

definition rdb_verify_file_integrity :: "cstring \<Rightarrow> rdb_config \<Rightarrow> os \<Rightarrow> heap \<Rightarrow> int \<times> heap" where
  "rdb_verify_file_integrity filename c w h =
     (case fopen_rb filename w of
        None \<Rightarrow> (- 1, h)
      | Some fp \<Rightarrow>
          let (bs, fp1) = fread sizeof_header fp; header = header_of bs
          in if length bs \<noteq> sizeof_header then (- 1, h)
             else if rh_magic header \<noteq> RDB_MAGIC then (- 1, h)
             else if rh_version header \<noteq> RDB_VERSION then (- 1, h)
             else if rdb_crc64 c then verify_crc header fp1 h else (0, h))"

section \<open>Loading\<close>

text \<open>
  One record. The buffers for key and value are allocated and freed with \<open>malloc\<close> and
  \<open>free\<close>; \<open>None\<close> is every \<open>break\<close> of the source. The strings end at their first \<open>NUL\<close>.
  The comparison \<open>val_len > 65535\<close> of the source is never true for a \<open>uint16_t\<close>.
\<close>

definition read_value :: "byte \<Rightarrow> addr \<Rightarrow> byte list \<Rightarrow> FILE \<Rightarrow> heap \<Rightarrow>
    (byte \<times> addr \<times> cstring \<times> addr \<times> cstring \<times> FILE) option \<times> heap" where
  "read_value ty key kbs fp h =
     (let (bs, fp1) = fread 2 fp
      in if length bs \<noteq> 2 then (None, free key h)
         else let val_len = of_le16 bs
              in if 65535 < unat val_len then (None, free key h)
                 else let (val, h1) = malloc (of_nat (unat val_len + 1)) h
                      in if val = 0 then (None, free key h1)
                         else let (vbs, fp2) = fread (unat val_len) fp1
                              in if length vbs \<noteq> unat val_len then (None, free val (free key h1))
                                 else (Some (ty, key, str_at (kbs @ [0]), val, str_at (vbs @ [0]), fp2), h1))"

definition read_record :: "FILE \<Rightarrow> heap \<Rightarrow>
    (byte \<times> addr \<times> cstring \<times> addr \<times> cstring \<times> FILE) option \<times> heap" where
  "read_record fp h =
     (let (tbs, fp1) = fread 1 fp
      in if length tbs \<noteq> 1 then (None, h)
         else let (bs, fp2) = fread 2 fp1
              in if length bs \<noteq> 2 then (None, h)
                 else let key_len = of_le16 bs
                      in if key_len = 0 \<or> 1024 < key_len then (None, h)
                         else let (key, h1) = malloc (of_nat (unat key_len + 1)) h
                              in if key = 0 then (None, h1)
                                 else let (kbs, fp3) = fread (unat key_len) fp2
                                      in if length kbs \<noteq> unat key_len then (None, free key h1)
                                         else read_value (hd tbs) key kbs fp3 h1)"

text \<open>The \<open>switch\<close> on the type.\<close>

definition load_store :: "byte \<Rightarrow> cstring \<Rightarrow> cstring \<Rightarrow> kvs_engine \<Rightarrow> kvs_engine res" where
  "load_store ty key val e =
     (if ty = 0 then rbind (engine_array_set (Some key) (Some val) e) (\<lambda>(r, e'). ret e')
      else if ty = 1 then rbind (engine_rbtree_set (Some key) (Some val) e) (\<lambda>(r, e'). ret e')
      else if ty = 2 then rbind (engine_hash_set (Some key) (Some val) e) (\<lambda>(r, e'). ret e')
      else ret e)"

lemma fread_pos:
  assumes "fread n f = (bs, f')"
  shows "f_data f' = f_data f" and "f_mode f' = f_mode f" and "f_pos f' = f_pos f + length bs"
    and "f_pos f' \<le> max (f_pos f) (length (f_data f))"
  using assms by (auto simp: fread_def Let_def min_def split: if_splits)

lemma fread_some: "fread n f = (bs, f') \<Longrightarrow> bs \<noteq> [] \<Longrightarrow> f_pos f < length (f_data f)"
  by (auto simp: fread_def Let_def split: if_splits)

lemma read_value_pos:
  assumes "read_value ty key kbs fp h = (Some (ty', k, ks, v, vs, fp'), h')"
  shows "f_data fp' = f_data fp" and "f_pos fp \<le> f_pos fp'" and "f_pos fp' \<le> max (f_pos fp) (length (f_data fp))"
proof -
  obtain bs fp1 where 1: "fread 2 fp = (bs, fp1)" by fastforce
  obtain val h1 where m: "malloc (of_nat (unat (of_le16 bs) + 1)) h = (val, h1)" by fastforce
  obtain vbs fp2 where 2: "fread (unat (of_le16 bs)) fp1 = (vbs, fp2)" by fastforce
  have "fp' = fp2"
    using assms by (simp only: read_value_def 1 m 2 Let_def prod.case split: if_splits) auto
  with fread_pos [OF 1] fread_pos [OF 2]
  show "f_data fp' = f_data fp" "f_pos fp \<le> f_pos fp'" "f_pos fp' \<le> max (f_pos fp) (length (f_data fp))" by auto
qed

lemma read_record_pos:
  assumes "read_record fp h = (Some (ty, k, ks, v, vs, fp'), h')"
  shows "f_data fp' = f_data fp" and "f_pos fp < f_pos fp'" and "f_pos fp' \<le> length (f_data fp)"
proof -
  obtain tbs fp1 where 1: "fread 1 fp = (tbs, fp1)" by fastforce
  obtain bs fp2 where 2: "fread 2 fp1 = (bs, fp2)" by fastforce
  obtain key h1 where m: "malloc (of_nat (unat (of_le16 bs) + 1)) h = (key, h1)" by fastforce
  obtain kbs fp3 where 3: "fread (unat (of_le16 bs)) fp2 = (kbs, fp3)" by fastforce
  have v: "read_value (hd tbs) key kbs fp3 h1 = (Some (ty, k, ks, v, vs, fp'), h')" and l: "length tbs = 1"
    using assms by (simp_all only: read_record_def 1 2 3 m Let_def prod.case split: if_splits) auto
  from l have "f_pos fp < length (f_data fp)" using fread_some [OF 1] by (cases tbs) auto
  with read_value_pos [OF v] fread_pos [OF 1] fread_pos [OF 2] fread_pos [OF 3] l
  show "f_data fp' = f_data fp" "f_pos fp < f_pos fp'" "f_pos fp' \<le> length (f_data fp)" by auto
qed

text \<open>The loop over the records, ending at the end of the data or at the first \<open>break\<close>.\<close>

function load_records :: "nat \<Rightarrow> FILE \<Rightarrow> kvs_engine \<Rightarrow> kvs_engine res" where
  "load_records data_end fp e =
     (if ftell fp < data_end \<and> \<not> f_eof fp
      then case read_record fp (engine_heap e) of
             (None, h) \<Rightarrow> ret (e\<lparr>engine_heap := h\<rparr>)
           | (Some (ty, key, ks, val, vs, fp'), h) \<Rightarrow>
               rbind (load_store ty ks vs (e\<lparr>engine_heap := h\<rparr>)) (\<lambda>e'.
                 load_records data_end fp' (e'\<lparr>engine_heap := free val (free key (engine_heap e'))\<rparr>))
      else ret e)"
  by pat_completeness auto
termination
proof (relation "measure (\<lambda>(data_end, fp, e). length (f_data fp) - f_pos fp)", goal_cases)
  case 1
  then show ?case by simp
next
  case 2
  show ?case
    using 2 read_record_pos [OF 2(2) [symmetric, unfolded 2(3), unfolded 2(4-) [symmetric]]]
    by simp
qed

declare load_records.simps [simp del]

definition kvs_rdb_load :: "cstring \<Rightarrow> kvs_engine \<Rightarrow> (int \<times> kvs_engine) res" where
  "kvs_rdb_load filename e =
     (if \<not> rdb_enabled (g_rdb_config e) then ret (0, e)
      else let (r, h) = rdb_verify_file_integrity filename (g_rdb_config e) (engine_os e) (engine_heap e);
               e1 = e\<lparr>engine_heap := h\<rparr>
           in if r \<noteq> 0 then ret (- 1, e1)
              else case fopen_rb filename (engine_os e1) of
                     None \<Rightarrow> ret (- 1, e1)
                   | Some fp \<Rightarrow>
                       let (bs, fp1) = fread sizeof_header fp; header = header_of bs
                       in if length bs \<noteq> sizeof_header then ret (- 3, e1)
                          else rbind (load_records (ftell fp1 + unat (rh_data_size header)) fp1 e1) (\<lambda>e2. ret (0, e2)))"

section \<open>Restoring a backup and initialising the module\<close>

definition rdb_restore_from_backup ::
  "cstring option \<Rightarrow> rdb_config \<Rightarrow> os \<Rightarrow> heap \<Rightarrow> int \<times> os \<times> heap" where
  "rdb_restore_from_backup backup_file c w h =
     (case backup_file of
        None \<Rightarrow> (- 1, w, h)
      | Some file \<Rightarrow>
          let (r, h1) = rdb_verify_file_integrity file c w h
          in if r \<noteq> 0 then (- 1, w, h1)
             else case fopen_rb file w of
                    None \<Rightarrow> (- 1, w, h1)
                  | Some src \<Rightarrow>
                      (case fopen_wb (rdb_file c) w of
                         None \<Rightarrow> (- 1, w, h1)
                       | Some (dst, w1) \<Rightarrow> (0, fclose (copy_blocks (stream_view src w1) dst) w1, h1)))"

definition kvs_rdb_init :: "kvs_engine \<Rightarrow> (int \<times> kvs_engine) res" where
  "kvs_rdb_init e =
     (let (r, c, w) = rdb_config_init (g_rdb_config e) (engine_os e);
          e1 = e\<lparr>g_rdb_config := c, engine_os := w\<rparr>
      in if r \<noteq> 0 then ret (- 1, e1)
         else if \<not> rdb_enabled c then ret (0, e1)
         else if path_exists (rdb_file c) w
         then rbind (kvs_rdb_load (rdb_file c) e1) (\<lambda>(r', e2). ret (0, e2))
         else ret (0, e1))"

end
