(* ===== verification/Tcp_Protocol.thy ===== *)
theory Tcp_Protocol
  imports Rdb
begin

text \<open>
  The request handler (\<^verbatim>\<open>src/kvstore.c\<close>, lines 332--383 and 415--704): the packet header, the
  response, the command switch, and the start and end of the engine.

  A buffer is the list of the bytes of its memory, so that a write past its end is
  visible: it is undefined behaviour. Integers of the header are big-endian.
\<close>

section \<open>The header\<close>

definition TCP_MAGIC :: uint32 where
  "TCP_MAGIC = 0x5453564B"

definition TCP_VERSION :: uint32 where
  "TCP_VERSION = 1"

definition TCP_HEADER_SIZE :: nat where
  "TCP_HEADER_SIZE = 24"

record tcp_header =
  th_magic :: uint32
  th_version :: uint32
  th_cmd_type :: uint32
  th_data_len :: uint32
  th_seq_id :: uint32
  th_flags :: uint32

text \<open>The command types, as the enumeration of \<^verbatim>\<open>src/kvstore.h\<close> numbers them.\<close>

abbreviation CMD_SET :: uint32 where "CMD_SET \<equiv> 1"
abbreviation CMD_GET :: uint32 where "CMD_GET \<equiv> 2"
abbreviation CMD_DEL :: uint32 where "CMD_DEL \<equiv> 3"
abbreviation CMD_MOD :: uint32 where "CMD_MOD \<equiv> 4"
abbreviation CMD_EXIST :: uint32 where "CMD_EXIST \<equiv> 5"
abbreviation CMD_SAVE :: uint32 where "CMD_SAVE \<equiv> 6"
abbreviation CMD_RSET :: uint32 where "CMD_RSET \<equiv> 11"
abbreviation CMD_RGET :: uint32 where "CMD_RGET \<equiv> 12"
abbreviation CMD_RDEL :: uint32 where "CMD_RDEL \<equiv> 13"
abbreviation CMD_RMOD :: uint32 where "CMD_RMOD \<equiv> 14"
abbreviation CMD_REXIST :: uint32 where "CMD_REXIST \<equiv> 15"
abbreviation CMD_HSET :: uint32 where "CMD_HSET \<equiv> 21"
abbreviation CMD_HGET :: uint32 where "CMD_HGET \<equiv> 22"
abbreviation CMD_HDEL :: uint32 where "CMD_HDEL \<equiv> 23"
abbreviation CMD_HMOD :: uint32 where "CMD_HMOD \<equiv> 24"
abbreviation CMD_HEXIST :: uint32 where "CMD_HEXIST \<equiv> 25"
abbreviation CMD_ZADD :: uint32 where "CMD_ZADD \<equiv> 31"
abbreviation CMD_ZREM :: uint32 where "CMD_ZREM \<equiv> 32"
abbreviation CMD_ZRANGE :: uint32 where "CMD_ZRANGE \<equiv> 33"

text \<open>The bytes \<open>memcpy\<close> moves when the integer went through \<open>htonl\<close>, and back.\<close>

definition be32 :: "uint32 \<Rightarrow> byte list" where
  "be32 w = rev (le32 w)"

definition of_be32 :: "byte list \<Rightarrow> uint32" where
  "of_be32 bs = of_le32 (rev bs)"

lemma length_be32 [simp, codec_simps]: "length (be32 w) = 4"
  by (simp add: be32_def)

lemma of_be32_be32 [simp, codec_simps]: "of_be32 (be32 w) = w"
  by (simp add: be32_def of_be32_def)

definition tcp_fields :: "byte list \<Rightarrow> tcp_header" where
  "tcp_fields buffer =
     \<lparr>th_magic = of_be32 (take 4 buffer), th_version = of_be32 (take 4 (drop 4 buffer)),
      th_cmd_type = of_be32 (take 4 (drop 8 buffer)), th_data_len = of_be32 (take 4 (drop 12 buffer)),
      th_seq_id = of_be32 (take 4 (drop 16 buffer)), th_flags = of_be32 (take 4 (drop 20 buffer))\<rparr>"

text \<open>\<open>None\<close> is a null pointer.\<close>

definition parse_tcp_header ::
  "byte list option \<Rightarrow> tcp_header option \<Rightarrow> (int \<times> tcp_header option) res" where
  "parse_tcp_header buffer_ptr header_ptr =
     (case (buffer_ptr, header_ptr) of
        (Some buffer, Some _) \<Rightarrow>
          if length buffer < TCP_HEADER_SIZE then undef
          else let header = tcp_fields buffer
               in if th_magic header \<noteq> TCP_MAGIC then ret (- 2, Some header)
                  else if th_version header \<noteq> TCP_VERSION then ret (- 3, Some header)
                  else if 1024 < th_data_len header then ret (- 4, Some header)
                  else ret (0, Some header)
      | _ \<Rightarrow> ret (- 1, header_ptr))"

definition tcp_header_bytes :: "tcp_header \<Rightarrow> byte list" where
  "tcp_header_bytes h =
     be32 (th_magic h) @ be32 (th_version h) @ be32 (th_cmd_type h) @ be32 (th_data_len h) @
     be32 (th_seq_id h) @ be32 (th_flags h)"

text \<open>\<open>memcpy\<close> to the start of a buffer.\<close>

definition copy_front :: "byte list \<Rightarrow> byte list \<Rightarrow> byte list res" where
  "copy_front bs buffer =
     (if length buffer < length bs then undef else ret (bs @ drop (length bs) buffer))"

definition build_tcp_response ::
  "byte list option \<Rightarrow> uint32 \<Rightarrow> uint32 \<Rightarrow> byte list option \<Rightarrow> int \<Rightarrow> (int \<times> byte list option) res" where
  "build_tcp_response response_ptr cmd_type seq_id data data_len =
     (case response_ptr of
        None \<Rightarrow> ret (- 1, None)
      | Some response \<Rightarrow>
          let head = tcp_header_bytes \<lparr>th_magic = TCP_MAGIC, th_version = TCP_VERSION, th_cmd_type = cmd_type,
                       th_data_len = word_of_int data_len, th_seq_id = seq_id, th_flags = 0\<rparr>
          in rbind (case data of
                      None \<Rightarrow> copy_front head response
                    | Some d \<Rightarrow> if data_len \<le> 0 then copy_front head response
                                else if length d < nat data_len then undef
                                else copy_front (head @ take (nat data_len) d) response)
               (\<lambda>response'. ret (int TCP_HEADER_SIZE + data_len, Some response')))"

section \<open>Splitting the data\<close>

text \<open>
  Key and value are strings inside the packet: the byte behind the data and the first
  space are overwritten by \<open>NUL\<close>.
\<close>

definition parse_command :: "byte list \<Rightarrow> nat \<Rightarrow> (cstring option \<times> cstring option \<times> byte list) res" where
  "parse_command buffer data_len =
     (if data_len = 0 then ret (None, None, buffer)
      else if length buffer \<le> TCP_HEADER_SIZE + data_len then undef
      else let buffer1 = buffer[TCP_HEADER_SIZE + data_len := 0];
               str = str_at (drop TCP_HEADER_SIZE buffer1)
           in if 32 \<in> set str
              then let n = length (takeWhile (\<lambda>b. b \<noteq> 32) str)
                   in ret (Some (take n str), Some (drop (n + 1) str), buffer1[TCP_HEADER_SIZE + n := 0])
              else ret (Some str, None, buffer1))"

section \<open>The commands\<close>

definition RESULT_SIZE :: nat where
  "RESULT_SIZE = 1024"

text \<open>\<open>strcpy(result, get_result)\<close>, or the message for a null pointer.\<close>

definition get_text :: "cptr \<Rightarrow> cstring res" where
  "get_text p =
     (case p of
        CNull \<Rightarrow> ret (lit ''NO EXIST'')
      | CStr a s \<Rightarrow> if length s < RESULT_SIZE then ret s else undef
      | CDangling a \<Rightarrow> undef)"

definition status_text :: "cstring \<Rightarrow> int \<Rightarrow> cstring" where
  "status_text positive r = (if r < 0 then lit ''ERROR'' else if r = 0 then lit ''OK'' else positive)"

definition array_command ::
  "uint32 \<Rightarrow> cstring option \<Rightarrow> cstring option \<Rightarrow> kvs_engine \<Rightarrow> (cstring \<times> kvs_engine) res" where
  "array_command cmd key val e =
     (if cmd = CMD_SET then
        rbind (engine_array_set key val e) (\<lambda>(r, e'). ret (status_text (lit ''EXIST'') r, e'))
      else if cmd = CMD_GET then
        rbind (kvs_array_get (global_array e) key) (\<lambda>(p, a).
          rbind (get_text p) (\<lambda>t. ret (t, e\<lparr>global_array := a\<rparr>)))
      else if cmd = CMD_DEL then
        rbind (kvs_array_del (global_array e) key (engine_heap e)) (\<lambda>(r, a, h).
          ret (status_text (lit ''NO EXIST'') r, e\<lparr>global_array := a, engine_heap := h\<rparr>))
      else if cmd = CMD_MOD then
        rbind (kvs_array_mod (global_array e) key val (engine_heap e)) (\<lambda>(r, a, h).
          ret (status_text (lit ''NO EXIST'') r, e\<lparr>global_array := a, engine_heap := h\<rparr>))
      else
        rbind (kvs_array_exist (global_array e) key) (\<lambda>(r, a).
          ret (if r = 0 then lit ''EXIST'' else lit ''NO EXIST'', e\<lparr>global_array := a\<rparr>)))"

definition rbtree_command ::
  "uint32 \<Rightarrow> cstring option \<Rightarrow> cstring option \<Rightarrow> kvs_engine \<Rightarrow> (cstring \<times> kvs_engine) res" where
  "rbtree_command cmd key val e =
     (if cmd = CMD_RSET then
        rbind (engine_rbtree_set key val e) (\<lambda>(r, e'). ret (status_text (lit ''EXIST'') r, e'))
      else
        rbind (kvs_rbtree_get (global_rbtree e) key) (\<lambda>p. rbind (get_text p) (\<lambda>t. ret (t, e))))"

definition hash_command ::
  "uint32 \<Rightarrow> cstring option \<Rightarrow> cstring option \<Rightarrow> kvs_engine \<Rightarrow> (cstring \<times> kvs_engine) res" where
  "hash_command cmd key val e =
     (if cmd = CMD_HSET then
        rbind (engine_hash_set key val e) (\<lambda>(r, e'). ret (status_text (lit ''EXIST'') r, e'))
      else
        rbind (kvs_hash_get (global_hash e) key) (\<lambda>p. rbind (get_text p) (\<lambda>t. ret (t, e))))"

text \<open>
  The conversions between text and \<open>double\<close> of the C library are arguments: \<open>atof\<close>,
  \<open>sscanf\<close> with \<open>"%lf %lf"\<close> (\<open>None\<close> if it does not return 2) and \<open>"%.2f"\<close>.
\<close>

record libc =
  lc_atof :: "cstring \<Rightarrow> double"
  lc_scan2 :: "cstring \<Rightarrow> (double \<times> double) option"
  lc_fmt2 :: "double \<Rightarrow> cstring"

text \<open>The loop of \<open>snprintf\<close> calls into \<open>result\<close>; it stops when a line was cut off.\<close>

fun zrange_text :: "libc \<Rightarrow> ZRangeEntry list \<Rightarrow> cstring \<Rightarrow> cstring" where
  "zrange_text lc [] acc = acc"
| "zrange_text lc (z # zs) acc =
     (let line = z_key z @ [32] @ z_value z @ [32] @ lc_fmt2 lc (z_score z) @ [10];
          room = RESULT_SIZE - length acc
      in if room \<le> length line then acc @ take (room - 1) line
         else zrange_text lc zs (acc @ line))"

text \<open>\<open>ZADD\<close> cuts the value at its first space; the rest is the score.\<close>

definition zset_command ::
  "libc \<Rightarrow> uint32 \<Rightarrow> cstring option \<Rightarrow> cstring option \<Rightarrow> byte list \<Rightarrow> kvs_engine \<Rightarrow>
   (cstring \<times> byte list \<times> kvs_engine) res" where
  "zset_command lc cmd key val buffer e =
     (if cmd = CMD_ZADD then
        (case (key, val) of
           (Some k, Some v) \<Rightarrow>
             if 32 \<notin> set v then ret (lit ''ERROR'', buffer, e)
             else let member_value = takeWhile (\<lambda>b. b \<noteq> 32) v;
                      score_str = drop (length member_value) v;
                      buffer1 = buffer[TCP_HEADER_SIZE + length k + 1 + length member_value := 0];
                      score = lc_atof lc (tl score_str)
                  in rbind (kvs_skiptable_zadd (global_skiptable e) k member_value score (engine_rng e) (engine_heap e))
                       (\<lambda>(r, sl, g, h). ret (status_text (lit ''EXIST'') r, buffer1,
                          e\<lparr>global_skiptable := sl, engine_rng := g, engine_heap := h\<rparr>))
         | _ \<Rightarrow> ret (lit ''ERROR'', buffer, e))
      else if cmd = CMD_ZREM then
        (case key of
           None \<Rightarrow> ret (lit ''ERROR'', buffer, e)
         | Some k \<Rightarrow>
             rbind (kvs_skiptable_zrem (global_skiptable e) k (engine_heap e)) (\<lambda>(r, sl, h).
               ret (if r = 0 then lit ''OK'' else lit ''NO EXIST'', buffer,
                    e\<lparr>global_skiptable := sl, engine_heap := h\<rparr>)))
      else
        (case (key, val) of
           (Some k, Some v) \<Rightarrow>
             (case lc_scan2 lc v of
                None \<Rightarrow> ret (lit ''ERROR'', buffer, e)
              | Some (mi, mx) \<Rightarrow>
                  rbind (kvs_skiptable_zrange_entries (global_skiptable e) mi mx 100) (\<lambda>zs.
                    ret (zrange_text lc zs [], buffer, e)))
         | _ \<Rightarrow> ret (lit ''ERROR'', buffer, e)))"

definition save_command :: "kvs_engine \<Rightarrow> (cstring \<times> kvs_engine) res" where
  "save_command e =
     rbind (kvs_rdb_save (rdb_file (g_rdb_config e)) e) (\<lambda>(r, e').
       ret (if r < 0 then lit ''SAVE ERROR'' else lit ''SAVED'', e'))"

text \<open>The \<open>switch\<close>; commands without a case get the default answer.\<close>

definition run_command ::
  "libc \<Rightarrow> uint32 \<Rightarrow> cstring option \<Rightarrow> cstring option \<Rightarrow> byte list \<Rightarrow> kvs_engine \<Rightarrow>
   (cstring \<times> byte list \<times> kvs_engine) res" where
  "run_command lc cmd key val buffer e =
     (if cmd \<in> {CMD_SET, CMD_GET, CMD_DEL, CMD_MOD, CMD_EXIST} then rbind (array_command cmd key val e) (\<lambda>(t, e'). ret (t, buffer, e'))
      else if cmd \<in> {CMD_RSET, CMD_RGET} then rbind (rbtree_command cmd key val e) (\<lambda>(t, e'). ret (t, buffer, e'))
      else if cmd \<in> {CMD_HSET, CMD_HGET} then rbind (hash_command cmd key val e) (\<lambda>(t, e'). ret (t, buffer, e'))
      else if cmd \<in> {CMD_ZADD, CMD_ZREM, CMD_ZRANGE} then zset_command lc cmd key val buffer e
      else if cmd = CMD_SAVE then rbind (save_command e) (\<lambda>(t, e'). ret (t, buffer, e'))
      else ret (lit ''UNKNOWN COMMAND'', buffer, e))"

section \<open>The handler\<close>

text \<open>The result: the return value, the two buffers, and the engine.\<close>

definition kvs_tcp_protocol ::
  "libc \<Rightarrow> byte list \<Rightarrow> int \<Rightarrow> byte list \<Rightarrow> kvs_engine \<Rightarrow> (int \<times> byte list \<times> byte list \<times> kvs_engine) res" where
  "kvs_tcp_protocol lc buffer buffer_len response e =
     (if buffer_len < int TCP_HEADER_SIZE then ret (- 1, buffer, response, e)
      else rbind (parse_tcp_header (Some buffer) (Some (tcp_fields []))) (\<lambda>(r, header_opt).
        let header = the header_opt
        in if r < 0 then ret (r, buffer, response, e)
           else if buffer_len < int TCP_HEADER_SIZE + uint (th_data_len header) then ret (- 5, buffer, response, e)
           else rbind (parse_command buffer (unat (th_data_len header))) (\<lambda>(key, val, buffer1).
             rbind (run_command lc (th_cmd_type header) key val buffer1 e) (\<lambda>(result, buffer2, e').
               rbind (build_tcp_response (Some response) (th_cmd_type header) (th_seq_id header)
                        (Some result) (int (length result))) (\<lambda>(resp_len, response').
                 ret (resp_len, buffer2, the response', e'))))))"

section \<open>Start and end of the engine\<close>

text \<open>
  \<open>fresh_slots\<close> and \<open>fresh_buckets\<close> are what the memory of the tables holds before it is
  written. The structures are cleared before they are created. The results of the
  \<open>create\<close> functions are ignored.
\<close>

definition init_pool :: "heap \<Rightarrow> heap" where
  "init_pool h0 =
     (case global_pool h0 of
        Some mp \<Rightarrow> h0
      | None \<Rightarrow> (let (mp, h) = kvs_mempool_create POOL_CHUNK_SIZE POOL_CHUNK_COUNT h0 in h\<lparr>global_pool := mp\<rparr>))"

definition init_kvengine ::
  "(nat \<Rightarrow> kvs_array_item option) \<Rightarrow> (nat \<Rightarrow> hashnode list option) \<Rightarrow> kvs_engine \<Rightarrow> (int \<times> kvs_engine) res" where
  "init_kvengine fresh_slots fresh_buckets e =
     (let h1 = init_pool (engine_heap e);
          (ra, a, h2) = kvs_array_create fresh_slots
                          \<lparr>array_table = 0, slots = (\<lambda>_. None), total = 0, array_mutex = False\<rparr> h1
      in rbind (kvs_rbtree_create (fresh_node e) \<lparr>root = 0, nil = 0, nodes = Map.empty\<rparr> h2) (\<lambda>(rt, t, h3).
           let (rh, hs, h4) = kvs_hash_create fresh_buckets
                                \<lparr>hash_nodes = 0, buckets = (\<lambda>_. None), max_slots = 0, count = 0\<rparr> h3
           in rbind (kvs_skiptable_create
                       (Some \<lparr>sk_level = 0, sk_header = 0, sk_nodes = Map.empty, sk_length = 0, sk_lock = False\<rparr>) h4)
                (\<lambda>(rs, sl, h5).
                   rbind (kvs_rdb_init (e\<lparr>global_array := a, global_rbtree := t, global_hash := hs,
                                          global_skiptable := the sl, engine_heap := h5\<rparr>)) (\<lambda>(r, e').
                     ret (if r \<noteq> 0 then - 1 else 0, e')))))"

definition dest_kvengine :: "kvs_engine \<Rightarrow> kvs_engine res" where
  "dest_kvengine e =
     (let h1 = kvs_array_destory (global_array e) (engine_heap e)
      in rbind (kvs_rbtree_destory (global_rbtree e) h1) (\<lambda>h2.
           rbind (kvs_hash_destory (global_hash e) h2) (\<lambda>(hs, h3).
             rbind (kvs_skiptable_destory (Some (global_skiptable e)) h3) (\<lambda>(sl, h4).
               ret (e\<lparr>global_hash := hs, global_skiptable := the sl,
                      engine_heap := kvs_mempool_destory (global_pool h4) h4\<rparr>)))))"

text \<open>\<open>main\<close> up to the start of the network loop, and after its end.\<close>

definition main_start ::
  "cstring list \<Rightarrow> (nat \<Rightarrow> kvs_array_item option) \<Rightarrow> (nat \<Rightarrow> hashnode list option) \<Rightarrow> kvs_engine \<Rightarrow>
   (int \<times> kvs_engine) res" where
  "main_start argv fresh_slots fresh_buckets e =
     (if length argv < 2 then ret (- 1, e)
      else let e1 = (if 3 \<le> length argv
                     then e\<lparr>g_rdb_config := snd (kvs_rdb_set_path (Some (argv ! 2)) (g_rdb_config e))\<rparr> else e)
           in rbind (init_kvengine fresh_slots fresh_buckets e1) (\<lambda>(r, e2).
                ret (if r \<noteq> 0 then - 1 else 0, e2)))"

definition main_exit :: "kvs_engine \<Rightarrow> kvs_engine res" where
  "main_exit e =
     rbind (kvs_rdb_save (rdb_file (g_rdb_config e)) e) (\<lambda>(r, e'). dest_kvengine e')"

section \<open>The header, encoded and decoded\<close>

lemma length_tcp_header_bytes [simp, codec_simps]: "length (tcp_header_bytes h) = 24"
  by (simp add: tcp_header_bytes_def)

lemma tcp_header_bytes_not_Nil [simp]: "tcp_header_bytes h \<noteq> []"
  using length_tcp_header_bytes [of h] by force

lemma tcp_fields_bytes [simp, codec_simps]: "tcp_fields (tcp_header_bytes h @ rest) = h"
  by (simp add: tcp_fields_def tcp_header_bytes_def)

lemma parse_tcp_header_bytes:
  "th_magic h = TCP_MAGIC \<Longrightarrow> th_version h = TCP_VERSION \<Longrightarrow> th_data_len h \<le> 1024 \<Longrightarrow>
   parse_tcp_header (Some (tcp_header_bytes h @ rest)) (Some h0) = ret (0, Some h)"
  by (simp add: parse_tcp_header_def TCP_HEADER_SIZE_def Let_def not_less)

section \<open>What every command keeps\<close>

lemma get_text_length: "get_text p = ret t \<Longrightarrow> length t < RESULT_SIZE"
  by (auto simp: get_text_def RESULT_SIZE_def lit_def split: cptr.splits if_splits)

lemma status_text_length: "length t < RESULT_SIZE \<Longrightarrow> length (status_text t r) < RESULT_SIZE"
  by (simp add: status_text_def RESULT_SIZE_def lit_def)

lemma lit_length [simp]: "length (lit s) = length s"
  by (simp add: lit_def)

lemma zrange_text_length: "length acc < RESULT_SIZE \<Longrightarrow> length (zrange_text lc zs acc) < RESULT_SIZE"
  by (induction zs arbitrary: acc) (auto simp: Let_def)

text \<open>A result always fits the array \<open>result\<close>, and the buffer keeps its size.\<close>

lemma run_command_bounds:
  assumes "run_command lc cmd key val buffer e = ret (t, buffer', e')"
  shows "length t < RESULT_SIZE" and "length buffer' = length buffer"
proof -
  have "length t < RESULT_SIZE \<and> length buffer' = length buffer"
    using assms get_text_length status_text_length zrange_text_length [of "[]"]
    by (auto simp: run_command_def save_command_def array_command_def rbtree_command_def hash_command_def zset_command_def
        RESULT_SIZE_def Let_def split: if_splits option.splits prod.splits)
  then show "length t < RESULT_SIZE" "length buffer' = length buffer" by auto
qed

lemma parse_command_length: "parse_command buffer n = ret (k, v, buffer') \<Longrightarrow> length buffer' = length buffer"
  by (auto simp: parse_command_def Let_def split: if_splits)

lemma build_tcp_response_ok:
  assumes "length t + 24 \<le> length response"
  shows "build_tcp_response (Some response) cmd seq (Some t) (int (length t)) =
    ret (24 + int (length t),
         Some (tcp_header_bytes \<lparr>th_magic = TCP_MAGIC, th_version = TCP_VERSION, th_cmd_type = cmd,
                 th_data_len = of_nat (length t), th_seq_id = seq, th_flags = 0\<rparr> @ t @
               drop (24 + length t) response))"
  using assms
  by (auto simp: build_tcp_response_def copy_front_def Let_def TCP_HEADER_SIZE_def)

definition good_header :: "tcp_header \<Rightarrow> bool" where
  "good_header h \<longleftrightarrow> th_magic h = TCP_MAGIC \<and> th_version h = TCP_VERSION \<and> th_data_len h \<le> 1024"

text \<open>The message in the response to a request.\<close>

definition reply :: "tcp_header \<Rightarrow> cstring \<Rightarrow> byte list" where
  "reply h t =
     tcp_header_bytes \<lparr>th_magic = TCP_MAGIC, th_version = TCP_VERSION, th_cmd_type = th_cmd_type h,
       th_data_len = of_nat (length t), th_seq_id = th_seq_id h, th_flags = 0\<rparr> @ t"

lemma handler_run_fit:
  assumes "good_header h" and "int (24 + unat (th_data_len h)) \<le> n"
    and "parse_command (tcp_header_bytes h @ body) (unat (th_data_len h)) = ret (k, v, b1)"
    and "run_command lc (th_cmd_type h) k v b1 e = ret (t, b2, e')"
    and t: "length t + 24 \<le> length response"
  shows "kvs_tcp_protocol lc (tcp_header_bytes h @ body) n response e =
    ret (24 + int (length t), b2, reply h t @ drop (24 + length t) response, e')"
proof -
  have p: "parse_tcp_header (Some (tcp_header_bytes h @ body)) (Some h0) = ret (0, Some h)" for h0
    using assms(1) parse_tcp_header_bytes by (simp add: good_header_def)
  have "\<not> n < 24" "\<not> n < 24 + uint (th_data_len h)"
    using assms(2) uint_nat [of "th_data_len h"] by linarith+
  then show ?thesis
    using assms(3,4) build_tcp_response_ok [OF t]
    by (simp add: kvs_tcp_protocol_def p TCP_HEADER_SIZE_def reply_def Let_def)
qed

lemma handler_run:
  assumes "good_header h" and "int (24 + unat (th_data_len h)) \<le> n"
    and "parse_command (tcp_header_bytes h @ body) (unat (th_data_len h)) = ret (k, v, b1)"
    and "run_command lc (th_cmd_type h) k v b1 e = ret (t, b2, e')"
    and "24 + RESULT_SIZE \<le> length response"
  shows "kvs_tcp_protocol lc (tcp_header_bytes h @ body) n response e =
    ret (24 + int (length t), b2, reply h t @ drop (24 + length t) response, e')"
  by (rule handler_run_fit [OF assms(1-4)]) (use run_command_bounds(1) [OF assms(4)] assms(5) in simp)

text \<open>A buffer that is long enough starts with the bytes of some header.\<close>

lemma be32_of_be32: "length bs = 4 \<Longrightarrow> be32 (of_be32 bs) = bs"
  by (simp add: be32_def of_be32_def le32_of_le32)

lemma header_at_front:
  assumes "24 \<le> length buffer"
  shows "tcp_header_bytes (tcp_fields buffer) @ drop 24 buffer = buffer"
proof -
  have split: "take 4 (drop n buffer) @ drop (n + 4) buffer = drop n buffer" for n
    using append_take_drop_id [of 4 "drop n buffer"] by (simp add: add.commute)
  show ?thesis
    using assms split [of 4] split [of 8] split [of 12] split [of 16] split [of 20]
    by (simp add: tcp_header_bytes_def tcp_fields_def be32_of_be32)
qed

lemma parse_command_total:
  "24 + n < length buffer \<Longrightarrow> \<exists>k v b. parse_command buffer n = ret (k, v, b)"
  by (auto simp: parse_command_def TCP_HEADER_SIZE_def Let_def)

text \<open>In any case the buffer keeps its size and the response is bounded.\<close>

lemma handler_bounds:
  assumes "kvs_tcp_protocol lc buffer n response e = ret (r, buffer', response', e')"
    and "24 + RESULT_SIZE \<le> length response"
  shows "length buffer' = length buffer" and "r < 24 + int RESULT_SIZE" and "length response' = length response"
proof -
  have "length buffer' = length buffer \<and> r < 24 + int RESULT_SIZE \<and> length response' = length response"
  proof (cases "n < 24 \<or> length buffer < 24 \<or> \<not> good_header (tcp_fields buffer) \<or>
      n < 24 + uint (th_data_len (tcp_fields buffer))")
    case True
    then show ?thesis
      using assms(1)
      by (auto simp: kvs_tcp_protocol_def parse_tcp_header_def TCP_HEADER_SIZE_def good_header_def RESULT_SIZE_def
          Let_def split: if_splits)
  next
    case False
    let ?h = "tcp_fields buffer"
    have p: "parse_tcp_header (Some buffer) (Some h0) = ret (0, Some ?h)" for h0
      using False by (simp add: parse_tcp_header_def good_header_def TCP_HEADER_SIZE_def Let_def not_less)
    obtain k v b1 t b2 e1 where 1: "parse_command buffer (unat (th_data_len ?h)) = ret (k, v, b1)"
      "run_command lc (th_cmd_type ?h) k v b1 e = ret (t, b2, e1)"
      using assms(1) False by (auto simp: kvs_tcp_protocol_def p TCP_HEADER_SIZE_def Let_def)
    note b = run_command_bounds [OF 1(2)]
    have "length t + 24 \<le> length response" using b(1) assms(2) by simp
    from build_tcp_response_ok [OF this] show ?thesis
      using assms 1 False b parse_command_length [OF 1(1)]
      by (auto simp: kvs_tcp_protocol_def p TCP_HEADER_SIZE_def Let_def)
  qed
  then show "length buffer' = length buffer" "r < 24 + int RESULT_SIZE" "length response' = length response" by auto
qed

section \<open>Requests\<close>

text \<open>The data of a request: a key, or a key and a value with a space between them.\<close>

lemma parse_key:
  assumes "is_cstr k" and "32 \<notin> set k" and "k \<noteq> []" and "length head = 24"
  shows "parse_command (head @ k @ b # rest) (length k) = ret (Some k, None, head @ k @ 0 # rest)"
  using assms by (simp add: parse_command_def TCP_HEADER_SIZE_def Let_def list_update_append)

lemma parse_key_value:
  assumes "is_cstr k" and "32 \<notin> set k" and "is_cstr v" and "length head = 24"
  shows "parse_command (head @ k @ 32 # v @ b # rest) (length k + 1 + length v) =
    ret (Some k, Some v, head @ k @ 0 # v @ 0 # rest)"
proof -
  let ?B = "head @ k @ 32 # v @ b # rest"
  have upd: "?B[24 + (length k + 1 + length v) := 0] = head @ k @ 32 # v @ 0 # rest"
    using assms(4) by (simp add: list_update_append)
  have str: "str_at (k @ 32 # v @ 0 # rest) = k @ 32 # v"
    using str_at_append_NUL [of "k @ 32 # v" rest] assms(1,3) by simp
  have "takeWhile (\<lambda>b. b \<noteq> 32) (k @ 32 # v) = k"
    using assms(2) by (subst takeWhile_append2) auto
  with str upd show ?thesis
    using assms(4) by (simp add: parse_command_def TCP_HEADER_SIZE_def Let_def list_update_append)
qed

end
