(* ===== verification/Rdb_Correct.thy ===== *)
theory Rdb_Correct
  imports Rdb
begin

text \<open>
  What the snapshot code guarantees: which bytes a save writes, what a load makes of a
  file, that loading an arbitrary text file is safe, that a save followed by a load
  restores the stores as far as the code saves them, and that a backup is a copy.
\<close>

section \<open>The engine and its memory\<close>

lemma engine_inv_heap: "engine_inv e L \<Longrightarrow> heap_inv h L \<Longrightarrow> engine_inv (e\<lparr>engine_heap := h\<rparr>) L"
  by (simp add: engine_inv_def)

lemma engine_invD: "engine_inv e L \<Longrightarrow> heap_inv (engine_heap e) L"
  by (simp add: engine_inv_def)

lemma engine_map_heap [simp]: "engine_map (e\<lparr>engine_heap := h\<rparr>) = engine_map e"
  by (simp add: engine_map_def fun_eq_iff)

lemma engine_map_os [simp]: "engine_map (e\<lparr>engine_os := w\<rparr>) = engine_map e"
  by (simp add: engine_map_def fun_eq_iff)

lemma same_env_heap: "same_env e (e\<lparr>engine_heap := h\<rparr>)"
  by (simp add: same_env_def)

section \<open>Loading one record\<close>

text \<open>What a record does to the maps: the first value wins, and a full array drops it.\<close>

definition load_effect :: "nat \<Rightarrow> (byte \<Rightarrow> cstring \<rightharpoonup> cstring) \<Rightarrow> byte \<Rightarrow> cstring \<Rightarrow> cstring \<Rightarrow>
    byte \<Rightarrow> cstring \<rightharpoonup> cstring" where
  "load_effect used m ty k v =
     (if ty = 0 \<and> used < KVS_ARRAY_SIZE \<or> ty = 1 \<or> ty = 2 then m(ty := first_wins (m ty) k v) else m)"

lemma load_store_ok:
  assumes inv: "engine_inv e L" and mem: "mem_budget (engine_heap e) (n + 3)"
    and key: "ty = 2 \<Longrightarrow> hash_index k \<noteq> None"
  shows "\<exists>e' L'. load_store ty k v e = ret e' \<and> engine_inv e' L' \<and> mem_budget (engine_heap e') n \<and>
           engine_map e' = load_effect (total (global_array e)) (engine_map e) ty k v \<and>
           total (global_array e') \<le> total (global_array e) + (if ty = 0 then 1 else 0) \<and> keeps_rest e L e' L'"
proof -
  have budget: "mem_budget (engine_heap e) n" using mem mem_budget_mono by simp
  consider (full) "ty = 0" "\<not> total (global_array e) < KVS_ARRAY_SIZE"
    | (array) "ty = 0" "total (global_array e) < KVS_ARRAY_SIZE" | (tree) "ty = 1" | (hash) "ty = 2"
    | (other) "ty \<noteq> 0" "ty \<noteq> 1" "ty \<noteq> 2" by blast
  then show ?thesis
  proof cases
    case full
    have "total (global_array e) = KVS_ARRAY_SIZE" "array_ok (global_array e)"
      using inv full by (auto simp: engine_inv_def array_ok_def)
    then have "engine_array_set (Some k) (Some v) e = ret (- 1, e)"
      using kvs_array_set_full by (simp add: engine_array_set_def)
    with full inv budget keeps_rest_refl [OF inv] show ?thesis by (auto simp: load_store_def load_effect_def)
  next
    case array
    let ?m = "KVS_ARRAY_SIZE - Suc (total (global_array e))"
    have "total (global_array e) + Suc ?m \<le> KVS_ARRAY_SIZE" using array by simp
    from engine_array_set_ok [OF inv mem this, of k v] array show ?thesis
      by (fastforce simp: load_store_def load_effect_def)
  next
    case tree
    from engine_rbtree_set_ok [OF inv mem, of k v] tree show ?thesis
      by (fastforce simp: load_store_def load_effect_def)
  next
    case hash
    from engine_hash_set_ok [OF inv mem key [OF hash], of v] hash show ?thesis
      by (fastforce simp: load_store_def load_effect_def)
  next
    case other
    with inv budget keeps_rest_refl [OF inv] show ?thesis by (auto simp: load_store_def load_effect_def)
  qed
qed

section \<open>Reading one record\<close>

lemma fread_subset: "fread n f = (bs, f') \<Longrightarrow> set bs \<subseteq> set (drop (f_pos f) (f_data f))"
  by (auto simp: fread_def Let_def split: if_splits dest!: in_set_takeD)

lemma set_str_at: "set (str_at (bs @ [0])) \<subseteq> set bs"
  by (auto simp: str_at_def dest: set_takeWhileD)

lemma length_str_at_NUL: "length (str_at (bs @ [0])) \<le> length bs"
proof -
  have "length (str_at (bs @ [0])) = length (takeWhile (\<lambda>b. b \<noteq> 0) bs)"
    by (simp add: str_at_def takeWhile_tail)
  then show ?thesis by (simp add: length_takeWhile_le)
qed

text \<open>Whatever the file holds, reading a record keeps the allocator's invariant.\<close>

lemma read_value_heap:
  assumes "heap_inv h L" and "mem_budget h (Suc n)" and "read_value ty key kbs fp h = (r, h')"
  shows "heap_inv h' L" and "mem_budget h' n"
    and "r = Some (ty', ka, k, va, v, fp') \<Longrightarrow> ty' = ty \<and> ka = key \<and> k = str_at (kbs @ [0])"
proof -
  obtain bs fp1 where 1: "fread 2 fp = (bs, fp1)" by fastforce
  obtain val h1 where m: "malloc (of_nat (unat (of_le16 bs) + 1)) h = (val, h1)" by fastforce
  obtain vbs fp2 where 2: "fread (unat (of_le16 bs)) fp1 = (vbs, fp2)" by fastforce
  have 3: "heap_inv h1 L" "mem_budget h1 n" "mem_budget h n"
    using sys_malloc_inv [OF assms(1) m] sys_malloc_budget [OF assms(2) m] mem_budget_mono [OF assms(2)] by auto
  show "heap_inv h' L" "mem_budget h' n"
    "r = Some (ty', ka, k, va, v, fp') \<Longrightarrow> ty' = ty \<and> ka = key \<and> k = str_at (kbs @ [0])"
    using assms(1,3) 3
    by (simp_all only: read_value_def 1 m 2 Let_def prod.case split: if_splits) auto
qed

lemma read_record_heap:
  assumes "heap_inv h L" and "mem_budget h (n + 2)" and "read_record fp h = (r, h')"
  shows "heap_inv h' L" and "mem_budget h' n"
    and "r = Some (ty, ka, k, va, v, fp') \<Longrightarrow> length k \<le> 1024 \<and> set k \<subseteq> set (drop (f_pos fp) (f_data fp))"
proof -
  obtain tbs fp1 where 1: "fread 1 fp = (tbs, fp1)" by fastforce
  obtain bs fp2 where 2: "fread 2 fp1 = (bs, fp2)" by fastforce
  obtain key h1 where m: "malloc (of_nat (unat (of_le16 bs) + 1)) h = (key, h1)" by fastforce
  obtain kbs fp3 where 3: "fread (unat (of_le16 bs)) fp2 = (kbs, fp3)" by fastforce
  have b: "mem_budget h (Suc (Suc n))" using assms(2) by simp
  have h1: "heap_inv h1 L" "mem_budget h1 (Suc n)" "mem_budget h1 n" "mem_budget h n"
    using sys_malloc_inv [OF assms(1) m] sys_malloc_budget [OF b m] mem_budget_mono [OF b, of n]
      mem_budget_mono [of h1 "Suc n" n] by auto
  obtain rv hv where v: "read_value (hd tbs) key kbs fp3 h1 = (rv, hv)" by fastforce
  note vh = read_value_heap [OF h1(1,2) v]
  show "heap_inv h' L" "mem_budget h' n"
    using assms(1,3) h1 vh(1,2)
    by (simp_all only: read_record_def 1 2 3 m v Let_def prod.case split: if_splits) auto
  assume r: "r = Some (ty, ka, k, va, v, fp')"
  have "rv = r" "length kbs = unat (of_le16 bs)" "\<not> 1024 < of_le16 bs"
    using assms(3) r by (simp_all only: read_record_def 1 2 3 m v Let_def prod.case split: if_splits) auto
  moreover from this(2,3) have "length kbs \<le> 1024" by (simp add: word_less_nat_alt not_less)
  moreover have "set kbs \<subseteq> set (drop (f_pos fp) (f_data fp))"
    using fread_subset [OF 3] fread_pos(1,3) [OF 1] fread_pos(1,3) [OF 2]
      set_drop_subset_set_drop [of "f_pos fp" "f_pos fp2" "f_data fp"] by simp
  ultimately show "length k \<le> 1024 \<and> set k \<subseteq> set (drop (f_pos fp) (f_data fp))"
    using vh(3) r set_str_at [of kbs] length_str_at_NUL [of kbs] by force
qed

section \<open>Loading an arbitrary file\<close>

lemma ascii_sint: "b < 128 \<Longrightarrow> 0 \<le> sint (b :: byte)"
proof -
  assume "b < 128"
  then have "take_bit 7 (uint b) = uint b"
    by (intro take_bit_int_eq_self) (simp_all add: word_less_def)
  then have "\<not> bit (uint b) 7"
    by (metis bit_take_bit_iff less_irrefl)
  then show ?thesis by (simp add: sint_uint)
qed

lemma load_records_safe:
  assumes "engine_inv e L" and "mem_budget (engine_heap e) (5 * (length (f_data fp) - f_pos fp) + 2)"
    and "\<forall>b\<in>set (drop (f_pos fp) (f_data fp)). b < 128"
  shows "\<exists>e' L'. load_records data_end fp e = ret e' \<and> engine_inv e' L' \<and> keeps_rest e L e' L'"
  using assms
proof (induction data_end fp e arbitrary: L rule: load_records.induct)
  case (1 data_end fp e)
  show ?case
  proof (cases "ftell fp < data_end \<and> \<not> f_eof fp")
    case False
    then show ?thesis using "1.prems"(1) keeps_rest_refl by (subst load_records.simps) auto
  next
    case go: True
    obtain r h where r: "read_record fp (engine_heap e) = (r, h)" by fastforce
    show ?thesis
    proof (cases r)
      case None
      have "heap_inv h L"
        using read_record_heap(1) [OF engine_invD [OF "1.prems"(1)] "1.prems"(2) r] by simp
      then show ?thesis
        using go r None engine_inv_heap [OF "1.prems"(1)] keeps_rest_heap [OF "1.prems"(1)]
        by (subst load_records.simps) auto
    next
      case (Some rec)
      obtain ty key ks val vs fp' where rec: "r = Some (ty, key, ks, val, vs, fp')"
        using Some by (cases rec) auto
      note pos = read_record_pos [OF r [unfolded rec]]
      let ?left = "length (f_data fp') - f_pos fp'"
      have ascii: "\<forall>b\<in>set (drop (f_pos fp') (f_data fp')). b < 128"
        using "1.prems"(3) set_drop_subset_set_drop [of "f_pos fp" "f_pos fp'" "f_data fp"] pos by auto
      have "5 * ?left + 2 + 3 + 2 \<le> 5 * (length (f_data fp) - f_pos fp) + 2"
        using pos by (simp add: diff_mult_distrib2) 
      then have mem: "mem_budget (engine_heap e) (5 * ?left + 2 + 3 + 2)"
        using "1.prems"(2) mem_budget_mono by blast
      note rd = read_record_heap [OF engine_invD [OF "1.prems"(1)] mem r]
      have "ks \<in> lists {b. b < 128}" "length ks \<le> 1024" using rd(3) [OF rec] "1.prems"(3) by auto
      then have idx: "hash_index ks \<noteq> None"
        by (intro hash_index_ascii) (auto simp: ascii_sint)
      obtain e1 L1 where 1: "load_store ty ks vs (e\<lparr>engine_heap := h\<rparr>) = ret e1" "engine_inv e1 L1"
        "mem_budget (engine_heap e1) (5 * ?left + 2)" "keeps_rest (e\<lparr>engine_heap := h\<rparr>) L e1 L1"
        using load_store_ok [OF engine_inv_heap [OF "1.prems"(1) rd(1)], of "5 * ?left + 2" ty ks vs] rd(2) idx by auto
      let ?e = "e1\<lparr>engine_heap := free val (free key (engine_heap e1))\<rparr>"
      have "engine_inv ?e L1" using 1(2) by (simp add: engine_inv_def)
      then obtain e2 L2 where "load_records data_end fp' ?e = ret e2" "engine_inv e2 L2" "keeps_rest ?e L1 e2 L2"
        using "1.IH" [OF go r [symmetric] rec refl refl refl refl refl, of e1 L1] 1(3) ascii
        by auto
      moreover have "keeps_rest e L ?e L1"
        using keeps_rest_heap [OF "1.prems"(1), of h] 1(4) keeps_rest_heap [OF 1(2)] keeps_rest_trans by blast
      ultimately show ?thesis
        using go r rec 1(1) keeps_rest_trans [of e L ?e L1]
        by (subst load_records.simps) auto
    qed
  qed
qed

lemma verify_heap:
  assumes "heap_inv h L" and "mem_budget h (Suc n)" and "rdb_verify_file_integrity f c w h = (r, h')"
  shows "heap_inv h' L" and "mem_budget h' n"
proof -
  have keep: "mem_budget h n" using assms(2) mem_budget_mono by (metis le_SucI order_refl)
  have crc: "heap_inv h' L \<and> mem_budget h' n" if "verify_crc hd fp h = (r, h')" for hd fp r h'
  proof -
    obtain p h1 where m: "malloc (ucast (rh_data_size hd)) h = (p, h1)" by fastforce
    then show ?thesis
      using that assms(1) keep sys_malloc_inv [OF assms(1) m] sys_malloc_budget [OF assms(2) m]
      by (auto simp: verify_crc_def Let_def split: prod.splits if_splits)
  qed
  show "heap_inv h' L" "mem_budget h' n"
    using assms(1,3) keep crc
    by (auto simp: rdb_verify_file_integrity_def Let_def split: option.splits prod.splits if_splits)
qed

lemma kvs_rdb_load_keeps_inv:
  assumes "engine_inv e L" and "files (engine_os e) f = Some d" and "\<forall>b\<in>set (drop 32 d). b < 128"
    and "mem_budget (engine_heap e) (5 * length d + 3)"
  shows "\<exists>r e' L'. kvs_rdb_load f e = ret (r, e') \<and> (r = 0 \<or> r = - 1) \<and> engine_inv e' L' \<and> keeps_rest e L e' L'"
proof (cases "rdb_enabled (g_rdb_config e)")
  case False
  then show ?thesis using assms(1) keeps_rest_refl by (auto simp: kvs_rdb_load_def)
next
  case en: True
  obtain r h where v: "rdb_verify_file_integrity f (g_rdb_config e) (engine_os e) (engine_heap e) = (r, h)"
    by fastforce
  have mem: "mem_budget (engine_heap e) (Suc (5 * length d + 2))"
    using assms(4) by (simp add: numeral_3_eq_3)
  note h = verify_heap [OF engine_invD [OF assms(1)] mem v]
  note inv = engine_inv_heap [OF assms(1) h(1)]
  show ?thesis
  proof (cases "r = 0 \<and> may_read (engine_os e) f")
    case False
    then have "kvs_rdb_load f e = ret (- 1, e\<lparr>engine_heap := h\<rparr>)"
      using en v by (auto simp: kvs_rdb_load_def fopen_rb_def Let_def)
    then show ?thesis using inv keeps_rest_heap [OF assms(1)] by blast
  next
    case True
    let ?fp = "\<lparr>f_path = f, f_mode = RB, f_data = d, f_pos = 32, f_eof = False\<rparr>"
    have len: "32 \<le> length d"
      using v True assms(2)
      by (auto simp: rdb_verify_file_integrity_def fopen_rb_def fread_def sizeof_header_def min_def Let_def split: if_splits)
    have "\<exists>e' L'. load_records n ?fp (e\<lparr>engine_heap := h\<rparr>) = ret e' \<and> engine_inv e' L' \<and>
        keeps_rest (e\<lparr>engine_heap := h\<rparr>) L e' L'" for n
      using h(2) assms(3) by (intro load_records_safe [OF inv]) (auto elim: mem_budget_mono)
    then obtain e' L' where "load_records (32 + unat (rh_data_size (header_of (take 32 d)))) ?fp (e\<lparr>engine_heap := h\<rparr>) = ret e'"
      "engine_inv e' L'" "keeps_rest (e\<lparr>engine_heap := h\<rparr>) L e' L'" by blast
    then show ?thesis
      using True en v assms(2) len keeps_rest_trans [OF keeps_rest_heap [OF assms(1)]]
      by (auto simp: kvs_rdb_load_def fopen_rb_def fread_def sizeof_header_def ftell_def min_def Let_def)
  qed
qed


section \<open>What a save writes\<close>

text \<open>The records of a list of entries, and what the three stores contribute.\<close>

definition records_bytes :: "(byte \<times> cstring \<times> cstring) list \<Rightarrow> byte list" where
  "records_bytes rs = concat (map (\<lambda>(ty, k, v). record_bytes ty k v) rs)"

definition hash_entries :: "kvs_hash \<Rightarrow> (cstring \<times> cstring) list" where
  "hash_entries hs = concat (map (\<lambda>i. chain_entries (bucket_list hs i)) [0..<MAX_TABLE_SIZE])"

text \<open>The tree contributes the entry of its root only.\<close>

definition root_entry :: "rbtree \<Rightarrow> (cstring \<times> cstring) list" where
  "root_entry T =
     (case rb_shape T of
        Lf \<Rightarrow> []
      | Nd l a c kv r \<Rightarrow> [(cstr_of (fst kv), cstr_of (snd kv))])"

definition engine_records :: "kvs_engine \<Rightarrow> (byte \<times> cstring \<times> cstring) list" where
  "engine_records e =
     map (Pair 0) (array_entries (global_array e)) @ map (Pair 1) (root_entry (global_rbtree e)) @
     map (Pair 2) (hash_entries (global_hash e))"

lemma records_bytes_simps [simp]:
  "records_bytes [] = []" "records_bytes ((ty, k, v) # rs) = record_bytes ty k v @ records_bytes rs"
  "records_bytes (rs @ ss) = records_bytes rs @ records_bytes ss"
  by (simp_all add: records_bytes_def)

lemma fwrite_Nil [simp]: "at_end f \<Longrightarrow> fwrite [] f = f"
  by (simp add: fwrite_at_end) (simp add: at_end_def)

lemma save_array_ok:
  assumes "\<And>j. i \<le> j \<Longrightarrow> j < i + n \<Longrightarrow> slot_ok (t j)" and "at_end fp"
  shows "save_array t i n fp cnt =
    ret (fwrite (records_bytes (map (Pair 0) (concat (map (\<lambda>j. slot_entries (t j)) [i..<i + n])))) fp,
         cnt + length (concat (map (\<lambda>j. slot_entries (t j)) [i..<i + n])))"
  using assms
proof (induction n arbitrary: i fp cnt)
  case 0
  then show ?case by simp
next
  case (Suc n)
  have up: "[i..<i + Suc n] = i # [Suc i..<Suc i + n]" by (simp add: upt_conv_Cons)
  have "slot_ok (t i)" using Suc.prems(1) by simp
  then show ?case
  proof (cases rule: slot_okE)
    case hole
    then show ?thesis using Suc.prems Suc.IH [of "Suc i" fp cnt] unfolding up by (simp add: hole_def)
  next
    case (full a k b v)
    then show ?thesis
      using Suc.prems Suc.IH [of "Suc i" "fwrite (record_bytes 0 k v) fp" "Suc cnt"] unfolding up
      by (simp add: fwrite_fwrite)
  qed
qed

lemma hash_save_ok:
  assumes "\<forall>n\<in>set ns. is_str (node_key n) \<and> is_str (node_value n)" and "at_end fp"
  shows "hash_save_callback ns fp = ret (fwrite (records_bytes (map (Pair 2) (chain_entries ns))) fp)"
  using assms
proof (induction ns arbitrary: fp)
  case Nil
  then show ?case by (simp add: chain_entries_def)
next
  case (Cons n ns)
  then show ?case by (simp add: fwrite_fwrite)
qed

lemma hash_traverse_ok:
  assumes "\<And>j. i \<le> j \<Longrightarrow> j < i + n \<Longrightarrow> buckets hs j \<noteq> None \<and> chain_ok j (bucket_list hs j)" and "at_end fp"
  shows "kvs_hash_traverse hs i n fp =
    ret (fwrite (records_bytes (map (Pair 2) (concat (map (\<lambda>j. chain_entries (bucket_list hs j)) [i..<i + n])))) fp)"
  using assms
proof (induction n arbitrary: i fp)
  case 0
  then show ?case by simp
next
  case (Suc n)
  have up: "[i..<i + Suc n] = i # [Suc i..<Suc i + n]" by (simp add: upt_conv_Cons)
  obtain ns where ns: "buckets hs i = Some ns" "bucket_list hs i = ns" "chain_ok i ns"
    using Suc.prems(1) [of i] by (auto simp: bucket_list_def)
  then have "hash_save_callback ns fp = ret (fwrite (records_bytes (map (Pair 2) (chain_entries ns))) fp)"
    using hash_save_ok Suc.prems(2) by (auto simp: chain_ok_def)
  then show ?case
    using ns Suc.prems Suc.IH [of "Suc i"] unfolding up by (simp add: fwrite_fwrite)
qed

lemma rbtree_traverse_ok:
  assumes "rb_ok T" and "at_end fp"
  shows "kvs_rbtree_traverse T fp = ret (fwrite (records_bytes (map (Pair 1) (root_entry T))) fp)"
proof -
  obtain t where t: "rb_shape T = t" "rep T t" "keys_ok (inorder t)" "distinct (0 # rb_blocks T)"
    "rb_blocks T = nil T # concat (map elem_blocks (inorder t))"
    using assms(1) by (rule rb_okD)
  show ?thesis
  proof (cases t)
    case Lf
    then have "root T = nil T" using t(2) by (simp add: rep_def)
    then show ?thesis using Lf t(1) assms(2) by (simp add: kvs_rbtree_traverse_def root_entry_def)
  next
    case (Nd l a c kv r)
    then have rep: "rep T (plug [] (Nd l a c kv r))" using t(2) by simp
    have "root T = a" using rep by (simp add: rep_def)
    moreover have "a \<noteq> 0" using t(4,5) Nd by (auto simp: elem_blocks_def)
    moreover have "is_str (fst kv)" "is_str (snd kv)"
      using t(3) Nd keys_ok_parts(3,4) [of "inorder l" "(a, kv)" "inorder r"] by auto
    ultimately show ?thesis
      using rep_read [OF rep] Nd t(1)
      by (auto simp: kvs_rbtree_traverse_def rbtree_save_callback_def root_entry_def mk_node_def elim!: is_strE)
  qed
qed

lemma save_stores_ok:
  assumes "engine_inv e L" and "at_end fp"
  shows "save_stores e fp =
           ret (fwrite (records_bytes (engine_records e)) fp, length (array_entries (global_array e)))"
proof -
  have "\<And>j. 0 \<le> j \<Longrightarrow> j < 0 + total (global_array e) \<Longrightarrow> slot_ok (slots (global_array e) j)"
    using assms(1) by (simp add: engine_inv_def array_ok_def)
  note a = save_array_ok [OF this assms(2), where cnt = 0, simplified add_0]
  have hs: "hash_ok (global_hash e)" and rb: "rb_ok (global_rbtree e)"
    using assms(1) by (simp_all add: engine_inv_def)
  have "\<And>j. 0 \<le> j \<Longrightarrow> j < 0 + MAX_TABLE_SIZE \<Longrightarrow>
      buckets (global_hash e) j \<noteq> None \<and> chain_ok j (bucket_list (global_hash e) j)"
    using hs by (simp add: hash_ok_def)
  note h = hash_traverse_ok [OF this, simplified add_0]
  have "max_slots (global_hash e) = MAX_TABLE_SIZE" using hs by (simp add: hash_ok_def)
  then show ?thesis
    using assms(2) rb
    by (simp add: save_stores_def a h rbtree_traverse_ok fwrite_fwrite engine_records_def array_entries_def hash_entries_def)
qed

section \<open>What a load makes of such a file\<close>

definition rec_fits :: "byte \<times> cstring \<times> cstring \<Rightarrow> bool" where
  "rec_fits r \<longleftrightarrow>
     (case r of (ty, k, v) \<Rightarrow>
        is_cstr k \<and> is_cstr v \<and> 0 < length k \<and> length k \<le> 1024 \<and> length v \<le> 65535)"

lemma fread_exact:
  assumes "f_mode f = RB" and "drop (f_pos f) (f_data f) = xs @ ys" and "length xs = n"
  shows "fread n f = (xs, f\<lparr>f_pos := f_pos f + n\<rparr>)" and "drop (f_pos f + n) (f_data f) = ys"
proof -
  show "fread n f = (xs, f\<lparr>f_pos := f_pos f + n\<rparr>)"
    using assms by (simp add: fread_def)
  have "drop n (drop (f_pos f) (f_data f)) = ys" using assms(2,3) by simp
  then show "drop (f_pos f + n) (f_data f) = ys" by (simp add: add.commute)
qed

lemma unat_len16: "n \<le> 65535 \<Longrightarrow> unat (of_nat n :: uint16) = n"
  by (simp add: unat_of_nat)

lemma record_bytes_fits:
  "rec_fits (ty, k, v) \<Longrightarrow>
   record_bytes ty k v = [ty] @ le16 (of_nat (length k)) @ k @ le16 (of_nat (length v)) @ v"
  by (simp add: record_bytes_def rec_fits_def unat_len16 Let_def)

lemma read_record_bytes:
  assumes "f_mode fp = RB" and "drop (f_pos fp) (f_data fp) = record_bytes ty k v @ rest"
    and fit: "rec_fits (ty, k, v)" and "mem_budget h (n + 2)"
  shows "\<exists>ka va h'. read_record fp h =
           (Some (ty, ka, k, va, v, fp\<lparr>f_pos := f_pos fp + length (record_bytes ty k v)\<rparr>), h')"
proof -
  let ?kl = "of_nat (length k) :: uint16" and ?vl = "of_nat (length v) :: uint16"
  have kl: "unat ?kl = length k" "unat ?vl = length v" "?kl \<noteq> 0" "\<not> 1024 < ?kl"
    using fit by (auto simp: rec_fits_def unat_len16 word_less_nat_alt unat_eq_0 [symmetric])
  have data: "drop (f_pos fp) (f_data fp) = [ty] @ le16 ?kl @ k @ le16 ?vl @ v @ rest"
    using assms(2) record_bytes_fits [OF fit] by simp
  let ?at = "\<lambda>n. fp\<lparr>f_pos := f_pos fp + n\<rparr>"
  have 1: "fread 1 fp = ([ty], ?at 1)" and d1: "drop (f_pos fp + 1) (f_data fp) = le16 ?kl @ k @ le16 ?vl @ v @ rest"
    using fread_exact [OF assms(1) data, of 1] by simp_all
  have 2: "fread 2 (?at 1) = (le16 ?kl, ?at 3)" and d2: "drop (f_pos fp + 3) (f_data fp) = k @ le16 ?vl @ v @ rest"
    using fread_exact [of "?at 1" "le16 ?kl" "k @ le16 ?vl @ v @ rest" 2] d1 assms(1) by (simp_all add: numeral_3_eq_3)
  let ?n = "3 + length k"
  have 3: "fread (length k) (?at 3) = (k, ?at ?n)" and d3: "drop (f_pos fp + ?n) (f_data fp) = le16 ?vl @ v @ rest"
    using fread_exact [of "?at 3" k "le16 ?vl @ v @ rest"] d2 assms(1) by (simp_all add: add.assoc)
  have 4: "fread 2 (?at ?n) = (le16 ?vl, ?at (?n + 2))" and d4: "drop (f_pos fp + (?n + 2)) (f_data fp) = v @ rest"
    using fread_exact [of "?at ?n" "le16 ?vl" "v @ rest" 2] d3 assms(1) by (simp_all add: ac_simps)
  have 5: "fread (length v) (?at (?n + 2)) = (v, ?at (?n + 2 + length v))"
    using fread_exact [of "?at (?n + 2)" v rest] d4 assms(1) by (simp add: add.assoc)
  obtain ka h1 where m1: "malloc (of_nat (length k + 1)) h = (ka, h1)" by fastforce
  obtain va h2 where m2: "malloc (of_nat (length v + 1)) h1 = (va, h2)" by fastforce
  have nz: "ka \<noteq> 0" "va \<noteq> 0"
    using sys_malloc_budget [of h "Suc n", OF _ m1] sys_malloc_budget [of h1 n, OF _ m2] assms(4) by auto
  have str: "str_at (k @ [0]) = k" "str_at (v @ [0]) = v" "length v \<le> 65535"
    using fit by (simp_all add: rec_fits_def)
  have "read_value ty ka k (?at ?n) h1 = (Some (ty, ka, k, va, v, ?at (?n + 2 + length v)), h2)"
    unfolding read_value_def 4 Let_def prod.case of_le16_le16 kl(2) m2 5 using nz str by simp
  then have "read_record fp h = (Some (ty, ka, k, va, v, ?at (?n + 2 + length v)), h2)"
    unfolding read_record_def 1 Let_def prod.case 2 of_le16_le16 kl(1) m1 3 using nz kl by simp
  moreover have "length (record_bytes ty k v) = ?n + 2 + length v"
    using record_bytes_fits [OF fit] by simp
  ultimately show ?thesis by auto
qed

text \<open>The maps after a list of records was loaded: the first record of a key wins.\<close>

definition recs_of :: "byte \<Rightarrow> (byte \<times> cstring \<times> cstring) list \<Rightarrow> (cstring \<times> cstring) list" where
  "recs_of ty rs = map snd (filter (\<lambda>r. fst r = ty) rs)"

lemma recs_of_simps [simp]:
  "recs_of t [] = []" "recs_of t ((ty, kv) # rs) = (if ty = t then kv # recs_of t rs else recs_of t rs)"
  "recs_of t (rs @ ss) = recs_of t rs @ recs_of t ss"
  by (simp_all add: recs_of_def)

lemma recs_of_map [simp]: "recs_of t (map (Pair ty) kvs) = (if ty = t then kvs else [])"
  by (induction kvs) auto

lemma load_records_bytes:
  assumes "f_mode fp = RB" and "\<not> f_eof fp" and "drop (f_pos fp) (f_data fp) = records_bytes rs @ rest"
    and "\<forall>r\<in>set rs. rec_fits r \<and> fst r \<in> {0, 1, 2} \<and> (fst r = 2 \<longrightarrow> hash_index (fst (snd r)) \<noteq> None)"
    and "engine_inv e L" and "mem_budget (engine_heap e) (n + 5 * length rs)"
    and "total (global_array e) + length (recs_of 0 rs) \<le> KVS_ARRAY_SIZE"
  shows "\<exists>e' L'. load_records (f_pos fp + length (records_bytes rs)) fp e = ret e' \<and> engine_inv e' L' \<and>
           mem_budget (engine_heap e') n \<and> (\<forall>t. engine_map e' t = map_of (recs_of t rs) ++ engine_map e t) \<and>
           keeps_rest e L e' L'"
  using assms
proof (induction rs arbitrary: fp e L)
  case Nil
  then show ?case using keeps_rest_refl by (subst load_records.simps) (auto simp: ftell_def)
next
  case (Cons r rs)
  obtain ty k v where r: "r = (ty, k, v)" by (cases r)
  let ?b = "record_bytes ty k v"
  let ?fp = "fp\<lparr>f_pos := f_pos fp + length ?b\<rparr>"
  have fit: "rec_fits (ty, k, v)" using Cons.prems(4) r by simp
  have pos: "0 < length ?b" by (simp add: record_bytes_def Let_def)
  have data: "drop (f_pos fp) (f_data fp) = ?b @ records_bytes rs @ rest" using Cons.prems(3) r by simp
  have next_data: "drop (f_pos ?fp) (f_data ?fp) = records_bytes rs @ rest"
    using fread_exact(2) [OF Cons.prems(1) data refl] by simp
  let ?n = "n + 5 * length rs"
  have mem: "mem_budget (engine_heap e) (?n + 3 + 2)"
    using Cons.prems(6) by (simp add: algebra_simps)
  obtain ka va h where rd: "read_record fp (engine_heap e) = (Some (ty, ka, k, va, v, ?fp), h)"
    using read_record_bytes [OF Cons.prems(1) data fit mem] by blast
  note hp = read_record_heap [OF engine_invD [OF Cons.prems(5)] mem rd]
  obtain e1 L1 where 1: "load_store ty k v (e\<lparr>engine_heap := h\<rparr>) = ret e1" "engine_inv e1 L1"
    "mem_budget (engine_heap e1) ?n"
    "engine_map e1 = load_effect (total (global_array e)) (engine_map e) ty k v"
    "total (global_array e1) \<le> total (global_array e) + (if ty = 0 then 1 else 0)"
    "keeps_rest (e\<lparr>engine_heap := h\<rparr>) L e1 L1"
    using load_store_ok [OF engine_inv_heap [OF Cons.prems(5) hp(1)], of ?n ty k v] hp(2) Cons.prems(4) r by auto
  let ?e = "e1\<lparr>engine_heap := free va (free ka (engine_heap e1))\<rparr>"
  have inv: "engine_inv ?e L1" using 1(2) by (simp add: engine_inv_def)
  have room: "total (global_array ?e) + length (recs_of 0 rs) \<le> KVS_ARRAY_SIZE"
    using Cons.prems(7) 1(5) r by (auto split: if_splits)
  obtain e2 L2 where 2: "load_records (f_pos ?fp + length (records_bytes rs)) ?fp ?e = ret e2" "engine_inv e2 L2"
    "mem_budget (engine_heap e2) n" "\<forall>t. engine_map e2 t = map_of (recs_of t rs) ++ engine_map ?e t" "keeps_rest ?e L1 e2 L2"
    using Cons.IH [OF _ _ next_data _ inv _ room] Cons.prems(1,2,4) 1(3) by auto
  have "engine_map e1 t = (if ty = t then first_wins (engine_map e t) k v else engine_map e t)" for t
    using 1(4) Cons.prems(4,7) r by (auto simp: load_effect_def)
  then have "engine_map e2 t = map_of (recs_of t (r # rs)) ++ engine_map e t" for t
    using 2(4) r by (auto simp: first_wins_def map_add_def fun_eq_iff split: option.splits)
  moreover have "load_records (f_pos fp + length (records_bytes (r # rs))) fp e = ret e2"
    using 1(1) 2(1) rd r pos Cons.prems(2)
    by (subst load_records.simps) (simp add: ftell_def ac_simps)
  moreover have "keeps_rest e L e2 L2"
    using keeps_rest_heap [OF Cons.prems(5), of h] 1(6) keeps_rest_heap [OF 1(2)] 2(5) keeps_rest_trans by blast
  ultimately show ?case using 2(2,3) by blast
qed

section \<open>The file a save leaves behind\<close>

text \<open>The data file can be opened, also after a backup directory was created.\<close>

definition data_path_ok :: "cstring \<Rightarrow> rdb_config \<Rightarrow> os \<Rightarrow> bool" where
  "data_path_ok f c w \<longleftrightarrow>
     f \<notin> set (dirs w) \<and> f \<noteq> backup_dir c \<and> (\<forall>ds. may_write w ds f) \<and> may_read w f"

lemma fclose_env [simp]:
  "may_write (fclose fp w) = may_write w" "may_read (fclose fp w) = may_read w" "dirs (fclose fp w) = dirs w"
  by (simp_all add: fclose_def)

lemma create_backup_env:
  fixes f c w
  defines "w' \<equiv> snd (rdb_create_backup f c w)"
  shows "may_write w' = may_write w" and "may_read w' = may_read w"
    and "set (dirs w') \<subseteq> insert (backup_dir c) (set (dirs w))"
  unfolding w'_def
  by (auto simp: rdb_create_backup_def sys_mkdir_def sys_time_def fopen_wb_def Let_def split: option.splits)

text \<open>A save touches the data file and, possibly, a backup.\<close>

definition other_files :: "cstring \<Rightarrow> rdb_config \<Rightarrow> os \<Rightarrow> os \<Rightarrow> bool" where
  "other_files f c w w' \<longleftrightarrow>
     may_read w' = may_read w \<and> may_write w' = may_write w \<and>
     set (dirs w') \<subseteq> insert (backup_dir c) (set (dirs w)) \<and>
     (\<forall>g. g \<noteq> f \<longrightarrow> (\<forall>t. g \<noteq> backup_name (backup_dir c) t) \<longrightarrow> files w' g = files w g)"

lemma copy_blocks_stream [simp]: "f_path (copy_blocks src dst) = f_path dst" "f_mode (copy_blocks src dst) = f_mode dst"
proof -
  have "f_path (copy_blocks src dst) = f_path dst \<and> f_mode (copy_blocks src dst) = f_mode dst"
    by (induction src dst rule: copy_blocks.induct)
      (subst (1 2) copy_blocks.simps, simp add: fwrite_def split: prod.split)
  then show "f_path (copy_blocks src dst) = f_path dst" "f_mode (copy_blocks src dst) = f_mode dst" by simp_all
qed

lemma backup_name_length: "length d + 16 < length (backup_name d t)"
  by (simp add: backup_name_def lit_def)

lemma backup_name_not_dir [simp]: "backup_name d t \<noteq> d"
  using backup_name_length [of d t] by auto

lemma create_backup_other: "other_files f c w (snd (rdb_create_backup f c w))"
  using create_backup_env [of f c w]
  by (auto simp: other_files_def rdb_create_backup_def sys_mkdir_def sys_time_def fopen_wb_def fclose_def Let_def
      split: option.splits)

lemma data_path_opens:
  assumes "data_path_ok f c w"
  shows "\<exists>w1. fopen_wb f (if rdb_backup c \<and> path_exists f w then snd (rdb_create_backup f c w) else w) =
           Some (\<lparr>f_path = f, f_mode = WB, f_data = [], f_pos = 0, f_eof = False\<rparr>, w1) \<and> other_files f c w w1"
  using assms create_backup_env [of f c w] create_backup_other [of f c w]
  by (auto simp: data_path_ok_def fopen_wb_def other_files_def)

definition data_header :: "kvs_engine \<Rightarrow> uint64 \<Rightarrow> rdb_header" where
  "data_header e now =
     (save_header (g_rdb_config e) now)
       \<lparr>rh_data_size := of_nat (length (records_bytes (engine_records e))),
        rh_record_count := of_nat (length (array_entries (global_array e)))\<rparr>"

lemma kvs_rdb_save_run:
  assumes "engine_inv e L" and "rdb_enabled (g_rdb_config e)" and "\<not> rdb_crc64 (g_rdb_config e)"
    and "data_path_ok f (g_rdb_config e) (engine_os e)"
  shows "\<exists>w t now. kvs_rdb_save f e = ret (0, e\<lparr>engine_os := w, last_save_time := t\<rparr>) \<and>
           files w f = Some (header_bytes (data_header e now) @ records_bytes (engine_records e)) \<and>
           may_read w f \<and> other_files f (g_rdb_config e) (engine_os e) w"
proof -
  let ?c = "g_rdb_config e" and ?rs = "records_bytes (engine_records e)"
  let ?fp0 = "\<lparr>f_path = f, f_mode = WB, f_data = [], f_pos = 0, f_eof = False\<rparr>"
  obtain w1 where w1: "fopen_wb f (if rdb_backup ?c \<and> path_exists f (engine_os e)
      then snd (rdb_create_backup f ?c (engine_os e)) else engine_os e) = Some (?fp0, w1)"
    "other_files f ?c (engine_os e) w1"
    using data_path_opens [OF assms(4)] by blast
  obtain now w2 where t: "sys_time w1 = (now, w2)" "may_read w2 = may_read w1" "may_write w2 = may_write w1"
    "dirs w2 = dirs w1" "files w2 = files w1"
    by (auto simp: sys_time_def)
  let ?fp1 = "fwrite (header_bytes (save_header ?c now)) ?fp0"
  have end0: "at_end ?fp0" by (simp add: at_end_def)
  then have fp1: "?fp1 = ?fp0\<lparr>f_data := header_bytes (save_header ?c now), f_pos := 32\<rparr>"
    by (simp add: fwrite_at_end)
  have stores: "save_stores e ?fp1 = ret (fwrite ?rs ?fp1, length (array_entries (global_array e)))"
    using save_stores_ok [OF assms(1)] end0 by simp
  have fp2: "fwrite ?rs ?fp1 = ?fp0\<lparr>f_data := header_bytes (save_header ?c now) @ ?rs, f_pos := 32 + length ?rs\<rparr>"
    unfolding fp1 by (simp add: fwrite_at_end at_end_def)
  have fp3: "fwrite (header_bytes (data_header e now)) (fseek 0 (fwrite ?rs ?fp1)) =
      ?fp0\<lparr>f_data := header_bytes (data_header e now) @ ?rs, f_pos := 32\<rparr>"
    unfolding fp2 by (simp add: fwrite_def fseek_def write_at_def)
  let ?w3 = "fclose (fwrite (header_bytes (data_header e now)) (fseek 0 (fwrite ?rs ?fp1))) w2"
  obtain now' w4 where t': "sys_time ?w3 = (now', w4)" by fastforce
  have "kvs_rdb_save f e = ret (0, e\<lparr>engine_os := w4, last_save_time := now'\<rparr>)"
    using assms(2,3) t' unfolding kvs_rdb_save_def Let_def w1 
    by (simp add: t stores fp2) (simp add: fp1 ftell_def data_header_def)
  moreover have "files w4 f = Some (header_bytes (data_header e now) @ ?rs)" "may_read w4 f"
    "other_files f ?c (engine_os e) w4"
    using t' w1(2) t(2-5) assms(4) unfolding fp3 by (auto simp: sys_time_def fclose_def data_path_ok_def other_files_def)
  ultimately show ?thesis by blast
qed

text \<open>
  With checksums enabled the function reads its own data back from a stream that is not
  open for reading, gets nothing, and gives up.
\<close>

lemma kvs_rdb_save_crc_run:
  assumes "engine_inv e L" and "rdb_enabled (g_rdb_config e)" and "rdb_crc64 (g_rdb_config e)"
    and "data_path_ok f (g_rdb_config e) (engine_os e)"
    and "engine_records e \<noteq> []" and "length (records_bytes (engine_records e)) < 2 ^ 32"
  shows "\<exists>e' now. kvs_rdb_save f e = ret (- 1, e') \<and>
           files (engine_os e') f =
             Some (header_bytes (save_header (g_rdb_config e) now) @ records_bytes (engine_records e))"
proof -
  let ?c = "g_rdb_config e" and ?rs = "records_bytes (engine_records e)"
  let ?fp0 = "\<lparr>f_path = f, f_mode = WB, f_data = [], f_pos = 0, f_eof = False\<rparr>"
  obtain w1 where w1: "fopen_wb f (if rdb_backup ?c \<and> path_exists f (engine_os e)
      then snd (rdb_create_backup f ?c (engine_os e)) else engine_os e) = Some (?fp0, w1)"
    using data_path_opens [OF assms(4)] by blast
  obtain now w2 where t: "sys_time w1 = (now, w2)" by (auto simp: sys_time_def)
  let ?fp1 = "fwrite (header_bytes (save_header ?c now)) ?fp0"
  have end0: "at_end ?fp0" by (simp add: at_end_def)
  then have fp1: "?fp1 = ?fp0\<lparr>f_data := header_bytes (save_header ?c now), f_pos := 32\<rparr>"
    by (simp add: fwrite_at_end)
  have stores: "save_stores e ?fp1 = ret (fwrite ?rs ?fp1, length (array_entries (global_array e)))"
    using save_stores_ok [OF assms(1)] end0 by simp
  let ?fp2 = "?fp0\<lparr>f_data := header_bytes (save_header ?c now) @ ?rs, f_pos := 32 + length ?rs\<rparr>"
  have fp2: "fwrite ?rs ?fp1 = ?fp2"
    unfolding fp1 by (simp add: fwrite_at_end at_end_def)
  obtain r rs where "engine_records e = r # rs" using assms(5) by (cases "engine_records e") auto
  then have "0 < length ?rs" by (cases r) (simp add: record_bytes_def Let_def)
  then have size: "unat (of_nat (length ?rs) :: uint32) = length ?rs" "length ?rs \<noteq> 0"
    using assms(6) by (simp_all add: unat_of_nat)
  obtain p h where m: "malloc (ucast (of_nat (length ?rs) :: uint32)) (engine_heap e) = (p, h)" by fastforce
  have footer: "write_footer 32 (data_header e now) ?fp2 (engine_heap e) =
      (False, fseek 32 ?fp2, if p = 0 then h else free p h)"
    using size m by (simp add: write_footer_def data_header_def fread_def fseek_def)
  let ?e = "e\<lparr>engine_os := fclose (fseek 32 ?fp2) w2, engine_heap := if p = 0 then h else free p h\<rparr>"
  have "kvs_rdb_save f e = ret (- 1, ?e)"
    using assms(2,3) footer unfolding kvs_rdb_save_def Let_def w1
    by (simp add: t stores fp2) (simp add: fp1 ftell_def data_header_def)
  moreover have "files (engine_os ?e) f = Some (header_bytes (save_header ?c now) @ ?rs)"
    by (simp add: fclose_def fseek_def)
  ultimately show ?thesis by blast
qed

lemma chain_keys_index: "hash_ok hs \<Longrightarrow> i < MAX_TABLE_SIZE \<Longrightarrow> n \<in> set (bucket_list hs i) \<Longrightarrow> hash_index (hkey n) = Some i"
  by (auto simp: hash_ok_def chain_ok_def)

lemma hash_entries_index: "hash_ok hs \<Longrightarrow> (k, v) \<in> set (hash_entries hs) \<Longrightarrow> hash_index k \<noteq> None"
  by (auto simp: hash_entries_def chain_entries_def dest: chain_keys_index)

lemma map_of_concat_other:
  assumes "\<And>j. j \<in> set js \<Longrightarrow> map_of (g j) k = None"
  shows "map_of (concat (map g js)) k = None"
  using assms by (induction js) (auto simp: map_add_def)

lemma hash_entries_map:
  assumes ok: "hash_ok hs"
  shows "map_of (hash_entries hs) = hash_abs hs"
proof
  fix k
  let ?g = "\<lambda>i. chain_entries (bucket_list hs i)"
  have other: "map_of (?g j) k = None" if "j < MAX_TABLE_SIZE" "hash_index k \<noteq> Some j" for j
    using that chain_keys_index [OF ok that(1)]
    by (auto simp: map_of_eq_None_iff chain_entries_def image_iff)
  show "map_of (hash_entries hs) k = hash_abs hs k"
  proof (cases "hash_index k")
    case None
    then show ?thesis
      using other map_of_concat_other [of "[0..<MAX_TABLE_SIZE]" ?g k] by (simp add: hash_entries_def hash_abs_def)
  next
    case (Some i)
    have i: "i < MAX_TABLE_SIZE" using hash_index_bound [OF Some] .
    have "map_of (concat (map ?g [0..<i])) k = None" "map_of (concat (map ?g [Suc i..<MAX_TABLE_SIZE])) k = None"
      using other Some i by (auto intro!: map_of_concat_other)
    then show ?thesis
      using Some concat_upt_split [OF i, of ?g]
      by (simp add: hash_entries_def hash_abs_def map_add_def split: option.splits)
  qed
qed

lemma array_entries_length:
  assumes "array_ok a"
  shows "length (array_entries a) \<le> KVS_ARRAY_SIZE"
proof -
  have "length (slot_entries (slots a i)) \<le> 1" for i
    by (cases "slots a i" rule: slot_entries.cases) auto
  then have "length (concat (map (\<lambda>i. slot_entries (slots a i)) is)) \<le> length is" for "is"
    by (induction "is") (auto intro: add_le_mono [of _ 1, simplified])
  from this [of "[0..<total a]"] show ?thesis
    using assms by (simp add: array_entries_def array_ok_def)
qed

section \<open>Saving and loading\<close>

lemma kvs_rdb_load_bytes:
  assumes inv: "engine_inv e L" and en: "rdb_enabled (g_rdb_config e)" and nocrc: "\<not> rdb_crc64 (g_rdb_config e)"
    and stored: "files (engine_os e) f = Some (header_bytes hdr @ records_bytes rs)" and rd: "may_read (engine_os e) f"
    and hd: "rh_magic hdr = RDB_MAGIC" "rh_version hdr = RDB_VERSION"
      "unat (rh_data_size hdr) = length (records_bytes rs)"
    and rs: "\<forall>r\<in>set rs. rec_fits r \<and> fst r \<in> {0, 1, 2} \<and> (fst r = 2 \<longrightarrow> hash_index (fst (snd r)) \<noteq> None)"
    and mem: "mem_budget (engine_heap e) (5 * length rs)"
    and room: "total (global_array e) + length (recs_of 0 rs) \<le> KVS_ARRAY_SIZE"
  shows "\<exists>e' L'. kvs_rdb_load f e = ret (0, e') \<and> engine_inv e' L' \<and>
           (\<forall>t. engine_map e' t = map_of (recs_of t rs) ++ engine_map e t) \<and> keeps_rest e L e' L'"
proof -
  let ?d = "header_bytes hdr @ records_bytes rs"
  let ?fp = "\<lparr>f_path = f, f_mode = RB, f_data = ?d, f_pos = 32, f_eof = False\<rparr>"
  have "drop (f_pos ?fp) (f_data ?fp) = records_bytes rs @ []" by simp
  then obtain e' L' where 1: "load_records (32 + length (records_bytes rs)) ?fp e = ret e'" "engine_inv e' L'"
    "\<forall>t. engine_map e' t = map_of (recs_of t rs) ++ engine_map e t" "keeps_rest e L e' L'"
    using load_records_bytes [of ?fp rs "[]" e L 0] inv rs mem room by auto
  have rd32: "fread sizeof_header \<lparr>f_path = f, f_mode = RB, f_data = ?d, f_pos = 0, f_eof = False\<rparr> = (header_bytes hdr, ?fp)"
    by (simp add: fread_def sizeof_header_def Let_def)
  have "rdb_verify_file_integrity f (g_rdb_config e) (engine_os e) (engine_heap e) = (0, engine_heap e)"
    using stored rd hd nocrc rd32 by (simp add: rdb_verify_file_integrity_def fopen_rb_def sizeof_header_def Let_def)
  then have "kvs_rdb_load f e = ret (0, e')"
    using en stored rd rd32 hd(3) 1(1)
    by (simp add: kvs_rdb_load_def fopen_rb_def sizeof_header_def ftell_def Let_def)
  with 1 show ?thesis by blast
qed

lemma engine_records_fit:
  assumes "engine_inv e L" and "\<forall>r\<in>set (engine_records e). rec_fits r"
  shows "\<forall>r\<in>set (engine_records e). rec_fits r \<and> fst r \<in> {0, 1, 2} \<and>
           (fst r = 2 \<longrightarrow> hash_index (fst (snd r)) \<noteq> None)"
proof -
  have "hash_ok (global_hash e)" using assms(1) by (simp add: engine_inv_def)
  with assms(2) show ?thesis
    using hash_entries_index by (fastforce simp: engine_records_def)
qed

lemma engine_records_maps:
  assumes "engine_inv e L"
  shows "map_of (recs_of 0 (engine_records e)) = engine_map e 0"
    and "map_of (recs_of 1 (engine_records e)) = map_of (root_entry (global_rbtree e))"
    and "map_of (recs_of 2 (engine_records e)) = engine_map e 2"
    and "length (recs_of 0 (engine_records e)) \<le> KVS_ARRAY_SIZE"
proof -
  have ok: "hash_ok (global_hash e)" "array_ok (global_array e)" using assms by (simp_all add: engine_inv_def)
  show "map_of (recs_of 0 (engine_records e)) = engine_map e 0"
    "map_of (recs_of 1 (engine_records e)) = map_of (root_entry (global_rbtree e))"
    "map_of (recs_of 2 (engine_records e)) = engine_map e 2"
    "length (recs_of 0 (engine_records e)) \<le> KVS_ARRAY_SIZE"
    using hash_entries_map [OF ok(1)] array_entries_length [OF ok(2)]
    by (simp_all add: engine_records_def engine_map_def array_abs_def)
qed

text \<open>
  Saving an engine without checksums and loading the file into an engine with
  empty stores restores the array and the hash table completely. Of the red-black tree
  it restores only the pair at the root: the save does not descend into the subtrees.
\<close>

theorem kvs_rdb_save_load:
  assumes "engine_inv e L" and "rdb_enabled (g_rdb_config e)" and "\<not> rdb_crc64 (g_rdb_config e)"
    and "data_path_ok f (g_rdb_config e) (engine_os e)"
    and "\<forall>r\<in>set (engine_records e). rec_fits r" and "length (records_bytes (engine_records e)) < 2 ^ 32"
    and "engine_inv e0 L0" and "rdb_enabled (g_rdb_config e0)" and "\<not> rdb_crc64 (g_rdb_config e0)"
    and "\<forall>t. engine_map e0 t = Map.empty" and "total (global_array e0) = 0"
    and "mem_budget (engine_heap e0) (5 * length (engine_records e))"
  shows "\<exists>e1 e2 L2. kvs_rdb_save f e = ret (0, e1) \<and>
           kvs_rdb_load f (e0\<lparr>engine_os := engine_os e1\<rparr>) = ret (0, e2) \<and> engine_inv e2 L2 \<and>
           array_abs (global_array e2) = array_abs (global_array e) \<and>
           hash_abs (global_hash e2) = hash_abs (global_hash e) \<and>
           rb_abs (global_rbtree e2) = map_of (root_entry (global_rbtree e))"
proof -
  obtain w t now where s: "kvs_rdb_save f e = ret (0, e\<lparr>engine_os := w, last_save_time := t\<rparr>)"
    "files w f = Some (header_bytes (data_header e now) @ records_bytes (engine_records e))" "may_read w f"
    using kvs_rdb_save_run [OF assms(1-4)] by blast
  let ?e0 = "e0\<lparr>engine_os := w\<rparr>"
  have "engine_inv ?e0 L0" using assms(7) by (simp add: engine_inv_def)
  moreover have "unat (rh_data_size (data_header e now)) = length (records_bytes (engine_records e))"
    using assms(6) by (simp add: data_header_def unat_of_nat)
  ultimately obtain e2 L2 where 2: "kvs_rdb_load f ?e0 = ret (0, e2)" "engine_inv e2 L2"
    "\<forall>t. engine_map e2 t = map_of (recs_of t (engine_records e)) ++ engine_map ?e0 t"
    using kvs_rdb_load_bytes [of ?e0 L0 f "data_header e now" "engine_records e"] s assms(8-12)
      engine_records_fit [OF assms(1,5)] engine_records_maps(4) [OF assms(1)]
    by (auto simp: data_header_def save_header_def)
  have "engine_map e2 t = map_of (recs_of t (engine_records e))" for t
    using 2(3) assms(10) by simp
  from this [of 0] this [of 1] this [of 2] s(1) 2(1,2) show ?thesis
    using engine_records_maps [OF assms(1)] by (auto simp: engine_map_def)
qed

text \<open>
  With checksums enabled, which is the default, saving an engine that holds any
  data at all fails, and the file it leaves has all records but a header that announces no
  data: a later start with checksums switched off loads nothing from it. The snapshot that
  was there before has been overwritten.
\<close>

theorem kvs_rdb_save_crc_fails:
  assumes "engine_inv e L" and "rdb_enabled (g_rdb_config e)" and "rdb_crc64 (g_rdb_config e)"
    and "data_path_ok f (g_rdb_config e) (engine_os e)"
    and "engine_records e \<noteq> []" and "length (records_bytes (engine_records e)) < 2 ^ 32"
  shows "\<exists>e' d. kvs_rdb_save f e = ret (- 1, e') \<and> files (engine_os e') f = Some d \<and>
           drop sizeof_header d = records_bytes (engine_records e) \<and>
           (\<forall>e0. rdb_enabled (g_rdb_config e0) \<longrightarrow> \<not> rdb_crc64 (g_rdb_config e0) \<longrightarrow>
              files (engine_os e0) f = Some d \<longrightarrow> may_read (engine_os e0) f \<longrightarrow>
              kvs_rdb_load f e0 = ret (0, e0))"
proof -
  obtain e' now where 1: "kvs_rdb_save f e = ret (- 1, e')" "files (engine_os e') f =
      Some (header_bytes (save_header (g_rdb_config e) now) @ records_bytes (engine_records e))"
    using kvs_rdb_save_crc_run [OF assms] by blast
  let ?d = "header_bytes (save_header (g_rdb_config e) now) @ records_bytes (engine_records e)"
  have "kvs_rdb_load f e0 = ret (0, e0)"
    if "rdb_enabled (g_rdb_config e0)" "\<not> rdb_crc64 (g_rdb_config e0)" "files (engine_os e0) f = Some ?d"
      "may_read (engine_os e0) f" for e0
    using that
    by (simp add: kvs_rdb_load_def rdb_verify_file_integrity_def fopen_rb_def fread_def sizeof_header_def
        ftell_def save_header_def load_records.simps Let_def)
  with 1 show ?thesis by (intro exI [of _ e'] exI [of _ ?d]) (simp add: sizeof_header_def)
qed

section \<open>Backups\<close>

lemma take_drop_rest: "take n xs @ drop (length (take n xs)) xs = xs"
  by (cases "n \<le> length xs") simp_all

lemma copy_blocks_all:
  assumes "f_mode src = RB" and "at_end dst"
  shows "copy_blocks src dst = fwrite (drop (f_pos src) (f_data src)) dst"
  using assms
proof (induction src dst rule: copy_blocks.induct)
  case (1 src dst)
  obtain bs src' where r: "fread 4096 src = (bs, src')" by fastforce
  note rb = fread_rb [OF "1.prems"(1) r]
  show ?case
  proof (cases "bs = []")
    case True
    then have "drop (f_pos src) (f_data src) = []" using rb(1) by (simp add: take_eq_Nil)
    then show ?thesis using r True "1.prems"(2) by (subst copy_blocks.simps) simp
  next
    case False
    let ?D = "drop (f_pos src) (f_data src)"
    have "?D = bs @ drop (f_pos src') (f_data src')"
      using take_drop_rest [of 4096 ?D] rb(1,2,4) by (simp only: drop_drop add.commute)
    then show ?thesis
      using "1.IH" [OF r [symmetric] refl False] r False "1.prems"(2) rb(3)
      by (subst copy_blocks.simps) (simp add: fwrite_fwrite)
  qed
qed

lemma copy_file:
  assumes "may_write w (dirs w) p" and "p \<notin> set (dirs w)" and "files w q = Some d"
  shows "\<exists>dst w1. fopen_wb p w = Some (dst, w1) \<and>
     fclose (copy_blocks (stream_view \<lparr>f_path = q, f_mode = RB, f_data = d, f_pos = 0, f_eof = False\<rparr> w1) dst) w1 =
       w\<lparr>files := (files w)(p \<mapsto> if p = q then [] else d)\<rparr>"
proof -
  let ?dst = "\<lparr>f_path = p, f_mode = WB, f_data = [], f_pos = 0, f_eof = False\<rparr>"
  have "at_end ?dst" by (simp add: at_end_def)
  then show ?thesis
    using assms by (simp add: fopen_wb_def copy_blocks_all stream_view_def fwrite_at_end fclose_def)
qed

text \<open>
  With backups enabled and a backup directory whose path is not too long,
  \<open>rdb_create_backup\<close> writes an exact copy of the file under a name made from the time, and
  changes no other file.
\<close>

theorem rdb_create_backup_copies:
  assumes "rdb_backup c" and "files w f = Some d" and "may_read w f"
    and "b = backup_name (backup_dir c) (localtime w (clock w (clock_reads w)))"
    and "length (backup_dir c) < 462" and "length b < 512" and "b \<noteq> f" and "b \<noteq> backup_dir c"
    and "b \<notin> set (dirs w)" and "\<forall>ds. may_write w ds b"
  shows "\<exists>w'. rdb_create_backup f c w = (0, w') \<and> files w' = (files w)(b \<mapsto> d)"
proof -
  let ?w1 = "if path_exists (backup_dir c) w then w else sys_mkdir (backup_dir c) w"
  let ?w2 = "?w1\<lparr>clock_reads := Suc (clock_reads w)\<rparr>"
  have w1: "files ?w1 = files w" "may_write ?w1 = may_write w" "may_read ?w1 = may_read w"
    "clock ?w1 = clock w" "clock_reads ?w1 = clock_reads w" "localtime ?w1 = localtime w"
    "set (dirs ?w1) \<subseteq> insert (backup_dir c) (set (dirs w))"
    by (auto simp: sys_mkdir_def)
  have t: "sys_time ?w1 = (clock w (clock_reads w), ?w2)"
    using w1 by (simp add: sys_time_def)
  obtain dst w3 where cp: "fopen_wb b ?w2 = Some (dst, w3)"
    "fclose (copy_blocks (stream_view \<lparr>f_path = f, f_mode = RB, f_data = d, f_pos = 0, f_eof = False\<rparr> w3) dst) w3 =
       ?w2\<lparr>files := (files ?w2)(b \<mapsto> if b = f then [] else d)\<rparr>"
    using copy_file [of ?w2 b f d] assms(2,8-10) w1 by auto
  have op: "fopen_rb f ?w2 = Some \<lparr>f_path = f, f_mode = RB, f_data = d, f_pos = 0, f_eof = False\<rparr>"
    using assms(2,3) w1 by (simp add: fopen_rb_def)
  have "rdb_create_backup f c w = (0, ?w2\<lparr>files := (files ?w2)(b \<mapsto> if b = f then [] else d)\<rparr>)"
    unfolding rdb_create_backup_def Let_def t prod.case
    using assms(1,4-6) w1 cp op by (simp add: MAX_PATH_LEN_def)
  then show ?thesis using assms(7) w1 by auto
qed

text \<open>
  Restoring a backup that passes the integrity check makes the data file an exact
  copy of it. If the backup that is named is the data file itself, the file is emptied
  instead: it is opened for writing before it is read.
\<close>

theorem rdb_restore_copies:
  assumes "files w b = Some d" and "may_read w b"
    and "rdb_verify_file_integrity b c w h = (0, h1)"
    and "may_write w (dirs w) (rdb_file c)" and "rdb_file c \<notin> set (dirs w)"
  shows "\<exists>w'. rdb_restore_from_backup (Some b) c w h = (0, w', h1) \<and>
           files w' = (files w)(rdb_file c \<mapsto> if rdb_file c = b then [] else d)"
proof -
  obtain dst w1 where "fopen_wb (rdb_file c) w = Some (dst, w1)"
    "fclose (copy_blocks (stream_view \<lparr>f_path = b, f_mode = RB, f_data = d, f_pos = 0, f_eof = False\<rparr> w1) dst) w1 =
       w\<lparr>files := (files w)(rdb_file c \<mapsto> if rdb_file c = b then [] else d)\<rparr>"
    using copy_file [OF assms(4,5,1)] by blast
  then show ?thesis
    using assms(1-3) by (simp add: rdb_restore_from_backup_def fopen_rb_def)
qed

section \<open>Witnesses\<close>

lemma demo_engine_records:
  "engine_records demo_engine = [(0, [97], [49])]"
proof -
  have "hash_entries demo_hash0 = []"
    by (simp add: hash_entries_def demo_hash0_def bucket_list_def chain_entries_def)
  then show ?thesis by (simp add: engine_records_def demo_engine_def root_entry_def)
qed

lemma demo_data_path: "data_path_ok (lit ''kvs.rdb'') (g_rdb_config demo_engine) (engine_os demo_engine)"
  by (simp add: data_path_ok_def demo_engine_def demo_os_def default_config_def lit_def)

lemma demo_record_fits:
  "\<forall>r\<in>set (engine_records demo_engine). rec_fits r" "length (records_bytes (engine_records demo_engine)) = 7"
  "length (record_bytes 0 [97] [49]) = 7"
  by (simp_all add: demo_engine_records rec_fits_def record_bytes_fits)

lemma demo_engine_fields:
  "rdb_enabled (g_rdb_config demo_engine)" "\<not> rdb_crc64 (g_rdb_config demo_engine)"
  "rdb_enabled (g_rdb_config demo_engine0)" "\<not> rdb_crc64 (g_rdb_config demo_engine0)"
  "total (global_array demo_engine0) = 0" "engine_heap demo_engine0 = demo_heap" "engine_heap demo_engine = demo_heap"
  by (simp_all add: demo_engine_def demo_engine0_def default_config_def)


theorem kvs_rdb_save_load_witness:
  "\<exists>e1 e2. kvs_rdb_save (lit ''kvs.rdb'') demo_engine = ret (0, e1) \<and>
     kvs_rdb_load (lit ''kvs.rdb'') (demo_engine0\<lparr>engine_os := engine_os e1\<rparr>) = ret (0, e2) \<and>
     array_abs (global_array e2) = [[97] \<mapsto> [49]]"
proof -
  have "array_abs (global_array demo_engine) = [[97] \<mapsto> [49]]"
    using demo_engine_map(1) [of 0] by (simp add: engine_map_def)
  with kvs_rdb_save_load [OF demo_engine_inv(1) demo_engine_fields(1,2) demo_data_path demo_record_fits(1) _
      demo_engine_inv(2) demo_engine_fields(3,4)]
  show ?thesis
    by (auto simp: demo_record_fits demo_engine_map demo_engine_fields demo_engine_records)
qed

theorem kvs_rdb_save_crc_fails_witness:
  "\<exists>e'. kvs_rdb_save (lit ''kvs.rdb'') (demo_engine\<lparr>g_rdb_config := default_config\<rparr>) = ret (- 1, e')"
proof -
  let ?e = "demo_engine\<lparr>g_rdb_config := default_config\<rparr>"
  have "engine_inv ?e {8, 1000, 1100, 2000, 3000}" using demo_engine_inv(1) by (simp add: engine_inv_def)
  moreover have "engine_records ?e = engine_records demo_engine" by (simp add: engine_records_def)
  moreover have "data_path_ok (lit ''kvs.rdb'') (g_rdb_config ?e) (engine_os ?e)"
    using demo_data_path by (simp add: data_path_ok_def demo_engine_def)
  moreover have "rdb_enabled (g_rdb_config ?e)" "rdb_crc64 (g_rdb_config ?e)" by (simp_all add: default_config_def)
  ultimately have "\<exists>e' d. kvs_rdb_save (lit ''kvs.rdb'') ?e = ret (- 1, e') \<and> files (engine_os e') (lit ''kvs.rdb'') = Some d"
    using kvs_rdb_save_crc_fails [of ?e "{8, 1000, 1100, 2000, 3000}" "lit ''kvs.rdb''"] demo_record_fits(2)
      demo_engine_records by fastforce
  then show ?thesis by blast
qed

theorem rdb_create_backup_copies_witness:
  "\<exists>w'. rdb_create_backup [102] default_config (demo_os\<lparr>files := [[102] \<mapsto> [1, 2, 3]]\<rparr>) = (0, w') \<and>
     files w' (lit ''./backup/kvs_backup_20260101_020304.rdb'') = Some [1, 2, 3]"
proof -
  let ?w = "demo_os\<lparr>files := [[102] \<mapsto> [1, 2, 3]]\<rparr>"
  let ?b = "lit ''./backup/kvs_backup_20260101_020304.rdb''"
  have b: "?b = backup_name (backup_dir default_config) (localtime ?w (clock ?w (clock_reads ?w)))"
    by (simp add: backup_name_def pad_digits_def nat_digits.simps demo_os_def default_config_def lit_def)
  have "\<exists>w'. rdb_create_backup [102] default_config ?w = (0, w') \<and> files w' = (files ?w)(?b \<mapsto> [1, 2, 3])"
    by (rule rdb_create_backup_copies [OF _ _ _ b]) (simp_all add: default_config_def demo_os_def lit_def)
  then show ?thesis by auto
qed

theorem rdb_restore_copies_witness:
  "\<exists>w'. rdb_restore_from_backup (Some [98]) (g_rdb_config demo_engine)
          (demo_os\<lparr>files := [[98] \<mapsto> header_bytes (save_header default_config 0)]\<rparr>) demo_heap = (0, w', demo_heap) \<and>
        files w' (lit ''kvs.rdb'') = Some (header_bytes (save_header default_config 0))"
proof -
  let ?w = "demo_os\<lparr>files := [[98] \<mapsto> header_bytes (save_header default_config 0)]\<rparr>"
  have "rdb_verify_file_integrity [98] (g_rdb_config demo_engine) ?w demo_heap = (0, demo_heap)"
    by (simp add: rdb_verify_file_integrity_def fopen_rb_def fread_def sizeof_header_def save_header_def demo_os_def
        demo_engine_def Let_def)
  from rdb_restore_copies [OF _ _ this] show ?thesis
    by (auto simp: demo_os_def demo_engine_def default_config_def lit_def)
qed

end
