(* ===== verification/Skiptable_Correct.thy ===== *)
theory Skiptable_Correct
  imports Skiptable
begin

text \<open>
  The skip list refines a list of entries sorted by score and key.

  A list is described by the sequence of its nodes. Each node is linked on the levels up to
  its height; on a level it points to the next node of the sequence that is tall enough.
  Both searches descend through the levels; whatever they search, if the nodes \<open>before\<close> it
  are a prefix of the sequence, they leave each level at the last tall node of the prefix.
\<close>

section \<open>The links\<close>

definition tall :: "(addr \<Rightarrow> SkipNode option) \<Rightarrow> nat \<Rightarrow> addr \<Rightarrow> bool" where
  "tall ns i p \<longleftrightarrow> (\<exists>n. ns p = Some n \<and> i < length (sk_next n))"

definition first_tall :: "(addr \<Rightarrow> SkipNode option) \<Rightarrow> nat \<Rightarrow> addr list \<Rightarrow> addr" where
  "first_tall ns i ps = (case filter (tall ns i) ps of [] \<Rightarrow> 0 | q # _ \<Rightarrow> q)"

fun linked :: "(addr \<Rightarrow> SkipNode option) \<Rightarrow> addr list \<Rightarrow> bool" where
  "linked ns [] \<longleftrightarrow> True"
| "linked ns (p # ps) \<longleftrightarrow>
     (\<forall>i. tall ns i p \<longrightarrow> fwd_get ns p i = Some (first_tall ns i ps)) \<and> linked ns ps"

lemma fwd_get_tall: "fwd_get ns p i = Some f \<Longrightarrow> tall ns i p"
  by (auto simp: fwd_get_def tall_def split: bind_splits if_splits)

lemma tall_mono: "tall ns i p \<Longrightarrow> j \<le> i \<Longrightarrow> tall ns j p"
  by (auto simp: tall_def)

lemma first_tall_Nil [simp]: "first_tall ns i [] = 0"
  by (simp add: first_tall_def)

lemma first_tall_Cons: "first_tall ns i (p # ps) = (if tall ns i p then p else first_tall ns i ps)"
  by (simp add: first_tall_def)

lemma first_tall_append:
  "first_tall ns i (ps @ qs) = (if filter (tall ns i) ps = [] then first_tall ns i qs else first_tall ns i ps)"
  by (auto simp: first_tall_def split: list.splits)

lemma first_tall_0_iff: "0 \<notin> set ps \<Longrightarrow> first_tall ns i ps = 0 \<longleftrightarrow> filter (tall ns i) ps = []"
  by (induction ps) (auto simp: first_tall_Cons)

lemma first_tall_in: "first_tall ns i ps \<noteq> 0 \<Longrightarrow> first_tall ns i ps \<in> set ps"
  by (induction ps) (auto simp: first_tall_Cons split: if_splits)

lemma linked_appendD: "linked ns (xs @ ys) \<Longrightarrow> linked ns ys"
  by (induction xs) auto

lemma linked_at: "linked ns (xs @ p # ys) \<Longrightarrow> tall ns i p \<Longrightarrow> fwd_get ns p i = Some (first_tall ns i ys)"
  by (induction xs) auto

lemma tall_cong: "\<forall>p\<in>set ps. \<forall>i. tall ns' i p = tall ns i p \<Longrightarrow> first_tall ns' i ps = first_tall ns i ps"
  by (induction ps) (auto simp: first_tall_Cons)

lemma linked_cong: "\<forall>p\<in>set ps. ns' p = ns p \<Longrightarrow> linked ns ps \<Longrightarrow> linked ns' ps"
proof (induction ps)
  case (Cons p ps)
  have "\<forall>q\<in>set ps. \<forall>i. tall ns' i q = tall ns i q" using Cons.prems(1) by (simp add: tall_def)
  then show ?case using Cons tall_cong [of ps ns' ns] by (auto simp: tall_def fwd_get_def)
qed simp

section \<open>The search\<close>

lemma skip_advance_last:
  assumes "linked ns (xs @ cur # zs @ B)" and "tall ns i cur" and "0 \<notin> set (zs @ B)"
    and "\<forall>p\<in>set zs. tall ns i p \<longrightarrow> (\<exists>n. ns p = Some n \<and> before n = Some True)"
    and "first_tall ns i B \<noteq> 0 \<longrightarrow> (\<exists>n. ns (first_tall ns i B) = Some n \<and> before n = Some False)"
  shows "skip_advance before ns i cur = Some (last (cur # filter (tall ns i) zs))"
  using assms
proof (induction "length zs" arbitrary: zs xs cur rule: less_induct)
  case less
  have fwd: "fwd_get ns cur i = Some (first_tall ns i (zs @ B))" using linked_at less.prems(1,2) by blast
  show ?case
  proof (cases "filter (tall ns i) zs")
    case Nil
    then have f: "fwd_get ns cur i = Some (first_tall ns i B)" using fwd by (simp add: first_tall_append)
    show ?thesis
    proof (cases "first_tall ns i B = 0")
      case True
      then show ?thesis using f Nil by (simp add: skip_advance.simps)
    next
      case False
      with less.prems(5) obtain n where "ns (first_tall ns i B) = Some n" "before n = Some False"
        by blast
      then show ?thesis using f False Nil by (simp add: skip_advance.simps)
    qed
  next
    case (Cons q qs)
    then obtain u zs' where zs: "zs = u @ q # zs'" "filter (tall ns i) u = []" "tall ns i q" "filter (tall ns i) zs' = qs"
      by (auto simp: filter_eq_Cons_iff filter_empty_conv)
    have "first_tall ns i (zs @ B) = q" using zs by (simp add: first_tall_append first_tall_Cons)
    moreover obtain n where "ns q = Some n" "before n = Some True" using less.prems(4) zs(1,3) by auto
    moreover have "q \<noteq> 0" using less.prems(3) zs(1) by auto
    moreover have "skip_advance before ns i q = Some (last (q # filter (tall ns i) zs'))"
      using less.hyps [of zs' "xs @ cur # u" q] less.prems zs by simp
    ultimately show ?thesis using fwd zs Cons by (simp add: skip_advance.simps [of _ _ _ cur])
  qed
qed

text \<open>The node at which a search leaves level \<open>i\<close>.\<close>

definition last_tall :: "(addr \<Rightarrow> SkipNode option) \<Rightarrow> nat \<Rightarrow> addr list \<Rightarrow> addr" where
  "last_tall ns i S = last (filter (tall ns i) S)"

lemma last_tall_split: "tall ns i p \<Longrightarrow> last_tall ns i (xs @ p # zs) = last (p # filter (tall ns i) zs)"
  by (simp add: last_tall_def)

lemma last_tall_in:
  assumes "p \<in> set S" and "tall ns i p"
  shows "last_tall ns i S \<in> set S" and "tall ns i (last_tall ns i S)"
proof -
  have "filter (tall ns i) S \<noteq> []" using assms by (auto simp: filter_empty_conv)
  from last_in_set [OF this] show "last_tall ns i S \<in> set S" "tall ns i (last_tall ns i S)"
    by (auto simp: last_tall_def)
qed

text \<open>The nodes of a list, split at what is searched.\<close>

definition split_at ::
  "(SkipNode \<Rightarrow> bool option) \<Rightarrow> (addr \<Rightarrow> SkipNode option) \<Rightarrow> addr \<Rightarrow> addr list \<Rightarrow> addr list \<Rightarrow> bool" where
  "split_at bf ns hdr A B \<longleftrightarrow>
     linked ns ((hdr # A) @ B) \<and> 0 \<notin> set (A @ B) \<and>
     (\<forall>p\<in>set A. \<exists>n. ns p = Some n \<and> bf n = Some True) \<and>
     (\<forall>p\<in>set B. \<exists>n. ns p = Some n \<and> bf n = Some False)"

lemma skip_advance_to:
  assumes "split_at bf ns hdr A B" and "cur \<in> set (hdr # A)" and "tall ns i cur"
  shows "skip_advance bf ns i cur = Some (last_tall ns i (hdr # A))"
proof -
  obtain xs zs where S: "hdr # A = xs @ cur # zs" using assms(2) by (metis split_list)
  then have sub: "set zs \<subseteq> set A" by (cases xs) auto
  have "skip_advance bf ns i cur = Some (last (cur # filter (tall ns i) zs))"
  proof (rule skip_advance_last)
    show "linked ns (xs @ cur # zs @ B)" using assms(1) unfolding split_at_def S by simp
    show "first_tall ns i B \<noteq> 0 \<longrightarrow> (\<exists>n. ns (first_tall ns i B) = Some n \<and> bf n = Some False)"
      using first_tall_in [of ns i B] assms(1) unfolding split_at_def by blast
  qed (use assms(1,3) sub in \<open>auto simp: split_at_def\<close>)
  with S show ?thesis using assms(3) by (simp add: last_tall_split)
qed

lemma skip_descend_to:
  assumes "split_at bf ns hdr A B" and "cur \<in> set (hdr # A)" and "tall ns i cur"
  shows "\<exists>upd. skip_descend bf ns i cur = Some (last_tall ns 0 (hdr # A), upd) \<and>
           (\<forall>j\<le>i. upd j = Some (last_tall ns j (hdr # A)))"
  using assms(2,3)
proof (induction i arbitrary: cur)
  case 0
  then show ?case using skip_advance_to [OF assms(1)] by simp
next
  case (Suc i)
  let ?c = "last_tall ns (Suc i) (hdr # A)"
  have "?c \<in> set (hdr # A)" "tall ns i ?c"
    using last_tall_in [OF Suc.prems] tall_mono [of ns "Suc i" ?c i] by auto
  from Suc.IH [OF this] skip_advance_to [OF assms(1) Suc.prems] show ?case by (auto simp: le_Suc_eq)
qed

text \<open>
  Whatever is searched, in whatever order the nodes are: a search ends at some place of the
  sequence, and what it records is right for this place, because a node at which a level is left
  stops the search on the lower levels too.
\<close>

lemma last_split:
  assumes "x = last (cur # filter P zs)"
  shows "\<exists>us vs. cur # zs = us @ x # vs \<and> filter P vs = []"
proof (cases "\<exists>y\<in>set zs. P y")
  case False
  then have "filter P zs = []" by (simp add: filter_empty_conv)
  then show ?thesis using assms by (intro exI [of _ "[]"] exI [of _ zs]) simp
next
  case True
  then obtain us y vs where y: "zs = us @ y # vs" "P y" "\<forall>z\<in>set vs. \<not> P z" using split_list_last_prop by metis
  then have "filter P vs = []" by (simp add: filter_empty_conv)
  with y assms show ?thesis by (intro exI [of _ "cur # us"] exI [of _ vs]) simp
qed

lemma advance_split:
  assumes "linked ns (xs @ cur # zs)" and "0 \<notin> set zs" and "\<forall>p\<in>set zs. \<exists>n b. ns p = Some n \<and> bf n = Some b"
    and "tall ns i cur"
  defines "Q \<equiv> \<lambda>p. tall ns i p \<longrightarrow> (\<exists>n. ns p = Some n \<and> bf n = Some True)"
  shows "skip_advance bf ns i cur = Some (last_tall ns i (xs @ cur # takeWhile Q zs))"
    and "dropWhile Q zs = b # B \<Longrightarrow> tall ns i b \<and> bf (the (ns b)) = Some False"
proof -
  have stop: "tall ns i b \<and> b \<in> set zs \<and> bf (the (ns b)) = Some False" if "dropWhile Q zs = b # B" for b B
  proof -
    have "b \<in> set zs" using set_dropWhileD [of b Q zs] that by simp
    moreover have "\<not> Q b" using that by (metis dropWhile_eq_Cons_conv)
    ultimately show ?thesis using assms(3) by (fastforce simp: Q_def)
  qed
  then show "dropWhile Q zs = b # B \<Longrightarrow> tall ns i b \<and> bf (the (ns b)) = Some False" by blast
  have "skip_advance bf ns i cur = Some (last (cur # filter (tall ns i) (takeWhile Q zs)))"
  proof (rule skip_advance_last)
    show "\<forall>p\<in>set (takeWhile Q zs). tall ns i p \<longrightarrow> (\<exists>n. ns p = Some n \<and> bf n = Some True)"
      by (auto dest: set_takeWhileD simp: Q_def)
    show "first_tall ns i (dropWhile Q zs) \<noteq> 0 \<longrightarrow>
        (\<exists>n. ns (first_tall ns i (dropWhile Q zs)) = Some n \<and> bf n = Some False)"
    proof (cases "dropWhile Q zs")
      case (Cons b B)
      then obtain n where "ns b = Some n" "bf n = Some False" "tall ns i b"
        using stop [OF Cons] assms(3) by (metis option.sel)
      then show ?thesis unfolding Cons by (simp add: first_tall_Cons)
    next
      case Nil
      show ?thesis unfolding Nil by simp
    qed
  qed (use assms in simp_all)
  with assms(4) show "skip_advance bf ns i cur = Some (last_tall ns i (xs @ cur # takeWhile Q zs))"
    by (simp add: last_tall_split)
qed

lemma skip_descend_any:
  assumes "linked ns (xs @ cur # zs)" and "0 \<notin> set zs" and "\<forall>p\<in>set zs. \<exists>n b. ns p = Some n \<and> bf n = Some b"
    and "tall ns i cur"
  shows "\<exists>ys B upd. zs = ys @ B \<and> skip_descend bf ns i cur = Some (last_tall ns 0 (xs @ cur # ys), upd) \<and>
           (\<forall>j\<le>i. upd j = Some (last_tall ns j (xs @ cur # ys))) \<and>
           (\<forall>p\<in>set ys. tall ns i p \<longrightarrow> (\<exists>n. ns p = Some n \<and> bf n = Some True))"
  using assms
proof (induction i arbitrary: xs cur zs)
  case (0 xs cur zs)
  define Q where "Q = (\<lambda>p. tall ns 0 p \<longrightarrow> (\<exists>n. ns p = Some n \<and> bf n = Some True))"
  have "skip_advance bf ns 0 cur = Some (last_tall ns 0 (xs @ cur # takeWhile Q zs))"
    using advance_split(1) [OF 0] unfolding Q_def .
  moreover have "\<forall>p\<in>set (takeWhile Q zs). tall ns 0 p \<longrightarrow> (\<exists>n. ns p = Some n \<and> bf n = Some True)"
    using set_takeWhileD [of _ Q zs] unfolding Q_def by blast
  ultimately show ?case by (intro exI [of _ "takeWhile Q zs"] exI [of _ "dropWhile Q zs"]) simp
next
  case (Suc i xs cur zs)
  define Q where "Q = (\<lambda>p. tall ns (Suc i) p \<longrightarrow> (\<exists>n. ns p = Some n \<and> bf n = Some True))"
  let ?zs = "takeWhile Q zs" and ?B = "dropWhile Q zs"
  note adv = advance_split [OF Suc.prems, folded Q_def]
  define c where "c = last (cur # filter (tall ns (Suc i)) ?zs)"
  obtain us vs where c: "cur # ?zs = us @ c # vs" "filter (tall ns (Suc i)) vs = []" using last_split [OF c_def] by blast
  have zs: "cur # zs = us @ c # vs @ ?B" using c(1) takeWhile_dropWhile_id [of Q zs] by (metis append.assoc append_Cons)
  have tc: "tall ns (Suc i) c"
    using Suc.prems(4) last_in_set [of "cur # filter (tall ns (Suc i)) ?zs"] unfolding c_def by auto
  have "zs = tl (us @ [c]) @ vs @ ?B" using zs by (cases us) simp_all
  then have sub: "set (vs @ ?B) \<subseteq> set zs" by (metis Un_upper2 set_append)
  have lk: "linked ns ((xs @ us) @ c # vs @ ?B)" using Suc.prems(1) zs by simp
  have tot: "0 \<notin> set (vs @ ?B)" "\<forall>p\<in>set (vs @ ?B). \<exists>n b. ns p = Some n \<and> bf n = Some b" using Suc.prems(2,3) sub by blast+
  obtain ys B upd where 1: "vs @ ?B = ys @ B" "skip_descend bf ns i c = Some (last_tall ns 0 ((xs @ us) @ c # ys), upd)"
    "\<forall>j\<le>i. upd j = Some (last_tall ns j ((xs @ us) @ c # ys))"
    "\<forall>p\<in>set ys. tall ns i p \<longrightarrow> (\<exists>n. ns p = Some n \<and> bf n = Some True)"
    using Suc.IH [OF lk tot tall_mono [OF tc]] by auto
  have low: "filter (tall ns (Suc i)) ys = []"
  proof (cases "length ys \<le> length vs")
    case True
    then have "ys = take (length ys) vs" using arg_cong [OF 1(1), of "take (length ys)"] by simp
    then have "set ys \<subseteq> set vs" by (metis set_take_subset)
    then show ?thesis using c(2) by (auto simp: filter_empty_conv)
  next
    case False
    then obtain b B' where b: "?B = b # B'" "b \<in> set ys" using 1(1) by (cases ?B) (auto simp: append_eq_append_conv2 Cons_eq_append_conv)
    then show ?thesis using adv(2) [OF b(1)] 1(4) tall_mono [of ns "Suc i" b i] by fastforce
  qed
  have visited: "Q p" if "p \<in> set (tl (us @ [c]))" for p
  proof -
    have "p \<in> set ?zs" using that c(1) by (cases us) auto
    then show ?thesis by (rule set_takeWhileD [THEN conjunct2])
  qed
  define ys' where "ys' = tl (us @ c # ys)"
  have ys': "us @ c # ys = cur # ys'" "zs = ys' @ B" "set ys' \<subseteq> set (tl (us @ [c])) \<union> set ys"
    using zs 1(1) unfolding ys'_def by (cases us; auto)+
  have eq: "(xs @ us) @ c # ys = xs @ cur # ys'" using ys'(1) by simp
  have last: "last_tall ns (Suc i) (xs @ cur # ys') = c"
    unfolding eq [symmetric] last_tall_split [OF tc] low by simp
  have "skip_advance bf ns (Suc i) cur = Some c"
    using adv(1) last_tall_split [OF Suc.prems(4)] unfolding c_def by simp
  then have "skip_descend bf ns (Suc i) cur = Some (last_tall ns 0 (xs @ cur # ys'), upd(Suc i \<mapsto> c))"
    using 1(2) eq by simp
  moreover have "\<forall>j\<le>Suc i. (upd(Suc i \<mapsto> c)) j = Some (last_tall ns j (xs @ cur # ys'))"
    using 1(3) last eq by (auto simp: le_Suc_eq)
  moreover have "\<forall>p\<in>set ys'. tall ns (Suc i) p \<longrightarrow> (\<exists>n. ns p = Some n \<and> bf n = Some True)"
    using ys'(3) visited low unfolding Q_def by (auto simp: filter_empty_conv)
  ultimately show ?case using ys'(2) by blast
qed

section \<open>Redirecting links\<close>

text \<open>
  Linking a node in and taking it out both redirect, on each level \<open>j\<close> below a bound, the
  pointer of one node \<open>prev j\<close>.
\<close>

definition redirect :: "(nat \<Rightarrow> addr) \<Rightarrow> (nat \<Rightarrow> addr) \<Rightarrow> nat \<Rightarrow> addr \<Rightarrow> SkipNode \<Rightarrow> SkipNode" where
  "redirect prev tgt k x n =
     n\<lparr>sk_next := map (\<lambda>j. if j < k \<and> prev j = x then tgt j else sk_next n ! j) [0..<length (sk_next n)]\<rparr>"

definition redirected ::
  "(nat \<Rightarrow> addr) \<Rightarrow> (nat \<Rightarrow> addr) \<Rightarrow> nat \<Rightarrow> (addr \<Rightarrow> SkipNode option) \<Rightarrow> addr \<Rightarrow> SkipNode option" where
  "redirected prev tgt k ns = (\<lambda>x. map_option (redirect prev tgt k x) (ns x))"

lemma redirect_0 [simp]: "redirect prev tgt 0 x n = n"
  by (simp add: redirect_def map_nth)

lemma redirected_0 [simp]: "redirected prev tgt 0 ns = ns"
  by (simp add: redirected_def fun_eq_iff map_option_idI)

lemma redirect_other: "\<forall>j<k. prev j \<noteq> x \<Longrightarrow> redirect prev tgt k x n = n"
proof -
  assume "\<forall>j<k. prev j \<noteq> x"
  then have "map (\<lambda>j. if j < k \<and> prev j = x then tgt j else sk_next n ! j) [0..<length (sk_next n)] = sk_next n"
    by (intro nth_equalityI) auto
  then show ?thesis by (simp add: redirect_def)
qed

lemma redirected_other: "\<forall>j<k. prev j \<noteq> x \<Longrightarrow> redirected prev tgt k ns x = ns x"
  by (simp add: redirected_def redirect_other map_option_idI)

lemma tall_redirected [simp]: "tall (redirected prev tgt k ns) i p = tall ns i p"
  by (auto simp: tall_def redirected_def redirect_def)

lemma fwd_get_redirected:
  "fwd_get (redirected prev tgt k ns) x j =
     (if j < k \<and> prev j = x \<and> tall ns j x then Some (tgt j) else fwd_get ns x j)"
  by (auto simp: fwd_get_def redirected_def redirect_def tall_def split: option.splits bind_splits)

lemma fwd_set_redirected:
  assumes "tall ns k (prev k)"
  shows "fwd_set (prev k) k (tgt k) (redirected prev tgt k ns) = Some (redirected prev tgt (Suc k) ns)"
proof -
  obtain n where n: "ns (prev k) = Some n" "k < length (sk_next n)" using assms by (auto simp: tall_def)
  have same: "redirect prev tgt (Suc k) x = redirect prev tgt k x" if "x \<noteq> prev k" for x
    using that by (auto simp: redirect_def fun_eq_iff less_Suc_eq intro!: SkipNode.fold_congs)
  have "(redirect prev tgt k (prev k) n)\<lparr>sk_next := (sk_next (redirect prev tgt k (prev k) n))[k := tgt k]\<rparr> =
      redirect prev tgt (Suc k) (prev k) n"
    using n(2)
    by (auto simp: redirect_def nth_list_update less_Suc_eq intro!: SkipNode.fold_congs nth_equalityI)
  then show ?thesis
    using n same by (auto simp: fwd_set_def redirected_def redirect_def [of _ _ k "prev k" n])
qed

section \<open>Linking a node in\<close>

lemma fwd_get_upd [simp]: "x \<noteq> p \<Longrightarrow> fwd_get (ns(p := v)) x i = fwd_get ns x i"
  by (simp add: fwd_get_def)

lemma fwd_set_upd: "x \<noteq> p \<Longrightarrow> fwd_set x i q ns = Some ns' \<Longrightarrow> fwd_set x i q (ns(p := v)) = Some (ns'(p := v))"
  by (auto simp: fwd_set_def fun_upd_twist split: bind_splits if_splits)

lemma tall_upd [simp]: "x \<noteq> p \<Longrightarrow> tall (ns(p := v)) i x = tall ns i x"
  by (simp add: tall_def)

text \<open>The new node after its first \<open>k\<close> pointers are set.\<close>

definition filled :: "(nat \<Rightarrow> addr) \<Rightarrow> nat \<Rightarrow> SkipNode \<Rightarrow> SkipNode" where
  "filled q k n = n\<lparr>sk_next := map (\<lambda>j. if j < k then q j else sk_next n ! j) [0..<length (sk_next n)]\<rparr>"

lemma filled_0 [simp]: "filled q 0 n = n"
  by (simp add: filled_def map_nth)

lemma length_filled [simp]: "length (sk_next (filled q k n)) = length (sk_next n)"
  by (simp add: filled_def)

lemma filled_Suc:
  "k < length (sk_next n) \<Longrightarrow>
   (filled q k n)\<lparr>sk_next := (sk_next (filled q k n))[k := q k]\<rparr> = filled q (Suc k) n"
  by (auto simp: filled_def nth_list_update less_Suc_eq intro!: SkipNode.fold_congs nth_equalityI)

lemma skip_link_redirects:
  assumes "\<forall>j<k + m. upd j = Some (prev j) \<and> prev j \<noteq> p \<and> fwd_get ns (prev j) j = Some (q j)"
    and "k + m \<le> length (sk_next n)"
  shows "skip_link upd p k m ((redirected prev (\<lambda>_. p) k ns)(p \<mapsto> filled q k n)) =
    Some ((redirected prev (\<lambda>_. p) (k + m) ns)(p \<mapsto> filled q (k + m) n))"
  using assms
proof (induction m arbitrary: k)
  case (Suc m)
  let ?ns = "redirected prev (\<lambda>_. p) k ns"
  have k: "upd k = Some (prev k)" "prev k \<noteq> p" "fwd_get ns (prev k) k = Some (q k)" "k < length (sk_next n)"
    using Suc.prems by auto
  have t: "tall ns k (prev k)" using k(3) by (rule fwd_get_tall)
  have 1: "fwd_get (?ns(p \<mapsto> filled q k n)) (prev k) k = Some (q k)" using k by (simp add: fwd_get_redirected)
  have 2: "fwd_set p k (q k) (?ns(p \<mapsto> filled q k n)) = Some (?ns(p \<mapsto> filled q (Suc k) n))"
    using k(4) filled_Suc [of k n q] by (simp add: fwd_set_def)
  have 3: "fwd_set (prev k) k p (?ns(p \<mapsto> filled q (Suc k) n)) =
      Some ((redirected prev (\<lambda>_. p) (Suc k) ns)(p \<mapsto> filled q (Suc k) n))"
    using fwd_set_upd [OF k(2) fwd_set_redirected [of ns k prev "\<lambda>_. p"]] t by simp
  show ?case using Suc.IH [of "Suc k"] Suc.prems k(1) 1 2 3 by (simp del: fun_upd_apply fwd_get_upd)
qed simp

text \<open>After redirecting, the new node stands between the two parts of the sequence.\<close>

lemma linked_insert:
  assumes lk: "linked ns ((hdr # A) @ B)" and dist: "distinct ((hdr # A) @ B)" and p: "p \<notin> set ((hdr # A) @ B)"
    and ht: "length (sk_next n) = Suc lv"
    and prev: "\<forall>j\<le>lv. prev j = last_tall ns j (hdr # A)" and hdr: "\<forall>j\<le>lv. tall ns j hdr"
    and q: "\<forall>j\<le>lv. q j = first_tall ns j B"
  defines "ns' \<equiv> (redirected prev (\<lambda>_. p) (Suc lv) ns)(p \<mapsto> filled q (Suc lv) n)"
  shows "linked ns' ((hdr # A) @ p # B)"
proof -
  let ?S = "hdr # A"
  have tl: "tall ns' i x = tall ns i x" if "x \<noteq> p" for x i using that by (simp add: ns'_def)
  have fw: "fwd_get ns' x i = (if i \<le> lv \<and> prev i = x \<and> tall ns i x then Some p else fwd_get ns x i)" if "x \<noteq> p" for x i
    using that by (simp add: ns'_def fwd_get_redirected less_Suc_eq_le)
  have tp: "tall ns' i p \<longleftrightarrow> i \<le> lv" for i using ht by (auto simp: tall_def ns'_def)
  have prev_in: "prev j \<in> set ?S" if "j \<le> lv" for j using last_tall_in(1) [of hdr ?S ns j] that prev hdr by simp
  have ft: "first_tall ns' i xs = first_tall ns i xs" if "p \<notin> set xs" for i xs
    by (rule tall_cong) (use tl that in metis)
  have "prev j \<notin> set B" if "j \<le> lv" for j using prev_in [OF that] dist by auto
  then have "\<forall>x\<in>set B. ns' x = ns x"
    using p by (auto simp: ns'_def less_Suc_eq_le intro!: redirected_other)
  then have B: "linked ns' B" using linked_cong lk linked_appendD by blast
  have "fwd_get ns' p i = Some (q i)" if "i \<le> lv" for i
    using that ht by (simp add: fwd_get_def ns'_def filled_def del: upt_Suc)
  then have pB: "linked ns' (p # B)" using B tp q ft p by simp
  have "linked ns' (zs @ p # B)" if "?S = xs @ zs" for zs xs
    using that
  proof (induction zs arbitrary: xs)
    case (Cons x zs)
    have IH: "linked ns' (zs @ p # B)" using Cons.IH [of "xs @ [x]"] Cons.prems by simp
    have x: "x \<noteq> p" "p \<notin> set zs" "p \<notin> set B" using p Cons.prems by auto
    have "fwd_get ns' x i = Some (first_tall ns' i (zs @ p # B))" if t: "tall ns i x" for i
    proof -
      have old: "fwd_get ns x i = Some (first_tall ns i (zs @ B))"
        using linked_at [of ns xs x "zs @ B" i] lk Cons.prems t by simp
      have "prev i = last (x # filter (tall ns i) zs)" if "i \<le> lv"
        using prev that t Cons.prems by (simp add: last_tall_split)
      moreover have "last (filter (tall ns i) zs) \<noteq> x" if "filter (tall ns i) zs \<noteq> []"
        using last_in_set [OF that] dist Cons.prems by auto
      ultimately have "prev i = x \<longleftrightarrow> filter (tall ns i) zs = []" if "i \<le> lv"
        using that by auto
      moreover have "filter (tall ns' i) zs = filter (tall ns i) zs"
        by (rule filter_cong) (use tl x(2) in metis)+
      ultimately show ?thesis
        using old x t tp ft [of zs] ft [of B]
        by (auto simp: first_tall_append first_tall_Cons fw)
    qed
    then show ?case using IH tl x(1) by simp
  qed (use pB in simp)
  from this [of "[]" ?S] show ?thesis by simp
qed

section \<open>Taking a node out\<close>

lemma skip_unlink_redirects:
  assumes "\<forall>j<k + m. upd j = Some (prev j)" and "\<forall>j<ht. fwd_get ns (prev j) j = Some c \<and> prev j \<noteq> c"
    and "\<forall>j<ht. fwd_get ns c j = Some (q j)" and "ht \<le> k + m"
    and "ht < k + m \<longrightarrow> (\<exists>f. fwd_get ns (prev ht) ht = Some f \<and> f \<noteq> c)" and "k \<le> ht"
  shows "skip_unlink upd c k m (redirected prev q k ns) = Some (redirected prev q ht ns)"
  using assms(1,4,5,6)
proof (induction m arbitrary: k)
  case (Suc m)
  have u: "upd k = Some (prev k)" using Suc.prems(1) by simp
  show ?case
  proof (cases "k < ht")
    case True
    have t: "tall ns k (prev k)" using assms(2) True fwd_get_tall by blast
    have 1: "fwd_get (redirected prev q k ns) (prev k) k = Some c" "fwd_get (redirected prev q k ns) c k = Some (q k)"
      using assms(2,3) True by (simp_all add: fwd_get_redirected)
    with Suc.IH [of "Suc k"] Suc.prems u fwd_set_redirected [of ns k prev q] t True show ?thesis by simp
  next
    case False
    then have "ht = k" using Suc.prems(4) by simp
    with Suc.prems u show ?thesis by (auto simp: fwd_get_redirected)
  qed
qed simp

lemma linked_remove:
  assumes lk: "linked ns ((hdr # A) @ c # B)" and dist: "distinct ((hdr # A) @ c # B)" and nz: "0 \<notin> set (A @ c # B)"
    and n: "ns c = Some n" and hdr: "\<forall>j<length (sk_next n). tall ns j hdr"
    and prev: "\<forall>j<length (sk_next n). prev j = last_tall ns j (hdr # A)"
    and q: "\<forall>j<length (sk_next n). q j = first_tall ns j B"
  defines "ns' \<equiv> (redirected prev q (length (sk_next n)) ns)(c := None)"
  shows "linked ns' ((hdr # A) @ B)"
proof -
  let ?S = "hdr # A" and ?h = "length (sk_next n)"
  have tl: "tall ns' i x = tall ns i x" if "x \<noteq> c" for x i using that by (simp add: ns'_def)
  have fw: "fwd_get ns' x i = (if i < ?h \<and> prev i = x \<and> tall ns i x then Some (q i) else fwd_get ns x i)" if "x \<noteq> c" for x i
    using that by (simp add: ns'_def fwd_get_redirected)
  have tc: "tall ns i c \<longleftrightarrow> i < ?h" for i using n by (auto simp: tall_def)
  have prev_in: "prev j \<in> set ?S" if "j < ?h" for j using last_tall_in(1) [of hdr ?S ns j] that prev hdr by simp
  have ft: "first_tall ns' i xs = first_tall ns i xs" if "c \<notin> set xs" for i xs
    by (rule tall_cong) (use tl that in metis)
  have "prev j \<notin> set B" if "j < ?h" for j using prev_in [OF that] dist by auto
  then have "\<forall>x\<in>set B. ns' x = ns x"
    using dist by (auto simp: ns'_def intro!: redirected_other)
  then have B: "linked ns' B" using linked_cong lk linked_appendD [of ns "?S @ [c]" B] by auto
  have "linked ns' (zs @ B)" if "?S = xs @ zs" for zs xs
    using that
  proof (induction zs arbitrary: xs)
    case (Cons x zs)
    have IH: "linked ns' (zs @ B)" using Cons.IH [of "xs @ [x]"] Cons.prems by simp
    have x: "x \<noteq> c" "c \<notin> set zs" "c \<notin> set B" using dist Cons.prems by auto
    have "fwd_get ns' x i = Some (first_tall ns' i (zs @ B))" if t: "tall ns i x" for i
    proof -
      have old: "fwd_get ns x i = Some (first_tall ns i (zs @ c # B))"
        using linked_at [of ns xs x "zs @ c # B" i] lk Cons.prems t by simp
      have "prev i = last (x # filter (tall ns i) zs)" if "i < ?h"
        using prev that t Cons.prems by (simp add: last_tall_split)
      moreover have "last (filter (tall ns i) zs) \<noteq> x" if "filter (tall ns i) zs \<noteq> []"
        using last_in_set [OF that] dist Cons.prems by auto
      ultimately have "prev i = x \<longleftrightarrow> filter (tall ns i) zs = []" if "i < ?h"
        using that by auto
      moreover have "filter (tall ns' i) zs = filter (tall ns i) zs"
        by (rule filter_cong) (use tl x(2) in metis)+
      ultimately show ?thesis
        using old x t tc q ft [of zs] ft [of B]
        by (auto simp: first_tall_append first_tall_Cons fw)
    qed
    then show ?case using IH tl x(1) by simp
  qed (use B in simp)
  from this [of "[]" ?S] show ?thesis by simp
qed

text \<open>The list becomes as low as its tallest node.\<close>

lemma skip_shrink_level:
  assumes "linked ns (hdr # ps)" and "0 \<notin> set ps" and "tall ns level hdr"
  shows "\<exists>level'\<le>level. skip_shrink ns hdr level = Some level' \<and>
           (\<forall>p\<in>set ps. \<forall>j. tall ns j p \<longrightarrow> j \<le> level \<longrightarrow> j \<le> level')"
  using assms(3)
proof (induction level)
  case (Suc level)
  have f: "fwd_get ns hdr (Suc level) = Some (first_tall ns (Suc level) ps)" using assms(1) Suc.prems by simp
  show ?case
  proof (cases "first_tall ns (Suc level) ps = 0")
    case True
    then have none: "\<forall>p\<in>set ps. \<not> tall ns (Suc level) p"
      using first_tall_0_iff assms(2) by (simp add: filter_empty_conv)
    have "tall ns level hdr" using Suc.prems tall_mono le_SucI by blast
    from Suc.IH [OF this] none f True show ?thesis by (auto simp: le_Suc_eq intro: le_SucI)
  next
    case False
    then show ?thesis using f by auto
  qed
qed auto

section \<open>The list and its entries\<close>

definition entry_of :: "SkipNode \<Rightarrow> ZRangeEntry" where
  "entry_of n = \<lparr>z_key = cstr_of (sk_key n), z_value = cstr_of (sk_value n), z_score = sk_score n\<rparr>"

definition node_ok :: "SkipNode \<Rightarrow> bool" where
  "node_ok n \<longleftrightarrow> is_str (sk_key n) \<and> is_str (sk_value n) \<and> \<not> is_nan (sk_score n) \<and> sk_next n \<noteq> []"

definition sk_rep :: "SkipList \<Rightarrow> addr list \<Rightarrow> bool" where
  "sk_rep lst ps \<longleftrightarrow>
     \<not> sk_lock lst \<and> sk_level lst \<le> SKIP_MAX_LEVEL \<and> sk_length lst = int (length ps) \<and>
     distinct (sk_header lst # ps) \<and> 0 \<notin> set (sk_header lst # ps) \<and>
     linked (sk_nodes lst) (sk_header lst # ps) \<and>
     (\<forall>j. tall (sk_nodes lst) j (sk_header lst) \<longleftrightarrow> j \<le> SKIP_MAX_LEVEL) \<and>
     (\<forall>p\<in>set ps. \<exists>n. sk_nodes lst p = Some n \<and> node_ok n \<and> length (sk_next n) \<le> Suc (sk_level lst))"

definition sk_entries :: "SkipList \<Rightarrow> addr list \<Rightarrow> ZRangeEntry list" where
  "sk_entries lst ps = map (\<lambda>p. entry_of (the (sk_nodes lst p))) ps"

text \<open>The order of the entries: by score, then by key.\<close>

definition zbefore :: "cstring \<Rightarrow> double \<Rightarrow> ZRangeEntry \<Rightarrow> bool" where
  "zbefore key score z \<longleftrightarrow>
     dbl_rank (z_score z) < dbl_rank score \<or> dbl_rank (z_score z) = dbl_rank score \<and> z_key z < key"

definition zless :: "ZRangeEntry \<Rightarrow> ZRangeEntry \<Rightarrow> bool" where
  "zless a b \<longleftrightarrow> zbefore (z_key b) (z_score b) a"

text \<open>
  The list holds the entries \<open>zs\<close>, sorted. Its nodes are blocks in use.
\<close>

definition skip_ok :: "SkipList \<Rightarrow> addr set \<Rightarrow> ZRangeEntry list \<Rightarrow> bool" where
  "skip_ok lst L zs \<longleftrightarrow>
     (\<exists>ps. sk_rep lst ps \<and> set (sk_header lst # ps) \<subseteq> L \<and> zs = sk_entries lst ps \<and> sorted_wrt zless zs)"

lemma zbefore_trans: "zless a b \<Longrightarrow> zbefore key score b \<Longrightarrow> zbefore key score a"
  by (auto simp: zless_def zbefore_def)

lemma sorted_dropWhile:
  assumes "sorted_wrt R zs" and "\<And>a b. R a b \<Longrightarrow> P b \<Longrightarrow> P a"
  shows "\<forall>z\<in>set (dropWhile P zs). \<not> P z"
  using assms(1)
proof (induction zs)
  case (Cons z zs)
  show ?case
  proof (cases "P z")
    case True
    then show ?thesis using Cons.IH Cons.prems by (metis dropWhile.simps(2) sorted_wrt.simps(2))
  next
    case False
    then have "\<forall>y\<in>set zs. \<not> P y" using Cons.prems assms(2) [of z] by (meson sorted_wrt.simps(2))
    then show ?thesis using False by simp
  qed
qed simp

lemma sk_rep_node: "sk_rep lst ps \<Longrightarrow> p \<in> set ps \<Longrightarrow> \<exists>n. sk_nodes lst p = Some n \<and> node_ok n"
  by (auto simp: sk_rep_def)

text \<open>A search splits the nodes the way its predicate splits the entries.\<close>

lemma sk_split:
  assumes rep: "sk_rep lst ps" and bf: "\<And>n. node_ok n \<Longrightarrow> bf n = Some (P (entry_of n))"
    and rest: "\<forall>z\<in>set (dropWhile P (sk_entries lst ps)). \<not> P z"
  obtains A B where "ps = A @ B" and "sk_entries lst A = takeWhile P (sk_entries lst ps)"
    and "sk_entries lst B = dropWhile P (sk_entries lst ps)" and "split_at bf (sk_nodes lst) (sk_header lst) A B"
proof -
  let ?e = "\<lambda>p. entry_of (the (sk_nodes lst p))"
  let ?A = "takeWhile (P \<circ> ?e) ps" and ?B = "dropWhile (P \<circ> ?e) ps"
  have 1: "sk_entries lst ?A = takeWhile P (sk_entries lst ps)" "sk_entries lst ?B = dropWhile P (sk_entries lst ps)"
    by (simp_all add: sk_entries_def takeWhile_map dropWhile_map)
  have A: "\<exists>n. sk_nodes lst p = Some n \<and> bf n = Some True" if "p \<in> set ?A" for p
    using sk_rep_node [OF rep, of p] set_takeWhileD [OF that] bf by auto
  have B: "\<exists>n. sk_nodes lst p = Some n \<and> bf n = Some False" if "p \<in> set ?B" for p
  proof -
    have "?e p \<in> set (sk_entries lst ?B)" using that by (auto simp: sk_entries_def)
    then have "\<not> P (?e p)" using rest 1(2) by simp
    then show ?thesis using sk_rep_node [OF rep, of p] set_dropWhileD [OF that] bf by auto
  qed
  have "split_at bf (sk_nodes lst) (sk_header lst) ?A ?B"
    using rep A B by (auto simp: split_at_def sk_rep_def dest: set_takeWhileD set_dropWhileD)
  with 1 show ?thesis using that [of ?A ?B] by simp
qed

lemma zadd_before_entry:
  "node_ok n \<Longrightarrow> \<not> is_nan score \<Longrightarrow> zadd_before key score n = Some (zbefore key score (entry_of n))"
  by (auto simp: zadd_before_def zbefore_def node_ok_def entry_of_def dbl_less_def dbl_eq_def sk_strcmp_def)

lemma zrem_before_entry: "node_ok n \<Longrightarrow> zrem_before key n = Some (z_key (entry_of n) < key)"
  by (simp add: zrem_before_def node_ok_def entry_of_def sk_strcmp_def)

text \<open>Where a search ends, and what it has recorded.\<close>

lemma sk_place:
  assumes rep: "sk_rep lst (A @ B)"
  shows "j \<le> SKIP_MAX_LEVEL \<Longrightarrow>
         fwd_get (sk_nodes lst) (last_tall (sk_nodes lst) j (sk_header lst # A)) j = Some (first_tall (sk_nodes lst) j B)"
    and "first_tall (sk_nodes lst) 0 B = (case B of [] \<Rightarrow> 0 | c # _ \<Rightarrow> c)"
    and "sk_level lst < j \<Longrightarrow> last_tall (sk_nodes lst) j (sk_header lst # A) = sk_header lst \<or> SKIP_MAX_LEVEL < j"
proof -
  let ?ns = "sk_nodes lst" and ?h = "sk_header lst"
  have hdr: "tall ?ns j ?h \<longleftrightarrow> j \<le> SKIP_MAX_LEVEL" for j using rep by (simp add: sk_rep_def)
  have lk: "linked ?ns ((?h # A) @ B)" and dist: "distinct ((?h # A) @ B)" using rep by (simp_all add: sk_rep_def)
  show "fwd_get ?ns (last_tall ?ns j (?h # A)) j = Some (first_tall ?ns j B)" if "j \<le> SKIP_MAX_LEVEL"
  proof -
    define l where "l = last_tall ?ns j (?h # A)"
    have l: "l \<in> set (?h # A)" "tall ?ns j l" using last_tall_in [of ?h "?h # A" ?ns j] hdr that l_def by auto
    then obtain xs zs where S: "?h # A = xs @ l # zs" by (metis split_list)
    have "l = last_tall ?ns j (xs @ l # zs)" unfolding S [symmetric] by (rule l_def)
    also have "\<dots> = last (l # filter (tall ?ns j) zs)" by (rule last_tall_split [OF l(2)])
    finally have "last (l # filter (tall ?ns j) zs) = l" by simp
    moreover have "l \<notin> set zs" using dist unfolding S by auto
    ultimately have "filter (tall ?ns j) zs = []"
      using last_in_set [of "filter (tall ?ns j) zs"] by (auto split: if_splits)
    then have "fwd_get ?ns l j = Some (first_tall ?ns j B)"
      using linked_at [of ?ns xs l "zs @ B" j] lk l(2) unfolding S by (simp add: first_tall_append)
    then show ?thesis unfolding l_def .
  qed
  show "first_tall ?ns 0 B = (case B of [] \<Rightarrow> 0 | c # _ \<Rightarrow> c)"
    using rep by (cases B) (auto simp: first_tall_Cons sk_rep_def tall_def node_ok_def)
  show "last_tall ?ns j (?h # A) = ?h \<or> SKIP_MAX_LEVEL < j" if "sk_level lst < j"
  proof -
    have "\<not> tall ?ns j p" if "p \<in> set A" for p
    proof -
      have "\<exists>n. ?ns p = Some n \<and> length (sk_next n) \<le> Suc (sk_level lst)" using rep that by (auto simp: sk_rep_def)
      then show ?thesis using \<open>sk_level lst < j\<close> by (auto simp: tall_def)
    qed
    then have "filter (tall ?ns j) A = []" by (simp add: filter_empty_conv)
    then show ?thesis using hdr [of j] by (auto simp: last_tall_def)
  qed
qed

text \<open>The search has recorded the place between \<open>A\<close> and the rest.\<close>

definition search_ends ::
  "(SkipNode \<Rightarrow> bool option) \<Rightarrow> SkipList \<Rightarrow> addr list \<Rightarrow> (nat \<Rightarrow> addr option) \<Rightarrow> bool" where
  "search_ends bf lst A upd \<longleftrightarrow>
     skip_descend bf (sk_nodes lst) (sk_level lst) (sk_header lst) =
       Some (last_tall (sk_nodes lst) 0 (sk_header lst # A), upd) \<and>
     (\<forall>j \<le> sk_level lst. upd j = Some (last_tall (sk_nodes lst) j (sk_header lst # A)))"

lemma sk_search:
  assumes rep: "sk_rep lst (A @ B)" and split: "split_at bf (sk_nodes lst) (sk_header lst) A B"
  shows "\<exists>upd. search_ends bf lst A upd"
  unfolding search_ends_def by (rule skip_descend_to [OF split]) (use rep in \<open>simp_all add: sk_rep_def\<close>)

lemma sk_search_any:
  assumes rep: "sk_rep lst ps" and bf: "\<And>n. node_ok n \<Longrightarrow> \<exists>b. bf n = Some b"
  shows "\<exists>A B upd. ps = A @ B \<and> search_ends bf lst A upd"
proof -
  have "linked (sk_nodes lst) ([] @ sk_header lst # ps)" "0 \<notin> set ps" "tall (sk_nodes lst) (sk_level lst) (sk_header lst)"
    using rep by (simp_all add: sk_rep_def)
  moreover have "\<forall>p\<in>set ps. \<exists>n b. sk_nodes lst p = Some n \<and> bf n = Some b" using sk_rep_node [OF rep] bf by blast
  ultimately obtain ys B upd where "ps = ys @ B"
    "skip_descend bf (sk_nodes lst) (sk_level lst) (sk_header lst) = Some (last_tall (sk_nodes lst) 0 ([] @ sk_header lst # ys), upd)"
    "\<forall>j \<le> sk_level lst. upd j = Some (last_tall (sk_nodes lst) j ([] @ sk_header lst # ys))"
    using skip_descend_any [of "sk_nodes lst" "[]" "sk_header lst" ps bf "sk_level lst"] by blast
  then show ?thesis unfolding search_ends_def by auto
qed

section \<open>Adding an entry\<close>

lemma randomLevel_bound: "fst (randomLevel g) \<le> SKIP_MAX_LEVEL"
proof -
  have "fst (random_level_loop n l g) \<le> l + n" for n l
  proof (induction n arbitrary: l g)
    case (Suc n)
    obtain r g' where r: "rand g = (r, g')" by fastforce
    have "fst (if c then x else (l, g')) \<le> l + Suc n" if "fst x \<le> Suc l + n" for c and x :: "nat \<times> rng"
      using that by simp
    from this [OF Suc.IH] show ?case unfolding random_level_loop.simps r Let_def prod.case .
  qed simp
  from this [of SKIP_MAX_LEVEL 0] show ?thesis by (simp add: randomLevel_def)
qed

lemma createSkipNode_ok:
  assumes inv: "heap_inv h L" and mem: "mem_budget h (m + 4)"
  shows "\<exists>p n h' L'. createSkipNode lv key val score h = Some (p, n, h') \<and> p \<notin> L \<and> p \<noteq> 0 \<and> p \<in> L' \<and> L \<subseteq> L' \<and>
           heap_inv h' L' \<and> mem_budget h' m \<and> sk_next n = replicate (Suc lv) 0 \<and> (\<not> is_nan score \<longrightarrow> node_ok n) \<and>
           entry_of n = \<lparr>z_key = key, z_value = val, z_score = score\<rparr>"
proof -
  have mem': "mem_budget h (Suc (Suc (Suc (Suc m))))" using mem by (simp add: numeral_eq_Suc)
  obtain p h1 where 1: "malloc sizeof_SkipNode h = (p, h1)" by fastforce
  note b1 = sys_malloc_budget [OF mem' 1]
  note i1 = malloc_heap_inv(1) [OF inv 1]
  obtain k h2 where 2: "malloc (of_nat (length key + 1)) h1 = (k, h2)" by fastforce
  note b2 = sys_malloc_budget [OF conjunct2 [OF b1] 2]
  obtain v h3 where 3: "malloc (of_nat (length val + 1)) h2 = (v, h3)" by fastforce
  note b3 = sys_malloc_budget [OF conjunct2 [OF b2] 3]
  obtain f h4 where 4: "malloc (of_nat (lv + 1) * sizeof_ptr) h3 = (f, h4)" by fastforce
  note b4 = sys_malloc_budget [OF conjunct2 [OF b3] 4]
  have "heap_inv h4 (insert p L)"
    using sys_malloc_inv [OF sys_malloc_inv [OF sys_malloc_inv [OF _ 2] 3] 4] i1 b1 by blast
  with 1 2 3 4 b1 b2 b3 b4 i1 show ?thesis
    by (auto simp: createSkipNode_def strdup_def node_ok_def entry_of_def)
qed

definition spec_zadd :: "cstring \<Rightarrow> cstring \<Rightarrow> double \<Rightarrow> ZRangeEntry list \<Rightarrow> int \<times> ZRangeEntry list" where
  "spec_zadd key val score zs =
     (let A = takeWhile (zbefore key score) zs; B = dropWhile (zbefore key score) zs;
          z = \<lparr>z_key = key, z_value = val, z_score = score\<rparr>
      in case B of
           [] \<Rightarrow> (0, A @ [z])
         | b # B' \<Rightarrow> if dbl_rank (z_score b) = dbl_rank score \<and> z_key b = key
                     then (1, A @ b\<lparr>z_value := val\<rparr> # B') else (0, A @ z # B))"

lemma sk_entries_append [simp]: "sk_entries lst (xs @ ys) = sk_entries lst xs @ sk_entries lst ys"
  by (simp add: sk_entries_def)

lemma sk_entries_Cons [simp]: "sk_entries lst (x # xs) = entry_of (the (sk_nodes lst x)) # sk_entries lst xs"
  by (simp add: sk_entries_def)

lemma sk_entries_Nil [simp]: "sk_entries lst [] = []"
  by (simp add: sk_entries_def)

lemma redirect_fields [simp]:
  "entry_of (redirect prev tgt k x n) = entry_of n" "node_ok (redirect prev tgt k x n) = node_ok n"
  "length (sk_next (redirect prev tgt k x n)) = length (sk_next n)"
  by (auto simp: redirect_def entry_of_def node_ok_def)

lemma filled_fields [simp]: "entry_of (filled q k n) = entry_of n" "node_ok (filled q k n) = node_ok n"
  by (auto simp: filled_def entry_of_def node_ok_def)

text \<open>The state after linking a node in, as a whole.\<close>

lemma sk_rep_insert:
  assumes rep: "sk_rep lst (A @ B)" and p: "p \<notin> set (sk_header lst # A @ B)" "p \<noteq> 0"
    and n: "length (sk_next n) = Suc lv" "lv \<le> SKIP_MAX_LEVEL" "node_ok n"
    and prev: "\<forall>j\<le>lv. prev j = last_tall (sk_nodes lst) j (sk_header lst # A)"
    and q: "\<forall>j\<le>lv. q j = first_tall (sk_nodes lst) j B"
  defines "lst' \<equiv> lst\<lparr>sk_level := max lv (sk_level lst),
      sk_nodes := (redirected prev (\<lambda>_. p) (Suc lv) (sk_nodes lst))(p \<mapsto> filled q (Suc lv) n),
      sk_length := sk_length lst + 1\<rparr>"
  shows "sk_rep lst' (A @ p # B)"
    and "sk_entries lst' (A @ p # B) = sk_entries lst A @ entry_of n # sk_entries lst B"
proof -
  let ?ns = "sk_nodes lst" and ?h = "sk_header lst"
  have hdr: "tall ?ns j ?h \<longleftrightarrow> j \<le> SKIP_MAX_LEVEL" for j using rep by (simp add: sk_rep_def)
  have node: "\<exists>m. ?ns x = Some m \<and> node_ok m \<and> length (sk_next m) \<le> Suc (sk_level lst)" if "x \<in> set (A @ B)" for x
    using rep that by (simp add: sk_rep_def)
  have new: "sk_nodes lst' x = map_option (redirect prev (\<lambda>_. p) (Suc lv) x) (?ns x)" if "x \<in> set (A @ B)" for x
    using that p(1) by (auto simp: lst'_def redirected_def)
  have "linked (sk_nodes lst') ((?h # A) @ p # B)"
    using linked_insert [of ?ns ?h A B p n lv prev q] rep p n prev q hdr by (simp add: lst'_def sk_rep_def)
  moreover have "?h \<noteq> p" using p(1) by auto
  then have "tall (sk_nodes lst') j ?h \<longleftrightarrow> j \<le> SKIP_MAX_LEVEL" for j
    using hdr by (simp add: lst'_def)
  moreover have "\<exists>m. sk_nodes lst' x = Some m \<and> node_ok m \<and> length (sk_next m) \<le> Suc (sk_level lst')"
    if "x \<in> set (A @ p # B)" for x
  proof (cases "x = p")
    case True
    then show ?thesis using n by (simp add: lst'_def)
  next
    case False
    then have "x \<in> set (A @ B)" using that by auto
    from node [OF this] new [OF this] show ?thesis by (auto simp: lst'_def)
  qed
  ultimately show "sk_rep lst' (A @ p # B)"
    using rep p n(2) by (auto simp: sk_rep_def lst'_def)
  have "entry_of (the (sk_nodes lst' x)) = entry_of (the (?ns x))" if "x \<in> set (A @ B)" for x
    using node [OF that] new [OF that] by auto
  then show "sk_entries lst' (A @ p # B) = sk_entries lst A @ entry_of n # sk_entries lst B"
    by (auto simp: sk_entries_def lst'_def)
qed

lemma zless_trans: "zless a b \<Longrightarrow> zless b c \<Longrightarrow> zless a c"
  by (auto simp: zless_def zbefore_def)

lemma zless_value [simp]: "zless (b\<lparr>z_value := v\<rparr>) c = zless b c" "zless a (b\<lparr>z_value := v\<rparr>) = zless a b"
  by (simp_all add: zless_def zbefore_def)

lemma zless_new:
  "\<not> zbefore key score b \<Longrightarrow> \<not> (dbl_rank (z_score b) = dbl_rank score \<and> z_key b = key) \<Longrightarrow>
   zless \<lparr>z_key = key, z_value = val, z_score = score\<rparr> b"
  by (auto simp: zless_def zbefore_def)

lemma spec_zadd_sorted:
  assumes "sorted_wrt zless zs"
  shows "sorted_wrt zless (snd (spec_zadd key val score zs))"
proof -
  let ?A = "takeWhile (zbefore key score) zs" and ?B = "dropWhile (zbefore key score) zs"
  let ?z = "\<lparr>z_key = key, z_value = val, z_score = score\<rparr>"
  have AB: "sorted_wrt zless (?A @ ?B)" using assms by simp
  have A: "zless a ?z" if "a \<in> set ?A" for a using set_takeWhileD [OF that] by (simp add: zless_def)
  show ?thesis
  proof (cases ?B)
    case Nil
    have "sorted_wrt zless (?A @ [?z])" using AB A by (simp add: sorted_wrt_append)
    then show ?thesis unfolding spec_zadd_def Let_def Nil by simp
  next
    case (Cons b B')
    note AB' = AB [unfolded Cons]
    show ?thesis
    proof (cases "dbl_rank (z_score b) = dbl_rank score \<and> z_key b = key")
      case True
      have "sorted_wrt zless (?A @ b\<lparr>z_value := val\<rparr> # B')" using AB' by (simp add: sorted_wrt_append)
      then show ?thesis using True unfolding spec_zadd_def Let_def Cons by simp
    next
      case False
      have "\<not> zbefore key score b" using hd_dropWhile [of "zbefore key score" zs] Cons by simp
      then have zb: "zless ?z b" using zless_new False by blast
      then have "zless ?z y" if "y \<in> set (b # B')" for y
        using that AB' zless_trans by (auto simp: sorted_wrt_append)
      then have "sorted_wrt zless (?A @ ?z # b # B')" using AB' A by (simp add: sorted_wrt_append)
      then show ?thesis using False unfolding spec_zadd_def Let_def Cons by auto
    qed
  qed
qed

text \<open>Replacing the value of an entry that is there.\<close>

lemma sk_rep_update:
  assumes rep: "sk_rep lst (A @ c # B)" and c: "sk_nodes lst c = Some n" and v: "is_str v"
  defines "lst' \<equiv> lst\<lparr>sk_nodes := (sk_nodes lst)(c \<mapsto> n\<lparr>sk_value := v\<rparr>)\<rparr>"
  shows "sk_rep lst' (A @ c # B)"
    and "sk_entries lst' (A @ c # B) = sk_entries lst A @ (entry_of n)\<lparr>z_value := cstr_of v\<rparr> # sk_entries lst B"
proof -
  have tl: "tall (sk_nodes lst') i x = tall (sk_nodes lst) i x" for i x using c by (auto simp: lst'_def tall_def)
  have fw: "fwd_get (sk_nodes lst') x i = fwd_get (sk_nodes lst) x i" for x i using c by (auto simp: lst'_def fwd_get_def)
  have ft: "first_tall (sk_nodes lst') i xs = first_tall (sk_nodes lst) i xs" for i xs
    by (rule tall_cong) (simp add: tl)
  have "linked (sk_nodes lst') qs = linked (sk_nodes lst) qs" for qs
    by (induction qs) (simp_all add: tl fw ft)
  then show "sk_rep lst' (A @ c # B)"
    using rep c v tl by (auto simp: sk_rep_def node_ok_def lst'_def simp del: linked.simps)
  have "c \<notin> set (A @ B)" using rep by (auto simp: sk_rep_def)
  then show "sk_entries lst' (A @ c # B) = sk_entries lst A @ (entry_of n)\<lparr>z_value := cstr_of v\<rparr> # sk_entries lst B"
    by (auto simp: sk_entries_def lst'_def entry_of_def)
qed

lemma strdup_ok:
  assumes "heap_inv h L" and "mem_budget h (Suc m)"
  shows "\<exists>v h'. strdup s h = (v, h') \<and> is_str v \<and> cstr_of v = s \<and> heap_inv h' L \<and> mem_budget h' m"
proof -
  obtain p h' where 1: "malloc (of_nat (length s + 1)) h = (p, h')" by (cases "malloc (of_nat (length s + 1)) h")
  with sys_malloc_budget [OF assms(2) 1] sys_malloc_inv [OF assms(1) 1] show ?thesis by (simp add: strdup_def)
qed

lemma zadd_hit_entry:
  assumes "sk_nodes lst c = Some n" and "node_ok n" and "c \<noteq> 0" and "\<not> is_nan score"
  shows "zadd_hit key score (sk_nodes lst) c =
    Some (dbl_rank (z_score (entry_of n)) = dbl_rank score \<and> z_key (entry_of n) = key)"
  using assms by (auto simp: zadd_hit_def node_ok_def entry_of_def dbl_eq_def sk_strcmp_def)

lemma skip_ok_mono: "skip_ok lst S zs \<Longrightarrow> S \<subseteq> S' \<Longrightarrow> skip_ok lst S' zs"
  unfolding skip_ok_def by blast

text \<open>The nodes are some of the blocks in use; a new node is none of them.\<close>

lemma zadd_frame:
  assumes ok: "skip_ok lst S zs" and sub: "S \<subseteq> L" and inv: "heap_inv h L" and mem: "mem_budget h (m + 4)" and score: "\<not> is_nan score"
  shows "\<exists>lst' g' h' L'. kvs_skiptable_zadd lst key val score g h = ret (fst (spec_zadd key val score zs), lst', g', h') \<and>
           skip_ok lst' (S \<union> (L' - L)) (snd (spec_zadd key val score zs)) \<and> heap_inv h' L' \<and> mem_budget h' m \<and> L \<subseteq> L'"
proof -
  let ?ns = "sk_nodes lst" and ?h = "sk_header lst" and ?P = "zbefore key score"
  obtain ps where ps: "sk_rep lst ps" "set (?h # ps) \<subseteq> S" "zs = sk_entries lst ps" "sorted_wrt zless zs"
    using ok by (auto simp: skip_ok_def)
  have rest: "\<forall>z\<in>set (dropWhile ?P (sk_entries lst ps)). \<not> ?P z"
    by (rule sorted_dropWhile [OF ps(4) [unfolded ps(3)]]) (rule zbefore_trans)
  obtain A B where AB: "ps = A @ B" "sk_entries lst A = takeWhile ?P zs" "sk_entries lst B = dropWhile ?P zs"
    "split_at (zadd_before key score) ?ns ?h A B"
    using sk_split [OF ps(1) _ rest, of "zadd_before key score"] zadd_before_entry [OF _ score] ps(3) by blast
  note rep = ps(1) [unfolded AB(1)]
  note search = sk_place [OF rep]
  obtain upd where upd: "skip_descend (zadd_before key score) ?ns (sk_level lst) ?h = Some (last_tall ?ns 0 (?h # A), upd)"
    "\<forall>j \<le> sk_level lst. upd j = Some (last_tall ?ns j (?h # A))"
    using sk_search [OF rep AB(4)] unfolding search_ends_def by blast
  have cur: "fwd_get ?ns (last_tall ?ns 0 (?h # A)) 0 = Some (case B of [] \<Rightarrow> 0 | c # _ \<Rightarrow> c)"
    using search(1) [of 0] search(2) by simp
  have unlocked: "\<not> sk_lock lst" using rep by (simp add: sk_rep_def)
  show ?thesis
  proof (cases "\<exists>c B' n. B = c # B' \<and> ?ns c = Some n \<and>
      dbl_rank (z_score (entry_of n)) = dbl_rank score \<and> z_key (entry_of n) = key")
    case True
    then obtain c B' n where c: "B = c # B'" "?ns c = Some n"
      "dbl_rank (z_score (entry_of n)) = dbl_rank score" "z_key (entry_of n) = key" by blast
    have n: "node_ok n" "c \<noteq> 0" using rep c by (auto simp: sk_rep_def)
    obtain v h' where v: "strdup val (free (caddr (sk_value n)) h) = (v, h')" "is_str v" "cstr_of v = val"
      "heap_inv h' L" "mem_budget h' m"
      using strdup_ok [of "free (caddr (sk_value n)) h" L m val] inv mem_budget_mono [OF mem, of "Suc m"] by auto
    let ?lst = "lst\<lparr>sk_nodes := ?ns(c \<mapsto> n\<lparr>sk_value := v\<rparr>)\<rparr>"
    have spec: "spec_zadd key val score zs = (1, sk_entries ?lst (A @ c # B'))"
      using AB(2) c sk_rep_update(2) [OF rep [unfolded c(1)] c(2) v(2)] v(3)
      unfolding spec_zadd_def Let_def AB(3) [symmetric] by simp
    have "kvs_skiptable_zadd lst key val score g h = ret (1, ?lst, g, h')"
      using upd(1) cur c v(1) unlocked zadd_hit_entry [OF c(2) n score, of key]
      by (simp add: kvs_skiptable_zadd_def zadd_locked_def)
    moreover have "skip_ok ?lst S (sk_entries ?lst (A @ c # B'))"
      using sk_rep_update(1) [OF rep [unfolded c(1)] c(2) v(2)] ps(2) AB(1) c(1) spec_zadd_sorted [OF ps(4), of key val score] spec
      unfolding skip_ok_def by (intro exI [of _ "A @ c # B'"]) auto
    ultimately show ?thesis using v(4,5) spec by (auto intro!: exI [of _ L])
  next
    case False
    have hit: "zadd_hit key score ?ns (case B of [] \<Rightarrow> 0 | c # _ \<Rightarrow> c) = Some False"
    proof (cases B)
      case (Cons c B')
      then obtain n where n: "?ns c = Some n" "node_ok n" "c \<noteq> 0" using rep by (auto simp: sk_rep_def)
      with False Cons show ?thesis using zadd_hit_entry [OF n score, of key] by auto
    qed (simp add: zadd_hit_def)
    obtain lv g' where lv: "randomLevel g = (lv, g')" "lv \<le> SKIP_MAX_LEVEL"
      using randomLevel_bound [of g] by (cases "randomLevel g") auto
    obtain p n h' L' where p: "createSkipNode lv key val score h = Some (p, n, h')" "p \<notin> L" "p \<noteq> 0" "p \<in> L'" "L \<subseteq> L'"
      "heap_inv h' L'" "mem_budget h' m" "length (sk_next n) = Suc lv" "node_ok n"
      "entry_of n = \<lparr>z_key = key, z_value = val, z_score = score\<rparr>"
      using createSkipNode_ok [OF inv mem, of lv key val score] score by (metis length_replicate)
    let ?prev = "\<lambda>j. last_tall ?ns j (?h # A)" and ?q = "\<lambda>j. first_tall ?ns j B"
    let ?lst = "lst\<lparr>sk_level := max lv (sk_level lst),
        sk_nodes := (redirected ?prev (\<lambda>_. p) (Suc lv) ?ns)(p \<mapsto> filled ?q (Suc lv) n), sk_length := sk_length lst + 1\<rparr>"
    have pn: "p \<notin> set (?h # A @ B)" using p(2) ps(2) AB(1) sub by auto
    have link: "zadd_update upd lst lv j = Some (?prev j) \<and> ?prev j \<noteq> p \<and> fwd_get ?ns (?prev j) j = Some (?q j)"
      if "j < Suc lv" for j
    proof -
      have "zadd_update upd lst lv j = Some (?prev j)"
        using upd(2) search(3) [of j] that lv(2) by (auto simp: zadd_update_def)
      moreover have "?prev j \<in> set (?h # A)"
        by (rule last_tall_in [of ?h]) (use rep that lv(2) in \<open>auto simp: sk_rep_def\<close>)
      ultimately show ?thesis using search(1) [of j] that lv(2) pn by auto
    qed
    have "skip_link (zadd_update upd lst lv) p 0 (Suc lv) (?ns(p \<mapsto> n)) = Some (sk_nodes ?lst)"
      using skip_link_redirects [of 0 "Suc lv" "zadd_update upd lst lv" ?prev p ?ns ?q n] link p(8) by simp
    then have "kvs_skiptable_zadd lst key val score g h = ret (0, ?lst, g', h')"
      using upd(1) cur hit lv(1) p(1) unlocked
      by (simp add: kvs_skiptable_zadd_def zadd_locked_def Let_def del: skip_link.simps)
    moreover have rep': "sk_rep ?lst (A @ p # B)" "sk_entries ?lst (A @ p # B) = sk_entries lst A @ entry_of n # sk_entries lst B"
      by (rule sk_rep_insert [OF rep pn p(3,8) lv(2) p(9)]; simp)+
    have spec: "spec_zadd key val score zs = (0, sk_entries ?lst (A @ p # B))"
      using False AB(2) p(10) rep rep'(2) unfolding spec_zadd_def Let_def AB(3) [symmetric]
      by (cases B) (auto simp: sk_rep_def)
    moreover have "skip_ok ?lst (S \<union> (L' - L)) (sk_entries ?lst (A @ p # B))"
      using rep'(1) ps(2) AB(1) p(2,4,5) spec_zadd_sorted [OF ps(4), of key val score] spec
      unfolding skip_ok_def by (intro exI [of _ "A @ p # B"]) auto
    ultimately show ?thesis using p(5-7) by auto
  qed
qed

lemma zadd_run:
  assumes "skip_ok lst L zs" and "heap_inv h L" and "mem_budget h (m + 4)" and "\<not> is_nan score"
  shows "\<exists>lst' g' h' L'. kvs_skiptable_zadd lst key val score g h = ret (fst (spec_zadd key val score zs), lst', g', h') \<and>
           skip_ok lst' L' (snd (spec_zadd key val score zs)) \<and> heap_inv h' L' \<and> mem_budget h' m \<and> L \<subseteq> L'"
proof -
  obtain lst' g' h' L' where 1: "kvs_skiptable_zadd lst key val score g h = ret (fst (spec_zadd key val score zs), lst', g', h')"
    "skip_ok lst' (L \<union> (L' - L)) (snd (spec_zadd key val score zs))" "heap_inv h' L'" "mem_budget h' m" "L \<subseteq> L'"
    using zadd_frame [OF assms(1) subset_refl assms(2-4)] by blast
  with skip_ok_mono [OF 1(2), of L'] show ?thesis by auto
qed

section \<open>Destroying the list\<close>

lemma skip_free_all_run:
  assumes "linked ns ps" and "distinct ps" and "0 \<notin> set ps" and "\<forall>p\<in>set ps. tall ns 0 p"
  shows "\<exists>h'. skip_free_all ns (first_tall ns 0 ps) h = Some (ns |` (- set ps), h') \<and> (heap_inv h L \<longrightarrow> heap_inv h' L)"
  using assms
proof (induction ps arbitrary: ns h)
  case Nil
  then show ?case by (subst skip_free_all.simps) (simp add: restrict_map_def)
next
  case (Cons p ps)
  let ?ns = "ns(p := None)"
  obtain n where n: "ns p = Some n" using Cons.prems(4) by (auto simp: tall_def)
  have p: "first_tall ns 0 (p # ps) = p" "p \<noteq> 0" "fwd_get ns p 0 = Some (first_tall ns 0 ps)"
    using Cons.prems by (simp_all add: first_tall_Cons)
  have same: "\<forall>q\<in>set ps. ?ns q = ns q" using Cons.prems(2) by auto
  then have ft: "first_tall ?ns 0 ps = first_tall ns 0 ps" by (intro tall_cong) (simp add: tall_def)
  have "linked ?ns ps" by (rule linked_cong [OF same]) (use Cons.prems(1) in simp)
  moreover have "\<forall>q\<in>set ps. tall ?ns 0 q" using Cons.prems(2,4) by (auto simp: tall_def)
  ultimately obtain h' where 1: "skip_free_all ?ns (first_tall ?ns 0 ps) (free_SkipNode p n h) = Some (?ns |` (- set ps), h')"
    "heap_inv (free_SkipNode p n h) L \<longrightarrow> heap_inv h' L"
    using Cons.IH [of ?ns "free_SkipNode p n h"] Cons.prems(2,3) by (metis distinct.simps(2) list.set_intros(2))
  have "?ns |` (- set ps) = ns |` (- set (p # ps))" by (auto simp: restrict_map_def)
  with 1 show ?case
    using n p ft by (subst skip_free_all.simps) (simp add: free_SkipNode_def)
qed

text \<open>\<open>kvs_skiptable_destory\<close> ends and frees every node, the header included.\<close>

lemma kvs_skiptable_destory_run:
  assumes "skip_ok lst S zs"
  shows "\<exists>lst' h'. kvs_skiptable_destory (Some lst) h = ret (Some lst', h') \<and> (heap_inv h L \<longrightarrow> heap_inv h' L) \<and>
           sk_header lst' = 0 \<and> (\<exists>ps. sk_rep lst ps \<and> sk_nodes lst' = sk_nodes lst |` (- set (sk_header lst # ps)))"
proof -
  obtain ps where rep: "sk_rep lst ps" using assms by (auto simp: skip_ok_def)
  let ?qs = "sk_header lst # ps"
  have "tall (sk_nodes lst) 0 (sk_header lst)" using rep unfolding sk_rep_def by blast
  moreover have "\<forall>p\<in>set ps. tall (sk_nodes lst) 0 p" using rep by (fastforce simp: sk_rep_def node_ok_def tall_def)
  ultimately have tl: "\<forall>p\<in>set ?qs. tall (sk_nodes lst) 0 p" by simp
  then have "first_tall (sk_nodes lst) 0 ?qs = sk_header lst" by (simp add: first_tall_Cons)
  then obtain h' where "skip_free_all (sk_nodes lst) (sk_header lst) h = Some (sk_nodes lst |` (- set ?qs), h')"
    "heap_inv h L \<longrightarrow> heap_inv h' L"
    using skip_free_all_run [of "sk_nodes lst" ?qs h L] rep tl by (auto simp: sk_rep_def simp del: linked.simps)
  with rep show ?thesis by (auto simp: kvs_skiptable_destory_def)
qed

section \<open>Removing an entry\<close>

text \<open>The state after taking a node out.\<close>

lemma sk_rep_remove:
  assumes rep: "sk_rep lst (A @ c # B)" and n: "sk_nodes lst c = Some n"
    and prev: "\<forall>j<length (sk_next n). prev j = last_tall (sk_nodes lst) j (sk_header lst # A)"
    and q: "\<forall>j<length (sk_next n). q j = first_tall (sk_nodes lst) j B"
  defines "ns \<equiv> (redirected prev q (length (sk_next n)) (sk_nodes lst))(c := None)"
  shows "\<exists>level. skip_shrink ns (sk_header lst) (sk_level lst) = Some level \<and>
           sk_rep (lst\<lparr>sk_level := level, sk_nodes := ns, sk_length := sk_length lst - 1\<rparr>) (A @ B) \<and>
           sk_entries (lst\<lparr>sk_level := level, sk_nodes := ns, sk_length := sk_length lst - 1\<rparr>) (A @ B) =
             sk_entries lst A @ sk_entries lst B"
proof -
  let ?ns = "sk_nodes lst" and ?h = "sk_header lst"
  have hdr: "tall ?ns j ?h \<longleftrightarrow> j \<le> SKIP_MAX_LEVEL" for j using rep by (simp add: sk_rep_def)
  have level: "sk_level lst \<le> SKIP_MAX_LEVEL" "length (sk_next n) \<le> Suc (sk_level lst)"
    using rep n by (auto simp: sk_rep_def)
  have lk: "linked ns ((?h # A) @ B)"
    using linked_remove [of ?ns ?h A c B n prev q] rep n hdr prev q level by (simp add: sk_rep_def ns_def)
  have "?h \<noteq> c" using rep by (auto simp: sk_rep_def)
  then have hdr': "tall ns j ?h \<longleftrightarrow> j \<le> SKIP_MAX_LEVEL" for j using hdr by (simp add: ns_def)
  have nodes: "\<exists>m m'. ns x = Some m \<and> node_ok m \<and> length (sk_next m) \<le> Suc (sk_level lst) \<and>
      ?ns x = Some m' \<and> entry_of m = entry_of m'" if "x \<in> set (A @ B)" for x
  proof -
    have "x \<noteq> c" using that rep by (auto simp: sk_rep_def)
    moreover have "x \<in> set (A @ c # B)" using that by auto
    then obtain m where "?ns x = Some m" "node_ok m" "length (sk_next m) \<le> Suc (sk_level lst)"
      using rep unfolding sk_rep_def by meson
    ultimately show ?thesis by (simp add: ns_def redirected_def)
  qed
  have nz: "0 \<notin> set (A @ B)" using rep by (auto simp: sk_rep_def)
  obtain level where l: "level \<le> sk_level lst" "skip_shrink ns ?h (sk_level lst) = Some level"
    "\<forall>p\<in>set (A @ B). \<forall>j. tall ns j p \<longrightarrow> j \<le> sk_level lst \<longrightarrow> j \<le> level"
    using skip_shrink_level [of ns ?h "A @ B" "sk_level lst"] lk nz hdr' level(1) by auto
  have low: "length (sk_next m) \<le> Suc level" if x: "x \<in> set (A @ B)" "ns x = Some m" for x m
  proof -
    have "sk_next m \<noteq> []" "length (sk_next m) \<le> Suc (sk_level lst)"
      using nodes [OF x(1)] x(2) by (auto simp: node_ok_def)
    then have "tall ns (length (sk_next m) - 1) x" "length (sk_next m) - 1 \<le> sk_level lst"
      using x(2) by (auto simp: tall_def)
    then have "length (sk_next m) - 1 \<le> level" using l(3) x(1) by blast
    then show ?thesis by simp
  qed
  have ok: "\<exists>m. ns x = Some m \<and> node_ok m \<and> length (sk_next m) \<le> Suc level" if "x \<in> set (A @ B)" for x
    using nodes [OF that] low [OF that] by blast
  have "sk_rep (lst\<lparr>sk_level := level, sk_nodes := ns, sk_length := sk_length lst - 1\<rparr>) (A @ B)"
    using rep lk hdr' ok l(1) level(1) by (auto simp: sk_rep_def simp del: linked.simps)
  moreover have "map (\<lambda>p. entry_of (the (ns p))) (A @ B) = map (\<lambda>p. entry_of (the (?ns p))) (A @ B)"
    using nodes by (intro map_cong) fastforce+
  ultimately show ?thesis using l(2) by (auto simp: sk_entries_def)
qed

text \<open>
  Which entry is removed: the first one whose key is not smaller than the given one, if
  its key is the given one.
\<close>

definition zrem_at :: "cstring \<Rightarrow> ZRangeEntry list \<Rightarrow> ZRangeEntry list \<Rightarrow> int \<times> ZRangeEntry list" where
  "zrem_at key za zb =
     (case zb of [] \<Rightarrow> (- 1, za) | z # zc \<Rightarrow> if z_key z = key then (0, za @ zc) else (- 1, za @ zb))"

definition spec_zrem :: "cstring \<Rightarrow> ZRangeEntry list \<Rightarrow> int \<times> ZRangeEntry list" where
  "spec_zrem key zs = zrem_at key (takeWhile (\<lambda>z. z_key z < key) zs) (dropWhile (\<lambda>z. z_key z < key) zs)"

lemma zrem_at_cases:
  assumes "zs = za @ zb"
  shows "fst (zrem_at key za zb) = - 1 \<and> snd (zrem_at key za zb) = zs \<or>
    fst (zrem_at key za zb) = 0 \<and> (\<exists>zc z zd. zs = zc @ z # zd \<and> z_key z = key \<and> snd (zrem_at key za zb) = zc @ zd)"
  using assms by (cases zb) (auto simp: zrem_at_def)

text \<open>The removal at the place where the search ended: the node is unlinked on all its levels.\<close>

lemma zrem_place:
  assumes rep: "sk_rep lst (A @ B)" and own: "set (sk_header lst # A @ B) \<subseteq> S"
    and sorted: "sorted_wrt zless (sk_entries lst (A @ B))"
    and ends: "search_ends (zrem_before key) lst A upd" and inv: "heap_inv h L"
  defines "r \<equiv> zrem_at key (sk_entries lst A) (sk_entries lst B)"
  shows "\<exists>lst' h'. kvs_skiptable_zrem lst key h = ret (fst r, lst', h') \<and> skip_ok lst' S (snd r) \<and> heap_inv h' L \<and>
           (mem_budget h m \<longrightarrow> mem_budget h' m)"
proof -
  let ?ns = "sk_nodes lst" and ?h = "sk_header lst"
  note search = sk_place [OF rep]
  have upd: "skip_descend (zrem_before key) ?ns (sk_level lst) ?h = Some (last_tall ?ns 0 (?h # A), upd)"
    "\<forall>j \<le> sk_level lst. upd j = Some (last_tall ?ns j (?h # A))" using ends unfolding search_ends_def by blast+
  have cur: "fwd_get ?ns (last_tall ?ns 0 (?h # A)) 0 = Some (case B of [] \<Rightarrow> 0 | c # _ \<Rightarrow> c)"
    using search(1) [of 0] search(2) by simp
  have unlocked: "\<not> sk_lock lst" using rep by (simp add: sk_rep_def)
  have ok: "skip_ok lst S (sk_entries lst A @ sk_entries lst B)"
    using rep own sorted unfolding skip_ok_def by (intro exI [of _ "A @ B"]) simp
  show ?thesis
  proof (cases B)
    case Nil
    have "kvs_skiptable_zrem lst key h = ret (- 1, lst, h)"
      using upd(1) cur unlocked Nil by (simp add: kvs_skiptable_zrem_def zrem_locked_def)
    moreover have "r = (- 1, sk_entries lst A @ sk_entries lst B)" unfolding r_def zrem_at_def Nil by (simp add: sk_entries_def)
    ultimately show ?thesis using ok inv by simp
  next
    case (Cons c B')
    then obtain n where n: "?ns c = Some n" "node_ok n" "c \<noteq> 0" "length (sk_next n) \<le> Suc (sk_level lst)"
      using rep by (auto simp: sk_rep_def)
    have cmp: "sk_strcmp (sk_key n) key = Some (strcmp (z_key (entry_of n)) key)"
      using n(2) by (simp add: sk_strcmp_def entry_of_def node_ok_def)
    show ?thesis
    proof (cases "z_key (entry_of n) = key")
      case False
      have "kvs_skiptable_zrem lst key h = ret (- 1, lst, h)"
        using upd(1) cur unlocked Cons n cmp False by (simp add: kvs_skiptable_zrem_def zrem_locked_def)
      moreover have "r = (- 1, sk_entries lst A @ sk_entries lst B)"
        unfolding r_def zrem_at_def Cons using n(1) False by simp
      ultimately show ?thesis using ok inv by simp
    next
      case True
      let ?prev = "\<lambda>j. last_tall ?ns j (?h # A)" and ?q = "\<lambda>j. first_tall ?ns j B'"
      let ?ht = "length (sk_next n)"
      note rep' = rep [unfolded Cons]
      have tc: "tall ?ns j c \<longleftrightarrow> j < ?ht" for j using n(1) by (auto simp: tall_def)
      have dist: "c \<notin> set (?h # A)" "c \<notin> set B'" and lk: "linked ?ns ((?h # A) @ c # B')"
        using rep' by (auto simp: sk_rep_def simp del: linked.simps)
      have low: "j \<le> SKIP_MAX_LEVEL" if "j \<le> sk_level lst" for j using that rep by (simp add: sk_rep_def)
      have "skip_unlink upd c 0 (Suc (sk_level lst)) (redirected ?prev ?q 0 ?ns) = Some (redirected ?prev ?q ?ht ?ns)"
      proof (rule skip_unlink_redirects)
        show "\<forall>j<?ht. fwd_get ?ns (?prev j) j = Some c \<and> ?prev j \<noteq> c"
        proof (intro allI impI)
          fix j assume j: "j < ?ht"
          then have "j \<le> SKIP_MAX_LEVEL" using low n(4) by simp
          then have "fwd_get ?ns (?prev j) j = Some c" using search(1) [of j] Cons tc j by (simp add: first_tall_Cons)
          moreover have "?prev j \<in> set (?h # A)"
            by (rule last_tall_in [of ?h]) (use rep \<open>j \<le> SKIP_MAX_LEVEL\<close> in \<open>auto simp: sk_rep_def\<close>)
          ultimately show "fwd_get ?ns (?prev j) j = Some c \<and> ?prev j \<noteq> c" using dist(1) by metis
        qed
        show "\<forall>j<?ht. fwd_get ?ns c j = Some (?q j)" using linked_at [OF lk] tc by blast
        show "?ht < 0 + Suc (sk_level lst) \<longrightarrow> (\<exists>f. fwd_get ?ns (?prev ?ht) ?ht = Some f \<and> f \<noteq> c)"
          using search(1) [of ?ht] low [of ?ht] Cons tc [of ?ht] first_tall_in [of ?ns ?ht B'] dist(2) n(3)
          by (auto simp: first_tall_Cons less_Suc_eq_le)
      qed (use upd(2) n(4) in \<open>auto simp: less_Suc_eq_le\<close>)
      then have unlink: "skip_unlink upd c 0 (Suc (sk_level lst)) ?ns = Some (redirected ?prev ?q ?ht ?ns)" by simp
      let ?ns' = "(redirected ?prev ?q ?ht ?ns)(c := None)"
      obtain level where l: "skip_shrink ?ns' ?h (sk_level lst) = Some level"
        "sk_rep (lst\<lparr>sk_level := level, sk_nodes := ?ns', sk_length := sk_length lst - 1\<rparr>) (A @ B')"
        "sk_entries (lst\<lparr>sk_level := level, sk_nodes := ?ns', sk_length := sk_length lst - 1\<rparr>) (A @ B') =
           sk_entries lst A @ sk_entries lst B'"
        using sk_rep_remove [OF rep' n(1), of ?prev ?q] by auto
      let ?lst = "lst\<lparr>sk_level := level, sk_nodes := ?ns', sk_length := sk_length lst - 1\<rparr>"
      have "kvs_skiptable_zrem lst key h = ret (0, ?lst, free_SkipNode c n h)"
        using upd(1) cur unlocked Cons n cmp True unlink l(1)
        by (simp add: kvs_skiptable_zrem_def zrem_locked_def del: skip_unlink.simps)
      moreover have "r = (0, sk_entries ?lst (A @ B'))"
        unfolding r_def zrem_at_def Cons l(3) using n(1) True by simp
      moreover have "sorted_wrt zless (sk_entries ?lst (A @ B'))"
        using sorted unfolding l(3) Cons by (auto simp: sorted_wrt_append)
      then have "skip_ok ?lst S (sk_entries ?lst (A @ B'))"
        using l(2) own unfolding skip_ok_def Cons by (intro exI [of _ "A @ B'"]) auto
      ultimately show ?thesis using inv by (simp add: free_SkipNode_def)
    qed
  qed
qed

lemma zrem_run:
  assumes ok: "skip_ok lst S zs" and inv: "heap_inv h L"
    and part: "\<forall>z\<in>set (dropWhile (\<lambda>z. z_key z < key) zs). \<not> z_key z < key"
  shows "\<exists>lst' h'. kvs_skiptable_zrem lst key h = ret (fst (spec_zrem key zs), lst', h') \<and>
           skip_ok lst' S (snd (spec_zrem key zs)) \<and> heap_inv h' L \<and> (mem_budget h m \<longrightarrow> mem_budget h' m)"
proof -
  let ?P = "\<lambda>z. z_key z < key"
  obtain ps where ps: "sk_rep lst ps" "set (sk_header lst # ps) \<subseteq> S" "zs = sk_entries lst ps" "sorted_wrt zless zs"
    using ok by (auto simp: skip_ok_def)
  obtain A B where AB: "ps = A @ B" "sk_entries lst A = takeWhile ?P zs" "sk_entries lst B = dropWhile ?P zs"
    "split_at (zrem_before key) (sk_nodes lst) (sk_header lst) A B"
    using sk_split [OF ps(1), of "zrem_before key" ?P] zrem_before_entry part ps(3) by blast
  note rep = ps(1) [unfolded AB(1)]
  obtain upd where "search_ends (zrem_before key) lst A upd" using sk_search [OF rep AB(4)] by blast
  from zrem_place [OF rep ps(2) [unfolded AB(1)] ps(4) [unfolded ps(3) AB(1)] this inv, of m] show ?thesis
    unfolding AB(2,3) spec_zrem_def .
qed

text \<open>In any other list the search still ends somewhere.\<close>

lemma zrem_any:
  assumes "skip_ok lst S zs" and inv: "heap_inv h L"
  shows "\<exists>za zb lst' h'. zs = za @ zb \<and> kvs_skiptable_zrem lst key h = ret (fst (zrem_at key za zb), lst', h') \<and>
           skip_ok lst' S (snd (zrem_at key za zb)) \<and> heap_inv h' L \<and> (mem_budget h m \<longrightarrow> mem_budget h' m)"
proof -
  obtain ps where ps: "sk_rep lst ps" "set (sk_header lst # ps) \<subseteq> S" "zs = sk_entries lst ps" "sorted_wrt zless zs"
    using assms(1) by (auto simp: skip_ok_def)
  obtain A B upd where AB: "ps = A @ B" "search_ends (zrem_before key) lst A upd"
    using sk_search_any [OF ps(1), of "zrem_before key"] zrem_before_entry by blast
  from zrem_place [OF ps(1) [unfolded AB(1)] ps(2) [unfolded AB(1)] ps(4) [unfolded ps(3) AB(1)] AB(2) inv]
  show ?thesis using ps(3) AB(1) by (metis sk_entries_append)
qed

section \<open>Reading a range\<close>

definition shorten :: "ZRangeEntry \<Rightarrow> ZRangeEntry" where
  "shorten z = z\<lparr>z_key := take 127 (z_key z), z_value := take 127 (z_value z)\<rparr>"

definition spec_zrange :: "double \<Rightarrow> double \<Rightarrow> nat \<Rightarrow> ZRangeEntry list \<Rightarrow> ZRangeEntry list" where
  "spec_zrange mi mx n zs =
     map shorten (take n (filter (\<lambda>z. \<not> dbl_less (z_score z) mi \<and> dbl_le (z_score z) mx) zs))"

lemma zrange_entry_ok: "node_ok n \<Longrightarrow> zrange_entry n = Some (shorten (entry_of n))"
  by (simp add: zrange_entry_def node_ok_def shorten_def entry_of_def)

text \<open>A walk on the lowest level, which links all nodes.\<close>

definition chained :: "SkipList \<Rightarrow> addr list \<Rightarrow> bool" where
  "chained lst ps \<longleftrightarrow>
     linked (sk_nodes lst) ps \<and> 0 \<notin> set ps \<and> (\<forall>p\<in>set ps. \<exists>n. sk_nodes lst p = Some n \<and> node_ok n)"

lemma chained_first:
  "chained lst ps \<Longrightarrow> first_tall (sk_nodes lst) 0 ps = (case ps of [] \<Rightarrow> 0 | c # _ \<Rightarrow> c)"
  by (cases ps) (auto simp: chained_def first_tall_Cons tall_def node_ok_def)

lemma chained_Cons:
  assumes "chained lst (p # ps)"
  obtains n where "sk_nodes lst p = Some n" and "node_ok n" and "p \<noteq> 0" and "chained lst ps"
    and "fwd_get (sk_nodes lst) p 0 = Some (case ps of [] \<Rightarrow> 0 | c # _ \<Rightarrow> c)"
proof -
  obtain n where n: "sk_nodes lst p = Some n" "node_ok n" using assms by (auto simp: chained_def)
  have ps: "chained lst ps" using assms by (auto simp: chained_def)
  have "tall (sk_nodes lst) 0 p" using n by (auto simp: tall_def node_ok_def)
  then have "fwd_get (sk_nodes lst) p 0 = Some (first_tall (sk_nodes lst) 0 ps)" using assms by (simp add: chained_def)
  with chained_first [OF ps] n ps assms show ?thesis by (intro that) (auto simp: chained_def)
qed

lemma zrange_skip_run:
  assumes "chained lst ps"
  shows "\<exists>qs. chained lst qs \<and> sk_entries lst qs = dropWhile (\<lambda>z. dbl_less (z_score z) mi) (sk_entries lst ps) \<and>
           zrange_skip (sk_nodes lst) mi (case ps of [] \<Rightarrow> 0 | c # _ \<Rightarrow> c) = Some (case qs of [] \<Rightarrow> 0 | c # _ \<Rightarrow> c)"
  using assms
proof (induction ps)
  case Nil
  then show ?case by (intro exI [of _ "[]"]) (simp add: zrange_skip.simps)
next
  case (Cons p ps)
  from Cons.prems obtain n where n: "sk_nodes lst p = Some n" "node_ok n" "p \<noteq> 0" "chained lst ps"
    "fwd_get (sk_nodes lst) p 0 = Some (case ps of [] \<Rightarrow> 0 | c # _ \<Rightarrow> c)" by (rule chained_Cons)
  show ?case
  proof (cases "dbl_less (sk_score n) mi")
    case True
    with Cons.IH [OF n(4)] n show ?thesis by (auto simp: zrange_skip.simps [of _ _ p] entry_of_def)
  next
    case False
    with n Cons.prems show ?thesis
      by (intro exI [of _ "p # ps"]) (simp add: zrange_skip.simps [of _ _ p] entry_of_def)
  qed
qed

lemma zrange_collect_run:
  assumes "chained lst ps"
  shows "zrange_collect (sk_nodes lst) mx m (case ps of [] \<Rightarrow> 0 | c # _ \<Rightarrow> c) =
    Some (map shorten (take m (takeWhile (\<lambda>z. dbl_le (z_score z) mx) (sk_entries lst ps))))"
  using assms
proof (induction ps arbitrary: m)
  case Nil
  then show ?case by (cases m) simp_all
next
  case (Cons p ps)
  from Cons.prems obtain n where n: "sk_nodes lst p = Some n" "node_ok n" "p \<noteq> 0" "chained lst ps"
    "fwd_get (sk_nodes lst) p 0 = Some (case ps of [] \<Rightarrow> 0 | c # _ \<Rightarrow> c)" by (rule chained_Cons)
  show ?case
    using Cons.IH [OF n(4)] n zrange_entry_ok [OF n(2)] by (cases m) (auto simp: entry_of_def)
qed

lemma sorted_filter:
  assumes "sorted_wrt R zs" and "\<And>a b. a \<in> set zs \<Longrightarrow> b \<in> set zs \<Longrightarrow> R a b \<Longrightarrow> P b \<Longrightarrow> P a"
  shows "takeWhile P zs = filter P zs" and "dropWhile P zs = filter (\<lambda>z. \<not> P z) zs"
proof -
  have "takeWhile P zs = filter P zs \<and> dropWhile P zs = filter (\<lambda>z. \<not> P z) zs"
    using assms
  proof (induction zs)
    case (Cons z zs)
    have IH: "takeWhile P zs = filter P zs" "dropWhile P zs = filter (\<lambda>z. \<not> P z) zs"
      using Cons by auto
    have "\<not> P y" if "\<not> P z" "y \<in> set zs" for y using Cons.prems that by auto
    then have "filter P zs = [] \<and> filter (\<lambda>z. \<not> P z) zs = zs" if "\<not> P z"
      using that by (auto simp: filter_empty_conv filter_id_conv)
    with IH show ?case by auto
  qed simp
  then show "takeWhile P zs = filter P zs" "dropWhile P zs = filter (\<lambda>z. \<not> P z) zs" by auto
qed

lemma zless_rank: "zless a b \<Longrightarrow> dbl_rank (z_score a) \<le> dbl_rank (z_score b)"
  by (auto simp: zless_def zbefore_def)

lemma zrange_run:
  assumes "skip_ok lst L zs"
  shows "kvs_skiptable_zrange_entries lst mi mx m = ret (spec_zrange mi mx m zs)"
proof -
  obtain ps where ps: "sk_rep lst ps" "zs = sk_entries lst ps" "sorted_wrt zless zs"
    using assms by (auto simp: skip_ok_def)
  have ch: "chained lst ps" using ps(1) by (auto simp: sk_rep_def chained_def)
  have "tall (sk_nodes lst) 0 (sk_header lst)" using ps(1) by (simp add: sk_rep_def)
  then have start: "fwd_get (sk_nodes lst) (sk_header lst) 0 = Some (case ps of [] \<Rightarrow> 0 | c # _ \<Rightarrow> c)"
    using ps(1) chained_first [OF ch] by (simp add: sk_rep_def)
  obtain qs where qs: "chained lst qs" "sk_entries lst qs = dropWhile (\<lambda>z. dbl_less (z_score z) mi) zs"
    "zrange_skip (sk_nodes lst) mi (case ps of [] \<Rightarrow> 0 | c # _ \<Rightarrow> c) = Some (case qs of [] \<Rightarrow> 0 | c # _ \<Rightarrow> c)"
    using zrange_skip_run [OF ch, of mi] ps(2) by blast
  have nan: "\<not> is_nan (z_score z)" if z: "z \<in> set zs" for z
  proof -
    obtain p where p: "p \<in> set ps" "z = entry_of (the (sk_nodes lst p))"
      using z ps(2) by (auto simp: sk_entries_def)
    then show ?thesis using sk_rep_node [OF ps(1) p(1)] by (auto simp: entry_of_def node_ok_def)
  qed
  have 1: "dropWhile (\<lambda>z. dbl_less (z_score z) mi) zs = filter (\<lambda>z. \<not> dbl_less (z_score z) mi) zs"
    by (rule sorted_filter(2) [OF ps(3)]) (use nan zless_rank in \<open>fastforce simp: dbl_less_def\<close>)
  have 2: "takeWhile (\<lambda>z. dbl_le (z_score z) mx) ys = filter (\<lambda>z. dbl_le (z_score z) mx) ys"
    if "ys = filter P zs" for ys P
    by (rule sorted_filter(1) [of zless])
      (use that ps(3) nan zless_rank in \<open>fastforce simp: dbl_le_def sorted_wrt_filter\<close>)+
  show ?thesis
    using start qs zrange_collect_run [OF qs(1), of mx m] ps(1) 1 2 [of _ "\<lambda>z. \<not> dbl_less (z_score z) mi", OF refl]
    by (simp add: kvs_skiptable_zrange_entries_def spec_zrange_def sk_rep_def conj_commute)
qed

section \<open>Properties\<close>

lemma skip_ok_empty:
  assumes "sk_nodes lst p = Some n" and "sk_next n = replicate (Suc SKIP_MAX_LEVEL) 0" and "p \<noteq> 0" and "p \<in> L"
    and "sk_level lst = 0" and "sk_header lst = p" and "sk_length lst = 0" and "\<not> sk_lock lst"
  shows "skip_ok lst L []"
proof -
  have "fwd_get (sk_nodes lst) p i = Some 0" if "i \<le> SKIP_MAX_LEVEL" for i
    using assms(1,2) that by (simp add: fwd_get_def del: replicate_Suc)
  moreover have "tall (sk_nodes lst) j p \<longleftrightarrow> j \<le> SKIP_MAX_LEVEL" for j
    using assms(1,2) by (auto simp: tall_def)
  ultimately have "sk_rep lst []" using assms by (auto simp: sk_rep_def)
  then show ?thesis using assms unfolding skip_ok_def by (intro exI [of _ "[]"]) auto
qed

text \<open>
  Property C14. \<open>kvs_skiptable_create\<close> makes an empty list, and from then on \<open>kvs_skiptable_zadd\<close> keeps the
  list sorted by score and key: it replaces the value when score and key are there, and
  inserts the entry at its place otherwise, whatever heights \<open>rand\<close> chooses. It follows only
  valid pointers, its loops end, and all levels stay linked.
\<close>

theorem kvs_skiptable_zadd_correct:
  assumes "heap_inv h L" and "mem_budget h (m + 4)"
  shows "(\<exists>lst h' L'. kvs_skiptable_create (Some lst0) h = ret (0, Some lst, h') \<and> skip_ok lst L' [] \<and>
            heap_inv h' L' \<and> mem_budget h' m \<and> L \<subseteq> L') \<and>
         (skip_ok lst L zs \<longrightarrow> \<not> is_nan score \<longrightarrow>
            (\<exists>lst' g' h' L'. kvs_skiptable_zadd lst key val score g h = ret (fst (spec_zadd key val score zs), lst', g', h') \<and>
               skip_ok lst' L' (snd (spec_zadd key val score zs)) \<and> heap_inv h' L' \<and> mem_budget h' m \<and> L \<subseteq> L'))"
proof (intro conjI impI)
  obtain p n h' L' where p: "createSkipNode SKIP_MAX_LEVEL [] [] 0 h = Some (p, n, h')" "p \<noteq> 0" "p \<in> L'" "L \<subseteq> L'"
    "heap_inv h' L'" "mem_budget h' m" "sk_next n = replicate (Suc SKIP_MAX_LEVEL) 0"
    using createSkipNode_ok [OF assms] by blast
  let ?lst = "lst0\<lparr>sk_level := 0, sk_header := p, sk_nodes := (sk_nodes lst0)(p \<mapsto> n), sk_length := 0, sk_lock := False\<rparr>"
  have "skip_ok ?lst L' []" by (rule skip_ok_empty [of _ p n]) (use p in simp_all)
  with p show "\<exists>lst h' L'. kvs_skiptable_create (Some lst0) h = ret (0, Some lst, h') \<and> skip_ok lst L' [] \<and>
      heap_inv h' L' \<and> mem_budget h' m \<and> L \<subseteq> L'"
    by (auto simp: kvs_skiptable_create_def)
next
  assume "skip_ok lst L zs" "\<not> is_nan score"
  then show "\<exists>lst' g' h' L'. kvs_skiptable_zadd lst key val score g h = ret (fst (spec_zadd key val score zs), lst', g', h') \<and>
      skip_ok lst' L' (snd (spec_zadd key val score zs)) \<and> heap_inv h' L' \<and> mem_budget h' m \<and> L \<subseteq> L'"
    by (rule zadd_run [OF _ assms])
qed

text \<open>
  \<open>kvs_skiptable_zrange_entries\<close> returns, in order, the first entries whose score lies in the
  range, at most as many as asked for, with key and value cut to 127 bytes; it changes
  nothing.
\<close>

theorem kvs_skiptable_zrange_correct:
  assumes "skip_ok lst L zs"
  shows "kvs_skiptable_zrange_entries lst mi mx m =
    ret (map shorten (take m (filter (\<lambda>z. \<not> dbl_less (z_score z) mi \<and> dbl_le (z_score z) mx) zs)))"
  using zrange_run [OF assms] by (simp add: spec_zrange_def)

text \<open>
  Property C15. \<open>kvs_skiptable_zrem\<close> searches by key a list that is sorted by score. It always ends, never
  follows a wild pointer and leaves a well-formed list that holds the same entries, or all but
  one that has the key, which is unlinked on all its levels; the return value tells which. But it
  looks at one entry only: when the smaller keys happen to be in front, at the first of the
  others, so that the answer may be that a key does not exist which does.
\<close>

theorem kvs_skiptable_zrem_correct:
  assumes "skip_ok lst L zs" and "heap_inv h L"
  shows "\<exists>r lst' h' zs'. kvs_skiptable_zrem lst key h = ret (r, lst', h') \<and> skip_ok lst' L zs' \<and> heap_inv h' L \<and>
           (r = - 1 \<and> zs' = zs \<or> r = 0 \<and> (\<exists>za z zb. zs = za @ z # zb \<and> z_key z = key \<and> zs' = za @ zb)) \<and>
           ((\<forall>z\<in>set (dropWhile (\<lambda>z. z_key z < key) zs). \<not> z_key z < key) \<longrightarrow> (r, zs') = spec_zrem key zs)"
proof (cases "\<forall>z\<in>set (dropWhile (\<lambda>z. z_key z < key) zs). \<not> z_key z < key")
  case True
  have split: "zs = takeWhile (\<lambda>z. z_key z < key) zs @ dropWhile (\<lambda>z. z_key z < key) zs" by simp
  obtain lst' h' where "kvs_skiptable_zrem lst key h = ret (fst (spec_zrem key zs), lst', h')"
    "skip_ok lst' L (snd (spec_zrem key zs))" "heap_inv h' L" using zrem_run [OF assms True] by blast
  moreover note zrem_at_cases [OF split, of key, folded spec_zrem_def]
  ultimately show ?thesis by (metis prod.collapse)
next
  case False
  obtain za zb lst' h' where "zs = za @ zb" "kvs_skiptable_zrem lst key h = ret (fst (zrem_at key za zb), lst', h')"
    "skip_ok lst' L (snd (zrem_at key za zb))" "heap_inv h' L" using zrem_any [OF assms] by blast
  with zrem_at_cases [of zs za zb key] False show ?thesis by blast
qed

section \<open>Examples\<close>

definition demo_skip :: SkipList where
  "demo_skip = \<lparr>sk_level = 0, sk_header = 1000,
     sk_nodes = [1000 \<mapsto> \<lparr>sk_key = CStr 1100 [], sk_value = CStr 1200 [], sk_score = 0, sk_forward = 1300,
                           sk_next = replicate (Suc SKIP_MAX_LEVEL) 0\<rparr>],
     sk_length = 0, sk_lock = False\<rparr>"

lemma demo_skip_ok: "skip_ok demo_skip {1000} []"
  by (rule skip_ok_empty [of _ 1000 "the (sk_nodes demo_skip 1000)"]) (simp_all add: demo_skip_def)

lemma demo_skip_heap: "heap_inv demo_heap {1000}"
  by (rule demo_heap_inv) simp

text \<open>The numbers 1 and 2.\<close>

definition dbl_1 :: double where "dbl_1 = 0x3FF0000000000000"
definition dbl_2 :: double where "dbl_2 = 0x4000000000000000"

lemma dbl_12: "\<not> is_nan dbl_1" "\<not> is_nan dbl_2" "dbl_rank dbl_1 < dbl_rank dbl_2"
  by (simp_all add: is_nan_def dbl_rank_def dbl_1_def dbl_2_def)

theorem kvs_skiptable_zadd_correct_witness:
  "\<exists>lst' g' h' L'. kvs_skiptable_zadd demo_skip (lit ''b'') (lit ''x'') dbl_1 \<lparr>rnd = (\<lambda>_. 5), rnd_calls = 0\<rparr> demo_heap =
      ret (0, lst', g', h') \<and> skip_ok lst' L' [\<lparr>z_key = lit ''b'', z_value = lit ''x'', z_score = dbl_1\<rparr>]"
  using kvs_skiptable_zadd_correct [OF demo_skip_heap, of 0 demo_skip demo_skip "[]" dbl_1 "lit ''b''" "lit ''x''"
      "\<lparr>rnd = (\<lambda>_. 5), rnd_calls = 0\<rparr>"] demo_skip_ok dbl_12(1)
  by (auto simp: spec_zadd_def)

theorem kvs_skiptable_zrange_correct_witness:
  "kvs_skiptable_zrange_entries demo_skip dbl_1 dbl_2 100 = ret []"
  using kvs_skiptable_zrange_correct [OF demo_skip_ok, of dbl_1 dbl_2 100] by simp

text \<open>A list with \<open>b\<close> at score 1 and \<open>a\<close> at score 2; \<open>a\<close> cannot be removed.\<close>

lemma demo_two:
  "\<exists>lst h L. heap_inv h L \<and>
     skip_ok lst L [\<lparr>z_key = [98], z_value = [120], z_score = dbl_1\<rparr>, \<lparr>z_key = [97], z_value = [121], z_score = dbl_2\<rparr>]"
proof -
  have b: "mem_budget demo_heap (4 + 4)" by simp
  obtain l1 g1 h1 L1 where 1: "skip_ok l1 L1 [\<lparr>z_key = [98], z_value = [120], z_score = dbl_1\<rparr>]" "heap_inv h1 L1"
    "mem_budget h1 4"
    using zadd_run [OF demo_skip_ok demo_skip_heap b dbl_12(1), of "[98]" "[120]" "\<lparr>rnd = (\<lambda>_. 5), rnd_calls = 0\<rparr>"]
    by (auto simp: spec_zadd_def)
  have "snd (spec_zadd [97] [121] dbl_2 [\<lparr>z_key = [98], z_value = [120], z_score = dbl_1\<rparr>]) =
      [\<lparr>z_key = [98], z_value = [120], z_score = dbl_1\<rparr>, \<lparr>z_key = [97], z_value = [121], z_score = dbl_2\<rparr>]"
    using dbl_12(3) by (simp add: spec_zadd_def zbefore_def)
  with zadd_run [OF 1(1,2) _ dbl_12(2), of 0 "[97]" "[121]" "\<lparr>rnd = (\<lambda>_. 5), rnd_calls = 0\<rparr>"] 1(3)
  show ?thesis by fastforce
qed

theorem kvs_skiptable_zrem_correct_witness:
  "\<exists>lst h L lst' h'. skip_ok lst L [\<lparr>z_key = [98], z_value = [120], z_score = dbl_1\<rparr>,
       \<lparr>z_key = [97], z_value = [121], z_score = dbl_2\<rparr>] \<and> kvs_skiptable_zrem lst [97] h = ret (- 1, lst', h')"
proof -
  obtain lst h L where 1: "heap_inv h L" "skip_ok lst L [\<lparr>z_key = [98], z_value = [120], z_score = dbl_1\<rparr>,
       \<lparr>z_key = [97], z_value = [121], z_score = dbl_2\<rparr>]" using demo_two by blast
  have "spec_zrem [97] [\<lparr>z_key = [98], z_value = [120], z_score = dbl_1\<rparr>, \<lparr>z_key = [97], z_value = [121], z_score = dbl_2\<rparr>] =
      (- 1, [\<lparr>z_key = [98], z_value = [120], z_score = dbl_1\<rparr>, \<lparr>z_key = [97], z_value = [121], z_score = dbl_2\<rparr>])"
    by (simp add: spec_zrem_def zrem_at_def)
  moreover have "\<forall>z\<in>set (dropWhile (\<lambda>z. z_key z < [97]) [\<lparr>z_key = [98], z_value = [120], z_score = dbl_1\<rparr>,
      \<lparr>z_key = [97], z_value = [121], z_score = dbl_2\<rparr>]). \<not> z_key z < [97]" by simp
  ultimately show ?thesis using kvs_skiptable_zrem_correct [OF 1(2,1), of "[97]"] 1(2) by (metis prod.inject)
qed

end
