(* ===== verification/Kv_Machine.thy ===== *)
theory Kv_Machine
  imports Tcp_Protocol Rdb_Correct Skiptable_Correct
begin

text \<open>
  The server as an abstract machine: three maps in which the first value of a key wins, a set of
  entries sorted by score, and the answers to every command but \<open>DEL\<close>. The commands of the
  request handler, on linked data structures over a shared allocator, refine it.
\<close>

section \<open>The abstract machine\<close>

type_synonym kv_maps = "byte \<Rightarrow> cstring \<rightharpoonup> cstring"

definition spec_set :: "byte \<Rightarrow> cstring \<Rightarrow> cstring \<Rightarrow> cstring \<Rightarrow> kv_maps \<Rightarrow> cstring \<times> kv_maps" where
  "spec_set ty dup k v m =
     (if m ty k = None then (lit ''OK'', m(ty := (m ty)(k \<mapsto> v))) else (dup, m))"

definition spec_get :: "byte \<Rightarrow> cstring \<Rightarrow> kv_maps \<Rightarrow> cstring" where
  "spec_get ty k m = (case m ty k of Some v \<Rightarrow> v | None \<Rightarrow> lit ''NO EXIST'')"

text \<open>
  The tree answers \<open>OK\<close> also when the key is present and nothing is stored. A write
  without a value is refused.
\<close>

definition map_spec :: "uint32 \<Rightarrow> cstring \<Rightarrow> cstring option \<Rightarrow> kv_maps \<Rightarrow> cstring \<times> kv_maps" where
  "map_spec cmd k vo m =
     (if cmd = CMD_SET then (case vo of Some v \<Rightarrow> spec_set 0 (lit ''EXIST'') k v m | None \<Rightarrow> (lit ''ERROR'', m))
      else if cmd = CMD_GET then (spec_get 0 k m, m)
      else if cmd = CMD_MOD then
        (if m 0 k = None then (lit ''NO EXIST'', m) else (lit ''OK'', m(0 := (m 0)(k \<mapsto> the vo))))
      else if cmd = CMD_EXIST then (if m 0 k = None then lit ''NO EXIST'' else lit ''EXIST'', m)
      else if cmd = CMD_RSET then (case vo of Some v \<Rightarrow> spec_set 1 (lit ''OK'') k v m | None \<Rightarrow> (lit ''ERROR'', m))
      else if cmd = CMD_RGET then (spec_get 1 k m, m)
      else if cmd = CMD_HSET then (case vo of Some v \<Rightarrow> spec_set 2 (lit ''EXIST'') k v m | None \<Rightarrow> (lit ''ERROR'', m))
      else (spec_get 2 k m, m))"

text \<open>
  The commands on the sorted set. \<open>ZADD\<close> takes the value up to its first space; the number behind
  the space is the score.
\<close>

definition zadd_value :: "cstring \<Rightarrow> cstring" where
  "zadd_value v = takeWhile (\<lambda>b. b \<noteq> 32) v"

definition zadd_score :: "libc \<Rightarrow> cstring \<Rightarrow> double" where
  "zadd_score lc v = lc_atof lc (tl (dropWhile (\<lambda>b. b \<noteq> 32) v))"

definition zset_spec :: "libc \<Rightarrow> uint32 \<Rightarrow> cstring \<Rightarrow> cstring option \<Rightarrow> ZRangeEntry list \<Rightarrow> cstring \<times> ZRangeEntry list" where
  "zset_spec lc cmd k vo zs =
     (if cmd = CMD_ZADD then
        (case vo of
           None \<Rightarrow> (lit ''ERROR'', zs)
         | Some v \<Rightarrow>
             if 32 \<notin> set v then (lit ''ERROR'', zs)
             else let (r, zs') = spec_zadd k (zadd_value v) (zadd_score lc v) zs
                  in (if r = 0 then lit ''OK'' else lit ''EXIST'', zs'))
      else if cmd = CMD_ZREM then
        (let (r, zs') = spec_zrem k zs in (if r = 0 then lit ''OK'' else lit ''NO EXIST'', zs'))
      else
        (case vo of
           None \<Rightarrow> (lit ''ERROR'', zs)
         | Some v \<Rightarrow>
             (case lc_scan2 lc v of
                None \<Rightarrow> (lit ''ERROR'', zs)
              | Some (mi, mx) \<Rightarrow> (zrange_text lc (spec_zrange mi mx 100 zs) [], zs))))"

text \<open>
  The state of the whole machine: three maps, the sorted set, and whether a \<open>SAVE\<close> can succeed.
\<close>

record kv_state =
  st_maps :: kv_maps
  st_zset :: "ZRangeEntry list"
  st_saves :: bool

definition map_cmds :: "uint32 set" where
  "map_cmds = {CMD_SET, CMD_GET, CMD_MOD, CMD_EXIST, CMD_RSET, CMD_RGET, CMD_HSET, CMD_HGET}"

definition kv_spec :: "libc \<Rightarrow> uint32 \<Rightarrow> cstring \<Rightarrow> cstring option \<Rightarrow> kv_state \<Rightarrow> cstring \<times> kv_state" where
  "kv_spec lc cmd k vo s =
     (if cmd \<in> map_cmds then (let (t, m) = map_spec cmd k vo (st_maps s) in (t, s\<lparr>st_maps := m\<rparr>))
      else if cmd \<in> {CMD_ZADD, CMD_ZREM, CMD_ZRANGE}
      then (let (t, zs) = zset_spec lc cmd k vo (st_zset s) in (t, s\<lparr>st_zset := zs\<rparr>))
      else if cmd = CMD_SAVE then (lit ''SAVED'', s)
      else (lit ''UNKNOWN COMMAND'', s))"

text \<open>
  The requests the machine describes: all but \<open>DEL\<close>, which is not defined on an array with
  holes. \<open>MOD\<close> needs a value, a hash key a hash, \<open>ZADD\<close> a score that is a number; \<open>ZREM\<close> finds its
  way only if the smaller keys are in front; \<open>SAVE\<close> needs a file it can write.
\<close>

definition supported :: "libc \<Rightarrow> uint32 \<Rightarrow> cstring \<Rightarrow> cstring option \<Rightarrow> kv_state \<Rightarrow> bool" where
  "supported lc cmd k vo s \<longleftrightarrow>
     cmd \<noteq> CMD_DEL \<and> (cmd = CMD_MOD \<longrightarrow> vo \<noteq> None) \<and>
     (cmd = CMD_HSET \<or> cmd = CMD_HGET \<longrightarrow> hash_index k \<noteq> None) \<and>
     (cmd = CMD_ZADD \<longrightarrow> (\<forall>v. vo = Some v \<longrightarrow> 32 \<in> set v \<longrightarrow> \<not> is_nan (zadd_score lc v))) \<and>
     (cmd = CMD_ZREM \<longrightarrow> (\<forall>z\<in>set (dropWhile (\<lambda>z. z_key z < k) (st_zset s)). \<not> z_key z < k)) \<and>
     (cmd = CMD_SAVE \<longrightarrow> st_saves s)"

text \<open>Values fit the array in which the handler builds its answer.\<close>

definition short_values :: "kv_maps \<Rightarrow> bool" where
  "short_values m \<longleftrightarrow> (\<forall>t k v. m t k = Some v \<longrightarrow> length v < RESULT_SIZE)"

lemma short_values_spec:
  assumes "short_values m" and "\<And>v. vo = Some v \<Longrightarrow> length v < RESULT_SIZE" and "cmd = CMD_MOD \<Longrightarrow> vo \<noteq> None"
  shows "short_values (snd (map_spec cmd k vo m))"
  using assms
  by (auto simp: short_values_def map_spec_def spec_set_def split: option.splits if_splits)

section \<open>Each command\<close>

lemma engine_map_array [simp]: "engine_map (e\<lparr>global_array := global_array e\<rparr>) = engine_map e"
  by simp

lemma get_text_spec:
  assumes "short_values (engine_map e)" and "engine_map e t k = Some v"
  shows "get_text (CStr a v) = ret v"
  using assms by (auto simp: get_text_def short_values_def)

lemma engine_array_mod_ok:
  assumes inv: "engine_inv e L" and mem: "mem_budget (engine_heap e) (Suc n)"
    and hit: "engine_map e 0 k = Some v"
  shows "\<exists>a h L'. kvs_array_mod (global_array e) (Some k) (Some w) (engine_heap e) = ret (0, a, h) \<and>
           engine_inv (e\<lparr>global_array := a, engine_heap := h\<rparr>) L' \<and> mem_budget h n \<and> total a = total (global_array e) \<and>
           engine_map (e\<lparr>global_array := a, engine_heap := h\<rparr>) = (engine_map e)(0 := (engine_map e 0)(k \<mapsto> w)) \<and>
           keeps_rest e L (e\<lparr>global_array := a, engine_heap := h\<rparr>) L'"
proof -
  have ok: "array_ok (global_array e)" "heap_inv (engine_heap e) L" "set (array_blocks (global_array e)) \<subseteq> L"
    "array_abs (global_array e) k = Some v"
    using inv hit by (simp_all add: engine_inv_def engine_map_def)
  obtain a h L' where 1: "kvs_array_mod (global_array e) (Some k) (Some w) (engine_heap e) = ret (0, a, h)"
    "array_ok a" "array_abs a = (array_abs (global_array e))(k \<mapsto> w)" "total a = total (global_array e)"
    "heap_inv h L'" "mem_budget h n"
    "heap_frame L (set (array_blocks (global_array e))) L' (set (array_blocks a))"
    using kvs_array_mod_hit [OF ok(1,4,2,3) mem, of w] by blast
  have "engine_inv (e\<lparr>global_array := a, engine_heap := h\<rparr>) L'"
    using inv 1(2,5) 1(7) [unfolded heap_frame_def]
      heap_frame_other [OF 1(7), of "set (rb_blocks (global_rbtree e))"]
      heap_frame_other [OF 1(7), of "set (hash_blocks (global_hash e))"]
    unfolding engine_inv_def by simp
  with 1 store_frame(1) [OF inv 1(7)] show ?thesis by (auto simp: engine_map_def fun_eq_iff keeps_rest_def same_env_def)
qed

text \<open>
  The conclusion shared by the lemmas about the commands: the answer and the new maps are
  those of the abstract machine, the invariant holds again, and nothing but the stores changed.
\<close>

definition refines :: "(cstring \<times> kvs_engine) res \<Rightarrow> kvs_engine \<Rightarrow> addr set \<Rightarrow> cstring \<times> kv_maps \<Rightarrow> nat \<Rightarrow> nat \<Rightarrow> bool" where
  "refines c e L s n grown \<longleftrightarrow>
     (\<exists>e' L'. c = ret (fst s, e') \<and> engine_map e' = snd s \<and> engine_inv e' L' \<and>
        mem_budget (engine_heap e') n \<and> total (global_array e') \<le> total (global_array e) + grown \<and>
        keeps_rest e L e' L')"

lemma refines_same:
  "engine_inv e L \<Longrightarrow> mem_budget (engine_heap e) m \<Longrightarrow> n \<le> m \<Longrightarrow> refines (ret (t, e)) e L (t, engine_map e) n g"
  using keeps_rest_refl [of e L] by (auto simp: refines_def elim: mem_budget_mono)

lemma array_command_refines:
  assumes inv: "engine_inv e L" and mem: "mem_budget (engine_heap e) (n + 3)" and short: "short_values (engine_map e)"
    and cmd: "cmd \<in> {1, 2, 4, 5}" "cmd = 4 \<Longrightarrow> vo \<noteq> None"
    and room: "cmd = 1 \<Longrightarrow> total (global_array e) < KVS_ARRAY_SIZE"
  shows "refines (array_command cmd (Some k) vo e) e L (map_spec cmd k vo (engine_map e)) n 1"
proof -
  have ok: "array_ok (global_array e)" "\<not> array_mutex (global_array e)" using inv by (auto simp: engine_inv_def array_ok_def)
  have abs: "array_abs (global_array e) = engine_map e 0" by (simp add: engine_map_def)
  consider (set) v where "cmd = 1" "vo = Some v" | (set0) "cmd = 1" "vo = None" | (get) "cmd = 2"
    | (mod_miss) w where "cmd = 4" "vo = Some w" "engine_map e 0 k = None"
    | (mod_hit) w v where "cmd = 4" "vo = Some w" "engine_map e 0 k = Some v" | (exist) "cmd = 5"
    using cmd by (cases vo; cases "engine_map e 0 k") auto
  then show ?thesis
  proof cases
    case set
    have "total (global_array e) + Suc (KVS_ARRAY_SIZE - Suc (total (global_array e))) \<le> KVS_ARRAY_SIZE"
      using room set by simp
    from engine_array_set_ok [OF inv mem this, of k v] set show ?thesis
      by (fastforce simp: refines_def array_command_def map_spec_def spec_set_def status_text_def first_wins_def)
  next
    case set0
    then have "engine_array_set (Some k) vo e = ret (- 1, e)"
      using ok by (simp add: engine_array_set_def array_run)
    with set0 show ?thesis
      using refines_same [OF inv mem] by (simp add: array_command_def map_spec_def status_text_def)
  next
    case get
    then show ?thesis
      using array_reader.get_hit [OF ok(1), of k] array_reader.get_miss [OF ok(1), of k] abs get_text_spec [OF short, of 0 k]
        refines_same [OF inv mem]
      by (cases "engine_map e 0 k")
        (auto simp: array_command_def map_spec_def spec_get_def get_text_def)
  next
    case (mod_miss w)
    then obtain r where "0 < r" "kvs_array_mod (global_array e) (Some k) (Some w) (engine_heap e) = ret (r, global_array e, engine_heap e)"
      using kvs_array_mod_miss [OF ok(1)] abs by metis
    with mod_miss show ?thesis
      using refines_same [OF inv mem] by (simp add: array_command_def map_spec_def status_text_def)
  next
    case (mod_hit w v)
    have "mem_budget (engine_heap e) (Suc n)" using mem mem_budget_mono by simp
    from engine_array_mod_ok [OF inv this mod_hit(3), of w] mod_hit show ?thesis
      by (fastforce simp: refines_def array_command_def map_spec_def status_text_def)
  next
    case exist
    then show ?thesis
      using kvs_array_exist_ok [OF ok(1), of k] abs refines_same [OF inv mem]
      by (auto simp: array_command_def map_spec_def)
  qed
qed

lemma rbtree_command_refines:
  assumes inv: "engine_inv e L" and mem: "mem_budget (engine_heap e) (n + 3)" and short: "short_values (engine_map e)"
    and cmd: "cmd = 11 \<or> cmd = 12"
  shows "refines (rbtree_command cmd (Some k) vo e) e L (map_spec cmd k vo (engine_map e)) n 0"
proof -
  have ok: "rb_ok (global_rbtree e)" using inv by (simp add: engine_inv_def)
  have abs: "rb_abs (global_rbtree e) = engine_map e 1" by (simp add: engine_map_def)
  consider (set) v where "cmd = 11" "vo = Some v" | (set0) "cmd = 11" "vo = None" | (get) "cmd = 12"
    using cmd by (cases vo) auto
  then show ?thesis
  proof cases
    case set
    with engine_rbtree_set_ok [OF inv mem, of k v] show ?thesis
      by (fastforce simp: refines_def rbtree_command_def map_spec_def spec_set_def status_text_def first_wins_def)
  next
    case set0
    then have "engine_rbtree_set (Some k) vo e = ret (- 1, e)"
      by (simp add: engine_rbtree_set_def kvs_rbtree_set_def)
    with set0 show ?thesis
      using refines_same [OF inv mem] by (simp add: rbtree_command_def map_spec_def status_text_def)
  next
    case get
    then show ?thesis
      using rb_reader.get_hit [OF ok, of k] rb_reader.get_miss [OF ok, of k] abs get_text_spec [OF short, of 1 k]
        refines_same [OF inv mem]
      by (cases "engine_map e 1 k") (auto simp: rbtree_command_def map_spec_def spec_get_def get_text_def)
  qed
qed

lemma hash_command_refines:
  assumes inv: "engine_inv e L" and mem: "mem_budget (engine_heap e) (n + 3)" and short: "short_values (engine_map e)"
    and cmd: "cmd = 21 \<or> cmd = 22" and key: "hash_index k \<noteq> None"
  shows "refines (hash_command cmd (Some k) vo e) e L (map_spec cmd k vo (engine_map e)) n 0"
proof -
  have ok: "hash_ok (global_hash e)" using inv by (simp add: engine_inv_def)
  have abs: "hash_abs (global_hash e) = engine_map e 2" by (simp add: engine_map_def)
  consider (set) v where "cmd = 21" "vo = Some v" | (set0) "cmd = 21" "vo = None" | (get) "cmd = 22"
    using cmd by (cases vo) auto
  then show ?thesis
  proof cases
    case set
    with engine_hash_set_ok [OF inv mem key, of v] show ?thesis
      by (fastforce simp: refines_def hash_command_def map_spec_def spec_set_def status_text_def first_wins_def)
  next
    case set0
    then have "engine_hash_set (Some k) vo e = ret (- 1, e)"
      by (simp add: engine_hash_set_def kvs_hash_set_def)
    with set0 show ?thesis
      using refines_same [OF inv mem] by (simp add: hash_command_def map_spec_def status_text_def)
  next
    case get
    then show ?thesis
      using hash_reader.get_hit [OF ok, of k] hash_reader.get_miss [OF ok, of k] key abs get_text_spec [OF short, of 2 k]
        refines_same [OF inv mem]
      by (cases "engine_map e 2 k") (auto simp: hash_command_def map_spec_def spec_get_def get_text_def)
  qed
qed

lemma refines_mono: "refines c e L s n g \<Longrightarrow> g \<le> g' \<Longrightarrow> refines c e L s n g'"
  unfolding refines_def by force

lemma map_command_refines:
  assumes inv: "engine_inv e L" and mem: "mem_budget (engine_heap e) (n + 3)" and short: "short_values (engine_map e)"
    and cmd: "cmd \<in> map_cmds" "cmd = CMD_MOD \<Longrightarrow> vo \<noteq> None" "cmd = CMD_HSET \<or> cmd = CMD_HGET \<Longrightarrow> hash_index k \<noteq> None"
    and room: "cmd = CMD_SET \<Longrightarrow> total (global_array e) < KVS_ARRAY_SIZE"
  shows "\<exists>c. refines c e L (map_spec cmd k vo (engine_map e)) n 1 \<and>
           run_command lc cmd (Some k) vo b e = rbind c (\<lambda>(t, e'). ret (t, b, e'))"
proof -
  consider "cmd \<in> {1, 2, 4, 5}" | "cmd = 11 \<or> cmd = 12" | "cmd = 21 \<or> cmd = 22"
    using cmd(1) by (auto simp: map_cmds_def)
  then show ?thesis
  proof cases
    case 1
    from array_command_refines [OF inv mem short 1 cmd(2) room, of k] 1 show ?thesis
      by (auto simp: run_command_def)
  next
    case 2
    from refines_mono [OF rbtree_command_refines [OF inv mem short 2, of k vo], of 1] 2 show ?thesis
      by (auto simp: run_command_def)
  next
    case 3
    from refines_mono [OF hash_command_refines [OF inv mem short 3, of k vo], of 1] cmd(3) 3 show ?thesis
      by (auto simp: run_command_def)
  qed
qed

section \<open>The engine and the state of the machine\<close>

text \<open>A snapshot can be written: snapshots are off, or there are no checksums and the file opens.\<close>

definition save_works :: "kvs_engine \<Rightarrow> bool" where
  "save_works e \<longleftrightarrow>
     (let c = g_rdb_config e
      in \<not> rdb_enabled c \<or> \<not> rdb_crc64 c \<and> data_path_ok (rdb_file c) c (engine_os e))"

text \<open>The engine holds the state, and the nodes of the skip list are blocks of no other store.\<close>

definition engine_rep :: "kvs_engine \<Rightarrow> addr set \<Rightarrow> kv_state \<Rightarrow> bool" where
  "engine_rep e L s \<longleftrightarrow>
     engine_inv e L \<and> engine_map e = st_maps s \<and> short_values (st_maps s) \<and>
     skip_ok (global_skiptable e) (L - store_blocks e) (st_zset s) \<and> (st_saves s \<longrightarrow> save_works e)"

lemma engine_repD:
  assumes "engine_rep e L s"
  shows "engine_inv e L" and "engine_map e = st_maps s" and "short_values (st_maps s)" and "heap_inv (engine_heap e) L"
    and "skip_ok (global_skiptable e) (L - store_blocks e) (st_zset s)" and "st_saves s \<Longrightarrow> save_works e"
    and "store_blocks e \<subseteq> L"
  using assms by (auto simp: engine_rep_def engine_inv_def store_blocks_def)

lemma same_env_save_works: "same_env e e' \<Longrightarrow> save_works e' = save_works e"
  using same_envD [of e e'] by (simp add: save_works_def)

lemma engine_rep_maps:
  assumes rep: "engine_rep e L s" and "engine_inv e' L'" and "engine_map e' = m" and "short_values m" and rest: "keeps_rest e L e' L'"
  shows "engine_rep e' L' (s\<lparr>st_maps := m\<rparr>)"
proof -
  note env = keeps_rest_env [OF rest]
  have "L - store_blocks e \<subseteq> L' - store_blocks e'" using rest unfolding keeps_rest_def heap_frame_def by blast
  with skip_ok_mono [OF engine_repD(5) [OF rep]] show ?thesis
    using assms(2-4) same_envD [OF env] same_env_save_works [OF env] engine_repD(6) [OF rep]
    by (auto simp: engine_rep_def)
qed

text \<open>A new skip list over blocks that are no blocks of the stores.\<close>

lemma engine_rep_zset:
  assumes rep: "engine_rep e L s" and "heap_inv h L'" and "L \<subseteq> L'" and "skip_ok sl S zs" and "S \<subseteq> L' - store_blocks e"
  shows "engine_rep (e\<lparr>global_skiptable := sl, engine_rng := g, engine_heap := h\<rparr>) L' (s\<lparr>st_zset := zs\<rparr>)"
proof -
  let ?e = "e\<lparr>global_skiptable := sl, engine_rng := g, engine_heap := h\<rparr>"
  have "engine_inv ?e L'" using engine_repD(1) [OF rep] assms(2,3) by (auto simp: engine_inv_def)
  moreover have "engine_map ?e = engine_map e" by (simp add: engine_map_def fun_eq_iff)
  moreover have "store_blocks ?e = store_blocks e" "save_works ?e = save_works e"
    by (simp_all add: store_blocks_def save_works_def)
  ultimately show ?thesis
    using engine_repD [OF rep] skip_ok_mono [OF assms(4,5)] by (simp add: engine_rep_def)
qed

lemma takeWhile_shorter: "x \<in> set xs \<Longrightarrow> \<not> P x \<Longrightarrow> length (takeWhile P xs) < length xs"
  by (induction xs) auto

text \<open>\<open>ZADD\<close> writes into the request, but not behind it.\<close>

lemma zset_command_refines:
  assumes rep: "engine_rep e L s" and mem: "mem_budget (engine_heap e) (n + 4)"
    and cmd: "cmd \<in> {CMD_ZADD, CMD_ZREM, CMD_ZRANGE}" and sup: "supported lc cmd k vo s"
    and N: "\<And>v. vo = Some v \<Longrightarrow> 24 + length k + 1 + length v \<le> N"
  shows "\<exists>b' e' L'. zset_command lc cmd (Some k) vo b e = ret (fst (zset_spec lc cmd k vo (st_zset s)), b', e') \<and>
           engine_rep e' L' (s\<lparr>st_zset := snd (zset_spec lc cmd k vo (st_zset s))\<rparr>) \<and> drop N b' = drop N b \<and>
           mem_budget (engine_heap e') n \<and> global_array e' = global_array e"
proof -
  note R = engine_repD [OF rep]
  have same: "s\<lparr>st_zset := st_zset s\<rparr> = s" by simp
  have mem': "mem_budget (engine_heap e) n" using mem mem_budget_mono by simp
  consider (add) v where "cmd = CMD_ZADD" "vo = Some v" "32 \<in> set v" | (add0) "cmd = CMD_ZADD" "\<forall>v. vo = Some v \<longrightarrow> 32 \<notin> set v"
    | (rem) "cmd = CMD_ZREM" | (range) "cmd = CMD_ZRANGE" using cmd by (cases vo) auto
  then show ?thesis
  proof cases
    case add
    let ?r = "spec_zadd k (zadd_value v) (zadd_score lc v) (st_zset s)"
    have "\<not> is_nan (zadd_score lc v)" using sup add unfolding supported_def by blast
    then obtain sl g h L' where 1: "kvs_skiptable_zadd (global_skiptable e) k (zadd_value v) (zadd_score lc v) (engine_rng e) (engine_heap e) =
        ret (fst ?r, sl, g, h)" "skip_ok sl (L - store_blocks e \<union> (L' - L)) (snd ?r)" "heap_inv h L'" "mem_budget h n" "L \<subseteq> L'"
      using zadd_frame [OF R(5) Diff_subset R(4) mem] by blast
    have "length (zadd_value v) < length v"
      unfolding zadd_value_def by (rule takeWhile_shorter [OF add(3)]) simp
    then have "drop N (b[TCP_HEADER_SIZE + length k + 1 + length (zadd_value v) := 0]) = drop N b"
      using N [OF add(2)] by (simp add: TCP_HEADER_SIZE_def)
    moreover have "engine_rep (e\<lparr>global_skiptable := sl, engine_rng := g, engine_heap := h\<rparr>) L' (s\<lparr>st_zset := snd ?r\<rparr>)"
      by (rule engine_rep_zset [OF rep 1(3,5,2)]) (use R(7) 1(5) in auto)
    moreover have "fst ?r = 0 \<or> fst ?r = 1" by (auto simp: spec_zadd_def Let_def split: list.splits)
    moreover have "zset_command lc cmd (Some k) vo b e =
        ret (status_text (lit ''EXIST'') (fst ?r), b[TCP_HEADER_SIZE + length k + 1 + length (zadd_value v) := 0],
             e\<lparr>global_skiptable := sl, engine_rng := g, engine_heap := h\<rparr>)"
      using 1(1) add unfolding zadd_value_def zadd_score_def dropWhile_eq_drop by (simp add: zset_command_def Let_def)
    moreover have "zset_spec lc cmd k vo (st_zset s) = (if fst ?r = 0 then lit ''OK'' else lit ''EXIST'', snd ?r)"
      using add by (simp add: zset_spec_def split_def)
    ultimately show ?thesis using 1(4) by (auto simp: status_text_def)
  next
    case add0
    then show ?thesis
      using rep mem' same by (cases vo) (auto simp: zset_command_def zset_spec_def)
  next
    case rem
    then have part: "\<forall>z\<in>set (dropWhile (\<lambda>z. z_key z < k) (st_zset s)). \<not> z_key z < k"
      using sup unfolding supported_def by blast
    let ?r = "spec_zrem k (st_zset s)"
    obtain sl h where 1: "kvs_skiptable_zrem (global_skiptable e) k (engine_heap e) = ret (fst ?r, sl, h)"
      "skip_ok sl (L - store_blocks e) (snd ?r)" "heap_inv h L" "mem_budget h n"
      using zrem_run [OF R(5,4) part, of n] mem' by blast
    have "engine_rep (e\<lparr>global_skiptable := sl, engine_rng := engine_rng e, engine_heap := h\<rparr>) L (s\<lparr>st_zset := snd ?r\<rparr>)"
      by (rule engine_rep_zset [OF rep 1(3) subset_refl 1(2) subset_refl])
    then show ?thesis
      using 1 rem by (auto simp: zset_command_def zset_spec_def Let_def split: prod.splits)
  next
    case range
    then show ?thesis
      using rep mem' same zrange_run [OF R(5)] by (auto simp: zset_command_def zset_spec_def split: option.splits prod.splits)
  qed
qed

lemma data_path_other: "data_path_ok f c w \<Longrightarrow> other_files f c w w' \<Longrightarrow> data_path_ok f c w'"
  by (auto simp: data_path_ok_def other_files_def)

lemma save_command_refines:
  assumes rep: "engine_rep e L s" and "st_saves s"
  shows "\<exists>e'. save_command e = ret (lit ''SAVED'', e') \<and> engine_rep e' L s \<and>
           engine_heap e' = engine_heap e \<and> global_array e' = global_array e"
proof (cases "rdb_enabled (g_rdb_config e)")
  case False
  then show ?thesis using rep by (simp add: save_command_def kvs_rdb_save_def)
next
  case True
  let ?c = "g_rdb_config e"
  have ok: "\<not> rdb_crc64 ?c" "data_path_ok (rdb_file ?c) ?c (engine_os e)"
    using engine_repD(6) [OF assms] True by (simp_all add: save_works_def Let_def)
  obtain w t where 1: "kvs_rdb_save (rdb_file ?c) e = ret (0, e\<lparr>engine_os := w, last_save_time := t\<rparr>)"
    "other_files (rdb_file ?c) ?c (engine_os e) w"
    using kvs_rdb_save_run [OF engine_repD(1) [OF rep] True ok] by blast
  let ?e = "e\<lparr>engine_os := w, last_save_time := t\<rparr>"
  have "engine_inv ?e L" using engine_repD(1) [OF rep] by (simp add: engine_inv_def)
  moreover have "engine_map ?e = engine_map e" by (simp add: engine_map_def fun_eq_iff)
  moreover have "store_blocks ?e = store_blocks e" by (simp add: store_blocks_def)
  moreover have "save_works ?e" using data_path_other [OF ok(2) 1(2)] ok(1) by (simp add: save_works_def Let_def)
  ultimately have "engine_rep ?e L s" using engine_repD [OF rep] by (simp add: engine_rep_def)
  then show ?thesis using 1(1) by (simp add: save_command_def)
qed

text \<open>Every command: the answer and the new state are those of the machine.\<close>

lemma run_command_refines:
  assumes rep: "engine_rep e L s" and mem: "mem_budget (engine_heap e) (n + 4)" and sup: "supported lc cmd k vo s"
    and short: "\<And>v. vo = Some v \<Longrightarrow> length v < RESULT_SIZE"
    and room: "cmd = CMD_SET \<Longrightarrow> total (global_array e) < KVS_ARRAY_SIZE"
    and N: "\<And>v. vo = Some v \<Longrightarrow> 24 + length k + 1 + length v \<le> N"
  shows "\<exists>b' e' L'. run_command lc cmd (Some k) vo b e = ret (fst (kv_spec lc cmd k vo s), b', e') \<and>
           engine_rep e' L' (snd (kv_spec lc cmd k vo s)) \<and> drop N b' = drop N b \<and>
           mem_budget (engine_heap e') n \<and> total (global_array e') \<le> total (global_array e) + 1"
proof -
  note R = engine_repD [OF rep]
  have mem': "mem_budget (engine_heap e) n" "mem_budget (engine_heap e) (n + 3)" using mem mem_budget_mono by simp_all
  consider (map) "cmd \<in> map_cmds" | (zset) "cmd \<in> {CMD_ZADD, CMD_ZREM, CMD_ZRANGE}" | (save) "cmd = CMD_SAVE"
    | (other) "cmd \<notin> map_cmds \<union> {CMD_ZADD, CMD_ZREM, CMD_ZRANGE, CMD_SAVE, CMD_DEL}"
    using sup unfolding supported_def by blast
  then show ?thesis
  proof cases
    case map
    let ?m = "map_spec cmd k vo (st_maps s)"
    have mod: "cmd = CMD_MOD \<Longrightarrow> vo \<noteq> None" and hash: "cmd = CMD_HSET \<or> cmd = CMD_HGET \<Longrightarrow> hash_index k \<noteq> None"
      using sup unfolding supported_def by blast+
    obtain e' L' where 1: "run_command lc cmd (Some k) vo b e = ret (fst ?m, b, e')" "engine_map e' = snd ?m"
      "engine_inv e' L'" "mem_budget (engine_heap e') n" "total (global_array e') \<le> total (global_array e) + 1"
      "keeps_rest e L e' L'"
      using map_command_refines [OF R(1) mem'(2) _ map mod hash room, of lc b] R(2,3) unfolding refines_def by auto
    have "engine_rep e' L' (s\<lparr>st_maps := snd ?m\<rparr>)"
      by (rule engine_rep_maps [OF rep 1(3,2) _ 1(6)]) (rule short_values_spec [OF R(3) short mod])
    then show ?thesis using 1 map by (auto simp: kv_spec_def Let_def split: prod.split)
  next
    case zset
    then have "cmd \<notin> map_cmds" "run_command lc cmd (Some k) vo b e = zset_command lc cmd (Some k) vo b e"
      by (auto simp: map_cmds_def run_command_def)
    with zset zset_command_refines [OF rep mem zset sup N, of b] show ?thesis
      by (auto simp: kv_spec_def Let_def split: prod.splits)
  next
    case save
    then have "cmd \<notin> map_cmds" by (simp add: map_cmds_def)
    moreover have "st_saves s" using sup save unfolding supported_def by blast
    ultimately show ?thesis
      using save save_command_refines [OF rep] mem' by (auto simp: kv_spec_def run_command_def)
  next
    case other
    then have "run_command lc cmd (Some k) vo b e = ret (lit ''UNKNOWN COMMAND'', b, e)"
      by (auto simp: run_command_def map_cmds_def)
    with other rep mem' show ?thesis by (auto simp: kv_spec_def)
  qed
qed

lemma kv_spec_short:
  assumes "short_values (st_maps s)"
  shows "length (fst (kv_spec lc cmd k vo s)) < RESULT_SIZE"
proof -
  have "length (fst (map_spec cmd k vo (st_maps s))) < RESULT_SIZE"
    using assms
    by (auto simp: map_spec_def spec_set_def spec_get_def short_values_def RESULT_SIZE_def split: option.splits)
  moreover have "length (fst (zset_spec lc cmd k vo (st_zset s))) < RESULT_SIZE"
    using zrange_text_length [of "[]"]
    by (auto simp: zset_spec_def RESULT_SIZE_def Let_def split: option.splits prod.splits)
  ultimately show ?thesis by (auto simp: kv_spec_def RESULT_SIZE_def Let_def split: prod.splits)
qed

end
