(* ===== verification/Tcp_Correct.thy ===== *)
theory Tcp_Correct
  imports Kv_Machine
begin

text \<open>
  The server as its clients see it. The abstract machine of \<open>Kv_Machine\<close> answers the requests;
  the handler, on packets and buffers, gives the same answers. Then the requests on which it does not: packets that are rejected, the empty
  key, and a second packet in the same buffer.
\<close>

section \<open>Requests and sessions\<close>

record request =
  rq_cmd :: uint32
  rq_seq :: uint32
  rq_key :: cstring
  rq_value :: "cstring option"

definition request_data :: "request \<Rightarrow> byte list" where
  "request_data q = rq_key q @ (case rq_value q of None \<Rightarrow> [] | Some v \<Rightarrow> 32 # v)"

definition request_header :: "request \<Rightarrow> tcp_header" where
  "request_header q =
     \<lparr>th_magic = TCP_MAGIC, th_version = TCP_VERSION, th_cmd_type = rq_cmd q,
      th_data_len = of_nat (length (request_data q)), th_seq_id = rq_seq q, th_flags = 0\<rparr>"

definition request_bytes :: "request \<Rightarrow> byte list" where
  "request_bytes q = tcp_header_bytes (request_header q) @ request_data q"

definition request_ok :: "request \<Rightarrow> bool" where
  "request_ok q \<longleftrightarrow>
     is_cstr (rq_key q) \<and> rq_key q \<noteq> [] \<and> 32 \<notin> set (rq_key q) \<and>
     (\<forall>v. rq_value q = Some v \<longrightarrow> is_cstr v) \<and>
     length (request_data q) \<le> 1024"

text \<open>The step of the machine that a request is.\<close>

definition kv_step :: "libc \<Rightarrow> request \<Rightarrow> kv_state \<Rightarrow> cstring \<times> kv_state" where
  "kv_step lc q s = kv_spec lc (rq_cmd q) (rq_key q) (rq_value q) s"

definition kv_enabled :: "libc \<Rightarrow> request \<Rightarrow> kv_state \<Rightarrow> bool" where
  "kv_enabled lc q s \<longleftrightarrow> request_ok q \<and> supported lc (rq_cmd q) (rq_key q) (rq_value q) s"

lemma parse_request:
  assumes "request_ok q"
  shows "\<exists>b'. parse_command (request_bytes q @ b # rest) (length (request_data q)) =
           ret (Some (rq_key q), rq_value q, b') \<and> drop (length (request_bytes q)) b' = 0 # rest"
proof (cases "rq_value q")
  case None
  then show ?thesis
    using parse_key [of "rq_key q" "tcp_header_bytes (request_header q)" b rest] assms
    by (simp add: request_ok_def request_data_def request_bytes_def)
next
  case (Some v)
  then show ?thesis
    using parse_key_value [of "rq_key q" v "tcp_header_bytes (request_header q)" b rest] assms
    by (simp add: request_ok_def request_data_def request_bytes_def)
qed

lemma request_data_len: "request_ok q \<Longrightarrow> unat (th_data_len (request_header q)) = length (request_data q)"
  by (simp add: request_ok_def request_header_def unat_of_nat)

lemma request_header_good: "request_ok q \<Longrightarrow> good_header (request_header q)"
  using request_data_len [of q]
  by (simp add: good_header_def word_le_nat_alt request_ok_def) (simp add: request_header_def)

lemma request_value_short: "request_ok q \<Longrightarrow> rq_value q = Some v \<Longrightarrow> length v < RESULT_SIZE"
  by (auto simp: request_ok_def request_data_def RESULT_SIZE_def)

lemma request_bytes_len: "rq_value q = Some v \<Longrightarrow> 24 + length (rq_key q) + 1 + length v \<le> length (request_bytes q)"
  by (simp add: request_bytes_def request_data_def)

lemma run_request:
  assumes rep: "engine_rep e L s" and mem: "mem_budget (engine_heap e) (n + 4)" and ok: "kv_enabled lc q s"
    and room: "rq_cmd q = CMD_SET \<Longrightarrow> total (global_array e) < KVS_ARRAY_SIZE"
  shows "\<exists>b' e' L'. run_command lc (rq_cmd q) (Some (rq_key q)) (rq_value q) b e = ret (fst (kv_step lc q s), b', e') \<and>
           engine_rep e' L' (snd (kv_step lc q s)) \<and> drop (length (request_bytes q)) b' = drop (length (request_bytes q)) b \<and>
           mem_budget (engine_heap e') n \<and> total (global_array e') \<le> total (global_array e) + 1"
proof -
  have q: "request_ok q" and sup: "supported lc (rq_cmd q) (rq_key q) (rq_value q) s"
    using ok by (simp_all only: kv_enabled_def)
  show ?thesis
    unfolding kv_step_def by (rule run_command_refines [OF rep mem sup request_value_short [OF q] room request_bytes_len])
qed

lemma handle_request:
  assumes rep: "engine_rep e L s" and mem: "mem_budget (engine_heap e) (n + 4)" and ok: "kv_enabled lc q s"
    and room: "rq_cmd q = CMD_SET \<Longrightarrow> total (global_array e) < KVS_ARRAY_SIZE"
    and step: "kv_step lc q s = (t, s')" and resp: "length t + 24 \<le> length response"
  shows "\<exists>b' e' L'. kvs_tcp_protocol lc (request_bytes q @ b # rest) (int (length (request_bytes q))) response e =
             ret (24 + int (length t), b', reply (request_header q) t @ drop (24 + length t) response, e') \<and>
           drop (length (request_bytes q)) b' = 0 # rest \<and> engine_rep e' L' s' \<and> mem_budget (engine_heap e') n \<and>
           total (global_array e') \<le> total (global_array e) + 1"
proof -
  have q: "request_ok q" using ok by (simp add: kv_enabled_def)
  obtain b1 where p: "parse_command (request_bytes q @ b # rest) (length (request_data q)) =
      ret (Some (rq_key q), rq_value q, b1)" "drop (length (request_bytes q)) b1 = 0 # rest"
    using parse_request [OF q] by blast
  obtain b2 e' L' where r: "run_command lc (rq_cmd q) (Some (rq_key q)) (rq_value q) b1 e = ret (t, b2, e')"
    "engine_rep e' L' s'" "drop (length (request_bytes q)) b2 = 0 # rest"
    "mem_budget (engine_heap e') n" "total (global_array e') \<le> total (global_array e) + 1"
    using run_request [OF rep mem ok room, of b1] step p(2) by auto
  have "rq_cmd q = th_cmd_type (request_header q)" by (simp add: request_header_def)
  then have "kvs_tcp_protocol lc (request_bytes q @ b # rest) (int (length (request_bytes q))) response e =
      ret (24 + int (length t), b2, reply (request_header q) t @ drop (24 + length t) response, e')"
    using handler_run_fit [OF request_header_good [OF q], of "int (length (request_bytes q))" "request_data q @ b # rest"]
      p(1) r(1) resp request_data_len [OF q]
    by (simp add: request_bytes_def)
  with r show ?thesis by blast
qed

text \<open>
  A session: each request arrives in a buffer of its own and is answered from a response
  buffer of 2048 bytes, as the network layer provides it.
\<close>

fun serve :: "libc \<Rightarrow> request list \<Rightarrow> kvs_engine \<Rightarrow> (byte list list \<times> kvs_engine) res" where
  "serve lc [] e = ret ([], e)"
| "serve lc (q # qs) e =
     rbind (kvs_tcp_protocol lc (request_bytes q @ [0]) (int (length (request_bytes q))) (replicate 2048 0) e)
       (\<lambda>(n, _, response, e'). rbind (serve lc qs e') (\<lambda>(rs, e''). ret (take (nat n) response # rs, e'')))"

fun spec_session :: "libc \<Rightarrow> request list \<Rightarrow> kv_state \<Rightarrow> byte list list \<times> kv_state" where
  "spec_session lc [] s = ([], s)"
| "spec_session lc (q # qs) s =
     (let (t, s') = kv_step lc q s; (rs, s'') = spec_session lc qs s'
      in (reply (request_header q) t # rs, s''))"

text \<open>Each request is one the machine describes, in the state in which it arrives.\<close>

fun session_ok :: "libc \<Rightarrow> request list \<Rightarrow> kv_state \<Rightarrow> bool" where
  "session_ok lc [] s \<longleftrightarrow> True"
| "session_ok lc (q # qs) s \<longleftrightarrow> kv_enabled lc q s \<and> session_ok lc qs (snd (kv_step lc q s))"

lemma spec_session_step:
  "kv_step lc q s = (t, s') \<Longrightarrow>
   spec_session lc (q # qs) s = (reply (request_header q) t # fst (spec_session lc qs s'), snd (spec_session lc qs s'))"
  by (simp add: Let_def split: prod.split)

lemma length_reply: "length (reply h t) = 24 + length t"
  by (simp add: reply_def)

lemma kv_step_short: "engine_rep e L s \<Longrightarrow> kv_step lc q s = (t, s') \<Longrightarrow> length t < RESULT_SIZE"
  using kv_spec_short [OF engine_repD(3), of e L s lc "rq_cmd q" "rq_key q" "rq_value q"] by (simp add: kv_step_def)

lemma serve_run:
  assumes "engine_rep e L s" and "session_ok lc qs s"
    and "mem_budget (engine_heap e) (4 * length qs)" and "total (global_array e) + length qs \<le> KVS_ARRAY_SIZE"
  shows "\<exists>e' L'. serve lc qs e = ret (fst (spec_session lc qs s), e') \<and> engine_rep e' L' (snd (spec_session lc qs s))"
  using assms
proof (induction qs arbitrary: e L s)
  case Nil
  then show ?case by auto
next
  case (Cons q qs)
  obtain t s' where st: "kv_step lc q s = (t, s')" by fastforce
  have mem: "mem_budget (engine_heap e) (4 * length qs + 4)" using Cons.prems(3) by (simp add: add.commute)
  have ok: "kv_enabled lc q s" and room: "total (global_array e) < KVS_ARRAY_SIZE" and rest: "session_ok lc qs s'"
    using Cons.prems(2,4) st by simp_all
  have size: "length t + 24 \<le> length (replicate 2048 (0 :: byte))"
    using kv_step_short [OF Cons.prems(1) st] by (simp add: RESULT_SIZE_def)
  obtain b1 e1 L1 where 1:
    "kvs_tcp_protocol lc (request_bytes q @ 0 # []) (int (length (request_bytes q))) (replicate 2048 0) e =
       ret (24 + int (length t), b1, reply (request_header q) t @ drop (24 + length t) (replicate 2048 0), e1)"
    "engine_rep e1 L1 s'" "mem_budget (engine_heap e1) (4 * length qs)"
    "total (global_array e1) \<le> total (global_array e) + 1"
    using handle_request [OF Cons.prems(1) mem ok room st size] by blast
  obtain e2 L2 where 2: "serve lc qs e1 = ret (fst (spec_session lc qs s'), e2)" "engine_rep e2 L2 (snd (spec_session lc qs s'))"
    using Cons.IH [OF 1(2) rest 1(3)] Cons.prems(4) 1(4) by auto
  have "nat (24 + int (length t)) = length (reply (request_header q) t)"
    by (simp add: length_reply nat_add_distrib)
  then have "serve lc (q # qs) e = ret (reply (request_header q) t # fst (spec_session lc qs s'), e2)"
    using 1(1) 2(1) by simp
  with 2(2) spec_session_step [OF st] show ?case by auto
qed


definition demo_libc :: libc where
  "demo_libc = \<lparr>lc_atof = (\<lambda>_. 0), lc_scan2 = (\<lambda>_. Some (0, 0)), lc_fmt2 = (\<lambda>_. lit ''0.00'')\<rparr>"

text \<open>The engine of the witnesses with an empty skip list.\<close>

definition demo_kv :: kvs_engine where
  "demo_kv = demo_engine\<lparr>global_skiptable := \<lparr>sk_level = 0, sk_header = 3500,
     sk_nodes = [3500 \<mapsto> \<lparr>sk_key = CStr 3600 [], sk_value = CStr 3700 [], sk_score = 0, sk_forward = 3800,
                           sk_next = replicate (Suc SKIP_MAX_LEVEL) 0\<rparr>],
     sk_length = 0, sk_lock = False\<rparr>\<rparr>"

definition demo_state :: kv_state where
  "demo_state = \<lparr>st_maps = (\<lambda>t. if t = 0 then [[97] \<mapsto> [49]] else Map.empty), st_zset = [], st_saves = True\<rparr>"

lemma demo_kv_fields [simp]:
  "engine_heap demo_kv = demo_heap" "total (global_array demo_kv) = 1"
  by (simp_all add: demo_kv_def demo_engine_def demo_array_def)

lemma demo_kv_rep: "engine_rep demo_kv {8, 1000, 1100, 2000, 3000, 3500} demo_state"
proof -
  let ?L = "{8, 1000, 1100, 2000, 3000, 3500} :: addr set"
  have "heap_inv demo_heap ?L" by (rule demo_heap_inv) auto
  then have inv: "engine_inv demo_kv ?L" by (simp add: engine_inv_def demo_kv_def demo_engine_def)
  have "engine_map demo_kv = engine_map demo_engine" by (simp add: engine_map_def demo_kv_def fun_eq_iff)
  then have map: "engine_map demo_kv = st_maps demo_state" by (simp add: fun_eq_iff demo_engine_map demo_state_def)
  have "store_blocks demo_kv = {8, 1000, 1100, 2000, 3000}"
    by (auto simp: store_blocks_def demo_kv_def demo_engine_def)
  then have "3500 \<in> ?L - store_blocks demo_kv" by simp
  then have sk: "skip_ok (global_skiptable demo_kv) (?L - store_blocks demo_kv) []"
    by (intro skip_ok_empty [of _ 3500 "the (sk_nodes (global_skiptable demo_kv) 3500)"]) (simp_all add: demo_kv_def)
  have "save_works demo_kv"
    using demo_data_path by (simp add: save_works_def demo_kv_def demo_engine_def default_config_def Let_def)
  with inv map sk show ?thesis
    by (auto simp: engine_rep_def short_values_def demo_state_def RESULT_SIZE_def split: if_splits)
qed

definition demo_session :: "request list" where
  "demo_session =
     [\<lparr>rq_cmd = CMD_HSET, rq_seq = 7, rq_key = lit ''k'', rq_value = Some (lit ''v w'')\<rparr>,
      \<lparr>rq_cmd = CMD_ZADD, rq_seq = 8, rq_key = lit ''m'', rq_value = Some (lit ''x 0'')\<rparr>,
      \<lparr>rq_cmd = CMD_ZRANGE, rq_seq = 9, rq_key = lit ''z'', rq_value = Some (lit ''0 0'')\<rparr>,
      \<lparr>rq_cmd = CMD_SAVE, rq_seq = 10, rq_key = lit ''s'', rq_value = None\<rparr>,
      \<lparr>rq_cmd = CMD_HGET, rq_seq = 11, rq_key = lit ''k'', rq_value = None\<rparr>]"


section \<open>The header\<close>

text \<open>
  What \<open>build_tcp_response\<close> writes is a packet that \<open>parse_tcp_header\<close> accepts, with
  the fields it was given, followed by the data; the return value is its length.
\<close>

theorem tcp_response_roundtrip:
  assumes "length t \<le> 1024" and "24 + length t \<le> length response"
  shows "\<exists>r. build_tcp_response (Some response) cmd seq (Some t) (int (length t)) =
               ret (int (24 + length t), Some r) \<and>
             parse_tcp_header (Some r) (Some h0) =
               ret (0, Some \<lparr>th_magic = TCP_MAGIC, th_version = TCP_VERSION, th_cmd_type = cmd,
                             th_data_len = of_nat (length t), th_seq_id = seq, th_flags = 0\<rparr>) \<and>
             take (length t) (drop TCP_HEADER_SIZE r) = t"
proof -
  have "(of_nat (length t) :: uint32) \<le> 1024"
    using assms(1) by (simp add: word_le_nat_alt unat_of_nat)
  then show ?thesis
    using assms build_tcp_response_ok [of t response cmd seq] parse_tcp_header_bytes
    by (simp add: TCP_HEADER_SIZE_def add.commute)
qed

theorem tcp_response_roundtrip_witness:
  "\<exists>r. build_tcp_response (Some (replicate 40 0)) 2 9 (Some (lit ''v'')) 1 = ret (25, Some r) \<and>
       take 1 (drop TCP_HEADER_SIZE r) = lit ''v''"
  using tcp_response_roundtrip [of "lit ''v''" "replicate 40 0" 2 9 "tcp_fields []"] by auto

section \<open>Packets that are rejected\<close>

lemma handler_rejects:
  assumes "TCP_HEADER_SIZE \<le> length buffer"
  shows "n < 24 \<Longrightarrow> kvs_tcp_protocol lc buffer n response e = ret (- 1, buffer, response, e)"
    and "24 \<le> n \<Longrightarrow> th_magic (tcp_fields buffer) \<noteq> TCP_MAGIC \<Longrightarrow>
      kvs_tcp_protocol lc buffer n response e = ret (- 2, buffer, response, e)"
    and "24 \<le> n \<Longrightarrow> th_magic (tcp_fields buffer) = TCP_MAGIC \<Longrightarrow> th_version (tcp_fields buffer) \<noteq> TCP_VERSION \<Longrightarrow>
      kvs_tcp_protocol lc buffer n response e = ret (- 3, buffer, response, e)"
    and "24 \<le> n \<Longrightarrow> th_magic (tcp_fields buffer) = TCP_MAGIC \<Longrightarrow> th_version (tcp_fields buffer) = TCP_VERSION \<Longrightarrow>
      1024 < th_data_len (tcp_fields buffer) \<Longrightarrow> kvs_tcp_protocol lc buffer n response e = ret (- 4, buffer, response, e)"
    and "24 \<le> n \<Longrightarrow> good_header (tcp_fields buffer) \<Longrightarrow> n < 24 + uint (th_data_len (tcp_fields buffer)) \<Longrightarrow>
      kvs_tcp_protocol lc buffer n response e = ret (- 5, buffer, response, e)"
  using assms
  by (auto simp: kvs_tcp_protocol_def parse_tcp_header_def TCP_HEADER_SIZE_def good_header_def Let_def not_less dest: leD)

text \<open>
  Property C27. A packet that is too short, has a wrong magic number or version, announces more
  than 1024 bytes of data, or is incomplete is rejected with its own error code, and
  neither the engine nor a buffer changes.
\<close>

theorem kvs_tcp_protocol_rejects:
  assumes "TCP_HEADER_SIZE \<le> length buffer"
  defines "h \<equiv> tcp_fields buffer"
  shows "(n < 24 \<longrightarrow> kvs_tcp_protocol lc buffer n response e = ret (- 1, buffer, response, e)) \<and>
         (24 \<le> n \<longrightarrow> th_magic h \<noteq> TCP_MAGIC \<longrightarrow>
            kvs_tcp_protocol lc buffer n response e = ret (- 2, buffer, response, e)) \<and>
         (24 \<le> n \<longrightarrow> th_magic h = TCP_MAGIC \<longrightarrow> th_version h \<noteq> TCP_VERSION \<longrightarrow>
            kvs_tcp_protocol lc buffer n response e = ret (- 3, buffer, response, e)) \<and>
         (24 \<le> n \<longrightarrow> th_magic h = TCP_MAGIC \<longrightarrow> th_version h = TCP_VERSION \<longrightarrow> 1024 < th_data_len h \<longrightarrow>
            kvs_tcp_protocol lc buffer n response e = ret (- 4, buffer, response, e)) \<and>
         (24 \<le> n \<longrightarrow> good_header h \<longrightarrow> n < 24 + uint (th_data_len h) \<longrightarrow>
            kvs_tcp_protocol lc buffer n response e = ret (- 5, buffer, response, e))"
  using handler_rejects [OF assms(1)] by (simp add: h_def)

theorem kvs_tcp_protocol_rejects_witness:
  "kvs_tcp_protocol demo_libc (replicate 30 0) 30 [] demo_engine = ret (- 2, replicate 30 0, [], demo_engine)"
proof -
  have "le_bytes n 0 = replicate n 0" for n by (induction n) simp_all
  then have "be32 0 = replicate 4 0" by (simp add: be32_def le32_def)
  then have "of_be32 (replicate 4 0) = 0" using of_be32_be32 [of 0] by simp
  then have "th_magic (tcp_fields (replicate 30 0)) = 0" by (simp add: tcp_fields_def)
  then show ?thesis
    using kvs_tcp_protocol_rejects [of "replicate 30 0" 30 demo_libc "[]" demo_engine]
    by (simp add: TCP_HEADER_SIZE_def TCP_MAGIC_def)
qed

section \<open>Answers are packets\<close>

lemma handler_rejects_any:
  assumes "TCP_HEADER_SIZE \<le> length buffer"
    and "\<not> (24 \<le> n \<and> good_header (tcp_fields buffer) \<and> int (24 + unat (th_data_len (tcp_fields buffer))) \<le> n)"
  shows "\<exists>c. c < 0 \<and> - 5 \<le> c \<and> kvs_tcp_protocol lc buffer n response e = ret (c, buffer, response, e)"
proof -
  let ?h = "tcp_fields buffer"
  have "\<not> (24 \<le> n \<and> good_header ?h \<and> 24 + uint (th_data_len ?h) \<le> n)" using assms(2) by simp
  then consider "n < 24" | "24 \<le> n" "th_magic ?h \<noteq> TCP_MAGIC" | "24 \<le> n" "th_magic ?h = TCP_MAGIC" "th_version ?h \<noteq> TCP_VERSION"
    | "24 \<le> n" "th_magic ?h = TCP_MAGIC" "th_version ?h = TCP_VERSION" "1024 < th_data_len ?h"
    | "24 \<le> n" "good_header ?h" "n < 24 + uint (th_data_len ?h)"
    unfolding good_header_def by (meson not_le)
  then show ?thesis by cases (simp_all add: handler_rejects [OF assms(1)])
qed

lemma handler_answers:
  assumes run: "kvs_tcp_protocol lc buffer n response e = ret (r, buffer', response', e')"
    and len: "TCP_HEADER_SIZE \<le> length buffer" "24 + RESULT_SIZE \<le> length response"
  shows "r < 0 \<and> - 5 \<le> r \<and> buffer' = buffer \<and> response' = response \<and> e' = e \<or>
    (\<exists>t. length t < RESULT_SIZE \<and> r = 24 + int (length t) \<and> response' = reply (tcp_fields buffer) t @ drop (24 + length t) response)"
proof (cases "24 \<le> n \<and> good_header (tcp_fields buffer) \<and> int (24 + unat (th_data_len (tcp_fields buffer))) \<le> n")
  case True
  let ?h = "tcp_fields buffer"
  have front: "tcp_header_bytes ?h @ drop 24 buffer = buffer" using len(1) by (intro header_at_front) (simp add: TCP_HEADER_SIZE_def)
  have "parse_tcp_header (Some buffer) (Some h0) = ret (0, Some ?h)" for h0
    using parse_tcp_header_bytes [of ?h "drop 24 buffer" h0] True front by (simp add: good_header_def)
  then obtain k v b where p: "parse_command buffer (unat (th_data_len ?h)) = ret (k, v, b)"
    and "\<exists>t b2 e2. run_command lc (th_cmd_type ?h) k v b e = ret (t, b2, e2)"
    using run True by (auto simp: kvs_tcp_protocol_def TCP_HEADER_SIZE_def Let_def split: if_splits)
  then obtain t b2 e2 where c: "run_command lc (th_cmd_type ?h) k v b e = ret (t, b2, e2)" by blast
  have "kvs_tcp_protocol lc buffer n response e = ret (24 + int (length t), b2, reply ?h t @ drop (24 + length t) response, e2)"
    using handler_run [of ?h n "drop 24 buffer" k v b lc e t b2 e2 response] True p c len(2) front by simp
  with run run_command_bounds(1) [OF c] show ?thesis by auto
next
  case False
  obtain c where "c < 0" "- 5 \<le> c" "kvs_tcp_protocol lc buffer n response e = ret (c, buffer, response, e)"
    using handler_rejects_any [OF len(1) False] by blast
  with run show ?thesis by simp
qed


definition demo_unknown :: tcp_header where
  "demo_unknown = \<lparr>th_magic = TCP_MAGIC, th_version = TCP_VERSION, th_cmd_type = 99, th_data_len = 0, th_seq_id = 7, th_flags = 0\<rparr>"


section \<open>The empty key\<close>

lemma parse_empty: "parse_command buffer 0 = ret (None, None, buffer)"
  by (simp add: parse_command_def)

text \<open>
  Property C28. One \<open>GET\<close> packet without data is answered, but leaves the mutex of the array
  locked: every later array command of any client, and the autosave thread, block for
  ever.
\<close>

theorem empty_get_blocks_server:
  assumes "good_header h" and "th_cmd_type h = 2" and "th_data_len h = 0"
    and "\<not> array_mutex (global_array e)" and "24 + RESULT_SIZE \<le> length response"
  shows "\<exists>e'. kvs_tcp_protocol lc (tcp_header_bytes h @ body) 24 response e =
                ret (32, tcp_header_bytes h @ body, reply h (lit ''NO EXIST'') @ drop 32 response, e') \<and>
              (\<forall>cmd k v b. cmd \<in> {1, 2, 3, 4, 5} \<longrightarrow> run_command lc cmd k v b e' = deadlock) \<and>
              (rdb_enabled (g_rdb_config e') \<longrightarrow> auto_save_round e' = deadlock)"
proof -
  let ?e = "e\<lparr>global_array := (global_array e)\<lparr>array_mutex := True\<rparr>\<rparr>"
  have get: "run_command lc (th_cmd_type h) None None (tcp_header_bytes h @ body) e =
      ret (lit ''NO EXIST'', tcp_header_bytes h @ body, ?e)"
    using assms(2,4) by (simp add: run_command_def array_command_def kvs_array_get_def array_lock_def get_text_def)
  have "kvs_tcp_protocol lc (tcp_header_bytes h @ body) 24 response e =
      ret (32, tcp_header_bytes h @ body, reply h (lit ''NO EXIST'') @ drop 32 response, ?e)"
    using handler_run [OF assms(1) _ _ get assms(5), of 24] assms(3) by (simp add: parse_empty)
  moreover have "run_command lc cmd k v b ?e = deadlock" if "cmd \<in> {1, 2, 3, 4, 5}" for cmd k v b
    using that
    by (auto simp: run_command_def array_command_def engine_array_set_def array_op_defs array_lock_def)
  moreover have "auto_save_round ?e = deadlock" if "rdb_enabled (g_rdb_config e)"
    using that by (simp add: auto_save_round_def array_lock_def)
  ultimately show ?thesis by (intro exI [of _ ?e]) auto
qed

theorem empty_get_blocks_server_witness:
  "\<exists>e'. kvs_tcp_protocol demo_libc
          (tcp_header_bytes \<lparr>th_magic = TCP_MAGIC, th_version = TCP_VERSION, th_cmd_type = 2, th_data_len = 0,
             th_seq_id = 1, th_flags = 0\<rparr> @ [0]) 24 (replicate 2048 0) demo_engine =
        ret (32, tcp_header_bytes \<lparr>th_magic = TCP_MAGIC, th_version = TCP_VERSION, th_cmd_type = 2, th_data_len = 0,
             th_seq_id = 1, th_flags = 0\<rparr> @ [0],
             reply \<lparr>th_magic = TCP_MAGIC, th_version = TCP_VERSION, th_cmd_type = 2, th_data_len = 0,
             th_seq_id = 1, th_flags = 0\<rparr> (lit ''NO EXIST'') @ drop 32 (replicate 2048 0), e') \<and>
      run_command demo_libc 1 (Some [97]) (Some [98]) [] e' = deadlock"
proof -
  have "\<not> array_mutex (global_array demo_engine)" by (simp add: demo_engine_def demo_array_def)
  from empty_get_blocks_server [OF _ _ _ this, of "\<lparr>th_magic = TCP_MAGIC, th_version = TCP_VERSION, th_cmd_type = 2,
      th_data_len = 0, th_seq_id = 1, th_flags = 0\<rparr>" "replicate 2048 0" demo_libc "[0]"] show ?thesis
    by (auto simp: good_header_def RESULT_SIZE_def)
qed

end
