(* ===== verification/Ntyco.thy ===== *)
theory Ntyco
  imports Tcp_Correct
begin

text \<open>
  The network loop (\<^verbatim>\<open>src/ntyco.c\<close>): one coroutine accepts connections, one per
  connection collects bytes, cuts them into packets and answers them. The coroutine
  library and the socket calls are outside the repository. They appear as what the loop
  sees of them: the descriptors \<open>accept\<close> returns, the bytes \<open>recv\<close> delivers, the
  messages handed to \<open>send\<close>, and the order in which coroutines run.
\<close>

section \<open>One connection\<close>

datatype phase = Receiving | Parsing | Closed

text \<open>\<open>buffer\<close> with \<open>buffer_len\<close>; the phase tells where the coroutine stands in its two loops.\<close>

record reader =
  r_fd :: int
  r_buffer :: "byte list"
  r_len :: nat
  r_phase :: phase

definition BUFFER_SIZE :: nat where
  "BUFFER_SIZE = 4096"

definition new_reader :: "int \<Rightarrow> reader" where
  "new_reader fd = \<lparr>r_fd = fd, r_buffer = replicate BUFFER_SIZE 0, r_len = 0, r_phase = Receiving\<rparr>"

text \<open>\<open>recv\<close> delivers at most as many bytes as there is room for; none means end or error.\<close>

definition recv_room :: "reader \<Rightarrow> nat" where
  "recv_room r = BUFFER_SIZE - r_len r"

definition reader_recv :: "byte list \<Rightarrow> reader \<Rightarrow> reader" where
  "reader_recv bs r =
     (if bs = [] then r\<lparr>r_phase := Closed\<rparr>
      else r\<lparr>r_buffer := take (r_len r) (r_buffer r) @ bs @ drop (r_len r + length bs) (r_buffer r),
             r_len := r_len r + length bs, r_phase := Parsing\<rparr>)"

text \<open>\<open>memmove\<close> of \<open>n\<close> bytes at offset \<open>off\<close> to the start of the buffer.\<close>

definition move_front :: "nat \<Rightarrow> nat \<Rightarrow> byte list \<Rightarrow> byte list" where
  "move_front off n buffer = take n (drop off buffer) @ drop n buffer"

text \<open>The message for \<open>send\<close>: a header made from that of the request, then the whole response.\<close>

definition send_message :: "tcp_header \<Rightarrow> int \<Rightarrow> byte list \<Rightarrow> byte list res" where
  "send_message header resp_len response =
     (if length response < nat resp_len then undef
      else rbind (copy_front (tcp_header_bytes (header\<lparr>th_data_len := word_of_int resp_len\<rparr>) @
                              take (nat resp_len) response) (replicate 4096 0))
             (\<lambda>send_buf. ret (take (TCP_HEADER_SIZE + nat resp_len) send_buf)))"

text \<open>
  One round of the inner loop: the new state of the connection, the messages sent, the
  engine. Whether \<open>send\<close> succeeds has no influence.
\<close>

definition reader_packet :: "libc \<Rightarrow> reader \<Rightarrow> kvs_engine \<Rightarrow> (reader \<times> byte list list \<times> kvs_engine) res" where
  "reader_packet lc r e =
     (if r_len r < TCP_HEADER_SIZE then ret (r\<lparr>r_phase := Receiving\<rparr>, [], e)
      else rbind (parse_tcp_header (Some (r_buffer r)) (Some (tcp_fields []))) (\<lambda>(status, header_opt).
        let header = the header_opt;
            total_len = TCP_HEADER_SIZE + unat (th_data_len header)
        in if status < 0 then ret (r\<lparr>r_phase := Closed\<rparr>, [], e)
           else if r_len r < total_len then ret (r\<lparr>r_phase := Receiving\<rparr>, [], e)
           else rbind (kvs_tcp_protocol lc (r_buffer r) (int total_len) (replicate 2048 0) e)
                  (\<lambda>(resp_len, buffer, response, e').
                     let r' = r\<lparr>r_buffer := move_front total_len (r_len r - total_len) buffer,
                                r_len := r_len r - total_len\<rparr>
                     in if 0 < resp_len
                        then rbind (send_message header resp_len response) (\<lambda>m. ret (r', [m], e'))
                        else ret (r', [], e'))))"

section \<open>The inner loop\<close>

lemma packet_progress:
  assumes "reader_packet lc r e = ret (r', out, e')" and "r_phase r' = Parsing"
  shows "r_len r' + 24 \<le> r_len r"
  using assms by (auto simp: reader_packet_def TCP_HEADER_SIZE_def Let_def split: if_splits)

text \<open>
  The loop of one coroutine when no other one runs in between. It ends because a packet
  has at least 24 bytes.
\<close>

function reader_loop :: "libc \<Rightarrow> reader \<Rightarrow> kvs_engine \<Rightarrow> (reader \<times> byte list list \<times> kvs_engine) res" where
  "reader_loop lc r e =
     (case reader_packet lc r e of
        Inl f \<Rightarrow> Inl f
      | Inr (r', out, e') \<Rightarrow>
          if r_phase r' = Parsing
          then rbind (reader_loop lc r' e') (\<lambda>(r'', out', e''). ret (r'', out @ out', e''))
          else ret (r', out, e'))"
  by pat_completeness auto

termination
proof (relation "measure (\<lambda>(lc, r, e). r_len r)")
  fix lc and r :: reader and e and x :: "reader \<times> byte list list \<times> kvs_engine" and r' y out e'
  assume "reader_packet lc r e = Inr x" "(r', y) = x" "(out, e') = y" "r_phase r' = Parsing"
  then show "((lc, r', e'), lc, r, e) \<in> measure (\<lambda>(lc, r, e). r_len r)"
    using packet_progress by fastforce
qed simp

declare reader_loop.simps [simp del]

text \<open>A connection that receives the given chunks, with no other one active.\<close>

fun read_chunks :: "libc \<Rightarrow> byte list list \<Rightarrow> reader \<Rightarrow> kvs_engine \<Rightarrow> (reader \<times> byte list list \<times> kvs_engine) res" where
  "read_chunks lc [] r e = ret (r, [], e)"
| "read_chunks lc (bs # bss) r e =
     (if r_phase r = Closed then ret (r, [], e)
      else if r_phase (reader_recv bs r) = Closed then ret (reader_recv bs r, [], e)
      else rbind (reader_loop lc (reader_recv bs r) e) (\<lambda>(r', out, e').
             rbind (read_chunks lc bss r' e') (\<lambda>(r'', out', e''). ret (r'', out @ out', e''))))"

section \<open>All connections\<close>

text \<open>
  A new coroutine finds its descriptor through a pointer to the variable \<open>cli_fd\<close> of the
  accepting one, and reads it when it first runs. \<open>spawned\<close> counts the coroutines that did not
  run yet. Coroutines switch in socket calls only, so a packet is handled in one step.
\<close>

record ntyco =
  cli_fd :: int
  spawned :: nat
  readers :: "reader list"
  sent :: "(int \<times> byte list) list"
  kv_engine :: kvs_engine

definition ntyco_start :: "kvs_engine \<Rightarrow> ntyco" where
  "ntyco_start e = \<lparr>cli_fd = 0, spawned = 0, readers = [], sent = [], kv_engine = e\<rparr>"

definition server_accept :: "int \<Rightarrow> ntyco \<Rightarrow> ntyco" where
  "server_accept fd s = s\<lparr>cli_fd := fd, spawned := spawned s + 1\<rparr>"

definition reader_start :: "ntyco \<Rightarrow> ntyco" where
  "reader_start s = s\<lparr>spawned := spawned s - 1, readers := readers s @ [new_reader (cli_fd s)]\<rparr>"

definition server_recv :: "nat \<Rightarrow> byte list \<Rightarrow> ntyco \<Rightarrow> ntyco" where
  "server_recv i bs s = s\<lparr>readers := (readers s)[i := reader_recv bs (readers s ! i)]\<rparr>"

definition server_packet :: "libc \<Rightarrow> nat \<Rightarrow> ntyco \<Rightarrow> ntyco res" where
  "server_packet lc i s =
     rbind (reader_packet lc (readers s ! i) (kv_engine s)) (\<lambda>(r, out, e).
       ret (s\<lparr>readers := (readers s)[i := r], sent := sent s @ map (Pair (r_fd r)) out, kv_engine := e\<rparr>))"

inductive server_step :: "libc \<Rightarrow> ntyco \<Rightarrow> ntyco \<Rightarrow> bool" for lc where
  accept: "server_step lc s (server_accept fd s)"
| start: "0 < spawned s \<Longrightarrow> server_step lc s (reader_start s)"
| recv: "i < length (readers s) \<Longrightarrow> r_phase (readers s ! i) = Receiving \<Longrightarrow>
         length bs \<le> recv_room (readers s ! i) \<Longrightarrow> server_step lc s (server_recv i bs s)"
| packet: "i < length (readers s) \<Longrightarrow> r_phase (readers s ! i) = Parsing \<Longrightarrow>
           server_packet lc i s = ret s' \<Longrightarrow> server_step lc s s'"

inductive reachable :: "libc \<Rightarrow> kvs_engine \<Rightarrow> ntyco \<Rightarrow> bool" for lc e where
  init: "reachable lc e (ntyco_start e)"
| step: "reachable lc e s \<Longrightarrow> server_step lc s s' \<Longrightarrow> reachable lc e s'"

inductive_cases server_stepE: "server_step lc s s'"

section \<open>What a packet does\<close>

text \<open>The answer as the client receives it: the response, with a second header in front.\<close>

definition envelope :: "tcp_header \<Rightarrow> cstring \<Rightarrow> byte list" where
  "envelope h t = tcp_header_bytes (h\<lparr>th_data_len := of_nat (24 + length t)\<rparr>) @ reply h t"

lemma length_envelope [simp]: "length (envelope h t) = 48 + length t"
  by (simp add: envelope_def length_reply)

lemma send_message_reply:
  assumes "length t < RESULT_SIZE" and "24 + length t \<le> length (reply h t @ rest)"
  shows "send_message h (24 + int (length t)) (reply h t @ rest) = ret (envelope h t)"
  using assms
  by (simp add: send_message_def copy_front_def TCP_HEADER_SIZE_def RESULT_SIZE_def envelope_def length_reply
      nat_add_distrib)

text \<open>The buffer of a connection, and why \<open>recv\<close> never finds it full.\<close>

definition reader_ok :: "reader \<Rightarrow> bool" where
  "reader_ok r \<longleftrightarrow>
     length (r_buffer r) = BUFFER_SIZE \<and> r_len r \<le> BUFFER_SIZE \<and> (r_phase r = Receiving \<longrightarrow> r_len r < 24 + 1024)"

text \<open>A complete packet is at the front of the buffer.\<close>

definition packet_ready :: "reader \<Rightarrow> bool" where
  "packet_ready r \<longleftrightarrow>
     24 \<le> r_len r \<and> good_header (tcp_fields (r_buffer r)) \<and> 24 + unat (th_data_len (tcp_fields (r_buffer r))) \<le> r_len r"

lemma reader_packet_ready:
  assumes ok: "reader_ok r" and ready: "packet_ready r" and h: "h = tcp_fields (r_buffer r)"
  shows "\<exists>k v b. parse_command (r_buffer r) (unat (th_data_len h)) = ret (k, v, b) \<and>
           reader_packet lc r e =
             rbind (run_command lc (th_cmd_type h) k v b e) (\<lambda>(t, b2, e').
               ret (r\<lparr>r_buffer := move_front (24 + unat (th_data_len h)) (r_len r - (24 + unat (th_data_len h))) b2,
                      r_len := r_len r - (24 + unat (th_data_len h))\<rparr>, [envelope h t], e'))"
proof -
  let ?n = "unat (th_data_len h)"
  have good: "good_header h" and len: "24 + ?n \<le> r_len r" "24 \<le> r_len r"
    using ready h by (auto simp: packet_ready_def)
  have n: "?n \<le> 1024" using good by (simp add: good_header_def word_le_nat_alt)
  have buf: "length (r_buffer r) = 4096" using ok by (simp add: reader_ok_def BUFFER_SIZE_def)
  then have front: "tcp_header_bytes h @ drop 24 (r_buffer r) = r_buffer r"
    using header_at_front h by simp
  obtain k v b where p: "parse_command (r_buffer r) ?n = ret (k, v, b)"
    using parse_command_total [of ?n "r_buffer r"] buf n by auto
  have hd: "parse_tcp_header (Some (r_buffer r)) (Some h0) = ret (0, Some h)" for h0
    using good parse_tcp_header_bytes [of h "drop 24 (r_buffer r)" h0] front by (simp add: good_header_def)
  have "reader_packet lc r e =
      rbind (kvs_tcp_protocol lc (r_buffer r) (int (24 + ?n)) (replicate 2048 0) e) (\<lambda>(resp_len, buffer, response, e').
        let r' = r\<lparr>r_buffer := move_front (24 + ?n) (r_len r - (24 + ?n)) buffer, r_len := r_len r - (24 + ?n)\<rparr>
        in if 0 < resp_len then rbind (send_message h resp_len response) (\<lambda>m. ret (r', [m], e')) else ret (r', [], e'))"
    using len by (simp add: reader_packet_def hd TCP_HEADER_SIZE_def Let_def cong: if_cong)
  moreover have "kvs_tcp_protocol lc (r_buffer r) (int (24 + ?n)) (replicate 2048 0) e = Inl f"
    if "run_command lc (th_cmd_type h) k v b e = Inl f" for f
    using that p hd by (simp add: kvs_tcp_protocol_def TCP_HEADER_SIZE_def Let_def)
  moreover have "kvs_tcp_protocol lc (r_buffer r) (int (24 + ?n)) (replicate 2048 0) e =
      ret (24 + int (length t), b2, reply h t @ drop (24 + length t) (replicate 2048 0), e')"
    if "run_command lc (th_cmd_type h) k v b e = ret (t, b2, e')" for t b2 e'
    using handler_run [of h "int (24 + ?n)" "drop 24 (r_buffer r)" k v b lc e t b2 e' "replicate 2048 0"]
      that good front p by (simp add: RESULT_SIZE_def)
  ultimately show ?thesis
    using p send_message_reply run_command_bounds(1)
    by (cases "run_command lc (th_cmd_type h) k v b e") (fastforce simp: length_reply)+
qed

lemma reader_packet_not_ready:
  assumes ok: "reader_ok r" and "\<not> packet_ready r"
  shows "reader_packet lc r e =
    ret (r\<lparr>r_phase := if 24 \<le> r_len r \<and> \<not> good_header (tcp_fields (r_buffer r)) then Closed else Receiving\<rparr>, [], e)"
  using assms
  by (auto simp: reader_packet_def parse_tcp_header_def packet_ready_def good_header_def reader_ok_def BUFFER_SIZE_def
      TCP_HEADER_SIZE_def Let_def not_less dest: leD)

section \<open>The invariant\<close>

lemma length_move_front: "off + n \<le> length b \<Longrightarrow> length (move_front off n b) = length b"
  by (simp add: move_front_def)

lemma reader_ok_new: "reader_ok (new_reader fd)"
  by (simp add: reader_ok_def new_reader_def)

lemma reader_ok_recv: "reader_ok r \<Longrightarrow> length bs \<le> recv_room r \<Longrightarrow> reader_ok (reader_recv bs r)"
  by (auto simp: reader_ok_def reader_recv_def recv_room_def)

lemma reader_packet_keeps:
  assumes ok: "reader_ok r" "r_phase r = Parsing" and run: "reader_packet lc r e = ret (r', out, e')"
  shows "reader_ok r' \<and> r_fd r' = r_fd r \<and> (\<forall>m\<in>set out. \<exists>h t. m = envelope h t \<and> length t < RESULT_SIZE)"
proof (cases "packet_ready r")
  case True
  let ?h = "tcp_fields (r_buffer r)"
  let ?n = "24 + unat (th_data_len ?h)"
  obtain k v b where p: "parse_command (r_buffer r) (unat (th_data_len ?h)) = ret (k, v, b)"
    and q: "reader_packet lc r e = rbind (run_command lc (th_cmd_type ?h) k v b e) (\<lambda>(t, b2, e').
        ret (r\<lparr>r_buffer := move_front ?n (r_len r - ?n) b2, r_len := r_len r - ?n\<rparr>, [envelope ?h t], e'))"
    using reader_packet_ready [OF ok(1) True refl, of lc e] by blast
  obtain t b2 where c: "run_command lc (th_cmd_type ?h) k v b e = ret (t, b2, e')"
    and r': "r' = r\<lparr>r_buffer := move_front ?n (r_len r - ?n) b2, r_len := r_len r - ?n\<rparr>" "out = [envelope ?h t]"
    using run unfolding q by auto
  have "length b2 = BUFFER_SIZE"
    using run_command_bounds(2) [OF c] parse_command_length [OF p] ok by (simp add: reader_ok_def)
  moreover have "?n \<le> r_len r" using True by (simp add: packet_ready_def)
  ultimately show ?thesis
    using ok r' run_command_bounds(1) [OF c] by (auto simp: reader_ok_def length_move_front)
next
  case False
  have "r_len r < 24 + 1024" if "24 \<le> r_len r \<longrightarrow> good_header (tcp_fields (r_buffer r))"
    using False that by (auto simp: packet_ready_def good_header_def word_le_nat_alt)
  then show ?thesis
    using reader_packet_not_ready [OF ok(1) False] run ok by (auto simp: reader_ok_def split: if_splits)
qed

definition ntyco_ok :: "ntyco \<Rightarrow> bool" where
  "ntyco_ok s \<longleftrightarrow>
     (\<forall>r\<in>set (readers s). reader_ok r) \<and>
     (\<forall>(fd, m)\<in>set (sent s). \<exists>h t. m = envelope h t \<and> length t < RESULT_SIZE)"

lemma ntyco_ok_update:
  "ntyco_ok s \<Longrightarrow> reader_ok r \<Longrightarrow> \<forall>m\<in>set out. \<exists>h t. m = envelope h t \<and> length t < RESULT_SIZE \<Longrightarrow>
   ntyco_ok (s\<lparr>readers := (readers s)[i := r], sent := sent s @ map (Pair fd) out, kv_engine := e\<rparr>)"
  by (auto simp: ntyco_ok_def dest!: set_update_subset_insert [THEN subsetD])

lemma server_step_ok: "server_step lc s s' \<Longrightarrow> ntyco_ok s \<Longrightarrow> ntyco_ok s'"
proof (induction rule: server_step.induct)
  case (recv i s bs)
  then have "reader_ok (reader_recv bs (readers s ! i))"
    by (intro reader_ok_recv) (simp_all add: ntyco_ok_def)
  then show ?case
    using recv by (auto simp: ntyco_ok_def server_recv_def dest!: set_update_subset_insert [THEN subsetD])
next
  case (packet i s s')
  then obtain r out e where 1: "reader_packet lc (readers s ! i) (kv_engine s) = ret (r, out, e)"
    "s' = s\<lparr>readers := (readers s)[i := r], sent := sent s @ map (Pair (r_fd r)) out, kv_engine := e\<rparr>"
    by (auto simp: server_packet_def)
  have "reader_ok (readers s ! i)" using packet by (simp add: ntyco_ok_def)
  from reader_packet_keeps [OF this packet(2) 1(1)] show ?case
    unfolding 1(2) by (intro ntyco_ok_update packet) auto
qed (auto simp: ntyco_ok_def server_accept_def reader_start_def reader_ok_new)

lemma reachable_ok: "reachable lc e s \<Longrightarrow> ntyco_ok s"
proof (induction rule: reachable.induct)
  case init
  then show ?case by (simp add: ntyco_ok_def ntyco_start_def)
qed (rule server_step_ok)

text \<open>
  Property C22. Whatever the clients send and however the coroutines are scheduled: the bytes of a
  connection stay within its buffer, \<open>recv\<close> is never called without room, so that its zero means
  that the connection has ended, and every message fits the send buffer and is a header
  followed by a response.
\<close>

theorem ntyco_reader_bounds:
  assumes "reachable lc e s"
  shows "(\<forall>r\<in>set (readers s). length (r_buffer r) = BUFFER_SIZE \<and> r_len r \<le> BUFFER_SIZE \<and>
            (r_phase r = Receiving \<longrightarrow> 0 < recv_room r)) \<and>
         (\<forall>(fd, m)\<in>set (sent s). length m < BUFFER_SIZE \<and> (\<exists>h t. m = envelope h t))"
proof (intro conjI ballI)
  fix r assume "r \<in> set (readers s)"
  then have "reader_ok r" using reachable_ok [OF assms] by (simp add: ntyco_ok_def)
  then show "length (r_buffer r) = BUFFER_SIZE" "r_len r \<le> BUFFER_SIZE" "r_phase r = Receiving \<longrightarrow> 0 < recv_room r"
    by (auto simp: reader_ok_def recv_room_def BUFFER_SIZE_def)
next
  fix x assume "x \<in> set (sent s)"
  then show "case x of (fd, m) \<Rightarrow> length m < BUFFER_SIZE \<and> (\<exists>h t. m = envelope h t)"
    using reachable_ok [OF assms] by (fastforce simp: ntyco_ok_def RESULT_SIZE_def BUFFER_SIZE_def)
qed

lemma reader_packet_fault:
  assumes "reader_ok r" and fault: "reader_packet lc r e = Inl f"
  shows "\<exists>cmd key val b. run_command lc cmd key val b e = Inl f"
proof -
  have "packet_ready r" using reader_packet_not_ready [OF assms(1), of lc e] fault by auto
  from reader_packet_ready [OF assms(1) this refl, of lc e] show ?thesis
    unfolding fault by (auto simp: rbind_eq_Inl split: prod.splits dest!: sym [of "Inl f"]) blast
qed


section \<open>The inner loop ends\<close>

lemma reader_loop_done:
  "reader_packet lc r e = ret (r', out, e') \<Longrightarrow> r_phase r' \<noteq> Parsing \<Longrightarrow> reader_loop lc r e = ret (r', out, e')"
  by (simp add: reader_loop.simps)

lemma reader_loop_more:
  "reader_packet lc r e = ret (r', out, e') \<Longrightarrow> r_phase r' = Parsing \<Longrightarrow>
   reader_loop lc r e = rbind (reader_loop lc r' e') (\<lambda>(r'', out', e''). ret (r'', out @ out', e''))"
  by (subst reader_loop.simps) simp

lemma reader_packet_output:
  assumes "reader_packet lc r e = ret (r', out, e')"
  shows "24 * length out + r_len r' \<le> r_len r"
  using assms by (auto simp: reader_packet_def TCP_HEADER_SIZE_def Let_def split: if_splits)

lemma reader_loop_result:
  "reader_loop lc r e = ret (r', out, e') \<Longrightarrow> reader_ok r \<Longrightarrow> r_phase r = Parsing \<Longrightarrow>
   reader_ok r' \<and> r_fd r' = r_fd r \<and> r_phase r' \<noteq> Parsing \<and> 24 * length out + r_len r' \<le> r_len r"
proof (induction lc r e arbitrary: r' out e' rule: reader_loop.induct)
  case (1 lc r e)
  obtain r1 out1 e1 where 2: "reader_packet lc r e = ret (r1, out1, e1)"
    using "1.prems"(1) by (subst (asm) reader_loop.simps) (auto split: sum.splits)
  note keep = reader_packet_keeps [OF "1.prems"(2,3) 2]
  show ?case
  proof (cases "r_phase r1 = Parsing")
    case True
    then obtain out2 where 3: "reader_loop lc r1 e1 = ret (r', out2, e')" "out = out1 @ out2"
      using "1.prems"(1) reader_loop_more [OF 2] by auto
    from "1.IH" [OF 2 refl refl True 3(1)] True keep reader_packet_output [OF 2] 3(2) show ?thesis by auto
  next
    case False
    then show ?thesis using "1.prems"(1) reader_loop_done [OF 2] keep reader_packet_output [OF 2] by auto
  qed
qed

lemma reader_loop_fault:
  "reader_loop lc r e = Inl f \<Longrightarrow> reader_ok r \<Longrightarrow> r_phase r = Parsing \<Longrightarrow>
   \<exists>cmd key val b e'. run_command lc cmd key val b e' = Inl f"
proof (induction lc r e rule: reader_loop.induct)
  case (1 lc r e)
  show ?case
  proof (cases "reader_packet lc r e")
    case (Inl f')
    then show ?thesis
      using "1.prems" reader_packet_fault [OF "1.prems"(2), of lc e f] by (subst (asm) reader_loop.simps) (auto, blast)
  next
    case (Inr x)
    obtain r1 out1 e1 where x: "x = (r1, out1, e1)" by (cases x)
    note 2 = Inr [unfolded x]
    have *: "r_phase r1 = Parsing" using "1.prems"(1) reader_loop_done [OF 2] by auto
    then have "reader_loop lc r1 e1 = Inl f"
      using "1.prems"(1) reader_loop_more [OF 2] by (auto simp: rbind_eq_Inl)
    from "1.IH" [OF 2 refl refl * this] reader_packet_keeps [OF "1.prems"(2,3) 2] * show ?thesis by blast
  qed
qed

text \<open>A loop of one coroutine is a sequence of steps of the server.\<close>

lemma reader_loop_steps:
  "reader_loop lc (readers s ! i) (kv_engine s) = ret (r', out, e') \<Longrightarrow> i < length (readers s) \<Longrightarrow>
   r_phase (readers s ! i) = Parsing \<Longrightarrow> reader_ok (readers s ! i) \<Longrightarrow>
   (server_step lc)\<^sup>*\<^sup>* s
     (s\<lparr>readers := (readers s)[i := r'], sent := sent s @ map (Pair (r_fd (readers s ! i))) out, kv_engine := e'\<rparr>)"
proof (induction "r_len (readers s ! i)" arbitrary: s r' out e' rule: less_induct)
  case less
  let ?r = "readers s ! i"
  obtain r1 out1 e1 where 2: "reader_packet lc ?r (kv_engine s) = ret (r1, out1, e1)"
    using less.prems(1) by (subst (asm) reader_loop.simps) (auto split: sum.splits)
  note keep = reader_packet_keeps [OF less.prems(4,3) 2]
  let ?s1 = "s\<lparr>readers := (readers s)[i := r1], sent := sent s @ map (Pair (r_fd ?r)) out1, kv_engine := e1\<rparr>"
  have step: "server_step lc s ?s1"
    using less.prems 2 keep by (intro server_step.packet [of i]) (simp_all add: server_packet_def)
  show ?case
  proof (cases "r_phase r1 = Parsing")
    case True
    then obtain out2 where 3: "reader_loop lc r1 e1 = ret (r', out2, e')" "out = out1 @ out2"
      using less.prems(1) reader_loop_more [OF 2] by auto
    have "(server_step lc)\<^sup>*\<^sup>* ?s1 (?s1\<lparr>readers := (readers ?s1)[i := r'],
        sent := sent ?s1 @ map (Pair (r_fd (readers ?s1 ! i))) out2, kv_engine := e'\<rparr>)"
      using less.hyps [of ?s1 r' out2 e'] 3(1) keep True less.prems packet_progress [OF 2 True] by simp
    then show ?thesis
      using step 3(2) keep less.prems(2) by (auto intro: converse_rtranclp_into_rtranclp)
  next
    case False
    then show ?thesis using step less.prems(1) reader_loop_done [OF 2] by auto
  qed
qed

text \<open>
  Property C24. A coroutine never stays in its inner loop: from any state of the server that can be
  reached it comes, with at most one answer per 24 bytes it had received, to a point
  where it waits for the client or has closed the connection, or else a command of the
  engine faults.
\<close>

theorem ntyco_inner_loop_ends:
  assumes "reachable lc e0 s" and "i < length (readers s)" and "r_phase (readers s ! i) = Parsing"
  shows "(\<exists>r' out e' s'. reader_loop lc (readers s ! i) (kv_engine s) = ret (r', out, e') \<and>
            (server_step lc)\<^sup>*\<^sup>* s s' \<and> readers s' = (readers s)[i := r'] \<and> r_phase r' \<noteq> Parsing \<and>
            sent s' = sent s @ map (Pair (r_fd (readers s ! i))) out \<and> 24 * length out \<le> r_len (readers s ! i)) \<or>
         (\<exists>f cmd key val b e. reader_loop lc (readers s ! i) (kv_engine s) = Inl f \<and>
            run_command lc cmd key val b e = Inl f)"
proof -
  have ok: "reader_ok (readers s ! i)" using reachable_ok [OF assms(1)] assms(2) by (simp add: ntyco_ok_def)
  show ?thesis
  proof (cases "reader_loop lc (readers s ! i) (kv_engine s)")
    case (Inl f)
    with reader_loop_fault [OF this ok assms(3)] show ?thesis by blast
  next
    case (Inr x)
    obtain r' out e' where x: "x = (r', out, e')" by (cases x)
    note run = Inr [unfolded x]
    from reader_loop_steps [OF run assms(2,3) ok] reader_loop_result [OF run ok assms(3)] run
    have "\<exists>s'. (server_step lc)\<^sup>*\<^sup>* s s' \<and> readers s' = (readers s)[i := r'] \<and> r_phase r' \<noteq> Parsing \<and>
        sent s' = sent s @ map (Pair (r_fd (readers s ! i))) out \<and> 24 * length out \<le> r_len (readers s ! i)"
      by fastforce
    with run show ?thesis by blast
  qed
qed

section \<open>Requests in pieces\<close>

text \<open>What the connection has received of a request that is not complete.\<close>

definition received :: "byte list \<Rightarrow> reader \<Rightarrow> bool" where
  "received p r \<longleftrightarrow> reader_ok r \<and> r_phase r = Receiving \<and> r_len r = length p \<and> take (length p) (r_buffer r) = p"

lemma request_bytes_length: "request_ok q \<Longrightarrow> length (request_bytes q) \<le> 24 + 1024"
  by (simp add: request_bytes_def request_ok_def)

lemma header_of_prefix:
  assumes "take n buffer = take n (request_bytes q)" and "24 \<le> n" and "n \<le> length buffer" "n \<le> length (request_bytes q)"
  shows "tcp_fields buffer = request_header q"
proof -
  have "take 24 buffer = take 24 (take n buffer)" using assms(2) by simp
  also have "\<dots> = tcp_header_bytes (request_header q)" using assms(1,2) by (simp add: request_bytes_def)
  finally show ?thesis using append_take_drop_id [of 24 buffer] tcp_fields_bytes by metis
qed

lemma recv_piece:
  assumes rec: "received p r" and "bs \<noteq> []" and ok: "request_ok q" and pre: "p @ bs @ rest = request_bytes q"
  defines "r1 \<equiv> reader_recv bs r"
  shows "reader_ok r1" and "r_phase r1 = Parsing" and "r_len r1 = length (p @ bs)"
    and "take (length (p @ bs)) (r_buffer r1) = p @ bs" and "r_fd r1 = r_fd r"
proof -
  have "length p + length bs \<le> 1048"
    using request_bytes_length [OF ok] arg_cong [OF pre, of length] by simp
  then show "reader_ok r1" "r_phase r1 = Parsing" "r_len r1 = length (p @ bs)"
      "take (length (p @ bs)) (r_buffer r1) = p @ bs" "r_fd r1 = r_fd r"
    using assms(2) rec by (auto simp: r1_def reader_recv_def received_def reader_ok_def BUFFER_SIZE_def)
qed

lemma partial_request_waits:
  assumes rec: "received p r" and bs: "bs \<noteq> []" and ok: "request_ok q" and pre: "p @ bs @ rest = request_bytes q" "rest \<noteq> []"
  shows "\<exists>r'. reader_loop lc (reader_recv bs r) e = ret (r', [], e) \<and> received (p @ bs) r' \<and> r_fd r' = r_fd r"
proof -
  let ?r = "reader_recv bs r"
  note r1 = recv_piece [OF rec bs ok pre(1)]
  have len: "length (p @ bs) < 24 + length (request_data q)" "length (p @ bs) < length (request_bytes q)"
    using arg_cong [OF pre(1), of length] pre(2) by (simp_all add: request_bytes_def flip: length_greater_0_conv)
  have h: "tcp_fields (r_buffer ?r) = request_header q" if "24 \<le> r_len ?r"
    using header_of_prefix [of "length (p @ bs)" "r_buffer ?r" q] that r1 len(2) pre(1) [symmetric]
    by (auto simp: reader_ok_def)
  then have "\<not> packet_ready ?r"
    using len r1(3) request_data_len [OF ok] by (auto simp: packet_ready_def)
  from reader_packet_not_ready [OF r1(1) this, of lc e] h request_header_good [OF ok]
  have p: "reader_packet lc ?r e = ret (?r\<lparr>r_phase := Receiving\<rparr>, [], e)" by auto
  have "received (p @ bs) (?r\<lparr>r_phase := Receiving\<rparr>)"
    using r1 len(2) request_bytes_length [OF ok] by (auto simp: received_def reader_ok_def)
  then show ?thesis using reader_loop_done [OF p] r1(5) by auto
qed

text \<open>A complete request at the front of the buffer, with more bytes behind it or not.\<close>

lemma request_packet:
  assumes rep: "engine_rep e L s" and mem: "mem_budget (engine_heap e) (n + 4)" and en: "kv_enabled lc q s"
    and room: "rq_cmd q = CMD_SET \<Longrightarrow> total (global_array e) < KVS_ARRAY_SIZE" and step: "kv_step lc q s = (t, s')"
    and r: "reader_ok r" and buf: "r_buffer r = request_bytes q @ b # rest" and len: "length (request_bytes q) \<le> r_len r"
  shows "\<exists>b1 e' L'. reader_packet lc r e =
             ret (r\<lparr>r_buffer := move_front (length (request_bytes q)) (r_len r - length (request_bytes q)) b1,
                    r_len := r_len r - length (request_bytes q)\<rparr>, [envelope (request_header q) t], e') \<and>
           drop (length (request_bytes q)) b1 = 0 # rest \<and> engine_rep e' L' s' \<and>
           mem_budget (engine_heap e') n \<and> total (global_array e') \<le> total (global_array e) + 1"
proof -
  have ok: "request_ok q" using en by (simp add: kv_enabled_def)
  have n: "length (request_bytes q) = 24 + length (request_data q)" by (simp add: request_bytes_def)
  have h: "tcp_fields (r_buffer r) = request_header q"
    using buf by (simp add: request_bytes_def)
  have ready: "packet_ready r"
    using h len n request_data_len [OF ok] request_header_good [OF ok] by (simp add: packet_ready_def)
  obtain b0 where p: "parse_command (r_buffer r) (length (request_data q)) = ret (Some (rq_key q), rq_value q, b0)"
    "drop (length (request_bytes q)) b0 = 0 # rest"
    using parse_request [OF ok, of b rest] buf by auto
  obtain b1 e' L' where run: "run_command lc (rq_cmd q) (Some (rq_key q)) (rq_value q) b0 e = ret (t, b1, e')"
    "engine_rep e' L' s'" "drop (length (request_bytes q)) b1 = 0 # rest"
    "mem_budget (engine_heap e') n" "total (global_array e') \<le> total (global_array e) + 1"
    using run_request [OF rep mem en room, of b0] step p(2) by auto
  have cmd: "th_cmd_type (request_header q) = rq_cmd q" by (simp add: request_header_def)
  have "reader_packet lc r e =
      ret (r\<lparr>r_buffer := move_front (length (request_bytes q)) (r_len r - length (request_bytes q)) b1,
             r_len := r_len r - length (request_bytes q)\<rparr>, [envelope (request_header q) t], e')"
    using reader_packet_ready [OF r ready h [symmetric], of lc e] p run(1) n request_data_len [OF ok] cmd by auto
  with run(2-5) show ?thesis by blast
qed

lemma complete_request_served:
  assumes rep: "engine_rep e L s" and mem: "mem_budget (engine_heap e) (n + 4)" and en: "kv_enabled lc q s"
    and room: "rq_cmd q = CMD_SET \<Longrightarrow> total (global_array e) < KVS_ARRAY_SIZE" and step: "kv_step lc q s = (t, s')"
    and rec: "received p r" and bs: "bs \<noteq> []" and pre: "p @ bs = request_bytes q"
  shows "\<exists>r' e' L'. reader_loop lc (reader_recv bs r) e = ret (r', [envelope (request_header q) t], e') \<and>
           received [] r' \<and> r_fd r' = r_fd r \<and> engine_rep e' L' s' \<and>
           mem_budget (engine_heap e') n \<and> total (global_array e') \<le> total (global_array e) + 1"
proof -
  let ?r = "reader_recv bs r"
  let ?n = "length (request_bytes q)"
  have ok: "request_ok q" using en by (simp add: kv_enabled_def)
  note r1 = recv_piece [OF rec bs ok, of "[]", simplified append_Nil2, OF pre, unfolded pre]
  have "?n < length (r_buffer ?r)"
    using request_bytes_length [OF ok] r1(1) by (simp add: reader_ok_def BUFFER_SIZE_def)
  then obtain b rest where buf: "r_buffer ?r = request_bytes q @ b # rest"
    using r1(4) append_take_drop_id [of ?n "r_buffer ?r"] by (cases "drop ?n (r_buffer ?r)") (auto dest: sym)
  obtain b1 e' L' where step: "reader_packet lc ?r e =
      ret (?r\<lparr>r_buffer := move_front ?n 0 b1, r_len := 0\<rparr>, [envelope (request_header q) t], e')"
    and rest: "engine_rep e' L' s'" "mem_budget (engine_heap e') n"
      "total (global_array e') \<le> total (global_array e) + 1"
    using request_packet [OF rep mem en room step r1(1) buf] r1(3) by auto
  let ?r1 = "?r\<lparr>r_buffer := move_front ?n 0 b1, r_len := 0\<rparr>"
  have "reader_ok ?r1" "r_phase ?r1 = Parsing"
    using reader_packet_keeps [OF r1(1,2) step] r1(2) by simp_all
  then have "reader_loop lc ?r1 e' = ret (?r1\<lparr>r_phase := Receiving\<rparr>, [], e')" "received [] (?r1\<lparr>r_phase := Receiving\<rparr>)"
    by (auto simp: received_def reader_ok_def reader_packet_def TCP_HEADER_SIZE_def intro!: reader_loop_done)
  then show ?thesis
    using reader_loop_more [OF step] rest r1(2,5)
    by (intro exI [of _ "?r1\<lparr>r_phase := Receiving\<rparr>"] exI [of _ e'] exI [of _ L']) auto
qed

lemma read_chunks_append:
  "read_chunks lc (xs @ ys) r e =
     rbind (read_chunks lc xs r e) (\<lambda>(r1, out1, e1).
       rbind (read_chunks lc ys r1 e1) (\<lambda>(r2, out2, e2). ret (r2, out1 @ out2, e2)))"
proof (induction xs arbitrary: r e)
  case Nil
  then show ?case by (cases "read_chunks lc ys r e") auto
next
  case (Cons bs xs)
  have closed: "read_chunks lc ys r' e' = ret (r', [], e')" if "r_phase r' = Closed" for r' e'
    using that by (cases ys) auto
  have "rbind (rbind m (\<lambda>(r', out, e'). rbind (k r' e') (\<lambda>(r'', out', e''). ret (r'', out @ out', e'')))) g =
      rbind m (\<lambda>(r', out, e'). rbind (k r' e') (\<lambda>(r'', out', e''). g (r'', out @ out', e'')))"
    for m :: "(reader \<times> byte list list \<times> kvs_engine) res" and k and g :: "_ \<Rightarrow> (reader \<times> byte list list \<times> kvs_engine) res"
    by (simp add: rbind_assoc split_def)
  with Cons closed show ?case
    by (simp add: rbind_assoc split_def)
qed

lemma request_chunks_served:
  assumes rep: "engine_rep e L s" and mem: "mem_budget (engine_heap e) (n + 4)" and en: "kv_enabled lc q s"
    and room: "rq_cmd q = CMD_SET \<Longrightarrow> total (global_array e) < KVS_ARRAY_SIZE" and step: "kv_step lc q s = (t, s')"
    and "received p r" and "p @ concat bss = request_bytes q" and "p \<noteq> request_bytes q" and "[] \<notin> set bss"
  shows "\<exists>r' e' L'. read_chunks lc bss r e = ret (r', [envelope (request_header q) t], e') \<and>
           received [] r' \<and> r_fd r' = r_fd r \<and> engine_rep e' L' s' \<and>
           mem_budget (engine_heap e') n \<and> total (global_array e') \<le> total (global_array e) + 1"
  using assms(6-9)
proof (induction bss arbitrary: p r)
  case Nil
  then show ?case by simp
next
  case (Cons bs bss)
  have bs: "bs \<noteq> []" "p @ bs @ concat bss = request_bytes q" and open': "r_phase r \<noteq> Closed" "r_phase (reader_recv bs r) \<noteq> Closed"
    using Cons.prems by (auto simp: received_def reader_recv_def)
  show ?case
  proof (cases "concat bss = []")
    case True
    then have "bss = []" using Cons.prems(4) by (cases bss) auto
    with complete_request_served [OF rep mem en room step Cons.prems(1) bs(1)] bs(2) open' show ?thesis
      by fastforce
  next
    case False
    obtain r1 where r1: "reader_loop lc (reader_recv bs r) e = ret (r1, [], e)" "received (p @ bs) r1" "r_fd r1 = r_fd r"
      using partial_request_waits [OF Cons.prems(1) bs(1) _ bs(2) False] en unfolding kv_enabled_def by blast
    have "p @ bs \<noteq> request_bytes q" using bs(2) False by (metis append.assoc append_self_conv)
    from Cons.IH [OF r1(2) _ this] Cons.prems(2,4) r1 open' show ?thesis by fastforce
  qed
qed

text \<open>The answers of a connection: what \<open>serve\<close> computes, each behind a header of its own.\<close>

definition wrapped :: "request \<Rightarrow> byte list \<Rightarrow> byte list" where
  "wrapped q msg = tcp_header_bytes ((request_header q)\<lparr>th_data_len := of_nat (length msg)\<rparr>) @ msg"

lemma envelope_wrapped: "envelope (request_header q) t = wrapped q (reply (request_header q) t)"
  by (simp add: envelope_def wrapped_def length_reply)

lemma received_new: "received [] (new_reader fd)"
  by (simp add: received_def reader_ok_new) (simp add: new_reader_def)

text \<open>The bytes of a request, as \<open>recv\<close> may deliver them.\<close>

definition pieces :: "request \<Rightarrow> byte list list \<Rightarrow> bool" where
  "pieces q bss \<longleftrightarrow> concat bss = request_bytes q \<and> [] \<notin> set bss"

lemma read_chunks_session:
  assumes "engine_rep e L s" and "session_ok lc qs s"
    and "mem_budget (engine_heap e) (4 * length qs)" and "total (global_array e) + length qs \<le> KVS_ARRAY_SIZE"
    and "received [] r" and "list_all2 pieces qs bsss"
  shows "\<exists>r' e' L'. read_chunks lc (concat bsss) r e =
             ret (r', map2 wrapped qs (fst (spec_session lc qs s)), e') \<and>
           received [] r' \<and> r_fd r' = r_fd r \<and> engine_rep e' L' (snd (spec_session lc qs s))"
  using assms
proof (induction qs arbitrary: e L s r bsss)
  case Nil
  then show ?case by auto
next
  case (Cons q qs)
  obtain t s' where st: "kv_step lc q s = (t, s')" by fastforce
  obtain bss bsss' where b: "bsss = bss # bsss'" "pieces q bss" "list_all2 pieces qs bsss'"
    using Cons.prems(6) by (auto simp: list_all2_Cons1)
  have mem: "mem_budget (engine_heap e) (4 * length qs + 4)" using Cons.prems(3) by (simp add: add.commute)
  have en: "kv_enabled lc q s" and room: "total (global_array e) < KVS_ARRAY_SIZE" and ok: "session_ok lc qs s'"
    using Cons.prems(2,4) st by simp_all
  have ne: "[] \<noteq> request_bytes q" by (simp add: request_bytes_def flip: length_0_conv)
  obtain r1 e1 L1 where 1: "read_chunks lc bss r e = ret (r1, [envelope (request_header q) t], e1)" "received [] r1"
    "r_fd r1 = r_fd r" "engine_rep e1 L1 s'" "mem_budget (engine_heap e1) (4 * length qs)"
    "total (global_array e1) \<le> total (global_array e) + 1"
    using request_chunks_served [OF Cons.prems(1) mem en room st Cons.prems(5) _ ne] b(2)
    unfolding pieces_def by (metis append_Nil)
  obtain r2 e2 L2 where 2: "read_chunks lc (concat bsss') r1 e1 =
      ret (r2, map2 wrapped qs (fst (spec_session lc qs s')), e2)"
    "received [] r2" "r_fd r2 = r_fd r1" "engine_rep e2 L2 (snd (spec_session lc qs s'))"
    using Cons.IH [OF 1(4) ok 1(5) _ 1(2) b(3)] Cons.prems(4) 1(6) by auto
  with 1(1,3) spec_session_step [OF st] b(1) show ?case by (auto simp: read_chunks_append envelope_wrapped)
qed


section \<open>Two requests at once\<close>

lemma le_bytes_4: "le_bytes 4 x = [of_nat x, of_nat (x div 256), of_nat (x div 256 div 256), of_nat (x div 256 div 256 div 256)]"
proof -
  have "4 = Suc (Suc (Suc (Suc 0)))" by simp
  then show ?thesis by (simp only: le_bytes.simps)
qed

lemma magic_bytes: "be32 TCP_MAGIC = [0x54, 0x53, 0x56, 0x4B]"
  by (simp add: be32_def le32_def le_bytes_4 TCP_MAGIC_def)

lemma zero_is_not_magic: "3 \<le> length bs \<Longrightarrow> \<not> good_header (tcp_fields (0 # bs))"
proof
  assume "3 \<le> length bs" "good_header (tcp_fields (0 # bs))"
  then have "of_be32 (0 # take 3 bs) = TCP_MAGIC" by (simp add: good_header_def tcp_fields_def take_Cons')
  moreover have "be32 (of_be32 (0 # take 3 bs)) = 0 # take 3 bs" using \<open>3 \<le> length bs\<close> by (intro be32_of_be32) simp
  ultimately show False by (simp add: magic_bytes)
qed

text \<open>
  Property C25. A client that does not wait for the answer loses its connection: when the next packet
  is already in the buffer, the request in front of it is executed and answered, but the
  \<open>NUL\<close> written behind its data destroys the magic number of the next packet, whatever
  that is, and the connection is closed.
\<close>

theorem ntyco_pipelining_closes:
  assumes "engine_rep e L s" and "mem_budget (engine_heap e) 4" and "kv_enabled lc q s"
    and "rq_cmd q = CMD_SET \<Longrightarrow> total (global_array e) < KVS_ARRAY_SIZE" and "kv_step lc q s = (t, s')"
    and r: "reader_ok r" "r_phase r = Parsing" and buf: "r_buffer r = request_bytes q @ next_packet @ rest"
    and len: "r_len r = length (request_bytes q) + length next_packet" and next': "24 \<le> length next_packet"
  shows "\<exists>r' e' L'. reader_loop lc r e = ret (r', [envelope (request_header q) t], e') \<and> r_phase r' = Closed \<and>
           engine_rep e' L' s'"
proof -
  let ?n = "length (request_bytes q)"
  obtain b bs where np: "next_packet = b # bs" using next' by (cases next_packet) auto
  obtain b1 e' L' where 1:
    "reader_packet lc r e = ret (r\<lparr>r_buffer := move_front ?n (Suc (length bs)) b1, r_len := Suc (length bs)\<rparr>,
       [envelope (request_header q) t], e')"
    "drop ?n b1 = 0 # bs @ rest" "engine_rep e' L' s'"
    using request_packet [OF assms(1) _ assms(3-5) r(1), of 0 b "bs @ rest"] assms(2) buf len np by auto
  let ?r1 = "r\<lparr>r_buffer := move_front ?n (Suc (length bs)) b1, r_len := Suc (length bs)\<rparr>"
  have ok: "reader_ok ?r1" using reader_packet_keeps [OF r 1(1)] by simp
  have "r_buffer ?r1 = 0 # bs @ drop (Suc (length bs)) b1" using 1(2) by (simp add: move_front_def)
  then have "\<not> good_header (tcp_fields (r_buffer ?r1))" using zero_is_not_magic next' np by simp
  with reader_packet_not_ready [OF ok, of lc e'] next' np
  have "reader_packet lc ?r1 e' = ret (?r1\<lparr>r_phase := Closed\<rparr>, [], e')" by (simp add: packet_ready_def)
  then have "reader_loop lc ?r1 e' = ret (?r1\<lparr>r_phase := Closed\<rparr>, [], e')" by (intro reader_loop_done) simp_all
  then show ?thesis
    using reader_loop_more [OF 1(1)] r(2) 1(3)
    by (intro exI [of _ "?r1\<lparr>r_phase := Closed\<rparr>"] exI [of _ e'] exI [of _ L']) auto
qed

section \<open>Examples\<close>

definition demo_get :: tcp_header where
  "demo_get = \<lparr>th_magic = TCP_MAGIC, th_version = TCP_VERSION, th_cmd_type = 2, th_data_len = 0, th_seq_id = 1, th_flags = 0\<rparr>"

definition demo_server :: "kvs_engine \<Rightarrow> ntyco" where
  "demo_server e = server_recv 0 (tcp_header_bytes demo_get) (reader_start (server_accept 5 (ntyco_start e)))"

lemma demo_reader:
  "readers (demo_server e) = [\<lparr>r_fd = 5, r_buffer = tcp_header_bytes demo_get @ replicate 4072 0, r_len = 24, r_phase = Parsing\<rparr>]"
  "kv_engine (demo_server e) = e"
  by (simp_all add: demo_server_def server_recv_def reader_start_def server_accept_def ntyco_start_def new_reader_def
      reader_recv_def BUFFER_SIZE_def)

lemma demo_server_reachable: "reachable lc e (demo_server e)"
proof -
  let ?s = "reader_start (server_accept 5 (ntyco_start e))"
  have "reachable lc e (server_accept 5 (ntyco_start e))" by (rule reachable.step [OF reachable.init server_step.accept])
  then have "reachable lc e ?s"
    by (rule reachable.step) (intro server_step.start, simp add: server_accept_def)
  moreover have "readers ?s = [new_reader 5]" by (simp add: reader_start_def server_accept_def ntyco_start_def)
  ultimately show ?thesis
    unfolding demo_server_def
    by (intro reachable.step [OF _ server_step.recv]) (simp_all add: new_reader_def recv_room_def BUFFER_SIZE_def)
qed

lemma demo_reader_ready: "reader_ok (readers (demo_server e) ! 0)" "packet_ready (readers (demo_server e) ! 0)"
proof -
  have "good_header demo_get" "th_data_len demo_get = 0" by (simp_all add: demo_get_def good_header_def)
  then show "packet_ready (readers (demo_server e) ! 0)" by (simp add: packet_ready_def demo_reader)
qed (simp add: demo_reader reader_ok_def BUFFER_SIZE_def)

theorem ntyco_reader_bounds_witness:
  "reachable demo_libc demo_engine (demo_server demo_engine) \<and>
   length (r_buffer (readers (demo_server demo_engine) ! 0)) = BUFFER_SIZE"
  using ntyco_reader_bounds [OF demo_server_reachable [of demo_libc demo_engine]] demo_server_reachable
  by (simp add: demo_reader)

definition demo_locked :: kvs_engine where
  "demo_locked = demo_engine\<lparr>global_array := (global_array demo_engine)\<lparr>array_mutex := True\<rparr>\<rparr>"


theorem ntyco_inner_loop_ends_witness:
  "(\<exists>r' out e' s'. reader_loop demo_libc (readers (demo_server demo_engine) ! 0) demo_engine = ret (r', out, e') \<and>
      (server_step demo_libc)\<^sup>*\<^sup>* (demo_server demo_engine) s' \<and> readers s' = [r'] \<and> r_phase r' \<noteq> Parsing \<and>
      length out \<le> 1) \<or>
   (\<exists>f cmd key val b e. reader_loop demo_libc (readers (demo_server demo_engine) ! 0) demo_engine = Inl f \<and>
      run_command demo_libc cmd key val b e = Inl f)"
  using ntyco_inner_loop_ends [OF demo_server_reachable [of demo_libc demo_engine], of 0]
  by (simp add: demo_reader) blast

definition demo_request :: request where
  "demo_request = \<lparr>rq_cmd = 11, rq_seq = 7, rq_key = lit ''k'', rq_value = Some (lit ''v'')\<rparr>"

lemma demo_request_ok: "request_ok demo_request" "length (request_bytes demo_request) = 27"
  by (simp_all add: request_ok_def request_data_def request_bytes_def demo_request_def)
    (simp add: lit_def)

lemma demo_request_enabled: "kv_enabled demo_libc demo_request demo_state" "fst (kv_step demo_libc demo_request demo_state) = lit ''OK''"
  using demo_request_ok(1)
  by (simp_all add: kv_enabled_def supported_def)
    (simp_all add: demo_request_def kv_step_def kv_spec_def map_cmds_def map_spec_def spec_set_def demo_state_def)


theorem ntyco_pipelining_closes_witness:
  "\<exists>r' e' t. reader_loop demo_libc
      \<lparr>r_fd = 5, r_buffer = request_bytes demo_request @ request_bytes demo_request @ replicate 4042 0,
       r_len = 54, r_phase = Parsing\<rparr> demo_kv = ret (r', [envelope (request_header demo_request) t], e') \<and>
    r_phase r' = Closed"
proof -
  let ?r = "\<lparr>r_fd = 5, r_buffer = request_bytes demo_request @ request_bytes demo_request @ replicate 4042 0,
       r_len = 54, r_phase = Parsing\<rparr>"
  obtain t s' where st: "kv_step demo_libc demo_request demo_state = (t, s')" by fastforce
  have "reader_ok ?r" using demo_request_ok(2) by (simp add: reader_ok_def BUFFER_SIZE_def)
  then show ?thesis
    using ntyco_pipelining_closes [OF demo_kv_rep _ demo_request_enabled(1) _ st, of ?r
        "request_bytes demo_request" "replicate 4042 0"] demo_request_ok(2)
    by (fastforce simp: demo_request_def)
qed

text \<open>
  When a second connection is accepted before the coroutine of the first one runs, both
  serve the second one; nobody reads from the first.
\<close>

lemma cli_fd_overwritten:
  "map r_fd (readers (reader_start (reader_start (server_accept fd2 (server_accept fd1 s))))) =
   map r_fd (readers s) @ [fd2, fd2]"
  by (simp add: reader_start_def server_accept_def new_reader_def)

end
