(* ===== verification/Reactor.thy ===== *)
theory Reactor
  imports Tcp_Correct
begin

text \<open>
  The event loop on \<open>epoll\<close> (\<^verbatim>\<open>src/reactor.c\<close>, \<^verbatim>\<open>src/server.h\<close>), an alternative network layer. Each
  descriptor indexes a table of connections with a receive and a send buffer of 1024 bytes. The
  descriptors \<open>accept\<close> and \<open>socket\<close> return, the bytes \<open>recv\<close> delivers and the events \<open>epoll_wait\<close>
  reports are arbitrary.
\<close>

section \<open>State\<close>

definition BUFFER_LENGTH :: nat where
  "BUFFER_LENGTH = 1024"

definition CONNECTION_SIZE :: nat where
  "CONNECTION_SIZE = 1024"

definition MAX_PORTS :: nat where
  "MAX_PORTS = 20"

abbreviation EPOLLIN :: uint32 where "EPOLLIN \<equiv> 1"
abbreviation EPOLLOUT :: uint32 where "EPOLLOUT \<equiv> 4"

datatype RCALLBACK = No_cb | Accept_cb | Recv_cb | Send_cb

record conn =
  conn_fd :: int
  rbuffer :: "byte list"
  rlength :: int
  wbuffer :: "byte list"
  wlength :: int
  send_callback :: RCALLBACK
  recv_callback :: RCALLBACK

text \<open>
  \<open>ep_events\<close> is the interest list of the \<open>epoll\<close> instance; \<open>wire\<close> collects what is given to \<open>send\<close>.
\<close>

record reactor =
  conn_list :: "conn list"
  ep_events :: "int \<Rightarrow> uint32 option"
  ra_engine :: kvs_engine
  wire :: "(int \<times> byte list) list"

definition new_conn :: conn where
  "new_conn = \<lparr>conn_fd = 0, rbuffer = replicate BUFFER_LENGTH 0, rlength = 0, wbuffer = replicate BUFFER_LENGTH 0,
               wlength = 0, send_callback = No_cb, recv_callback = No_cb\<rparr>"

text \<open>Access to the table; an index out of bounds is undefined.\<close>

definition conn_at :: "int \<Rightarrow> reactor \<Rightarrow> conn res" where
  "conn_at fd s = (if 0 \<le> fd \<and> nat fd < length (conn_list s) then ret (conn_list s ! nat fd) else undef)"

definition put_conn :: "int \<Rightarrow> conn \<Rightarrow> reactor \<Rightarrow> reactor" where
  "put_conn fd c s = s\<lparr>conn_list := (conn_list s)[nat fd := c]\<rparr>"

section \<open>The code\<close>

text \<open>
  \<open>epoll_ctl\<close>: adding a descriptor that is registered fails, as does modifying one that is
  not; the result is ignored.
\<close>

definition set_event :: "int \<Rightarrow> uint32 \<Rightarrow> bool \<Rightarrow> reactor \<Rightarrow> reactor" where
  "set_event fd event flag s =
     (if (ep_events s fd = None) = flag then s\<lparr>ep_events := (ep_events s)(fd \<mapsto> event)\<rparr> else s)"

definition event_register :: "int \<Rightarrow> uint32 \<Rightarrow> reactor \<Rightarrow> reactor res" where
  "event_register fd event s =
     (if fd < 0 then ret s
      else rbind (conn_at fd s) (\<lambda>c.
             ret (set_event fd event True
                    (put_conn fd (c\<lparr>conn_fd := fd, recv_callback := Recv_cb, send_callback := Send_cb,
                                    rbuffer := replicate BUFFER_LENGTH 0, rlength := 0,
                                    wbuffer := replicate BUFFER_LENGTH 0, wlength := 0\<rparr>) s))))"

definition accept_cb :: "int \<Rightarrow> reactor \<Rightarrow> reactor res" where
  "accept_cb clientfd s = (if clientfd < 0 then ret s else event_register clientfd EPOLLIN s)"

text \<open>The handler writes the answer into \<open>wbuffer\<close>; its result becomes \<open>wlength\<close>.\<close>

definition kvs_request :: "libc \<Rightarrow> conn \<Rightarrow> kvs_engine \<Rightarrow> (conn \<times> kvs_engine) res" where
  "kvs_request lc c e =
     rbind (kvs_tcp_protocol lc (rbuffer c) (rlength c) (wbuffer c) e) (\<lambda>(n, rb, wb, e').
       ret (c\<lparr>rbuffer := rb, wbuffer := wb, wlength := n\<rparr>, e'))"

text \<open>\<open>recv\<close> delivers at most \<open>BUFFER_LENGTH\<close> bytes; none stands for the end and for an error.\<close>

definition recv_cb :: "libc \<Rightarrow> int \<Rightarrow> byte list \<Rightarrow> reactor \<Rightarrow> reactor res" where
  "recv_cb lc fd bs s =
     rbind (conn_at fd s) (\<lambda>c.
       let c1 = c\<lparr>rbuffer := replicate BUFFER_LENGTH 0\<rparr>
       in if bs = [] then ret ((put_conn fd c1 s)\<lparr>ep_events := (ep_events s)(fd := None)\<rparr>)
          else rbind (kvs_request lc (c1\<lparr>rbuffer := bs @ drop (length bs) (rbuffer c1), rlength := int (length bs)\<rparr>)
                        (ra_engine s)) (\<lambda>(c2, e).
                 ret (set_event fd EPOLLOUT False ((put_conn fd c2 s)\<lparr>ra_engine := e\<rparr>))))"

text \<open>\<open>send\<close> takes an unsigned length: a negative \<open>wlength\<close> lets it read far past the buffer.\<close>

definition send_cb :: "int \<Rightarrow> reactor \<Rightarrow> reactor res" where
  "send_cb fd s =
     rbind (conn_at fd s) (\<lambda>c.
       if wlength c = 0 then ret (set_event fd EPOLLIN False s)
       else if wlength c < 0 \<or> length (wbuffer c) < nat (wlength c) then undef
       else ret (set_event fd EPOLLIN False (s\<lparr>wire := wire s @ [(fd, take (nat (wlength c)) (wbuffer c))]\<rparr>)))"

text \<open>One event of the main loop, with what \<open>accept\<close> and \<open>recv\<close> answer.\<close>

record event =
  ev_fd :: int
  ev_events :: uint32
  ev_accept :: int
  ev_bytes :: "byte list"

definition on_readable :: "libc \<Rightarrow> event \<Rightarrow> reactor \<Rightarrow> reactor res" where
  "on_readable lc ev s =
     rbind (conn_at (ev_fd ev) s) (\<lambda>c.
       case recv_callback c of
         Accept_cb \<Rightarrow> accept_cb (ev_accept ev) s
       | Recv_cb \<Rightarrow> recv_cb lc (ev_fd ev) (ev_bytes ev) s
       | _ \<Rightarrow> undef)"

definition on_writable :: "event \<Rightarrow> reactor \<Rightarrow> reactor res" where
  "on_writable ev s =
     rbind (conn_at (ev_fd ev) s) (\<lambda>c. if send_callback c = Send_cb then send_cb (ev_fd ev) s else undef)"

definition handle_event :: "libc \<Rightarrow> event \<Rightarrow> reactor \<Rightarrow> reactor res" where
  "handle_event lc ev s =
     rbind (if ev_events ev AND EPOLLIN \<noteq> 0 then on_readable lc ev s else ret s) (\<lambda>s1.
       if ev_events ev AND EPOLLOUT \<noteq> 0 then on_writable ev s1 else ret s1)"

fun main_loop :: "libc \<Rightarrow> event list \<Rightarrow> reactor \<Rightarrow> reactor res" where
  "main_loop lc [] s = ret s"
| "main_loop lc (ev # evs) s = rbind (handle_event lc ev s) (main_loop lc evs)"

text \<open>The listening sockets, one per port.\<close>

fun listen_all :: "int list \<Rightarrow> reactor \<Rightarrow> reactor res" where
  "listen_all [] s = ret s"
| "listen_all (fd # fds) s =
     rbind (conn_at fd s) (\<lambda>c.
       listen_all fds (set_event fd EPOLLIN True (put_conn fd (c\<lparr>conn_fd := fd, recv_callback := Accept_cb\<rparr>) s)))"

definition reactor_start :: "(nat \<Rightarrow> int) \<Rightarrow> kvs_engine \<Rightarrow> reactor res" where
  "reactor_start sockets e =
     listen_all (map sockets [0..<MAX_PORTS])
       \<lparr>conn_list = replicate CONNECTION_SIZE new_conn, ep_events = Map.empty, ra_engine = e, wire = []\<rparr>"

section \<open>The invariant of the table\<close>

definition conn_ok :: "conn \<Rightarrow> bool" where
  "conn_ok c \<longleftrightarrow> length (rbuffer c) = BUFFER_LENGTH \<and> length (wbuffer c) = BUFFER_LENGTH"

definition reactor_ok :: "reactor \<Rightarrow> bool" where
  "reactor_ok s \<longleftrightarrow> length (conn_list s) = CONNECTION_SIZE \<and> (\<forall>c\<in>set (conn_list s). conn_ok c)"

lemma reactor_ok_put [intro]: "reactor_ok s \<Longrightarrow> conn_ok c \<Longrightarrow> reactor_ok (put_conn fd c s)"
  by (auto simp: reactor_ok_def put_conn_def dest!: set_update_subset_insert [THEN subsetD])

lemma reactor_ok_simps [simp]:
  "reactor_ok (set_event fd ev b s) = reactor_ok s" "reactor_ok (s\<lparr>ra_engine := e\<rparr>) = reactor_ok s"
  "reactor_ok (s\<lparr>ep_events := m\<rparr>) = reactor_ok s" "reactor_ok (s\<lparr>wire := w\<rparr>) = reactor_ok s"
  by (simp_all add: reactor_ok_def set_event_def)

lemma conn_at_ok: "reactor_ok s \<Longrightarrow> conn_at fd s = ret c \<Longrightarrow> conn_ok c"
  by (auto simp: reactor_ok_def conn_at_def split: if_splits)

text \<open>The handler keeps the sizes of its two buffers, also of one that is short.\<close>

lemma build_tcp_response_length:
  assumes "build_tcp_response (Some response) cmd seq d n = ret (r, response')"
  shows "\<exists>r'. response' = Some r' \<and> length r' = length response"
proof -
  have copy: "length b = length response" if "copy_front bs response = ret b" for b bs
    using that by (auto simp: copy_front_def split: if_splits)
  show ?thesis using assms copy by (auto simp: build_tcp_response_def Let_def split: option.splits if_splits)
qed

lemma handler_lengths:
  assumes run: "kvs_tcp_protocol lc buffer n response e = ret (r, buffer', response', e')"
  shows "length buffer' = length buffer \<and> length response' = length response"
proof (cases "buffer' = buffer \<and> response' = response")
  case False
  then show ?thesis
    using run parse_command_length run_command_bounds(2)
    by (auto simp: kvs_tcp_protocol_def Let_def split: if_splits dest!: build_tcp_response_length)
qed simp

lemma recv_cb_ok:
  assumes ok: "reactor_ok s" and "length bs \<le> BUFFER_LENGTH" and run: "recv_cb lc fd bs s = ret s'"
  shows "reactor_ok s'"
proof -
  obtain c where c: "conn_at fd s = ret c" using run by (auto simp: recv_cb_def)
  have "conn_ok c" by (rule conn_at_ok [OF ok c])
  then show ?thesis
    using assms(2) run ok c
    by (auto simp: recv_cb_def kvs_request_def conn_ok_def Let_def intro!: reactor_ok_put
        dest!: handler_lengths split: if_splits)
qed

lemma accept_cb_ok: "reactor_ok s \<Longrightarrow> accept_cb clientfd s = ret s' \<Longrightarrow> reactor_ok s'"
  by (auto simp: accept_cb_def event_register_def conn_ok_def intro!: reactor_ok_put split: if_splits)

lemma send_cb_ok: "reactor_ok s \<Longrightarrow> send_cb fd s = ret s' \<Longrightarrow> reactor_ok s'"
  by (auto simp: send_cb_def split: if_splits)

lemma handle_event_ok:
  assumes "reactor_ok s" and "length (ev_bytes ev) \<le> BUFFER_LENGTH" and "handle_event lc ev s = ret s'"
  shows "reactor_ok s'"
proof -
  have 1: "reactor_ok s1" if run: "on_readable lc ev s = ret s1" for s1
  proof -
    obtain c where c: "conn_at (ev_fd ev) s = ret c" using run by (auto simp: on_readable_def)
    then show ?thesis
      using run accept_cb_ok [OF assms(1)] recv_cb_ok [OF assms(1,2)]
      by (cases "recv_callback c") (auto simp: on_readable_def)
  qed
  have 2: "reactor_ok s2" if "on_writable ev s1 = ret s2" "reactor_ok s1" for s1 s2
    using that send_cb_ok by (auto simp: on_writable_def split: if_splits)
  show ?thesis using assms(1,3) 1 2 by (auto simp: handle_event_def split: if_splits)
qed

lemma listen_all_ok: "listen_all fds s = ret s' \<Longrightarrow> reactor_ok s \<Longrightarrow> reactor_ok s'"
proof (induction fds arbitrary: s)
  case (Cons fd fds)
  obtain c where c: "conn_at fd s = ret c" using Cons.prems(1) by auto
  have "conn_ok (c\<lparr>conn_fd := fd, recv_callback := Accept_cb\<rparr>)"
    using conn_at_ok [OF Cons.prems(2) c] by (simp add: conn_ok_def)
  then show ?case using Cons c by (auto intro!: Cons.IH reactor_ok_put)
qed simp

lemma main_loop_ok:
  "main_loop lc evs s = ret s' \<Longrightarrow> reactor_ok s \<Longrightarrow> \<forall>ev\<in>set evs. length (ev_bytes ev) \<le> BUFFER_LENGTH \<Longrightarrow> reactor_ok s'"
  by (induction evs arbitrary: s) (auto dest: handle_event_ok)

section \<open>Requests\<close>

text \<open>A connection between two requests.\<close>

definition idle :: "int \<Rightarrow> reactor \<Rightarrow> bool" where
  "idle fd s \<longleftrightarrow>
     reactor_ok s \<and> 0 \<le> fd \<and> fd < int CONNECTION_SIZE \<and> recv_callback (conn_list s ! nat fd) = Recv_cb \<and>
     send_callback (conn_list s ! nat fd) = Send_cb \<and> ep_events s fd = Some EPOLLIN"

definition readable :: "int \<Rightarrow> byte list \<Rightarrow> event" where
  "readable fd bs = \<lparr>ev_fd = fd, ev_events = EPOLLIN, ev_accept = - 1, ev_bytes = bs\<rparr>"

definition writable :: "int \<Rightarrow> event" where
  "writable fd = \<lparr>ev_fd = fd, ev_events = EPOLLOUT, ev_accept = - 1, ev_bytes = []\<rparr>"

lemma conn_at_put: "0 \<le> fd \<Longrightarrow> nat fd < length (conn_list s) \<Longrightarrow> conn_at fd (put_conn fd c s) = ret c"
  by (simp add: conn_at_def put_conn_def)

lemma conn_at_simps [simp]:
  "conn_at fd (set_event x ev b s) = conn_at fd s" "conn_at fd (s\<lparr>ra_engine := e\<rparr>) = conn_at fd s"
  by (simp_all add: conn_at_def set_event_def)

text \<open>What follows when the handler has returned.\<close>

lemma readable_step:
  assumes idle: "idle fd s" and bs: "bs \<noteq> []" "length bs \<le> BUFFER_LENGTH"
    and run: "kvs_tcp_protocol lc (bs @ replicate (BUFFER_LENGTH - length bs) 0) (int (length bs))
                (wbuffer (conn_list s ! nat fd)) (ra_engine s) = ret (n, rb, wb, e)"
  shows "\<exists>s1. handle_event lc (readable fd bs) s = ret s1 \<and> reactor_ok s1 \<and> ra_engine s1 = e \<and> wire s1 = wire s \<and>
           ep_events s1 = (ep_events s)(fd \<mapsto> EPOLLOUT) \<and>
           (\<exists>c. conn_at fd s1 = ret c \<and> wlength c = n \<and> wbuffer c = wb \<and> send_callback c = Send_cb \<and> recv_callback c = Recv_cb)"
proof -
  let ?c = "conn_list s ! nat fd"
  have fd: "0 \<le> fd" "nat fd < length (conn_list s)" using idle by (auto simp: idle_def reactor_ok_def)
  then have c: "conn_at fd s = ret ?c" by (simp add: conn_at_def)
  let ?c2 = "?c\<lparr>rlength := int (length bs), rbuffer := rb, wbuffer := wb, wlength := n\<rparr>"
  let ?s1 = "set_event fd EPOLLOUT False ((put_conn fd ?c2 s)\<lparr>ra_engine := e\<rparr>)"
  have h: "handle_event lc (readable fd bs) s = ret ?s1"
    using idle c bs run
    by (simp add: handle_event_def readable_def on_readable_def idle_def recv_cb_def kvs_request_def Let_def)
  have "reactor_ok ?s1"
    by (rule handle_event_ok [OF _ _ h]) (use idle bs in \<open>simp_all add: idle_def readable_def\<close>)
  moreover have "conn_at fd ?s1 = ret ?c2" using conn_at_put [OF fd] by simp
  moreover have "ep_events ?s1 = (ep_events s)(fd \<mapsto> EPOLLOUT)" "wire ?s1 = wire s" "ra_engine ?s1 = e"
    using idle by (simp_all add: set_event_def put_conn_def idle_def)
  ultimately show ?thesis using h idle by (auto simp: idle_def)
qed

lemma writable_step:
  assumes ok: "reactor_ok s" and c: "conn_at fd s = ret c" "send_callback c = Send_cb"
    and w: "0 < wlength c" "nat (wlength c) \<le> length (wbuffer c)"
  shows "handle_event lc (writable fd) s =
    ret (set_event fd EPOLLIN False (s\<lparr>wire := wire s @ [(fd, take (nat (wlength c)) (wbuffer c))]\<rparr>))"
  using c w by (simp add: handle_event_def writable_def on_writable_def send_cb_def)

text \<open>
  Property C12. The \<open>epoll\<close> loop serves a request that arrives in one piece and fits its buffers: the
  answer of the abstract machine is sent, without a second header, and the connection waits
  for the next request.
\<close>

theorem reactor_serves:
  assumes rep: "engine_rep (ra_engine s) L st" and mem: "mem_budget (engine_heap (ra_engine s)) 4"
    and en: "kv_enabled lc q st" and step: "kv_step lc q st = (t, st')"
    and room: "rq_cmd q = CMD_SET \<Longrightarrow> total (global_array (ra_engine s)) < KVS_ARRAY_SIZE"
    and idle: "idle fd s" and len: "length (request_bytes q) < BUFFER_LENGTH" and fits: "length t + 24 \<le> BUFFER_LENGTH"
  shows "\<exists>s' L'. main_loop lc [readable fd (request_bytes q), writable fd] s = ret s' \<and>
           wire s' = wire s @ [(fd, reply (request_header q) t)] \<and> engine_rep (ra_engine s') L' st' \<and>
           ep_events s' fd = Some EPOLLIN"
proof -
  let ?w = "wbuffer (conn_list s ! nat fd)" and ?b = "request_bytes q"
  have "nat fd < length (conn_list s)" using idle by (auto simp: idle_def reactor_ok_def)
  then have w: "length ?w = BUFFER_LENGTH" using idle by (auto simp: idle_def reactor_ok_def conn_ok_def)
  obtain m where m: "BUFFER_LENGTH - length ?b = Suc m" using len by (metis Suc_diff_Suc)
  obtain rb e L' where run:
    "kvs_tcp_protocol lc (?b @ 0 # replicate m 0) (int (length ?b)) ?w (ra_engine s) =
       ret (24 + int (length t), rb, reply (request_header q) t @ drop (24 + length t) ?w, e)" "engine_rep e L' st'"
    using handle_request [OF rep _ en room step, of 0 ?w 0 "replicate m 0"] mem fits w by auto
  have ne: "?b \<noteq> []" by (simp add: request_bytes_def)
  obtain s1 c where s1: "handle_event lc (readable fd ?b) s = ret s1" "reactor_ok s1" "ra_engine s1 = e" "wire s1 = wire s"
    "ep_events s1 = (ep_events s)(fd \<mapsto> EPOLLOUT)" "conn_at fd s1 = ret c" "wlength c = 24 + int (length t)"
    "wbuffer c = reply (request_header q) t @ drop (24 + length t) ?w" "send_callback c = Send_cb"
    using readable_step [OF idle ne _ run(1) [folded replicate_Suc, folded m]] len by auto
  have nat: "nat (wlength c) = length (reply (request_header q) t)" using s1(7) by (simp add: length_reply nat_add_distrib)
  have "handle_event lc (writable fd) s1 =
      ret (set_event fd EPOLLIN False (s1\<lparr>wire := wire s @ [(fd, reply (request_header q) t)]\<rparr>))"
    using writable_step [OF s1(2,6,9), of lc] s1(4,7,8) nat by simp
  then show ?thesis using s1 run by (auto simp: set_event_def)
qed

text \<open>
  A packet the handler rejects makes the \<open>epoll\<close> loop send from far outside its buffer: the
  negative error code becomes the length of the answer. A packet shorter than a header is
  enough.
\<close>

theorem reactor_rejected_packet_overreads:
  assumes idle: "idle fd s" and bs: "bs \<noteq> []" "length bs < TCP_HEADER_SIZE"
  shows "main_loop lc [readable fd bs, writable fd] s = undef"
proof -
  have 24: "length bs \<le> BUFFER_LENGTH" using bs by (simp add: TCP_HEADER_SIZE_def BUFFER_LENGTH_def)
  have "kvs_tcp_protocol lc (bs @ replicate (BUFFER_LENGTH - length bs) 0) (int (length bs))
      (wbuffer (conn_list s ! nat fd)) (ra_engine s) =
    ret (- 1, bs @ replicate (BUFFER_LENGTH - length bs) 0, wbuffer (conn_list s ! nat fd), ra_engine s)"
    using bs by (simp add: kvs_tcp_protocol_def)
  from readable_step [OF idle bs(1) 24 this] show ?thesis
    by (auto simp: handle_event_def writable_def on_writable_def send_cb_def)
qed

section \<open>Examples\<close>

definition demo_reactor :: reactor where
  "demo_reactor =
     \<lparr>conn_list = replicate CONNECTION_SIZE (new_conn\<lparr>send_callback := Send_cb, recv_callback := Recv_cb\<rparr>),
      ep_events = [5 \<mapsto> EPOLLIN], ra_engine = demo_kv, wire = []\<rparr>"

lemma demo_idle: "idle 5 demo_reactor"
  by (simp add: idle_def demo_reactor_def reactor_ok_def conn_ok_def new_conn_def CONNECTION_SIZE_def)

theorem reactor_serves_witness:
  "\<exists>s'. main_loop demo_libc
     [readable 5 (request_bytes \<lparr>rq_cmd = 12, rq_seq = 7, rq_key = lit ''k'', rq_value = None\<rparr>), writable 5] demo_reactor = ret s' \<and>
     wire s' = [(5, reply (request_header \<lparr>rq_cmd = 12, rq_seq = 7, rq_key = lit ''k'', rq_value = None\<rparr>) (lit ''NO EXIST''))]"
proof -
  let ?q = "\<lparr>rq_cmd = 12, rq_seq = 7, rq_key = lit ''k'', rq_value = None\<rparr>"
  have e: "ra_engine demo_reactor = demo_kv" "wire demo_reactor = []" by (simp_all add: demo_reactor_def)
  have q: "kv_enabled demo_libc ?q demo_state" "length (request_bytes ?q) = 25"
    by (simp_all add: kv_enabled_def request_ok_def supported_def request_data_def request_bytes_def) (simp add: lit_def)
  have "kv_step demo_libc ?q demo_state = (lit ''NO EXIST'', demo_state)"
    by (simp add: kv_step_def kv_spec_def map_cmds_def map_spec_def spec_get_def demo_state_def)
  then show ?thesis
    using reactor_serves [of demo_reactor _ demo_state demo_libc ?q, unfolded e, OF demo_kv_rep _ q(1) _ _ demo_idle] q(2)
    by (auto simp: BUFFER_LENGTH_def)
qed

theorem reactor_rejected_packet_overreads_witness:
  "main_loop demo_libc [readable 5 [75], writable 5] demo_reactor = undef"
  by (rule reactor_rejected_packet_overreads [OF demo_idle]) (simp_all add: TCP_HEADER_SIZE_def)

end
