(* ===== verification/Proactor.thy ===== *)
theory Proactor
  imports Tcp_Correct
begin

text \<open>
  The event loop on \<open>io_uring\<close> (\<^verbatim>\<open>src/proactor.c\<close>), a third network layer. One receive buffer and
  one response buffer are shared by all connections. The ring is outside the repository; it
  appears as a queue of prepared operations, the operations in flight, and the completions,
  which may arrive in any order.
\<close>

section \<open>State\<close>

datatype uring_event = EVENT_ACCEPT | EVENT_READ | EVENT_WRITE

record conn_info =
  ci_fd :: int
  ci_event :: uring_event

definition ENTRIES_LENGTH :: nat where
  "ENTRIES_LENGTH = 1024"

definition PROACTOR_BUFFER :: nat where
  "PROACTOR_BUFFER = 1024"

text \<open>A prepared operation: its user data and the length it was given.\<close>

type_synonym sqe = "conn_info \<times> int"

record proactor =
  pr_sockfd :: int
  pr_buffer :: "byte list"
  pr_response :: "byte list"
  pr_queue :: "sqe list"
  pr_flight :: "sqe list"
  pr_engine :: kvs_engine
  pr_wire :: "(int \<times> byte list) list"

section \<open>The code\<close>

text \<open>\<open>io_uring_get_sqe\<close> returns null when the queue is full, and the result is not checked.\<close>

definition prepare :: "sqe \<Rightarrow> proactor \<Rightarrow> proactor res" where
  "prepare op s = (if length (pr_queue s) < ENTRIES_LENGTH then ret (s\<lparr>pr_queue := pr_queue s @ [op]\<rparr>) else undef)"

definition set_event_recv :: "int \<Rightarrow> proactor \<Rightarrow> proactor res" where
  "set_event_recv sockfd = prepare (\<lparr>ci_fd = sockfd, ci_event = EVENT_READ\<rparr>, int PROACTOR_BUFFER)"

definition set_event_send :: "int \<Rightarrow> int \<Rightarrow> proactor \<Rightarrow> proactor res" where
  "set_event_send sockfd len = prepare (\<lparr>ci_fd = sockfd, ci_event = EVENT_WRITE\<rparr>, len)"

definition set_event_accept :: "int \<Rightarrow> proactor \<Rightarrow> proactor res" where
  "set_event_accept sockfd = prepare (\<lparr>ci_fd = sockfd, ci_event = EVENT_ACCEPT\<rparr>, 0)"

definition handle_cqe :: "libc \<Rightarrow> conn_info \<Rightarrow> int \<Rightarrow> proactor \<Rightarrow> proactor res" where
  "handle_cqe lc result res s =
     (case ci_event result of
        EVENT_ACCEPT \<Rightarrow> rbind (set_event_accept (pr_sockfd s) s) (set_event_recv res)
      | EVENT_READ \<Rightarrow>
          if res \<le> 0 then ret s
          else rbind (kvs_tcp_protocol lc (pr_buffer s) res (pr_response s) (pr_engine s)) (\<lambda>(n, buffer, response, e).
                 set_event_send (ci_fd result) n (s\<lparr>pr_buffer := buffer, pr_response := response, pr_engine := e\<rparr>))
      | EVENT_WRITE \<Rightarrow> set_event_recv (ci_fd result) s)"

fun handle_batch :: "libc \<Rightarrow> (conn_info \<times> int) list \<Rightarrow> proactor \<Rightarrow> proactor res" where
  "handle_batch lc [] s = ret s"
| "handle_batch lc ((result, res) # cqes) s = rbind (handle_cqe lc result res s) (handle_batch lc cqes)"

definition proactor_start :: "int \<Rightarrow> kvs_engine \<Rightarrow> proactor res" where
  "proactor_start sockfd e =
     set_event_accept sockfd
       \<lparr>pr_sockfd = sockfd, pr_buffer = replicate PROACTOR_BUFFER 0, pr_response = replicate PROACTOR_BUFFER 0,
        pr_queue = [], pr_flight = [], pr_engine = e, pr_wire = []\<rparr>"

text \<open>
  \<open>io_uring_submit\<close> puts the prepared operations in flight. The kernel then writes received
  bytes to the shared buffer and reads messages from the shared response when it executes them.
\<close>

definition uring_submit :: "proactor \<Rightarrow> proactor" where
  "uring_submit s = s\<lparr>pr_queue := [], pr_flight := pr_flight s @ pr_queue s\<rparr>"

definition uring_recv :: "byte list \<Rightarrow> proactor \<Rightarrow> proactor" where
  "uring_recv bs s = s\<lparr>pr_buffer := bs @ drop (length bs) (pr_buffer s)\<rparr>"

definition uring_send :: "sqe \<Rightarrow> proactor \<Rightarrow> proactor res" where
  "uring_send op s =
     (if snd op < 0 \<or> length (pr_response s) < nat (snd op) then undef
      else ret (s\<lparr>pr_flight := remove1 op (pr_flight s),
                  pr_wire := pr_wire s @ [(ci_fd (fst op), take (nat (snd op)) (pr_response s))]\<rparr>))"

section \<open>The queue does not overflow\<close>

lemma handle_cqe_queue:
  assumes "handle_cqe lc result res s = ret s'"
  shows "length (pr_queue s') \<le> length (pr_queue s) + 2"
  using assms
  by (auto simp: handle_cqe_def prepare_def set_event_recv_def set_event_send_def set_event_accept_def
      split: uring_event.splits if_splits)

lemma handle_batch_queue:
  "handle_batch lc cqes s = ret s' \<Longrightarrow> length (pr_queue s') \<le> length (pr_queue s) + 2 * length cqes"
proof (induction cqes arbitrary: s)
  case (Cons cqe cqes)
  obtain result res s1 where 1: "cqe = (result, res)" "handle_cqe lc result res s = ret s1" "handle_batch lc cqes s1 = ret s'"
    using Cons.prems by (cases cqe) auto
  from Cons.IH [OF 1(3)] handle_cqe_queue [OF 1(2)] show ?case by simp
qed simp

text \<open>
  A round handles at most 128 completions after the queue was submitted: only a fault of the
  handler stops it.
\<close>

lemma handle_cqe_fault:
  assumes "handle_cqe lc result res s = Inl f" and "length (pr_queue s) + 2 \<le> ENTRIES_LENGTH"
  shows "kvs_tcp_protocol lc (pr_buffer s) res (pr_response s) (pr_engine s) = Inl f"
  using assms
  by (auto simp: handle_cqe_def prepare_def set_event_recv_def set_event_send_def set_event_accept_def rbind_eq_Inl
      split: uring_event.splits if_splits prod.splits)

lemma handle_batch_fault:
  "handle_batch lc cqes s = Inl f \<Longrightarrow> length (pr_queue s) + 2 * length cqes \<le> ENTRIES_LENGTH \<Longrightarrow>
   \<exists>buffer res response e. kvs_tcp_protocol lc buffer res response e = Inl f"
proof (induction cqes arbitrary: s)
  case (Cons cqe cqes)
  obtain result res where c: "cqe = (result, res)" by (cases cqe)
  show ?case
  proof (cases "handle_cqe lc result res s")
    case (Inl f')
    then show ?thesis using Cons.prems c handle_cqe_fault [of lc result res s f'] by auto
  next
    case (Inr s1)
    then show ?thesis using Cons.IH [of s1] Cons.prems c handle_cqe_queue [OF Inr] by simp
  qed
qed simp

lemma proactor_round_fault:
  assumes "handle_batch lc cqes (uring_submit s) = Inl f" and "length cqes \<le> 128"
  shows "\<exists>buffer res response e. kvs_tcp_protocol lc buffer res response e = Inl f"
  by (rule handle_batch_fault [OF assms(1)]) (use assms(2) in \<open>simp add: uring_submit_def ENTRIES_LENGTH_def\<close>)

section \<open>Shared buffers\<close>

text \<open>
  When two clients' requests complete in the same round, both answers are sent from the same
  memory after both requests were handled: the first client gets bytes of the second
  answer.
\<close>

lemma proactor_answers_mixed:
  assumes "handle_batch lc [(\<lparr>ci_fd = a, ci_event = EVENT_READ\<rparr>, n), (\<lparr>ci_fd = b, ci_event = EVENT_READ\<rparr>, m)] s = ret s'"
    and "0 < n" and "0 < m"
  shows "\<exists>k l. pr_queue s' = pr_queue s @ [(\<lparr>ci_fd = a, ci_event = EVENT_WRITE\<rparr>, k), (\<lparr>ci_fd = b, ci_event = EVENT_WRITE\<rparr>, l)] \<and>
           (\<forall>s2 s3. uring_send (\<lparr>ci_fd = a, ci_event = EVENT_WRITE\<rparr>, k) (uring_submit s') = ret s2 \<longrightarrow>
              uring_send (\<lparr>ci_fd = b, ci_event = EVENT_WRITE\<rparr>, l) s2 = ret s3 \<longrightarrow>
              pr_wire s3 = pr_wire s' @ [(a, take (nat k) (pr_response s')), (b, take (nat l) (pr_response s'))])"
proof -
  obtain k l where "pr_queue s' = pr_queue s @ [(\<lparr>ci_fd = a, ci_event = EVENT_WRITE\<rparr>, k), (\<lparr>ci_fd = b, ci_event = EVENT_WRITE\<rparr>, l)]"
    using assms by (auto simp: handle_cqe_def set_event_send_def prepare_def split: if_splits)
  then show ?thesis by (intro exI [of _ k] exI [of _ l]) (auto simp: uring_send_def uring_submit_def split: if_splits)
qed

end
