(* ===== verification/Slab.thy ===== *)
theory Slab
  imports Mempool
begin

text \<open>
  The second pool of the repository (\<^verbatim>\<open>src/kv_mempool_slab.c\<close>): chunks of one size with a bitmap
  of the chunks in use. It meets the same contract as the allocator of the engine.
\<close>

section \<open>The code\<close>

record bitmap_pool =
  bp_addr :: addr
  bp_bitmap :: addr
  bitmap :: "byte list"
  bp_data :: addr
  bp_chunk_size :: size_t
  bp_chunk_count :: size_t

definition sizeof_bitmap_pool :: size_t where
  "sizeof_bitmap_pool = 32"

text \<open>\<open>calloc\<close> is \<open>malloc\<close> with cleared memory.\<close>

definition bitmap_pool_create :: "size_t \<Rightarrow> size_t \<Rightarrow> heap \<Rightarrow> bitmap_pool option \<times> heap" where
  "bitmap_pool_create size0 ccount h =
     (let csize = align_up size0 sizeof_ptr;
          (pool, h1) = malloc sizeof_bitmap_pool h
      in if pool = 0 then (None, h1)
         else let bitmap_bytes = (ccount + 7) div 8;
                  (bm, h2) = malloc bitmap_bytes h1;
                  (data, h3) = malloc (csize * ccount) h2
              in if bm = 0 \<or> data = 0 then (None, free pool (free data (free bm h3)))
                 else (Some \<lparr>bp_addr = pool, bp_bitmap = bm, bitmap = replicate (unat bitmap_bytes) 0,
                             bp_data = data, bp_chunk_size = csize, bp_chunk_count = ccount\<rparr>, h3))"

text \<open>The loop of \<open>bitmap_pool_alloc\<close> with the number of rounds that are left.\<close>

fun bitmap_scan :: "bitmap_pool \<Rightarrow> nat \<Rightarrow> nat \<Rightarrow> (addr \<times> bitmap_pool) res" where
  "bitmap_scan pool i 0 = ret (0, pool)"
| "bitmap_scan pool i (Suc n) =
     (let byte = i div 8; bt = i mod 8
      in if length (bitmap pool) \<le> byte then undef
         else if bitmap pool ! byte AND push_bit bt 1 = 0
              then ret (bp_data pool + of_nat i * bp_chunk_size pool,
                        pool\<lparr>bitmap := (bitmap pool)[byte := bitmap pool ! byte OR push_bit bt 1]\<rparr>)
              else bitmap_scan pool (Suc i) n)"

definition bitmap_pool_alloc :: "bitmap_pool option \<Rightarrow> (addr \<times> bitmap_pool) res" where
  "bitmap_pool_alloc pool_ptr =
     (case pool_ptr of None \<Rightarrow> undef | Some pool \<Rightarrow> bitmap_scan pool 0 (unat (bp_chunk_count pool)))"

text \<open>The difference of the pointers becomes unsigned before it is divided.\<close>

definition bitmap_pool_free :: "bitmap_pool option \<Rightarrow> addr \<Rightarrow> bitmap_pool option res" where
  "bitmap_pool_free pool_ptr ptr =
     (case pool_ptr of
        None \<Rightarrow> ret None
      | Some pool \<Rightarrow>
          if ptr = 0 then ret (Some pool)
          else if bp_chunk_size pool = 0 then undef
          else let idx = (ptr - bp_data pool) div bp_chunk_size pool
               in if bp_chunk_count pool \<le> idx then ret (Some pool)
                  else let byte = unat (idx div 8); bt = unat (idx mod 8)
                       in if length (bitmap pool) \<le> byte then undef
                          else ret (Some (pool\<lparr>bitmap := (bitmap pool)[byte := bitmap pool ! byte AND NOT (push_bit bt 1)]\<rparr>)))"

definition bitmap_pool_destroy :: "bitmap_pool option \<Rightarrow> heap \<Rightarrow> heap" where
  "bitmap_pool_destroy pool_ptr h =
     (case pool_ptr of None \<Rightarrow> h | Some pool \<Rightarrow> free (bp_addr pool) (free (bp_data pool) (free (bp_bitmap pool) h)))"

section \<open>The chunks in use\<close>

definition in_use :: "bitmap_pool \<Rightarrow> nat \<Rightarrow> bool" where
  "in_use pool i \<longleftrightarrow> bit (bitmap pool ! (i div 8)) (i mod 8)"

definition chunk_addr :: "bitmap_pool \<Rightarrow> nat \<Rightarrow> addr" where
  "chunk_addr pool i = bp_data pool + of_nat i * bp_chunk_size pool"

definition pool_ok :: "bitmap_pool \<Rightarrow> bool" where
  "pool_ok pool \<longleftrightarrow>
     length (bitmap pool) = (unat (bp_chunk_count pool) + 7) div 8 \<and> bp_chunk_size pool \<noteq> 0 \<and> bp_data pool \<noteq> 0 \<and>
     unat (bp_data pool) + unat (bp_chunk_size pool) * unat (bp_chunk_count pool) < 2 ^ 64"

definition live_chunks :: "bitmap_pool \<Rightarrow> addr set" where
  "live_chunks pool = chunk_addr pool ` {i. i < unat (bp_chunk_count pool) \<and> in_use pool i}"

definition slab_inv :: "bitmap_pool \<Rightarrow> addr set \<Rightarrow> bool" where
  "slab_inv pool L \<longleftrightarrow> pool_ok pool \<and> L = live_chunks pool"

lemma bitmap_index: "pool_ok pool \<Longrightarrow> i < unat (bp_chunk_count pool) \<Longrightarrow> i div 8 < length (bitmap pool)"
  by (auto simp: pool_ok_def)

lemma unat_chunk_addr:
  assumes ok: "pool_ok pool" and i: "i < unat (bp_chunk_count pool)"
  shows "unat (chunk_addr pool i) = unat (bp_data pool) + i * unat (bp_chunk_size pool)"
proof -
  let ?s = "unat (bp_chunk_size pool)" and ?n = "unat (bp_chunk_count pool)"
  have 1: "i * ?s \<le> ?n * ?s" using i by (intro mult_right_mono) simp_all
  have 2: "unat (bp_data pool) + ?n * ?s < 2 ^ 64" using ok by (simp add: pool_ok_def mult.commute)
  have le: "unat (bp_data pool) + i * ?s < 2 ^ 64" by (rule le_less_trans [OF _ 2]) (use 1 in linarith)
  have "chunk_addr pool i = of_nat (unat (bp_data pool) + i * ?s)"
    by (simp add: chunk_addr_def)
  then show ?thesis using le by (simp only: unat_of_nat) simp
qed

lemma chunk_addr_inj:
  assumes "pool_ok pool" and "i < unat (bp_chunk_count pool)" and "j < unat (bp_chunk_count pool)"
  shows "chunk_addr pool i = chunk_addr pool j \<longleftrightarrow> i = j"
proof -
  have "bp_chunk_size pool \<noteq> 0" using assms(1) by (simp add: pool_ok_def)
  then have "unat (bp_chunk_size pool) \<noteq> 0" by (simp add: unat_eq_zero)
  moreover have "i * unat (bp_chunk_size pool) = j * unat (bp_chunk_size pool)" if "chunk_addr pool i = chunk_addr pool j"
    using unat_chunk_addr [OF assms(1,2)] unat_chunk_addr [OF assms(1,3)] unfolding that by linarith
  ultimately show ?thesis by auto
qed

lemma chunk_addr_nonnull: "pool_ok pool \<Longrightarrow> i < unat (bp_chunk_count pool) \<Longrightarrow> chunk_addr pool i \<noteq> 0"
  using unat_chunk_addr [of pool i] by (auto simp: pool_ok_def unat_eq_zero)

lemma live_chunk_iff:
  "pool_ok pool \<Longrightarrow> i < unat (bp_chunk_count pool) \<Longrightarrow> chunk_addr pool i \<in> live_chunks pool \<longleftrightarrow> in_use pool i"
  by (auto simp: live_chunks_def chunk_addr_inj)

text \<open>One bit of the bitmap changes.\<close>

definition write_bit :: "nat \<Rightarrow> bool \<Rightarrow> bitmap_pool \<Rightarrow> bitmap_pool" where
  "write_bit i b pool =
     pool\<lparr>bitmap := (bitmap pool)[i div 8 :=
       (if b then bitmap pool ! (i div 8) OR push_bit (i mod 8) 1
        else bitmap pool ! (i div 8) AND NOT (push_bit (i mod 8) 1))]\<rparr>"

lemma in_use_write_bit:
  assumes "pool_ok pool" and "i < unat (bp_chunk_count pool)" and "j < unat (bp_chunk_count pool)"
  shows "in_use (write_bit i b pool) j \<longleftrightarrow> (if j = i then b else in_use pool j)"
proof (cases "j div 8 = i div 8")
  case True
  have eq: "j = i \<longleftrightarrow> j mod 8 = i mod 8" using True by (metis mult_div_mod_eq)
  have lt: "j mod 8 < 8" "i mod 8 < 8" by simp_all
  show ?thesis
    using bitmap_index [OF assms(1,2)] True eq lt
    by (auto simp: in_use_def write_bit_def bit_simps)
next
  case False
  then show ?thesis by (auto simp: in_use_def write_bit_def)
qed

lemma pool_ok_write_bit [simp]: "pool_ok (write_bit i b pool) = pool_ok pool"
  by (simp add: pool_ok_def write_bit_def)

lemma chunk_addr_write_bit [simp]: "chunk_addr (write_bit i b pool) j = chunk_addr pool j"
  by (simp add: chunk_addr_def write_bit_def)

lemma live_write_bit:
  assumes "pool_ok pool" and "i < unat (bp_chunk_count pool)"
  shows "live_chunks (write_bit i b pool) =
    (if b then insert (chunk_addr pool i) (live_chunks pool) else live_chunks pool - {chunk_addr pool i})"
proof -
  have n: "bp_chunk_count (write_bit i b pool) = bp_chunk_count pool" by (simp add: write_bit_def)
  show ?thesis
    using assms by (auto simp: live_chunks_def n in_use_write_bit chunk_addr_inj split: if_splits)
qed

section \<open>Allocation and release\<close>

lemma bitmap_scan_run:
  assumes ok: "pool_ok pool" and "i + n = unat (bp_chunk_count pool)"
  shows "bitmap_scan pool i n =
    (if \<exists>j. i \<le> j \<and> j < i + n \<and> \<not> in_use pool j
     then let j = (LEAST j. i \<le> j \<and> \<not> in_use pool j) in ret (chunk_addr pool j, write_bit j True pool)
     else ret (0, pool))"
  using assms(2)
proof (induction n arbitrary: i)
  case (Suc n)
  have idx: "i div 8 < length (bitmap pool)" using bitmap_index [OF ok] Suc.prems by simp
  have test: "bitmap pool ! (i div 8) AND push_bit (i mod 8) 1 = 0 \<longleftrightarrow> \<not> in_use pool i"
    by (simp add: in_use_def bit_iff_and_push_bit_not_eq_0)
  show ?case
  proof (cases "in_use pool i")
    case False
    then have "(LEAST j. i \<le> j \<and> \<not> in_use pool j) = i" by (intro Least_equality) auto
    then show ?thesis using idx test False by (auto simp: chunk_addr_def write_bit_def Let_def)
  next
    case True
    have shift: "i \<le> j \<and> \<not> in_use pool j \<longleftrightarrow> Suc i \<le> j \<and> \<not> in_use pool j" for j
      using True by (auto simp: Suc_le_eq le_less)
    have ex: "(\<exists>j. i \<le> j \<and> j < i + Suc n \<and> \<not> in_use pool j) \<longleftrightarrow> (\<exists>j. Suc i \<le> j \<and> j < Suc i + n \<and> \<not> in_use pool j)"
      using shift by auto
    show ?thesis using Suc.IH [of "Suc i"] Suc.prems idx test True unfolding ex shift by simp
  qed
qed auto

lemma bitmap_pool_alloc_run:
  assumes "pool_ok pool"
  shows "(\<forall>i<unat (bp_chunk_count pool). in_use pool i) \<Longrightarrow> bitmap_pool_alloc (Some pool) = ret (0, pool)"
    and "i < unat (bp_chunk_count pool) \<Longrightarrow> \<not> in_use pool i \<Longrightarrow> \<forall>j<i. in_use pool j \<Longrightarrow>
         bitmap_pool_alloc (Some pool) = ret (chunk_addr pool i, write_bit i True pool)"
proof -
  note run = bitmap_scan_run [OF assms, of 0 "unat (bp_chunk_count pool)"]
  show "bitmap_pool_alloc (Some pool) = ret (0, pool)" if "\<forall>i<unat (bp_chunk_count pool). in_use pool i"
    using run that by (auto simp: bitmap_pool_alloc_def)
  assume i: "i < unat (bp_chunk_count pool)" "\<not> in_use pool i" "\<forall>j<i. in_use pool j"
  then have "(LEAST j. 0 \<le> j \<and> \<not> in_use pool j) = i" by (intro Least_equality) (auto simp: not_less [symmetric])
  then show "bitmap_pool_alloc (Some pool) = ret (chunk_addr pool i, write_bit i True pool)"
    using run i by (auto simp: bitmap_pool_alloc_def)
qed

lemma first_free:
  assumes "\<exists>i<n. \<not> P i"
  obtains i :: nat where "i < n" and "\<not> P i" and "\<forall>j<i. P j"
  using assms exists_least_iff [of "\<lambda>i. i < n \<and> \<not> P i"] by (metis less_trans)

lemma bitmap_pool_free_run:
  assumes ok: "pool_ok pool" and i: "i < unat (bp_chunk_count pool)"
  shows "bitmap_pool_free (Some pool) (chunk_addr pool i) = ret (Some (write_bit i False pool))"
proof -
  let ?idx = "(chunk_addr pool i - bp_data pool) div bp_chunk_size pool"
  have nz: "bp_chunk_size pool \<noteq> 0" using ok by (simp add: pool_ok_def)
  then have s: "unat (bp_chunk_size pool) \<noteq> 0" by (simp add: unat_eq_zero)
  have "bp_data pool \<le> chunk_addr pool i" using unat_chunk_addr [OF ok i] by (simp add: word_le_nat_alt)
  then have "unat (chunk_addr pool i - bp_data pool) = i * unat (bp_chunk_size pool)"
    using unat_chunk_addr [OF ok i] by (simp add: unat_sub)
  then have idx: "unat ?idx = i" using s by (simp add: unat_div)
  then have "\<not> bp_chunk_count pool \<le> ?idx" using i by (simp add: word_le_nat_alt)
  moreover have "unat (?idx div 8) = i div 8" "unat (?idx mod 8) = i mod 8"
    using idx by (simp_all add: unat_div unat_mod)
  ultimately show ?thesis
    using nz chunk_addr_nonnull [OF ok i] bitmap_index [OF ok i]
    by (simp add: bitmap_pool_free_def write_bit_def Let_def)
qed

text \<open>The contract of an allocator; on a pool that satisfies the invariant no fault is possible.\<close>

definition slab_alloc :: "size_t \<Rightarrow> bitmap_pool \<Rightarrow> addr \<times> bitmap_pool" where
  "slab_alloc s pool = (case bitmap_pool_alloc (Some pool) of Inr r \<Rightarrow> r | Inl f \<Rightarrow> (0, pool))"

definition slab_release :: "addr \<Rightarrow> bitmap_pool \<Rightarrow> bitmap_pool" where
  "slab_release p pool = (case bitmap_pool_free (Some pool) p of Inr (Some pool') \<Rightarrow> pool' | _ \<Rightarrow> pool)"

lemma slab_cases:
  assumes "slab_inv pool L"
  obtains (full) "\<forall>i<unat (bp_chunk_count pool). chunk_addr pool i \<in> L" and "bitmap_pool_alloc (Some pool) = ret (0, pool)"
  | (free) i where "i < unat (bp_chunk_count pool)" and "chunk_addr pool i \<notin> L" and "\<forall>j<i. chunk_addr pool j \<in> L"
      and "bitmap_pool_alloc (Some pool) = ret (chunk_addr pool i, write_bit i True pool)"
      and "slab_inv (write_bit i True pool) (insert (chunk_addr pool i) L)"
proof (cases "\<forall>i<unat (bp_chunk_count pool). in_use pool i")
  case True
  with assms bitmap_pool_alloc_run(1) [of pool] show ?thesis
    by (intro full) (auto simp: slab_inv_def live_chunk_iff)
next
  case False
  then obtain i where i: "i < unat (bp_chunk_count pool)" "\<not> in_use pool i" "\<forall>j<i. in_use pool j"
    using first_free [of "unat (bp_chunk_count pool)" "in_use pool"] by blast
  have ok: "pool_ok pool" "L = live_chunks pool" using assms by (auto simp: slab_inv_def)
  have "\<forall>j<i. chunk_addr pool j \<in> L" using i ok live_chunk_iff by auto
  with i ok bitmap_pool_alloc_run(2) [OF ok(1) i] live_chunk_iff [OF ok(1) i(1)] live_write_bit [OF ok(1) i(1)]
  show ?thesis by (intro free [of i]) (auto simp: slab_inv_def)
qed

lemma slab_free_live:
  assumes "slab_inv pool L" and "p \<in> L"
  shows "\<exists>pool'. bitmap_pool_free (Some pool) p = ret (Some pool') \<and> slab_inv pool' (L - {p})"
proof -
  have ok: "pool_ok pool" "L = live_chunks pool" using assms(1) by (auto simp: slab_inv_def)
  obtain i where i: "i < unat (bp_chunk_count pool)" "p = chunk_addr pool i" using assms(2) ok(2) by (auto simp: live_chunks_def)
  from bitmap_pool_free_run [OF ok(1) i(1)] live_write_bit [OF ok(1) i(1), of False] i(2) ok show ?thesis
    by (auto simp: slab_inv_def)
qed

interpretation slab: allocator slab_alloc slab_release slab_inv
proof
  fix pool L s p pool'
  assume inv: "slab_inv pool L" and run: "slab_alloc s pool = (p, pool')"
  show "p \<notin> L \<and> slab_inv pool' (insert p L)" if "p \<noteq> 0"
    using inv run that by (cases rule: slab_cases) (auto simp: slab_alloc_def)
next
  fix pool L s pool'
  assume inv: "slab_inv pool L" and run: "slab_alloc s pool = (0, pool')"
  have ok: "pool_ok pool" using inv by (simp add: slab_inv_def)
  show "slab_inv pool' L"
    using inv
  proof (cases rule: slab_cases)
    case (free i)
    then show ?thesis using run chunk_addr_nonnull [OF ok, of i] by (simp add: slab_alloc_def)
  qed (use inv run in \<open>simp add: slab_alloc_def\<close>)
next
  show "slab_inv (slab_release p pool) (L - {p})" if "slab_inv pool L" "p \<in> L" for pool L p
    using slab_free_live [OF that] by (auto simp: slab_release_def)
  show "0 \<notin> L" if "slab_inv pool L" for pool L
    using that chunk_addr_nonnull by (force simp: slab_inv_def live_chunks_def)
qed

text \<open>A new pool; the block of the chunks must fit the address space.\<close>

lemma bitmap_pool_create_inv:
  assumes new: "bitmap_pool_create size0 ccount h = (Some pool, h')"
    and size0: "0 < unat size0" "unat size0 + 7 < 2 ^ 64" and count: "unat ccount + 7 < 2 ^ 64"
    and fits: "unat (bp_data pool) + unat (align_up size0 sizeof_ptr) * unat ccount < 2 ^ 64"
  shows "slab_inv pool {} \<and> unat size0 \<le> unat (bp_chunk_size pool) \<and> bp_chunk_count pool = ccount"
proof -
  have p: "bitmap pool = replicate (unat ((ccount + 7) div 8)) 0" "bp_chunk_size pool = align_up size0 sizeof_ptr"
    "bp_chunk_count pool = ccount" "bp_data pool \<noteq> 0"
    using new by (auto simp: bitmap_pool_create_def Let_def split: prod.splits if_splits)
  have "unat (ccount + 7) = unat ccount + 7" using count by (simp add: unat_add_lem [THEN iffD1])
  then have bytes: "unat ((ccount + 7) div 8) = (unat ccount + 7) div 8" by (simp add: unat_div)
  have size: "unat size0 \<le> unat (align_up size0 sizeof_ptr)"
    using align_up_bounds(1) [of size0] size0 by (simp add: sizeof_ptr_def)
  have "\<not> in_use pool i" if "i < unat ccount" for i
  proof -
    have "i div 8 < (unat ccount + 7) div 8" using that by auto
    then show ?thesis using p(1) bytes by (simp add: in_use_def)
  qed
  moreover have "pool_ok pool" using p bytes size size0(1) fits by (auto simp: pool_ok_def)
  ultimately show ?thesis using p size by (auto simp: slab_inv_def live_chunks_def)
qed

text \<open>
  Property C11. The bitmap pool: allocation returns the first chunk that is not in use and marks it,
  or null exactly when all are in use; releasing a chunk makes it, and no other,
  available again. The bitmap is never indexed out of bounds.
\<close>

theorem bitmap_pool_refines:
  assumes "slab_inv pool L"
  shows "(if \<forall>i<unat (bp_chunk_count pool). chunk_addr pool i \<in> L
          then bitmap_pool_alloc (Some pool) = ret (0, pool)
          else \<exists>i pool'. i < unat (bp_chunk_count pool) \<and> chunk_addr pool i \<notin> L \<and> (\<forall>j<i. chunk_addr pool j \<in> L) \<and>
                 bitmap_pool_alloc (Some pool) = ret (chunk_addr pool i, pool') \<and>
                 slab_inv pool' (insert (chunk_addr pool i) L)) \<and>
         (\<forall>p\<in>L. \<exists>pool'. bitmap_pool_free (Some pool) p = ret (Some pool') \<and> slab_inv pool' (L - {p}))"
proof
  show "if \<forall>i<unat (bp_chunk_count pool). chunk_addr pool i \<in> L
      then bitmap_pool_alloc (Some pool) = ret (0, pool)
      else \<exists>i pool'. i < unat (bp_chunk_count pool) \<and> chunk_addr pool i \<notin> L \<and> (\<forall>j<i. chunk_addr pool j \<in> L) \<and>
             bitmap_pool_alloc (Some pool) = ret (chunk_addr pool i, pool') \<and> slab_inv pool' (insert (chunk_addr pool i) L)"
    using assms by (cases rule: slab_cases) auto
qed (use slab_free_live [OF assms] in blast)

definition demo_slab :: bitmap_pool where
  "demo_slab = \<lparr>bp_addr = 100, bp_bitmap = 200, bitmap = [1], bp_data = 4096, bp_chunk_size = 64, bp_chunk_count = 3\<rparr>"

theorem bitmap_pool_refines_witness:
  "\<exists>pool'. bitmap_pool_free (Some demo_slab) 4096 = ret (Some pool') \<and> slab_inv pool' {}"
proof -
  have "{i. i < (3 :: nat) \<and> in_use demo_slab i} = {0}"
    by (auto simp: in_use_def demo_slab_def bit_1_iff)
  then have "slab_inv demo_slab {4096}"
    by (simp add: slab_inv_def live_chunks_def pool_ok_def chunk_addr_def) (simp add: demo_slab_def)
  from bitmap_pool_refines [OF this] show ?thesis by simp
qed

end
