(* ===== verification/Startup.thy ===== *)
theory Startup
  imports Tcp_Correct
begin

text \<open>
  The start of the server: \<open>init_kvengine\<close> establishes the invariants on which the other
  theorems rest.
\<close>

lemma kvs_malloc_ok:
  assumes "heap_inv h L" and "mem_budget h (Suc n)"
  obtains p h' where "kvs_malloc s h = (p, h')" and "p \<noteq> 0" and "p \<notin> L" and "heap_inv h' (insert p L)"
    and "mem_budget h' n"
proof -
  obtain p h' where 1: "kvs_malloc s h = (p, h')" by (cases "kvs_malloc s h")
  note b = kvs_malloc_budget [OF assms(2) 1]
  from kvs_alloc.alloc_Some [OF assms(1) 1 b(1)] show ?thesis by (intro that [OF 1 b(1)]) (use b in auto)
qed

text \<open>The pool that \<open>init_kvengine\<close> makes when there is none.\<close>

lemma init_pool_inv:
  assumes "global_pool h = None" and "kvs_mempool_create POOL_CHUNK_SIZE POOL_CHUNK_COUNT h = (Some mp, h')"
    and "unat (pool_data mp) + unat POOL_CHUNK_COUNT * unat (chunk_size mp) \<le> 2 ^ 64"
    and "fresh_mallocs h' (set (chunks (pool_data mp) (chunk_size mp) (unat POOL_CHUNK_COUNT)))"
  shows "heap_inv (init_pool h) {}"
  using kvs_mempool_create_inv [OF assms(2,3) kvs_mempool_create_chunk_pos [OF assms(2)] assms(4)] assms(1,2)
  by (simp add: init_pool_def POOL_CHUNK_SIZE_def)

text \<open>The four empty stores, before a snapshot is loaded.\<close>

lemma init_stores:
  assumes inv: "heap_inv (init_pool (engine_heap e)) L" and mem: "mem_budget (init_pool (engine_heap e)) (n + 7)"
    and fb: "\<forall>i<1024. fb i = Some []"
  shows "\<exists>a t hs sl h L'. let e1 = e\<lparr>global_array := a, global_rbtree := t, global_hash := hs, global_skiptable := sl, engine_heap := h\<rparr> in
           init_kvengine fs fb e = rbind (kvs_rdb_init e1) (\<lambda>(r, e'). ret (if r \<noteq> 0 then - 1 else 0, e')) \<and>
           engine_inv e1 L' \<and> engine_map e1 = (\<lambda>_. Map.empty) \<and> skip_ok sl (L' - store_blocks e1) [] \<and> mem_budget h n \<and> total a = 0"
proof -
  let ?h = "init_pool (engine_heap e)"
  have mem': "mem_budget ?h (Suc (Suc (Suc (n + 4))))" using mem by (simp add: numeral_eq_Suc)
  obtain p1 h1 where 1: "kvs_malloc sizeof_array_table ?h = (p1, h1)" "p1 \<noteq> 0" "p1 \<notin> L" "heap_inv h1 (insert p1 L)"
    "mem_budget h1 (Suc (Suc (n + 4)))" by (rule kvs_malloc_ok [OF inv mem'])
  obtain p2 h2 where 2: "kvs_malloc sizeof_rbtree_node h1 = (p2, h2)" "p2 \<noteq> 0" "p2 \<notin> insert p1 L"
    "heap_inv h2 (insert p2 (insert p1 L))" "mem_budget h2 (Suc (n + 4))" by (rule kvs_malloc_ok [OF 1(4,5)])
  obtain p3 h3 where 3: "kvs_malloc sizeof_hash_table h2 = (p3, h3)" "p3 \<noteq> 0" "p3 \<notin> insert p2 (insert p1 L)"
    "heap_inv h3 (insert p3 (insert p2 (insert p1 L)))" "mem_budget h3 (n + 4)" by (rule kvs_malloc_ok [OF 2(4,5)])
  obtain p4 nd h4 L' where 4: "createSkipNode SKIP_MAX_LEVEL [] [] 0 h3 = Some (p4, nd, h4)" "p4 \<noteq> 0" "p4 \<in> L'"
    "p4 \<notin> insert p3 (insert p2 (insert p1 L))" "insert p3 (insert p2 (insert p1 L)) \<subseteq> L'" "heap_inv h4 L'" "mem_budget h4 n" "sk_next nd = replicate (Suc SKIP_MAX_LEVEL) 0"
    using createSkipNode_ok [OF 3(4,5)] by metis
  let ?a = "\<lparr>array_table = p1, slots = fs, total = 0, array_mutex = False\<rparr>"
  let ?t = "\<lparr>root = p2, nil = p2, nodes = [p2 \<mapsto> (fresh_node e)\<lparr>rcolor := BLACK\<rparr>]\<rparr>"
  let ?hs = "\<lparr>hash_nodes = p3, buckets = fb, max_slots = MAX_TABLE_SIZE, count = 0\<rparr>"
  let ?sl = "\<lparr>sk_level = 0, sk_header = p4, sk_nodes = [p4 \<mapsto> nd], sk_length = 0, sk_lock = False\<rparr>"
  let ?e = "e\<lparr>global_array := ?a, global_rbtree := ?t, global_hash := ?hs, global_skiptable := ?sl, engine_heap := h4\<rparr>"
  note a = array_empty [of ?a]
  note t = rb_empty [of ?t "(fresh_node e)\<lparr>rcolor := BLACK\<rparr>"]
  note hs = hash_empty [of ?hs]
  have "init_kvengine fs fb e = rbind (kvs_rdb_init ?e) (\<lambda>(r, e'). ret (if r \<noteq> 0 then - 1 else 0, e'))"
    using 1(1,2) 2(1,2) 3(1,2) 4(1)
    by (simp add: init_kvengine_def kvs_array_create_def kvs_rbtree_create_def kvs_hash_create_def kvs_skiptable_create_def)
  moreover have "p4 \<in> L' - store_blocks ?e"
    using 4(3,4) a(3) t(3) hs(3) 2 fb by (auto simp: store_blocks_def MAX_TABLE_SIZE_def)
  then have "skip_ok ?sl (L' - store_blocks ?e) []" by (intro skip_ok_empty [of _ p4 nd]) (use 4 in simp_all)
  moreover have "engine_inv ?e L'"
    using a t hs 1 2 3 4 fb by (auto simp: engine_inv_def MAX_TABLE_SIZE_def)
  moreover have "engine_map ?e = (\<lambda>_. Map.empty)"
    using a t hs 2 fb by (auto simp: engine_map_def fun_eq_iff MAX_TABLE_SIZE_def)
  moreover have "total ?a = 0" by simp
  ultimately show ?thesis using 4(7) unfolding Let_def by blast
qed

text \<open>The configuration and the files have no part in it.\<close>

lemma started_with:
  assumes "engine_inv e L" and "engine_map e = (\<lambda>_. Map.empty)" and "skip_ok sl (L - store_blocks e) []"
  shows "engine_inv (e\<lparr>g_rdb_config := c, engine_os := w\<rparr>) L"
    and "engine_map (e\<lparr>g_rdb_config := c, engine_os := w\<rparr>) = (\<lambda>_. Map.empty)"
    and "global_skiptable e = sl \<Longrightarrow>
      skip_ok (global_skiptable (e\<lparr>g_rdb_config := c, engine_os := w\<rparr>)) (L - store_blocks (e\<lparr>g_rdb_config := c, engine_os := w\<rparr>)) []"
proof -
  show "engine_inv (e\<lparr>g_rdb_config := c, engine_os := w\<rparr>) L" using assms(1) by (simp add: engine_inv_def)
  have "engine_map (e\<lparr>g_rdb_config := c, engine_os := w\<rparr>) = engine_map e" by (simp add: engine_map_def fun_eq_iff)
  with assms(2) show "engine_map (e\<lparr>g_rdb_config := c, engine_os := w\<rparr>) = (\<lambda>_. Map.empty)" by simp
  assume "global_skiptable e = sl"
  with assms(3) show "skip_ok (global_skiptable (e\<lparr>g_rdb_config := c, engine_os := w\<rparr>))
      (L - store_blocks (e\<lparr>g_rdb_config := c, engine_os := w\<rparr>)) []" by (simp add: store_blocks_def)
qed

text \<open>The start state of the machine; whether it can save depends on the configuration.\<close>

definition start_state :: "kv_maps \<Rightarrow> bool \<Rightarrow> kv_state" where
  "start_state m b = \<lparr>st_maps = m, st_zset = [], st_saves = b\<rparr>"

lemma start_rep:
  assumes "engine_inv e L" and "skip_ok (global_skiptable e) (L - store_blocks e) []" and "keeps_rest e L e' L'"
    and "engine_inv e' L'" and "short_values (engine_map e')"
  shows "engine_rep e' L' (start_state (engine_map e') (save_works e'))"
proof -
  have "L - store_blocks e \<subseteq> L' - store_blocks e'" using assms(3) unfolding keeps_rest_def heap_frame_def by blast
  from skip_ok_mono [OF assms(2) this] show ?thesis
    using assms(4,5) same_envD [OF keeps_rest_env [OF assms(3)]] by (simp add: engine_rep_def start_state_def)
qed



end
