(* ===== verification/Restart.thy ===== *)
theory Restart
  imports Startup
begin

text \<open>
  The end of the server and its next start: what \<open>main\<close> does after the network loop, and what
  a new process finds in the files the old one left.
\<close>

section \<open>The end\<close>

lemma kvs_array_destory_inv:
  assumes "heap_inv h L" and "array_table a \<in> L"
  shows "\<exists>L'. heap_inv (kvs_array_destory a h) L' \<and> L - {array_table a} \<subseteq> L'"
  using assms kvs_alloc.release_live [OF assms] by (cases "array_table a = 0") (auto simp: kvs_array_destory_def)

text \<open>The stores can be destroyed one after the other: none of them needs a block of another.\<close>

lemma dest_kvengine_run:
  assumes inv: "engine_inv e L" and sk: "skip_ok (global_skiptable e) S zs"
  shows "\<exists>e'. dest_kvengine e = ret e' \<and> engine_os e' = engine_os e \<and> g_rdb_config e' = g_rdb_config e"
proof -
  let ?a = "global_array e" and ?t = "global_rbtree e" and ?hs = "global_hash e"
  note I = inv [unfolded engine_inv_def]
  have own: "array_table ?a \<in> set (array_blocks ?a)" "nil ?t \<in> set (rb_blocks ?t)"
    by (simp_all add: array_blocks_def rb_blocks_def)
  obtain L1 where L1: "heap_inv (kvs_array_destory ?a (engine_heap e)) L1" "L - {array_table ?a} \<subseteq> L1"
    using kvs_array_destory_inv [of "engine_heap e" L ?a] I own by blast
  have "set (rb_blocks ?t) \<subseteq> L1" using L1(2) I own by blast
  then obtain h2 where h2: "kvs_rbtree_destory ?t (kvs_array_destory ?a (engine_heap e)) = ret h2" "heap_inv h2 (L1 - {nil ?t})"
    using kvs_rbtree_destory_run [of ?t, OF _ L1(1)] I by blast
  have "set (hash_blocks ?hs) \<subseteq> L1 - {nil ?t}" using L1(2) I own by blast
  then obtain hs h3 where h3: "kvs_hash_destory ?hs h2 = ret (hs, h3)"
    using kvs_hash_destory_run [of ?hs, OF _ h2(2)] I by blast
  obtain sl h4 where "kvs_skiptable_destory (Some (global_skiptable e)) h3 = ret (Some sl, h4)"
    using kvs_skiptable_destory_run [OF sk, of h3] by blast
  with h2(1) h3 show ?thesis by (simp add: dest_kvengine_def Let_def)
qed

text \<open>The configuration file of the running server: it holds the configuration in use.\<close>

definition conf_stored :: "rdb_config \<Rightarrow> os \<Rightarrow> bool" where
  "conf_stored c w \<longleftrightarrow>
     config_ok c \<and> files w RDB_CONFIG_FILE = Some (lines_bytes (config_text c)) \<and> may_read w RDB_CONFIG_FILE"

lemma conf_stored_init: "conf_stored c w \<Longrightarrow> rdb_config_init c0 w = (0, c, w)"
  using config_text_read [of c c0] by (simp add: conf_stored_def rdb_config_init_def rdb_config_load_def fopen_rb_def)

lemma conf_stored_other:
  assumes "conf_stored c w" and "other_files f c w w'" and "f \<noteq> RDB_CONFIG_FILE"
  shows "conf_stored c w'"
proof -
  have "RDB_CONFIG_FILE \<noteq> backup_name d t" for d t
    by (rule notI, drule arg_cong [where f = length]) (use backup_name_length [of d t] in \<open>simp add: RDB_CONFIG_FILE_def\<close>)
  then show ?thesis using assms by (simp add: conf_stored_def other_files_def)
qed

text \<open>What a start finds that has a configuration and a snapshot.\<close>

lemma main_start_loads:
  assumes conf: "conf_stored c (engine_os e0)" and en: "rdb_enabled c" "\<not> rdb_crc64 c"
    and stored: "files (engine_os e0) (rdb_file c) = Some (header_bytes hdr @ records_bytes rs)"
      "may_read (engine_os e0) (rdb_file c)"
    and hd: "rh_magic hdr = RDB_MAGIC" "rh_version hdr = RDB_VERSION" "unat (rh_data_size hdr) = length (records_bytes rs)"
    and rs: "\<forall>r\<in>set rs. rec_fits r \<and> fst r \<in> {0, 1, 2} \<and> (fst r = 2 \<longrightarrow> hash_index (fst (snd r)) \<noteq> None)"
    and room: "length (recs_of 0 rs) \<le> KVS_ARRAY_SIZE"
    and inv: "heap_inv (init_pool (engine_heap e0)) L" and mem: "mem_budget (init_pool (engine_heap e0)) (5 * length rs + 7)"
    and fb: "\<forall>i<1024. fb i = Some []" and argv: "2 \<le> length argv"
  shows "\<exists>e' L'. main_start argv fs fb e0 = ret (0, e') \<and> engine_inv e' L' \<and>
           engine_map e' = (\<lambda>t. map_of (recs_of t rs)) \<and> g_rdb_config e' = c \<and> engine_os e' = engine_os e0 \<and>
           (short_values (engine_map e') \<longrightarrow> engine_rep e' L' (start_state (engine_map e') (save_works e')))"
proof -
  define e1 where "e1 = (if 3 \<le> length argv
    then e0\<lparr>g_rdb_config := snd (kvs_rdb_set_path (Some (argv ! 2)) (g_rdb_config e0))\<rparr> else e0)"
  have e1: "engine_heap e1 = engine_heap e0" "engine_os e1 = engine_os e0" by (simp_all add: e1_def)
  obtain a t hs sl h L1 where 1: "init_kvengine fs fb e1 = rbind (kvs_rdb_init
      (e1\<lparr>global_array := a, global_rbtree := t, global_hash := hs, global_skiptable := sl, engine_heap := h\<rparr>))
      (\<lambda>(r, e'). ret (if r \<noteq> 0 then - 1 else 0, e'))"
    and 2: "engine_inv (e1\<lparr>global_array := a, global_rbtree := t, global_hash := hs, global_skiptable := sl, engine_heap := h\<rparr>) L1"
    "engine_map (e1\<lparr>global_array := a, global_rbtree := t, global_hash := hs, global_skiptable := sl, engine_heap := h\<rparr>) = (\<lambda>_. Map.empty)"
    "skip_ok sl (L1 - store_blocks (e1\<lparr>global_array := a, global_rbtree := t, global_hash := hs, global_skiptable := sl, engine_heap := h\<rparr>)) []"
    and 3: "mem_budget h (5 * length rs)" "total a = 0"
    using init_stores [of e1 L "5 * length rs" fb fs] inv mem fb unfolding Let_def e1(1) by blast
  let ?e = "e1\<lparr>global_array := a, global_rbtree := t, global_hash := hs, global_skiptable := sl, engine_heap := h,
    g_rdb_config := c, engine_os := engine_os e0\<rparr>"
  note start = started_with [OF 2, where c = c and w = "engine_os e0", simplified]
  have sk: "skip_ok (global_skiptable ?e) (L1 - store_blocks ?e) []" using start(3) by simp
  obtain e' L' where 4: "kvs_rdb_load (rdb_file c) ?e = ret (0, e')" "engine_inv e' L'"
    "\<forall>t. engine_map e' t = map_of (recs_of t rs) ++ engine_map ?e t" "keeps_rest ?e L1 e' L'"
    using kvs_rdb_load_bytes [OF start(1), of "rdb_file c" hdr rs] en stored hd rs 3 room by auto
  have "kvs_rdb_init (e1\<lparr>global_array := a, global_rbtree := t, global_hash := hs, global_skiptable := sl, engine_heap := h\<rparr>)
      = ret (0, e')"
    using conf_stored_init [OF conf] 4(1) en stored(1) e1(2) by (simp add: kvs_rdb_init_def path_exists_def)
  then have "main_start argv fs fb e0 = ret (0, e')"
    using 1 argv unfolding main_start_def e1_def [symmetric] Let_def by simp
  moreover have "engine_map e' = (\<lambda>t. map_of (recs_of t rs))" using 4(3) start(2) by (simp add: fun_eq_iff)
  ultimately show ?thesis
    using 4(2) same_envD [OF keeps_rest_env [OF 4(4)]] start_rep [OF start(1) sk 4(4,2)]
    by (intro exI [of _ e'] exI [of _ L']) simp
qed

text \<open>The pair at the root is one of the tree.\<close>

lemma root_entry_abs:
  assumes "rb_ok T"
  shows "map_of (root_entry T) \<subseteq>\<^sub>m rb_abs T"
proof (cases "rb_shape T")
  case (Nd l a c kv r)
  have "distinct (map fst (entries (inorder (rb_shape T))))"
    using assms unfolding entries_keys rb_ok_def keys_ok_def by (metis strict_sorted_iff)
  moreover have "(cstr_of (fst kv), cstr_of (snd kv)) \<in> set (entries (inorder (rb_shape T)))"
    by (simp add: Nd)
  ultimately have "rb_abs T (cstr_of (fst kv)) = Some (cstr_of (snd kv))" unfolding rb_abs_def by (rule map_of_is_SomeI)
  then show ?thesis by (simp add: root_entry_def Nd map_le_def)
qed (simp add: root_entry_def)

lemma restored_maps:
  assumes "engine_inv e L"
  shows "(\<lambda>t. map_of (recs_of t (engine_records e))) = (engine_map e)(1 := map_of (root_entry (global_rbtree e)))"
proof
  fix t
  have "recs_of t (engine_records e) = []" if "t \<noteq> 0" "t \<noteq> 1" "t \<noteq> 2"
    using that by (simp add: engine_records_def)
  then show "map_of (recs_of t (engine_records e)) = ((engine_map e)(1 := map_of (root_entry (global_rbtree e)))) t"
    using engine_records_maps(1-3) [OF assms] by (cases "t = 0 \<or> t = 1 \<or> t = 2") (auto simp: engine_map_def)
qed

section \<open>The next start\<close>



end
