(* ===== verification/Tcp_Safe.thy ===== *)
theory Tcp_Safe
  imports Tcp_Correct
begin

text \<open>
  The handler on packets nobody promised anything about. It returns, and leaves an engine that
  can serve the next packet, whatever the bytes are, but for a short list of commands.
\<close>

section \<open>Saving under any conditions\<close>

lemma write_footer_heap:
  assumes "heap_inv h L" and "mem_budget h (Suc n)" and "write_footer d hdr fp h = (ok, fp', h')"
  shows "heap_inv h' L" and "mem_budget h' n"
proof -
  obtain p h1 where m: "malloc (ucast (rh_data_size hdr)) h = (p, h1)" by fastforce
  have "heap_inv h' L \<and> mem_budget h' n"
    using assms(3) m sys_malloc_inv [OF assms(1) m] sys_malloc_budget [OF assms(2) m]
    by (auto simp: write_footer_def Let_def split: prod.splits if_splits)
  then show "heap_inv h' L" "mem_budget h' n" by simp_all
qed

lemma kvs_rdb_save_safe:
  assumes inv: "engine_inv e L" and mem: "mem_budget (engine_heap e) (Suc n)"
  shows "\<exists>r w t h. kvs_rdb_save f e = ret (r, e\<lparr>engine_os := w, engine_heap := h, last_save_time := t\<rparr>) \<and>
           heap_inv h L \<and> mem_budget h n"
proof -
  let ?c = "g_rdb_config e"
  have keep: "heap_inv (engine_heap e) L" "mem_budget (engine_heap e) n"
    using engine_invD [OF inv] mem_budget_mono [OF mem] by simp_all
  define w1 where "w1 = (if rdb_backup ?c \<and> path_exists f (engine_os e) then snd (rdb_create_backup f ?c (engine_os e)) else engine_os e)"
  consider (off) "\<not> rdb_enabled ?c" | (closed) "rdb_enabled ?c" "fopen_wb f w1 = None"
    | (op) w2 fp where "rdb_enabled ?c" "fopen_wb f w1 = Some (fp, w2)" "at_end fp"
  proof (cases "fopen_wb f w1")
    case (Some x)
    then have "at_end (fst x)" by (auto simp: fopen_wb_def at_end_def split: if_splits)
    with Some that show ?thesis by (cases x) auto
  qed (use that in auto)
  then show ?thesis
  proof cases
    case off
    then have "kvs_rdb_save f e = ret (0, e\<lparr>engine_os := engine_os e, engine_heap := engine_heap e, last_save_time := last_save_time e\<rparr>)"
      by (simp add: kvs_rdb_save_def)
    then show ?thesis using keep by blast
  next
    case closed
    then have "kvs_rdb_save f e = ret (- 1, e\<lparr>engine_os := w1, engine_heap := engine_heap e, last_save_time := last_save_time e\<rparr>)"
      by (simp add: kvs_rdb_save_def Let_def w1_def [symmetric])
    then show ?thesis using keep by blast
  next
    case op
    obtain now w3 where t: "sys_time w2 = (now, w3)" by fastforce
    let ?fp1 = "fwrite (header_bytes (save_header ?c now)) fp"
    let ?fp2 = "fwrite (records_bytes (engine_records e)) ?fp1"
    let ?hdr = "(save_header ?c now)\<lparr>rh_data_size := of_nat (ftell ?fp2 - ftell ?fp1),
        rh_record_count := of_nat (length (array_entries (global_array e)))\<rparr>"
    have stores: "save_stores e ?fp1 = ret (?fp2, length (array_entries (global_array e)))"
      using save_stores_ok [OF inv] op(3) by simp
    obtain ok fp3 h where foot: "(if rdb_crc64 ?c then write_footer (ftell ?fp1) ?hdr ?fp2 (engine_heap e)
        else (True, ?fp2, engine_heap e)) = (ok, fp3, h)" by (metis prod_cases3)
    have h: "heap_inv h L" "mem_budget h n"
      using foot keep write_footer_heap [OF keep(1) mem] by (auto split: if_splits)
    obtain now' w4 where t': "sys_time (fclose (fwrite (header_bytes ?hdr) (fseek 0 fp3)) w3) = (now', w4)" by fastforce
    have "kvs_rdb_save f e = ret (if ok then (0, e\<lparr>engine_os := w4, engine_heap := h, last_save_time := now'\<rparr>)
        else (- 1, e\<lparr>engine_os := fclose fp3 w3, engine_heap := h, last_save_time := last_save_time e\<rparr>))"
      using op(1,2) t stores foot t' unfolding kvs_rdb_save_def Let_def w1_def [symmetric] by simp
    then show ?thesis using h by (cases ok) (simp_all only: if_True if_False, blast+)
  qed
qed

lemma save_command_safe:
  assumes rep: "engine_rep e L s" and mem: "mem_budget (engine_heap e) (Suc n)"
  shows "\<exists>t e' s'. save_command e = ret (t, e') \<and> engine_rep e' L s' \<and> mem_budget (engine_heap e') n"
proof -
  note R = engine_repD [OF rep]
  obtain r w t h where 1: "kvs_rdb_save (rdb_file (g_rdb_config e)) e =
      ret (r, e\<lparr>engine_os := w, engine_heap := h, last_save_time := t\<rparr>)" "heap_inv h L" "mem_budget h n"
    using kvs_rdb_save_safe [OF R(1) mem] by blast
  let ?e = "e\<lparr>engine_os := w, engine_heap := h, last_save_time := t\<rparr>"
  have "engine_inv ?e L" using R(1) 1(2) by (simp add: engine_inv_def)
  moreover have "engine_map ?e = engine_map e" by (simp add: engine_map_def fun_eq_iff)
  moreover have "store_blocks ?e = store_blocks e" by (simp add: store_blocks_def)
  ultimately have "engine_rep ?e L (s\<lparr>st_saves := False\<rparr>)" using R by (simp add: engine_rep_def)
  then show ?thesis using 1 by (auto simp: save_command_def)
qed

section \<open>Any command\<close>

text \<open>
  The commands and arguments that are excluded: \<open>DEL\<close>, \<open>GET\<close> without a key and \<open>MOD\<close> without a key
  or a value (which leave the mutex locked), a hash key without a hash, and a score that is not a
  number.
\<close>

definition harmless :: "libc \<Rightarrow> uint32 \<Rightarrow> cstring option \<Rightarrow> cstring option \<Rightarrow> bool" where
  "harmless lc cmd ko vo \<longleftrightarrow>
     cmd \<noteq> CMD_DEL \<and> (cmd = CMD_GET \<longrightarrow> ko \<noteq> None) \<and> (cmd = CMD_MOD \<longrightarrow> ko \<noteq> None \<and> vo \<noteq> None) \<and>
     (cmd = CMD_HSET \<or> cmd = CMD_HGET \<longrightarrow> (\<forall>k. ko = Some k \<longrightarrow> hash_index k \<noteq> None)) \<and>
     (cmd = CMD_ZADD \<longrightarrow> (\<forall>v. vo = Some v \<longrightarrow> 32 \<in> set v \<longrightarrow> \<not> is_nan (zadd_score lc v)))"

lemma run_null_key:
  assumes rep: "engine_rep e L s" and ok: "harmless lc cmd None vo" and cmd: "cmd \<noteq> CMD_SAVE"
  shows "\<exists>t. run_command lc cmd None vo b e = ret (t, b, e)"
proof -
  have "array_ok (global_array e)" using engine_repD(1) [OF rep] by (simp add: engine_inv_def)
  then have lock: "\<not> array_mutex (global_array e)" "(global_array e)\<lparr>array_mutex := False\<rparr> = global_array e"
    by (simp_all add: array_ok_def)
  show ?thesis
    using ok cmd lock
    by (auto simp: harmless_def run_command_def array_command_def engine_array_set_def kvs_array_set_def kvs_array_exist_def
        array_lock_def rbtree_command_def engine_rbtree_set_def kvs_rbtree_set_def kvs_rbtree_get_def hash_command_def
        engine_hash_set_def kvs_hash_set_def kvs_hash_get_def zset_command_def get_text_def)
qed

lemma run_zrem_safe:
  assumes rep: "engine_rep e L s" and mem: "mem_budget (engine_heap e) n"
  shows "\<exists>t e' s'. run_command lc CMD_ZREM (Some k) vo b e = ret (t, b, e') \<and> engine_rep e' L s' \<and> mem_budget (engine_heap e') n"
proof -
  note R = engine_repD [OF rep]
  obtain za zb sl h where 1: "kvs_skiptable_zrem (global_skiptable e) k (engine_heap e) = ret (fst (zrem_at k za zb), sl, h)"
    "skip_ok sl (L - store_blocks e) (snd (zrem_at k za zb))" "heap_inv h L" "mem_budget h n"
    using zrem_any [OF R(5,4), of k n] mem by blast
  have "engine_rep (e\<lparr>global_skiptable := sl, engine_rng := engine_rng e, engine_heap := h\<rparr>) L (s\<lparr>st_zset := snd (zrem_at k za zb)\<rparr>)"
    by (rule engine_rep_zset [OF rep 1(3) subset_refl 1(2) subset_refl])
  then show ?thesis using 1 by (auto simp: run_command_def zset_command_def)
qed

lemma run_set_full:
  assumes rep: "engine_rep e L s" and full: "\<not> total (global_array e) < KVS_ARRAY_SIZE"
  shows "\<exists>t. run_command lc CMD_SET (Some k) vo b e = ret (t, b, e)"
proof -
  have ok: "array_ok (global_array e)" using engine_repD(1) [OF rep] by (simp add: engine_inv_def)
  then have "total (global_array e) = KVS_ARRAY_SIZE" using full by (simp add: array_ok_def)
  then have "kvs_array_set (global_array e) (Some k) vo (engine_heap e) = ret (- 1, global_array e, engine_heap e)"
    using kvs_array_set_full [OF ok] ok by (cases vo) (simp_all add: kvs_array_set_def array_lock_def array_ok_def)
  then show ?thesis by (simp add: run_command_def array_command_def engine_array_set_def)
qed

lemma run_command_safe:
  assumes rep: "engine_rep e L s" and mem: "mem_budget (engine_heap e) (n + 4)" and ok: "harmless lc cmd ko vo"
    and short: "\<And>v. vo = Some v \<Longrightarrow> length v < RESULT_SIZE"
  shows "\<exists>t b' e' L' s'. run_command lc cmd ko vo b e = ret (t, b', e') \<and> engine_rep e' L' s' \<and> mem_budget (engine_heap e') n"
proof -
  have mem': "mem_budget (engine_heap e) n" "mem_budget (engine_heap e) (Suc n)" using mem_budget_mono [OF mem] by simp_all
  consider (save) "cmd = CMD_SAVE" | (null) "cmd \<noteq> CMD_SAVE" "ko = None" | (rem) k where "cmd = CMD_ZREM" "ko = Some k"
    | (full) k where "cmd = CMD_SET" "ko = Some k" "\<not> total (global_array e) < KVS_ARRAY_SIZE"
    | (spec) k where "cmd \<noteq> CMD_SAVE" "cmd \<noteq> CMD_ZREM" "ko = Some k" "cmd = CMD_SET \<longrightarrow> total (global_array e) < KVS_ARRAY_SIZE"
    by (cases ko) blast+
  then show ?thesis
  proof cases
    case save
    then have "run_command lc cmd ko vo b e = rbind (save_command e) (\<lambda>(t, e'). ret (t, b, e'))" by (simp add: run_command_def)
    with save_command_safe [OF rep mem'(2)] show ?thesis by fastforce
  next
    case null
    then show ?thesis using run_null_key [OF rep, of lc cmd vo b] ok rep mem' by blast
  next
    case rem
    then show ?thesis using run_zrem_safe [OF rep mem'(1)] by blast
  next
    case full
    then show ?thesis using run_set_full [OF rep full(3)] rep mem' by blast
  next
    case spec
    then have "supported lc cmd k vo s" using ok unfolding harmless_def supported_def by blast
    from run_command_refines [OF rep mem this short, of "24 + length k + 1 + length (the vo)" b] spec show ?thesis
      by fastforce
  qed
qed

section \<open>Any packet\<close>

lemma length_str_at_stop: "n < length xs \<Longrightarrow> xs ! n = 0 \<Longrightarrow> length (str_at xs) \<le> n"
  unfolding str_at_def by (metis (mono_tags, lifting) length_takeWhile_le linorder_not_le nth_mem set_takeWhileD takeWhile_nth)

lemma parse_command_short:
  assumes "parse_command buffer n = ret (k, Some v, b)"
  shows "length v < n"
proof -
  let ?b = "buffer[TCP_HEADER_SIZE + n := 0]"
  have len: "TCP_HEADER_SIZE + n < length buffer" and n: "n \<noteq> 0"
    using assms by (auto simp: parse_command_def split: if_splits)
  have "length (str_at (drop TCP_HEADER_SIZE ?b)) \<le> n" by (rule length_str_at_stop) (use len in simp_all)
  then show ?thesis
    using assms len n by (auto simp: parse_command_def Let_def split: if_splits)
qed



end
