(* ===== verification/Hash_Inline.thy ===== *)
theory Hash_Inline
  imports Kvs_Hash
begin

text \<open>
  The first hash table of the repository, \<^verbatim>\<open>src/hash.c\<close>: nodes hold key and value in arrays of 128 and
  512 bytes, filled by \<open>strncpy\<close>, and a mutex protects the table. As in \<open>Kvs_Hash\<close> a bucket is the
  list of the nodes reachable from its head, \<open>None\<close> if it was never written.
\<close>

section \<open>The code\<close>

definition MAX_KEY_LEN :: nat where
  "MAX_KEY_LEN = 128"

definition MAX_VALUE_LEN :: nat where
  "MAX_VALUE_LEN = 512"

record ht_node =
  ht_addr :: addr
  ht_key :: "byte list"
  ht_value :: "byte list"

record hashtable =
  ht_nodes :: addr
  ht_buckets :: "nat \<Rightarrow> ht_node list option"
  ht_max_slots :: nat
  ht_count :: int
  ht_lock :: bool

text \<open>\<open>strncpy\<close> fills the array; it ends with a \<open>NUL\<close> only if the string is shorter.\<close>

definition strncpy :: "cstring \<Rightarrow> nat \<Rightarrow> byte list" where
  "strncpy src n = take n src @ replicate (n - length src) 0"

text \<open>\<open>strcmp(array, key) == 0\<close>; it is undefined to read behind the end of the array.\<close>

fun strcmp_array :: "byte list \<Rightarrow> cstring \<Rightarrow> bool res" where
  "strcmp_array [] ks = undef"
| "strcmp_array (b # bs) [] = ret (b = 0)"
| "strcmp_array (b # bs) (k # ks) = (if b = k then strcmp_array bs ks else ret False)"

definition ht_hash :: "cstring option \<Rightarrow> int \<Rightarrow> int res" where
  "ht_hash ko sz =
     (case ko of
        None \<Rightarrow> ret (- 1)
      | Some key \<Rightarrow> rbind (hash_sum 0 key) (\<lambda>s. ret (c_rem s sz)))"

definition ht_create_node :: "cstring \<Rightarrow> cstring \<Rightarrow> heap \<Rightarrow> ht_node option \<times> heap" where
  "ht_create_node key val h =
     (let (node, h1) = malloc 648 h
      in if node = 0 then (None, h1)
         else (Some \<lparr>ht_addr = node, ht_key = strncpy key MAX_KEY_LEN, ht_value = strncpy val MAX_VALUE_LEN\<rparr>, h1))"

text \<open>\<open>fresh\<close> is what the block of the table holds when \<open>malloc\<close> returns it.\<close>

definition init_hashtable ::
  "(nat \<Rightarrow> ht_node list option) \<Rightarrow> hashtable option \<Rightarrow> heap \<Rightarrow> int \<times> hashtable option \<times> heap" where
  "init_hashtable fresh hto h =
     (case hto of
        None \<Rightarrow> (- 1, None, h)
      | Some ht \<Rightarrow>
          let (p, h1) = malloc 8192 h
          in if p = 0 then (- 1, Some (ht\<lparr>ht_nodes := 0\<rparr>), h1)
             else (0, Some (ht\<lparr>ht_nodes := p, ht_buckets := fresh, ht_max_slots := MAX_TABLE_SIZE, ht_count := 0,
                               ht_lock := False\<rparr>), h1))"

fun ht_free_chain :: "ht_node list \<Rightarrow> heap \<Rightarrow> heap" where
  "ht_free_chain [] h = h"
| "ht_free_chain (n # ns) h = ht_free_chain ns (free (ht_addr n) h)"

fun ht_free_buckets :: "nat \<Rightarrow> nat \<Rightarrow> hashtable \<Rightarrow> heap \<Rightarrow> (hashtable \<times> heap) res" where
  "ht_free_buckets i 0 ht h = ret (ht, h)"
| "ht_free_buckets i (Suc n) ht h =
     (case ht_buckets ht i of
        None \<Rightarrow> undef
      | Some ns \<Rightarrow> ht_free_buckets (Suc i) n (ht\<lparr>ht_buckets := (ht_buckets ht)(i \<mapsto> [])\<rparr>) (ht_free_chain ns h))"

definition dest_hashtable :: "hashtable option \<Rightarrow> heap \<Rightarrow> (hashtable option \<times> heap) res" where
  "dest_hashtable hto h =
     (case hto of
        None \<Rightarrow> ret (None, h)
      | Some ht \<Rightarrow>
          rbind (ht_free_buckets 0 (ht_max_slots ht) ht h) (\<lambda>(ht', h'). ret (Some ht', free (ht_nodes ht') h')))"

text \<open>The hash, the lock, then \<open>hash->nodes[idx]\<close>; the lock is held in the result.\<close>

definition ht_enter :: "hashtable \<Rightarrow> cstring \<Rightarrow> (nat \<times> ht_node list) res" where
  "ht_enter ht key =
     rbind (ht_hash (Some key) (int MAX_TABLE_SIZE)) (\<lambda>idx.
       if ht_lock ht then deadlock
       else if idx < 0 then undef
       else case ht_buckets ht (nat idx) of None \<Rightarrow> undef | Some ns \<Rightarrow> ret (nat idx, ns))"

text \<open>The search loop: the position of the first node with the key.\<close>

fun ht_find :: "ht_node list \<Rightarrow> cstring \<Rightarrow> nat option res" where
  "ht_find [] key = ret None"
| "ht_find (n # ns) key =
     rbind (strcmp_array (ht_key n) key) (\<lambda>eq.
       if eq then ret (Some 0) else rbind (ht_find ns key) (\<lambda>r. ret (map_option Suc r)))"

definition put_kv_hashtable ::
  "hashtable option \<Rightarrow> cstring option \<Rightarrow> cstring option \<Rightarrow> heap \<Rightarrow> (int \<times> hashtable option \<times> heap) res" where
  "put_kv_hashtable hto ko vo h =
     (case (hto, ko, vo) of
        (Some ht, Some key, Some val) \<Rightarrow>
          rbind (ht_enter ht key) (\<lambda>(idx, ns).
            rbind (ht_find ns key) (\<lambda>found.
              case found of
                Some j \<Rightarrow> ret (1, Some (ht\<lparr>ht_lock := False\<rparr>), h)
              | None \<Rightarrow>
                  (case ht_create_node key val h of
                     (None, h') \<Rightarrow> undef
                   | (Some node, h') \<Rightarrow>
                       ret (0, Some (ht\<lparr>ht_buckets := (ht_buckets ht)(idx \<mapsto> node # ns), ht_count := ht_count ht + 1,
                                        ht_lock := False\<rparr>), h'))))
      | _ \<Rightarrow> ret (- 1, hto, h))"

text \<open>A pointer into a node is its address and the array it points to.\<close>

definition get_kv_hashtable ::
  "hashtable option \<Rightarrow> cstring option \<Rightarrow> ((addr \<times> byte list) option \<times> hashtable option) res" where
  "get_kv_hashtable hto ko =
     (case (hto, ko) of
        (Some ht, Some key) \<Rightarrow>
          rbind (ht_enter ht key) (\<lambda>(idx, ns).
            rbind (ht_find ns key) (\<lambda>found.
              ret (map_option (\<lambda>j. (ht_addr (ns ! j) + 128, ht_value (ns ! j))) found, Some (ht\<lparr>ht_lock := False\<rparr>))))
      | _ \<Rightarrow> ret (None, hto))"

definition count_kv_hashtable :: "hashtable option \<Rightarrow> int res" where
  "count_kv_hashtable hto = (case hto of None \<Rightarrow> undef | Some ht \<Rightarrow> ret (ht_count ht))"

text \<open>When the bucket is empty the function returns with the lock held.\<close>

definition delete_kv_hashtable ::
  "hashtable option \<Rightarrow> cstring option \<Rightarrow> heap \<Rightarrow> (int \<times> hashtable option \<times> heap) res" where
  "delete_kv_hashtable hto ko h =
     (case (hto, ko) of
        (Some ht, Some key) \<Rightarrow>
          rbind (ht_enter ht key) (\<lambda>(idx, ns).
            case ns of
              [] \<Rightarrow> ret (- 1, Some (ht\<lparr>ht_lock := True\<rparr>), h)
            | head # rest \<Rightarrow>
                rbind (strcmp_array (ht_key head) key) (\<lambda>eq.
                  if eq
                  then ret (0, Some (ht\<lparr>ht_buckets := (ht_buckets ht)(idx \<mapsto> rest), ht_count := ht_count ht - 1,
                                        ht_lock := False\<rparr>), free (ht_addr head) h)
                  else rbind (ht_find rest key) (\<lambda>found.
                    case found of
                      None \<Rightarrow> ret (- 1, Some (ht\<lparr>ht_lock := False\<rparr>), h)
                    | Some j \<Rightarrow>
                        ret (0, Some (ht\<lparr>ht_buckets := (ht_buckets ht)(idx \<mapsto> head # take j rest @ drop (Suc j) rest),
                                         ht_count := ht_count ht - 1, ht_lock := False\<rparr>), free (ht_addr (rest ! j)) h))))
      | _ \<Rightarrow> ret (- 2, hto, h))"

definition exist_kv_hashtable :: "hashtable option \<Rightarrow> cstring option \<Rightarrow> (int \<times> hashtable option) res" where
  "exist_kv_hashtable hto ko =
     rbind (get_kv_hashtable hto ko) (\<lambda>(val, hto'). ret (if val \<noteq> None then 1 else 0, hto'))"

section \<open>Arrays and strings\<close>

text \<open>The arrays that hold a string: they have a \<open>NUL\<close>.\<close>

lemma length_strncpy [simp]: "length (strncpy s n) = n"
  by (simp add: strncpy_def)

lemma strncpy_short:
  assumes "length s < n" and "is_cstr s"
  shows "str_at (strncpy s n) = s" and "0 \<in> set (strncpy s n)"
proof -
  have "strncpy s n = s @ 0 # replicate (n - length s - 1) 0"
    using assms(1) by (simp add: strncpy_def flip: replicate_Suc)
  then show "str_at (strncpy s n) = s" "0 \<in> set (strncpy s n)" using assms(2) by simp_all
qed

lemma strcmp_array_str: "0 \<in> set bs \<Longrightarrow> is_cstr k \<Longrightarrow> strcmp_array bs k = ret (str_at bs = k)"
proof (induction bs k rule: strcmp_array.induct)
  case (3 b bs k ks)
  then show ?case by (auto simp: str_at_def)
qed (auto simp: str_at_def)

lemma strcmp_array_long: "n \<le> length k \<Longrightarrow> strcmp_array (strncpy k n) k = undef"
proof -
  have "strcmp_array (take n ks) ks = undef" if "n \<le> length ks" for n ks
    using that by (induction ks arbitrary: n) (auto simp: take_Cons split: nat.splits)
  moreover assume "n \<le> length k"
  ultimately show ?thesis by (simp add: strncpy_def)
qed

section \<open>Invariant and abstraction\<close>

abbreviation nkey :: "ht_node \<Rightarrow> cstring" where
  "nkey n \<equiv> str_at (ht_key n)"

definition ht_chain_ok :: "nat \<Rightarrow> ht_node list \<Rightarrow> bool" where
  "ht_chain_ok i ns \<longleftrightarrow> (\<forall>n\<in>set ns. 0 \<in> set (ht_key n) \<and> hash_index (nkey n) = Some i) \<and> distinct (map nkey ns)"

definition ht_bucket :: "hashtable \<Rightarrow> nat \<Rightarrow> ht_node list" where
  "ht_bucket ht i = the (ht_buckets ht i)"

definition ht_ok :: "hashtable \<Rightarrow> bool" where
  "ht_ok ht \<longleftrightarrow> \<not> ht_lock ht \<and> ht_max_slots ht = MAX_TABLE_SIZE \<and>
     (\<forall>i<MAX_TABLE_SIZE. ht_buckets ht i \<noteq> None \<and> ht_chain_ok i (ht_bucket ht i)) \<and>
     ht_count ht = (\<Sum>i<MAX_TABLE_SIZE. int (length (ht_bucket ht i)))"

definition ht_entries :: "ht_node list \<Rightarrow> (cstring \<times> cstring) list" where
  "ht_entries ns = map (\<lambda>n. (nkey n, str_at (ht_value n))) ns"

definition ht_abs :: "hashtable \<Rightarrow> cstring \<rightharpoonup> cstring" where
  "ht_abs ht k = (case hash_index k of None \<Rightarrow> None | Some i \<Rightarrow> map_of (ht_entries (ht_bucket ht i)) k)"

text \<open>The keys the table can store: their hash is defined and not negative.\<close>

abbreviation ht_usable :: "cstring \<Rightarrow> bool" where
  "ht_usable k \<equiv> is_cstr k \<and> hash_index k \<noteq> None"

lemma ht_hash_eq: "ht_hash = hash"
  by (simp add: ht_hash_def hash_def fun_eq_iff)

lemma ht_enter_eq:
  assumes "ht_ok ht" and "hash_index k = Some i"
  shows "ht_enter ht k = ret (i, ht_bucket ht i)"
proof -
  obtain idx where "hash (Some k) (int MAX_TABLE_SIZE) = ret idx" "\<not> idx < 0" "i = nat idx"
    using assms(2) by (auto simp: hash_index_def split: sum.splits if_splits)
  moreover have "ht_buckets ht i = Some (ht_bucket ht i)" "\<not> ht_lock ht"
    using assms(1) hash_index_bound [OF assms(2)] by (auto simp: ht_ok_def ht_bucket_def)
  ultimately show ?thesis by (simp add: ht_enter_def ht_hash_eq)
qed

lemma ht_locked:
  assumes "ht_lock ht" and "hash_index k = Some i"
  shows "ht_enter ht k = deadlock"
  using assms by (auto simp: ht_enter_def ht_hash_eq hash_index_def split: sum.splits if_splits)

lemma ht_find_eq:
  assumes "ht_chain_ok i ns" and "is_cstr k"
  shows "(\<exists>j<length ns. ht_find ns k = ret (Some j) \<and> nkey (ns ! j) = k \<and> map_of (ht_entries ns) k = Some (str_at (ht_value (ns ! j)))) \<or>
         ht_find ns k = ret None \<and> map_of (ht_entries ns) k = None \<and> k \<notin> nkey ` set ns"
  using assms(1)
proof (induction ns)
  case (Cons n ns)
  then have "ht_chain_ok i ns" "0 \<in> set (ht_key n)" by (auto simp: ht_chain_ok_def)
  with Cons.IH strcmp_array_str [OF _ assms(2)] show ?case by (auto simp: ht_entries_def)
qed (simp add: ht_entries_def)

lemma ht_findE:
  assumes "ht_chain_ok i ns" and "is_cstr k"
  obtains (found) j where "j < length ns" and "ht_find ns k = ret (Some j)" and "nkey (ns ! j) = k"
      and "map_of (ht_entries ns) k = Some (str_at (ht_value (ns ! j)))"
  | (absent) "ht_find ns k = ret None" and "map_of (ht_entries ns) k = None" and "k \<notin> nkey ` set ns"
  using ht_find_eq [OF assms] by (elim disjE exE conjE) (auto intro: that)

lemma ht_okD:
  assumes "ht_ok ht" and "hash_index k = Some i"
  shows "ht_chain_ok i (ht_bucket ht i)" and "i < MAX_TABLE_SIZE"
  using assms hash_index_bound [OF assms(2)] by (auto simp: ht_ok_def)

text \<open>Replacing one bucket.\<close>

lemma ht_update:
  assumes ok: "ht_ok ht" and i: "i < MAX_TABLE_SIZE" and ns: "ht_chain_ok i ns"
    and ht': "ht' = ht\<lparr>ht_buckets := (ht_buckets ht)(i \<mapsto> ns), ht_count := ht_count ht + int (length ns) - int (length (ht_bucket ht i)), ht_lock := False\<rparr>"
  shows "ht_ok ht'" and "ht_abs ht' k = (if hash_index k = Some i then map_of (ht_entries ns) k else ht_abs ht k)"
proof -
  have b: "ht_bucket ht' j = (if j = i then ns else ht_bucket ht j)" for j by (simp add: ht' ht_bucket_def)
  have "(\<Sum>j<MAX_TABLE_SIZE. int (length (ht_bucket ht' j))) =
      int (length ns) + (\<Sum>j\<in>{..<MAX_TABLE_SIZE} - {i}. int (length (ht_bucket ht j)))"
    using i by (subst sum.remove [of _ i]) (auto simp: b)
  also have "\<dots> = (\<Sum>j<MAX_TABLE_SIZE. int (length (ht_bucket ht j))) + int (length ns) - int (length (ht_bucket ht i))"
    using i by (subst (2) sum.remove [of _ i]) auto
  finally show "ht_ok ht'" using ok ns by (auto simp: ht_ok_def b) (auto simp: ht')
  show "ht_abs ht' k = (if hash_index k = Some i then map_of (ht_entries ns) k else ht_abs ht k)"
    by (auto simp: ht_abs_def b split: option.splits)
qed

lemma ht_unlocked [simp]: "ht_ok ht \<Longrightarrow> ht\<lparr>ht_lock := False\<rparr> = ht"
  by (cases ht) (simp add: ht_ok_def)

lemma ht_abs_lock: "ht_abs (ht\<lparr>ht_lock := b\<rparr>) = ht_abs ht"
  by (auto simp: ht_abs_def ht_bucket_def fun_eq_iff split: option.splits)

section \<open>Every operation\<close>

lemma put_kv_ok:
  assumes ok: "ht_ok ht" and k: "ht_usable k" "length k < MAX_KEY_LEN" and v: "is_cstr v" "length v < MAX_VALUE_LEN"
    and m: "fst (malloc 648 h) \<noteq> 0"
  shows "\<exists>ht' h'. put_kv_hashtable (Some ht) (Some k) (Some v) h = ret (if ht_abs ht k = None then 0 else 1, Some ht', h') \<and> ht_ok ht' \<and>
    ht_abs ht' = (if ht_abs ht k = None then (ht_abs ht)(k \<mapsto> v) else ht_abs ht)"
proof -
  obtain i where i: "hash_index k = Some i" using k(1) by auto
  note ib = ht_okD [OF ok i]
  have abs: "ht_abs ht k = map_of (ht_entries (ht_bucket ht i)) k" by (simp add: ht_abs_def i)
  have enter: "ht_enter ht k = ret (i, ht_bucket ht i)" by (rule ht_enter_eq [OF ok i])
  from ib(1) have "is_cstr k" using k(1) by simp
  show ?thesis
  proof (rule ht_findE [OF ib(1) \<open>is_cstr k\<close>])
    fix j assume "ht_find (ht_bucket ht i) k = ret (Some j)" "map_of (ht_entries (ht_bucket ht i)) k = Some (str_at (ht_value (ht_bucket ht i ! j)))"
    then show ?thesis using ok enter abs by (simp add: put_kv_hashtable_def)
  next
    assume miss: "ht_find (ht_bucket ht i) k = ret None" "map_of (ht_entries (ht_bucket ht i)) k = None" "k \<notin> nkey ` set (ht_bucket ht i)"
    obtain p h' where p: "malloc 648 h = (p, h')" "p \<noteq> 0" using m by (cases "malloc 648 h") auto
    let ?n = "\<lparr>ht_addr = p, ht_key = strncpy k MAX_KEY_LEN, ht_value = strncpy v MAX_VALUE_LEN\<rparr>"
    define ht' where "ht' = ht\<lparr>ht_buckets := (ht_buckets ht)(i \<mapsto> ?n # ht_bucket ht i), ht_count := ht_count ht + 1, ht_lock := False\<rparr>"
    note kk = strncpy_short [OF k(2) \<open>is_cstr k\<close>] and vv = strncpy_short [OF v(2,1)]
    have run: "put_kv_hashtable (Some ht) (Some k) (Some v) h = ret (0, Some ht', h')"
      using enter miss(1) p by (simp add: put_kv_hashtable_def ht_create_node_def ht'_def)
    have chain: "ht_chain_ok i (?n # ht_bucket ht i)" using ib(1) kk miss(3) i by (auto simp: ht_chain_ok_def)
    have ht': "ht' = ht\<lparr>ht_buckets := (ht_buckets ht)(i \<mapsto> ?n # ht_bucket ht i),
        ht_count := ht_count ht + int (length (?n # ht_bucket ht i)) - int (length (ht_bucket ht i)), ht_lock := False\<rparr>"
      by (simp add: ht'_def)
    note up = ht_update [OF ok ib(2) chain ht']
    have "ht_abs ht' = (ht_abs ht)(k \<mapsto> v)"
    proof
      fix x show "ht_abs ht' x = ((ht_abs ht)(k \<mapsto> v)) x"
        unfolding up(2) using i kk(1) vv(1) by (auto simp: ht_abs_def ht_entries_def)
    qed
    with run up(1) abs miss(2) show ?thesis by auto
  qed
qed

lemma get_kv_hit:
  assumes ok: "ht_ok ht" and k: "ht_usable k" and v: "ht_abs ht k = Some v"
  shows "\<exists>a buf. get_kv_hashtable (Some ht) (Some k) = ret (Some (a, buf), Some ht) \<and> str_at buf = v"
proof -
  obtain i where i: "hash_index k = Some i" using k by auto
  from ht_okD [OF ok i] k show ?thesis
    by (elim ht_findE [of i _ k]) (use ok v i ht_enter_eq [OF ok i] in \<open>auto simp: get_kv_hashtable_def ht_abs_def\<close>)
qed

lemma get_kv_miss:
  assumes ok: "ht_ok ht" and k: "ht_usable k" and v: "ht_abs ht k = None"
  shows "get_kv_hashtable (Some ht) (Some k) = ret (None, Some ht)"
proof -
  obtain i where i: "hash_index k = Some i" using k by auto
  from ht_okD [OF ok i] k show ?thesis
    by (elim ht_findE [of i _ k]) (use ok v i ht_enter_eq [OF ok i] in \<open>auto simp: get_kv_hashtable_def ht_abs_def\<close>)
qed

text \<open>Unlinking a node of a chain.\<close>

lemma ht_chain_remove:
  assumes "ht_chain_ok i ns" and "j < length ns"
  shows "ht_chain_ok i (take j ns @ drop (Suc j) ns)"
    and "map_of (ht_entries (take j ns @ drop (Suc j) ns)) = (map_of (ht_entries ns))(nkey (ns ! j) := None)"
proof -
  have split: "ns = take j ns @ ns ! j # drop (Suc j) ns" using assms(2) by (rule id_take_nth_drop)
  then have d: "ht_chain_ok i (take j ns @ ns ! j # drop (Suc j) ns)" using assms(1) by simp
  then show "ht_chain_ok i (take j ns @ drop (Suc j) ns)" by (auto simp: ht_chain_ok_def)
  have "map_of (ht_entries (take j ns @ drop (Suc j) ns)) =
      (map_of (ht_entries (take j ns @ ns ! j # drop (Suc j) ns)))(nkey (ns ! j) := None)"
    unfolding ht_entries_def map_append list.map
    by (rule map_of_delete_mid) (use d in \<open>auto simp: ht_chain_ok_def rev_image_eqI\<close>)
  then show "map_of (ht_entries (take j ns @ drop (Suc j) ns)) = (map_of (ht_entries ns))(nkey (ns ! j) := None)"
    by (simp only: split [symmetric])
qed

text \<open>The two loops of a deletion, at the head and behind it, do what one search would do.\<close>

lemma delete_kv_found:
  assumes "ht_enter ht k = ret (i, ns)" and "ht_find ns k = ret (Some j)"
  shows "delete_kv_hashtable (Some ht) (Some k) h =
    ret (0, Some (ht\<lparr>ht_buckets := (ht_buckets ht)(i \<mapsto> take j ns @ drop (Suc j) ns), ht_count := ht_count ht - 1,
                    ht_lock := False\<rparr>), free (ht_addr (ns ! j)) h)"
proof (cases ns)
  case (Cons n rest)
  with assms(2) obtain eq where "strcmp_array (ht_key n) k = ret eq" by auto
  with Cons assms show ?thesis by (cases eq) (auto simp: delete_kv_hashtable_def)
qed (use assms in simp)

lemma delete_kv_absent:
  assumes "ht_enter ht k = ret (i, ns)" and "ht_find ns k = ret None"
  shows "delete_kv_hashtable (Some ht) (Some k) h = ret (- 1, Some (ht\<lparr>ht_lock := (ns = [])\<rparr>), h)"
proof (cases ns)
  case (Cons n rest)
  with assms(2) obtain eq where "strcmp_array (ht_key n) k = ret eq" by auto
  with Cons assms show ?thesis by (cases eq) (auto simp: delete_kv_hashtable_def)
qed (use assms in \<open>simp add: delete_kv_hashtable_def\<close>)

lemma delete_kv_hit:
  assumes ok: "ht_ok ht" and k: "ht_usable k" and v: "ht_abs ht k = Some v"
  shows "\<exists>ht' h'. delete_kv_hashtable (Some ht) (Some k) h = ret (0, Some ht', h') \<and> ht_ok ht' \<and>
    ht_abs ht' = (ht_abs ht)(k := None) \<and> ht_count ht' = ht_count ht - 1"
proof -
  obtain i where i: "hash_index k = Some i" using k by auto
  note ib = ht_okD [OF ok i]
  have abs: "ht_abs ht k = map_of (ht_entries (ht_bucket ht i)) k" by (simp add: ht_abs_def i)
  obtain j where j: "j < length (ht_bucket ht i)" "ht_find (ht_bucket ht i) k = ret (Some j)" "nkey (ht_bucket ht i ! j) = k"
    using ht_findE [OF ib(1), of k] k v abs by (metis option.distinct(1))
  let ?ns = "take j (ht_bucket ht i) @ drop (Suc j) (ht_bucket ht i)"
  define ht' where "ht' = ht\<lparr>ht_buckets := (ht_buckets ht)(i \<mapsto> ?ns), ht_count := ht_count ht - 1, ht_lock := False\<rparr>"
  have run: "delete_kv_hashtable (Some ht) (Some k) h = ret (0, Some ht', free (ht_addr (ht_bucket ht i ! j)) h)"
    using delete_kv_found [OF ht_enter_eq [OF ok i] j(2)] by (simp add: ht'_def)
  note rem = ht_chain_remove [OF ib(1) j(1)]
  have ht': "ht' = ht\<lparr>ht_buckets := (ht_buckets ht)(i \<mapsto> ?ns),
      ht_count := ht_count ht + int (length ?ns) - int (length (ht_bucket ht i)), ht_lock := False\<rparr>"
    using j(1) by (simp add: ht'_def)
  note up = ht_update [OF ok ib(2) rem(1) ht']
  have "ht_abs ht' = (ht_abs ht)(k := None)"
  proof
    fix x show "ht_abs ht' x = ((ht_abs ht)(k := None)) x"
      unfolding up(2) rem(2) using i j(3) by (auto simp: ht_abs_def)
  qed
  with run up(1) show ?thesis by (auto simp: ht'_def)
qed

lemma delete_kv_miss:
  assumes ok: "ht_ok ht" and k: "ht_usable k" and v: "ht_abs ht k = None" and i: "hash_index k = Some i"
  shows "delete_kv_hashtable (Some ht) (Some k) h = ret (- 1, Some (ht\<lparr>ht_lock := (ht_bucket ht i = [])\<rparr>), h)"
proof -
  have "ht_find (ht_bucket ht i) k = ret None"
    using ht_findE [OF ht_okD(1) [OF ok i], of k] k v i by (auto simp: ht_abs_def)
  then show ?thesis by (rule delete_kv_absent [OF ht_enter_eq [OF ok i]])
qed

text \<open>Nothing works any more on a table whose lock was not given back.\<close>

lemma ht_locked_ops:
  assumes "ht_lock ht" and "hash_index k = Some i"
  shows "put_kv_hashtable (Some ht) (Some k) (Some v) h = deadlock"
    and "get_kv_hashtable (Some ht) (Some k) = deadlock"
    and "exist_kv_hashtable (Some ht) (Some k) = deadlock"
    and "delete_kv_hashtable (Some ht) (Some k) h = deadlock"
  using ht_locked [OF assms]
  by (simp_all add: put_kv_hashtable_def get_kv_hashtable_def exist_kv_hashtable_def delete_kv_hashtable_def)

text \<open>Every operation compares with the first node of the bucket first.\<close>

lemma ht_broken_ops:
  assumes "ht_enter ht k = ret (i, n # ns)" and "strcmp_array (ht_key n) k = undef"
  shows "put_kv_hashtable (Some ht) (Some k) (Some v) h = undef" and "get_kv_hashtable (Some ht) (Some k) = undef"
    and "exist_kv_hashtable (Some ht) (Some k) = undef" and "delete_kv_hashtable (Some ht) (Some k) h = undef"
  using assms by (simp_all add: put_kv_hashtable_def get_kv_hashtable_def exist_kv_hashtable_def delete_kv_hashtable_def)

text \<open>The table meets the contract of a reader.\<close>

definition ht_get :: "hashtable \<Rightarrow> cstring \<Rightarrow> (cptr \<times> hashtable) res" where
  "ht_get ht k = rbind (get_kv_hashtable (Some ht) (Some k)) (\<lambda>(r, hto).
     ret (case r of None \<Rightarrow> CNull | Some (a, buf) \<Rightarrow> CStr a (str_at buf), the hto))"

interpretation ht_reader: kv_reader ht_ok ht_abs "\<lambda>k. ht_usable k" ht_get
proof
  fix ht k v assume "ht_ok ht" "ht_usable k" "ht_abs ht k = Some v"
  from get_kv_hit [OF this] show "\<exists>a. ht_get ht k = ret (CStr a v, ht)" by (auto simp: ht_get_def)
qed (simp add: ht_get_def get_kv_miss)

text \<open>
  Property C37. The table of \<^verbatim>\<open>hash.c\<close> stores and finds short strings. On a well-formed table, a key of less than 128 and a
  value of less than 512 characters are stored if the key is absent, the first value of a key wins,
  and a lookup then finds the value; the invariant holds again and the other keys keep their values.
\<close>

theorem put_get_kv_hashtable:
  assumes "ht_ok ht" and "is_cstr k" "hash_index k \<noteq> None" "length k < MAX_KEY_LEN" and "is_cstr v" "length v < MAX_VALUE_LEN"
    and "fst (malloc 648 h) \<noteq> 0"
  shows "\<exists>ht' h' a buf. put_kv_hashtable (Some ht) (Some k) (Some v) h = ret (if ht_abs ht k = None then 0 else 1, Some ht', h') \<and>
    ht_ok ht' \<and> ht_abs ht' = (if ht_abs ht k = None then (ht_abs ht)(k \<mapsto> v) else ht_abs ht) \<and>
    get_kv_hashtable (Some ht') (Some k) = ret (Some (a, buf), Some ht') \<and> str_at buf = the (ht_abs ht' k) \<and>
    exist_kv_hashtable (Some ht') (Some k) = ret (1, Some ht')"
proof -
  obtain ht' h' where p: "put_kv_hashtable (Some ht) (Some k) (Some v) h = ret (if ht_abs ht k = None then 0 else 1, Some ht', h')"
    "ht_ok ht'" "ht_abs ht' = (if ht_abs ht k = None then (ht_abs ht)(k \<mapsto> v) else ht_abs ht)"
    using put_kv_ok [of ht k v h] assms by blast
  then obtain w where w: "ht_abs ht' k = Some w" by (cases "ht_abs ht k") auto
  obtain a buf where "get_kv_hashtable (Some ht') (Some k) = ret (Some (a, buf), Some ht')" "str_at buf = w"
    using get_kv_hit [OF p(2) _ w] assms(2,3) by auto
  with p w show ?thesis by (auto simp: exist_kv_hashtable_def)
qed

section \<open>A table for the witnesses\<close>

definition demo_ht :: hashtable where
  "demo_ht = \<lparr>ht_nodes = 64, ht_buckets = (\<lambda>i. if i < MAX_TABLE_SIZE then Some [] else None),
     ht_max_slots = MAX_TABLE_SIZE, ht_count = 0, ht_lock = False\<rparr>"

lemma demo_ht_ok: "ht_ok demo_ht"
  by (simp add: demo_ht_def ht_ok_def ht_chain_ok_def ht_bucket_def)

lemma demo_ht_abs: "ht_abs demo_ht k = None"
  by (auto simp: ht_abs_def demo_ht_def ht_bucket_def ht_entries_def dest: hash_index_bound split: option.splits)

theorem put_get_kv_hashtable_witness:
  "\<exists>ht' h' a buf. put_kv_hashtable (Some demo_ht) (Some [97]) (Some [49]) demo_heap = ret (0, Some ht', h') \<and>
    get_kv_hashtable (Some ht') (Some [97]) = ret (Some (a, buf), Some ht') \<and> str_at buf = [49]"
proof -
  have "hash_index [97] = Some 97" by code_simp
  moreover have "fst (malloc 648 demo_heap) \<noteq> 0" by code_simp
  ultimately show ?thesis
    using put_get_kv_hashtable [of demo_ht "[97]" "[49]" demo_heap]
    by (fastforce simp: demo_ht_ok demo_ht_abs MAX_KEY_LEN_def MAX_VALUE_LEN_def)
qed

text \<open>
  Property C38. What a deletion does to the table of \<^verbatim>\<open>hash.c\<close>. A key that is present is removed, the result is
  0 and the count is one less. A key that is absent leaves the contents as they are and the result is \<open>-1\<close>; but if its
  bucket is empty, the function returns with the mutex held, and every later operation on any usable key blocks for
  ever.
\<close>

theorem delete_kv_hashtable_effect:
  assumes "ht_ok ht" and "is_cstr k" and "hash_index k = Some i"
  shows "\<exists>r ht' h'. delete_kv_hashtable (Some ht) (Some k) h = ret (r, Some ht', h') \<and>
    ht_abs ht' = (ht_abs ht)(k := None) \<and>
    (if ht_abs ht k \<noteq> None then r = 0 \<and> ht_ok ht' \<and> ht_count ht' = ht_count ht - 1
     else r = - 1 \<and> ht_count ht' = ht_count ht \<and>
       (if ht_bucket ht i \<noteq> [] then ht' = ht
        else \<forall>k' v i' h''. hash_index k' = Some i' \<longrightarrow>
          put_kv_hashtable (Some ht') (Some k') (Some v) h'' = deadlock \<and> get_kv_hashtable (Some ht') (Some k') = deadlock \<and>
          delete_kv_hashtable (Some ht') (Some k') h'' = deadlock))"
proof (cases "ht_abs ht k")
  case (Some v)
  with delete_kv_hit [OF assms(1) _ Some, of h] assms(2,3) show ?thesis by auto
next
  case None
  let ?ht = "ht\<lparr>ht_lock := (ht_bucket ht i = [])\<rparr>"
  have "delete_kv_hashtable (Some ht) (Some k) h = ret (- 1, Some ?ht, h)"
    using delete_kv_miss [OF assms(1) _ None assms(3)] assms(2,3) by simp
  moreover have "ht_abs ?ht = (ht_abs ht)(k := None)" using None by (auto simp: ht_abs_lock)
  ultimately show ?thesis using None ht_locked_ops [of ?ht] ht_unlocked [OF assms(1)] by auto
qed

theorem delete_kv_hashtable_effect_witness:
  "\<exists>ht' h'. delete_kv_hashtable (Some demo_ht) (Some [97]) demo_heap = ret (- 1, Some ht', h') \<and>
    get_kv_hashtable (Some ht') (Some [98]) = deadlock"
proof -
  have "hash_index [97] = Some 97" "hash_index [98] = Some 98" by code_simp+
  moreover have "ht_bucket demo_ht 97 = []" by code_simp
  ultimately show ?thesis
    using delete_kv_hashtable_effect [of demo_ht "[97]" 97 demo_heap] by (auto simp: demo_ht_ok demo_ht_abs)
qed

text \<open>
  Long keys break their bucket. A key of 128 or more characters is stored in an empty bucket without a
  terminating \<open>NUL\<close>, and the insertion succeeds; from then on looking it up, storing it again or deleting it
  reads behind the end of the array.
\<close>

theorem put_kv_hashtable_long_key:
  assumes "ht_ok ht" and "hash_index k = Some i" and "ht_bucket ht i = []" and "MAX_KEY_LEN \<le> length k"
    and "fst (malloc 648 h) \<noteq> 0"
  shows "\<exists>ht' h'. put_kv_hashtable (Some ht) (Some k) (Some v) h = ret (0, Some ht', h') \<and>
    get_kv_hashtable (Some ht') (Some k) = undef \<and> exist_kv_hashtable (Some ht') (Some k) = undef \<and>
    put_kv_hashtable (Some ht') (Some k) (Some v) h' = undef \<and> delete_kv_hashtable (Some ht') (Some k) h' = undef"
proof -
  obtain p h' where p: "malloc 648 h = (p, h')" "p \<noteq> 0" using assms(5) by (cases "malloc 648 h") auto
  let ?n = "\<lparr>ht_addr = p, ht_key = strncpy k MAX_KEY_LEN, ht_value = strncpy v MAX_VALUE_LEN\<rparr>"
  define ht' where "ht' = ht\<lparr>ht_buckets := (ht_buckets ht)(i \<mapsto> [?n]), ht_count := ht_count ht + 1, ht_lock := False\<rparr>"
  have enter: "ht_enter ht k = ret (i, [])" using ht_enter_eq [OF assms(1,2)] assms(3) by simp
  then have "put_kv_hashtable (Some ht) (Some k) (Some v) h = ret (0, Some ht', h')"
    using p by (simp add: put_kv_hashtable_def ht_create_node_def ht'_def)
  moreover have "ht_enter ht' k = ret (i, [?n])"
    using assms(2) by (auto simp: ht_enter_def ht_hash_eq hash_index_def ht'_def split: sum.splits if_splits)
  ultimately show ?thesis using ht_broken_ops [of ht' k i ?n "[]"] strcmp_array_long [OF assms(4)] by auto
qed

theorem put_kv_hashtable_long_key_witness:
  "\<exists>ht' h'. put_kv_hashtable (Some demo_ht) (Some (replicate 128 97)) (Some [49]) demo_heap = ret (0, Some ht', h') \<and>
    get_kv_hashtable (Some ht') (Some (replicate 128 97)) = undef"
proof -
  have "hash_index (replicate 128 97) = Some 128" by code_simp
  moreover have "ht_bucket demo_ht 128 = []" "fst (malloc 648 demo_heap) \<noteq> 0" by code_simp+
  ultimately show ?thesis
    using put_kv_hashtable_long_key [of demo_ht "replicate 128 97" 128 demo_heap "[49]"]
    by (auto simp: demo_ht_ok MAX_KEY_LEN_def)
qed

text \<open>A node that cannot be allocated is not checked for.\<close>

lemma put_kv_oom:
  assumes "ht_ok ht" and "ht_usable k" and "ht_abs ht k = None" and "fst (malloc 648 h) = 0"
  shows "put_kv_hashtable (Some ht) (Some k) (Some v) h = undef"
proof -
  obtain i where i: "hash_index k = Some i" using assms(2) by auto
  have "ht_find (ht_bucket ht i) k = ret None"
    using ht_findE [OF ht_okD(1) [OF assms(1) i], of k] assms(2,3) i by (auto simp: ht_abs_def)
  with ht_enter_eq [OF assms(1) i] assms(4) show ?thesis
    by (cases "malloc 648 h") (simp add: put_kv_hashtable_def ht_create_node_def)
qed

text \<open>Destroying a table that was cleared frees every bucket.\<close>

lemma ht_free_buckets_ok:
  assumes "\<And>j. i \<le> j \<Longrightarrow> j < i + n \<Longrightarrow> ht_buckets ht j \<noteq> None"
  shows "\<exists>ht' h'. ht_free_buckets i n ht h = ret (ht', h') \<and> ht_nodes ht' = ht_nodes ht \<and>
    (\<forall>j. ht_buckets ht' j = (if i \<le> j \<and> j < i + n then Some [] else ht_buckets ht j))"
  using assms
proof (induction n arbitrary: i ht h)
  case (Suc n)
  obtain ns where ns: "ht_buckets ht i = Some ns" using Suc.prems [of i] by auto
  let ?ht = "ht\<lparr>ht_buckets := (ht_buckets ht)(i \<mapsto> [])\<rparr>"
  have "ht_buckets ?ht j \<noteq> None" if "Suc i \<le> j" "j < Suc i + n" for j using Suc.prems [of j] that by auto
  from Suc.IH [of "Suc i" ?ht "ht_free_chain ns h"] this show ?case using ns by auto
qed auto

lemma dest_hashtable_ok:
  assumes "ht_ok ht"
  shows "\<exists>ht' h'. dest_hashtable (Some ht) h = ret (Some ht', h') \<and> (\<forall>i<MAX_TABLE_SIZE. ht_bucket ht' i = [])"
  using ht_free_buckets_ok [of 0 "ht_max_slots ht" ht h] assms
  by (auto simp: dest_hashtable_def ht_ok_def ht_bucket_def)

end
