(* ===== verification/Test_Client.thy ===== *)
theory Test_Client
  imports Ntyco Hash_Inline
begin

text \<open>
  The test client of the repository, \<^verbatim>\<open>src/testcase.c\<close>: it sends commands as text and compares each answer with a
  pattern. The other end of the connection is an argument, \<open>answer\<close>: what it answers to a message, as the
  segments in which the answer arrives, and its next state. Two other ends follow below: the server of
  \<open>Ntyco\<close>, and a store that speaks the text protocol the client was written for.
\<close>

section \<open>The code\<close>

definition MAX_MSG_LENGTH :: nat where
  "MAX_MSG_LENGTH = 1024"

text \<open>
  One end of a connection. \<open>t_inbox\<close> holds the segments that have arrived; an empty segment is the end
  of the stream or an error, for which \<open>recv\<close> returns zero or less; with no segment it blocks.
\<close>

record 's tester =
  t_peer :: 's
  t_inbox :: "byte list list"

definition recv_bytes :: "nat \<Rightarrow> byte list list \<Rightarrow> (byte list \<times> byte list list) res" where
  "recv_bytes n ss =
     (case ss of
        [] \<Rightarrow> deadlock
      | seg # rest \<Rightarrow>
          ret (take n seg, if seg = [] then ss else if length seg \<le> n then rest else drop n seg # rest))"

definition send_msg :: "(byte list \<Rightarrow> 's \<Rightarrow> byte list list \<times> 's) \<Rightarrow> byte list \<Rightarrow> 's tester \<Rightarrow> 's tester" where
  "send_msg answer msg c =
     (let (segs, s) = answer msg (t_peer c) in c\<lparr>t_peer := s, t_inbox := t_inbox c @ segs\<rparr>)"

text \<open>\<open>strstr\<close> for the end of a line; reading behind the end of the array is undefined.\<close>

fun strstr_crlf :: "byte list \<Rightarrow> bool res" where
  "strstr_crlf [] = undef"
| "strstr_crlf (b # bs) =
     (if b = 0 then ret False
      else case bs of [] \<Rightarrow> undef | c # _ \<Rightarrow> if b = 13 \<and> c = 10 then ret True else strstr_crlf bs)"

function recv_msg :: "nat \<Rightarrow> nat \<Rightarrow> byte list \<Rightarrow> byte list list \<Rightarrow> (int \<times> byte list \<times> byte list list) res" where
  "recv_msg len got msg ss =
     (if got < len
      then case recv_bytes (len - got) ss of
             Inl f \<Rightarrow> Inl f
           | Inr (bs, ss') \<Rightarrow>
               if bs = [] then ret (- 1, msg, ss')
               else let msg' = take got msg @ bs @ drop (got + length bs) msg
                    in case strstr_crlf msg' of
                         Inl f \<Rightarrow> Inl f
                       | Inr found \<Rightarrow>
                           if found then ret (int (got + length bs), msg', ss')
                           else recv_msg len (got + length bs) msg' ss'
      else ret (int got, msg, ss))"
  by pat_completeness auto

termination
  by (relation "measure (\<lambda>(len, got, msg, ss). len - got)") (auto simp flip: length_greater_0_conv)

declare recv_msg.simps [simp del]

text \<open>\<open>False\<close>: the thread ends with \<open>pthread_exit((void *)1)\<close>.\<close>

definition testcase ::
  "(byte list \<Rightarrow> 's \<Rightarrow> byte list list \<times> 's) \<Rightarrow> cstring option \<Rightarrow> cstring option \<Rightarrow> cstring option \<Rightarrow> 's tester \<Rightarrow>
   (bool \<times> 's tester) res" where
  "testcase answer mo po no c =
     (case (mo, po, no) of
        (Some msg, Some pattern, Some casename) \<Rightarrow>
          let c1 = send_msg answer msg c
          in rbind (recv_msg MAX_MSG_LENGTH 0 (replicate MAX_MSG_LENGTH 0) (t_inbox c1)) (\<lambda>(n, result, ss).
               let c2 = c1\<lparr>t_inbox := ss\<rparr>
               in if n < 0 then ret (False, c2)
                  else rbind (strcmp_array result pattern) (\<lambda>eq. ret (eq, c2)))
      | _ \<Rightarrow> ret (True, c))"

text \<open>The calls of a loop body, one after the other, and a loop that counts.\<close>

fun run_cases ::
  "(byte list \<Rightarrow> 's \<Rightarrow> byte list list \<times> 's) \<Rightarrow> (cstring \<times> cstring \<times> cstring) list \<Rightarrow> 's tester \<Rightarrow> (bool \<times> 's tester) res" where
  "run_cases answer [] c = ret (True, c)"
| "run_cases answer ((m, p, n) # cs) c =
     rbind (testcase answer (Some m) (Some p) (Some n) c) (\<lambda>(ok, c').
       if ok then run_cases answer cs c' else ret (False, c'))"

fun for_loop :: "(nat \<Rightarrow> 's tester \<Rightarrow> (bool \<times> 's tester) res) \<Rightarrow> nat \<Rightarrow> nat \<Rightarrow> 's tester \<Rightarrow> (bool \<times> 's tester) res" where
  "for_loop body i 0 c = ret (True, c)"
| "for_loop body i (Suc n) c =
     rbind (body i c) (\<lambda>(ok, c'). if ok then for_loop body (Suc i) n c' else ret (False, c'))"

text \<open>The macro \<open>TIME_SUB_MS\<close>, and the line printed at the end: its quotient is undefined for 0 ms.\<close>

definition c_quot :: "int \<Rightarrow> int \<Rightarrow> int" where
  "c_quot a b = sgn a * sgn b * (\<bar>a\<bar> div \<bar>b\<bar>)"

definition TIME_SUB_MS :: "int \<times> int \<Rightarrow> int \<times> int \<Rightarrow> int" where
  "TIME_SUB_MS tv1 tv2 = (fst tv1 - fst tv2) * 1000 + c_quot (snd tv1 - snd tv2) 1000"

definition report_qps :: "int \<Rightarrow> (int \<times> int) \<times> (int \<times> int) \<Rightarrow> int res" where
  "report_qps n tv =
     (let time_used = to_int32 (TIME_SUB_MS (snd tv) (fst tv))
      in if time_used = 0 then undef else ret (c_quot (n * 1000) time_used))"

definition timed ::
  "int \<Rightarrow> (int \<times> int) \<times> (int \<times> int) \<Rightarrow> (bool \<times> 's tester) res \<Rightarrow> (bool \<times> 's tester) res" where
  "timed n tv m =
     rbind m (\<lambda>(ok, c). if ok then rbind (report_qps n tv) (\<lambda>qps. ret (True, c)) else ret (False, c))"

abbreviation line :: "string \<Rightarrow> cstring" where
  "line s \<equiv> lit s @ [13, 10]"

definition array_cases :: "(cstring \<times> cstring \<times> cstring) list" where
  "array_cases =
     [(lit ''SET Teacher King'', line ''OK'', lit ''SET-Teacher''),
      (lit ''GET Teacher'', line ''King'', lit ''GET-Teacher''),
      (lit ''MOD Teacher Darren'', line ''OK'', lit ''MOD-Teacher''),
      (lit ''GET Teacher'', line ''Darren'', lit ''GET-Teacher''),
      (lit ''EXIST Teacher'', line ''EXIST'', lit ''EXIST-Teacher'')]"

definition array_testcase_1w where
  "array_testcase_1w answer tv c = timed 90000 tv (for_loop (\<lambda>i. run_cases answer array_cases) 0 10000 c)"

definition rbtree_cases :: "(cstring \<times> cstring \<times> cstring) list" where
  "rbtree_cases =
     [(lit ''RSET Teacher King'', line ''OK'', lit ''RSET-Teacher''),
      (lit ''RGET Teacher'', line ''King'', lit ''RGET-Teacher''),
      (lit ''RMOD Teacher Darren'', line ''OK'', lit ''RMOD-Teacher''),
      (lit ''RGET Teacher'', line ''Darren'', lit ''RGET-Teacher''),
      (lit ''REXIST Teacher'', line ''EXIST'', lit ''REXIST-Teacher''),
      (lit ''RDEL Teacher'', line ''OK'', lit ''RDEL-Teacher''),
      (lit ''RGET Teacher'', line ''NO EXIST'', lit ''RGET-Teacher''),
      (lit ''RMOD Teacher KING'', line ''NO EXIST'', lit ''RMOD-Teacher''),
      (lit ''REXIST Teacher'', line ''NO EXIST'', lit ''REXIST-Teacher'')]"

definition rbtree_testcase_1w where
  "rbtree_testcase_1w answer tv c = timed 90000 tv (for_loop (\<lambda>i. run_cases answer rbtree_cases) 0 10000 c)"

text \<open>\<open>snprintf\<close> into an array of \<open>n\<close> bytes.\<close>

definition snprintf :: "nat \<Rightarrow> cstring \<Rightarrow> cstring" where
  "snprintf n s = take (n - 1) s"

definition set_numbered where
  "set_numbered answer cmd name i c =
     testcase answer (Some (snprintf 128 (cmd @ lit '' Teacher'' @ nat_digits i @ lit '' King'' @ nat_digits i)))
       (Some (line ''OK'')) (Some name) c"

definition get_numbered where
  "get_numbered answer cmd name i c =
     testcase answer (Some (snprintf 128 (cmd @ lit '' Teacher'' @ nat_digits i)))
       (Some (snprintf 128 (lit ''King'' @ nat_digits i @ [13, 10]))) (Some name) c"

definition rbtree_testcase_3w where
  "rbtree_testcase_3w answer tv c =
     timed 100000 tv
       (rbind (for_loop (set_numbered answer (lit ''RSET'') (lit ''RSET-Teacher'')) 0 50000 c) (\<lambda>(ok, c').
          if ok then for_loop (get_numbered answer (lit ''RGET'') (lit ''RGET-Teacher'')) 0 50000 c' else ret (False, c')))"

definition hash_cases :: "(cstring \<times> cstring \<times> cstring) list" where
  "hash_cases =
     [(lit ''HSET Teacher King'', line ''OK'', lit ''HSET-Teacher''),
      (lit ''HGET Teacher'', line ''King'', lit ''HGET-King-Teacher''),
      (lit ''HMOD Teacher Darren'', line ''OK'', lit ''HMOD-D-Teacher''),
      (lit ''HGET Teacher'', line ''Darren'', lit ''HGET-Darren-Teacher''),
      (lit ''HEXIST Teacher'', line ''EXIST'', lit ''HEXIST-Teacher''),
      (lit ''HDEL Teacher'', line ''OK'', lit ''HDEL-Teacher''),
      (lit ''HGET Teacher'', line ''NO EXIST'', lit ''HGET-K-Teacher''),
      (lit ''HMOD Teacher KING'', line ''NO EXIST'', lit ''HMOD-K-Teacher''),
      (lit ''HEXIST Teacher'', line ''NO EXIST'', lit ''HEXIST-Teacher'')]"

definition hash_testcase_1w where
  "hash_testcase_1w answer tv c = timed 90000 tv (for_loop (\<lambda>i. run_cases answer hash_cases) 0 10000 c)"

definition hash_testcase_3w where
  "hash_testcase_3w answer tv c =
     timed 100000 tv
       (rbind (for_loop (set_numbered answer (lit ''HSET'') (lit ''HSET-Teacher'')) 0 50000 c) (\<lambda>(ok, c').
          if ok then for_loop (get_numbered answer (lit ''HGET'') (lit ''HGET-King-Teacher'')) 0 50000 c' else ret (False, c')))"

text \<open>\<open>connected\<close> is what \<open>connect_tcpserver\<close> achieves; the result is what \<open>pthread_join\<close> sees.\<close>

definition thread_worker ::
  "(byte list \<Rightarrow> 's \<Rightarrow> byte list list \<times> 's) \<Rightarrow> bool \<Rightarrow> int \<Rightarrow> (int \<times> int) \<times> (int \<times> int) \<Rightarrow> 's tester \<Rightarrow> (int \<times> 's tester) res" where
  "thread_worker answer connected mode tv c =
     (if \<not> connected then ret (1, c)
      else rbind (if mode = 0 then rbtree_testcase_1w answer tv c
                  else if mode = 1 then rbtree_testcase_3w answer tv c
                  else if mode = 2 then array_testcase_1w answer tv c
                  else if mode = 3 then hash_testcase_1w answer tv c
                  else if mode = 4 then hash_testcase_3w answer tv c
                  else ret (True, c))
             (\<lambda>(ok, c'). ret (if ok then 0 else 1, c')))"

text \<open>The end of \<open>main\<close>: the threads are joined in the order in which they were started.\<close>

fun join_threads :: "int res list \<Rightarrow> int \<Rightarrow> int res" where
  "join_threads [] all_passed = ret all_passed"
| "join_threads (t # ts) all_passed = rbind t (\<lambda>retval. join_threads ts (if retval \<noteq> 0 then 0 else all_passed))"

definition client_main :: "nat \<Rightarrow> int res list \<Rightarrow> int res" where
  "client_main argc threads =
     (if argc \<noteq> 5 then ret (- 1)
      else rbind (join_threads threads 1) (\<lambda>all_passed. ret (if all_passed \<noteq> 0 then 0 else 1)))"

section \<open>One answer\<close>

lemma strstr_Cons: "b \<noteq> 0 \<Longrightarrow> \<not> (b = 13 \<and> c = 10) \<Longrightarrow> strstr_crlf (b # c # bs) = strstr_crlf (c # bs)"
  by (subst strstr_crlf.simps) auto

declare strstr_crlf.simps(2) [simp del]

lemma strstr_none: "is_cstr d \<Longrightarrow> 13 \<notin> set (butlast d) \<Longrightarrow> strstr_crlf (d @ 0 # zs) = ret False"
proof (induction d)
  case (Cons b d)
  then show ?case by (cases d) (auto simp: strstr_Cons strstr_crlf.simps(2))
qed (simp add: strstr_crlf.simps)

lemma strstr_some: "is_cstr t \<Longrightarrow> 13 \<notin> set t \<Longrightarrow> strstr_crlf (t @ 13 # 10 # zs) = ret True"
proof (induction t)
  case (Cons b t)
  then show ?case by (cases t) (auto simp: strstr_Cons)
qed (simp add: strstr_crlf.simps)

text \<open>A line is received whole, in whatever segments it arrives.\<close>

lemma recv_msg_line:
  assumes "is_cstr t" and "13 \<notin> set t" and "d @ concat segs = t @ [13, 10]" and "length t + 2 < n" and "[] \<notin> set segs" and "segs \<noteq> []"
  shows "recv_msg n (length d) (d @ replicate (n - length d) 0) segs =
    ret (int (length t + 2), t @ [13, 10] @ replicate (n - length t - 2) 0, [])"
  using assms(3,5,6)
proof (induction segs arbitrary: d)
  case (Cons bs segs)
  let ?d = "d @ bs"
  have bs: "bs \<noteq> []" "[] \<notin> set segs" using Cons.prems by auto
  have len: "length ?d + length (concat segs) = length t + 2" using arg_cong [OF Cons.prems(1), of length] by simp
  have recv: "recv_bytes (n - length d) (bs # segs) = ret (bs, segs)"
    using len assms(4) bs by (auto simp: recv_bytes_def)
  have buf: "take (length d) (d @ replicate (n - length d) 0) @ bs @ drop (length d + length bs) (d @ replicate (n - length d) 0) =
      ?d @ replicate (n - length ?d) 0" by simp
  have step: "recv_msg n (length d) (d @ replicate (n - length d) 0) (bs # segs) =
      (case strstr_crlf (?d @ replicate (n - length ?d) 0) of Inl f \<Rightarrow> Inl f
       | Inr found \<Rightarrow> if found then ret (int (length ?d), ?d @ replicate (n - length ?d) 0, segs)
           else recv_msg n (length ?d) (?d @ replicate (n - length ?d) 0) segs)"
    using len assms(4) bs(1) recv buf by (subst recv_msg.simps) (simp add: Let_def split: sum.splits)
  show ?case
  proof (cases "segs = []")
    case True
    then have d: "?d = t @ [13, 10]" using Cons.prems(1) by simp
    then have "strstr_crlf (?d @ replicate (n - length ?d) 0) = ret True" using strstr_some [OF assms(1,2)] by simp
    with step True d show ?thesis by simp
  next
    case False
    then obtain ys y where ys: "concat segs = ys @ [y]" using bs(2) by (cases "concat segs" rule: rev_cases) (auto simp: neq_Nil_conv)
    then have d: "?d @ ys = t @ [13]" using Cons.prems(1) by (simp add: append_eq_append_conv2 flip: append_assoc)
    then have "butlast (?d @ ys) = t" by simp
    then have "13 \<notin> set (butlast ?d)" using assms(2) by (auto simp: butlast_append split: if_splits dest: in_set_butlastD)
    moreover have "is_cstr ?d" using arg_cong [OF d, of is_cstr] assms(1) by simp
    moreover have "replicate (n - length ?d) 0 = 0 # replicate (n - length ?d - 1) (0 :: byte)"
      using len assms(4) ys by (simp flip: replicate_Suc)
    ultimately have "strstr_crlf (?d @ replicate (n - length ?d) 0) = ret False" using strstr_none [of ?d] by simp
    with step Cons.IH [of ?d] Cons.prems(1) bs(2) False show ?thesis by simp
  qed
qed simp

lemma testcase_line:
  assumes "answer m s = (segs, s')" and "concat segs = t @ [13, 10]" and "[] \<notin> set segs"
    and "is_cstr t" and "13 \<notin> set t" and "length t + 2 < MAX_MSG_LENGTH" and "is_cstr p"
  shows "testcase answer (Some m) (Some p) (Some nm) \<lparr>t_peer = s, t_inbox = []\<rparr> =
    ret (p = t @ [13, 10], \<lparr>t_peer = s', t_inbox = []\<rparr>)"
proof -
  let ?buf = "t @ [13, 10] @ replicate (MAX_MSG_LENGTH - length t - 2) 0"
  have "segs \<noteq> []" using assms(2) by auto
  then have r: "recv_msg MAX_MSG_LENGTH 0 (replicate MAX_MSG_LENGTH 0) segs = ret (int (length t + 2), ?buf, [])"
    using recv_msg_line [OF assms(4,5) _ assms(6,3), of "[]"] assms(2) by simp
  have z: "replicate (MAX_MSG_LENGTH - length t - 2) 0 = 0 # replicate (MAX_MSG_LENGTH - length t - 3) (0 :: byte)"
    using assms(6) by (simp flip: replicate_Suc)
  have "str_at ?buf = t @ [13, 10]" using str_at_append_NUL [of "t @ [13, 10]"] assms(4) z by simp
  then have "strcmp_array ?buf p = ret (p = t @ [13, 10])"
    using strcmp_array_str [OF _ assms(7), of ?buf] assms(6) by (simp add: eq_commute [of p])
  with assms(1) r show ?thesis by (simp add: testcase_def send_msg_def)
qed

section \<open>The client and the server of the repository\<close>

text \<open>
  \<open>Ntyco\<close> at the other end: \<open>split\<close> is how a message is cut on its way to the server. A connection that the
  server closes, or a server that fails, is an empty segment for the client.
\<close>

definition ntyco_peer ::
  "libc \<Rightarrow> (byte list \<Rightarrow> byte list list) \<Rightarrow> byte list \<Rightarrow> reader \<times> kvs_engine \<Rightarrow> byte list list \<times> reader \<times> kvs_engine" where
  "ntyco_peer lc split msg s =
     (case read_chunks lc (split msg) (fst s) (snd s) of
        Inl f \<Rightarrow> ([[]], s)
      | Inr (r, out, e) \<Rightarrow> (out @ (if r_phase r = Closed then [[]] else []), r, e))"

text \<open>A way to cut a message, of any kind.\<close>

definition splitting :: "(byte list \<Rightarrow> byte list list) \<Rightarrow> bool" where
  "splitting split \<longleftrightarrow> (\<forall>bs. concat (split bs) = bs \<and> [] \<notin> set (split bs))"

lemma short_message_waits:
  assumes "received p r" and "[] \<notin> set bss" and "length (p @ concat bss) < 24"
  shows "\<exists>r'. read_chunks lc bss r e = ret (r', [], e) \<and> received (p @ concat bss) r'"
  using assms
proof (induction bss arbitrary: p r)
  case (Cons bs bss)
  let ?r = "reader_recv bs r"
  have bs: "bs \<noteq> []" and r: "reader_ok r" "r_phase r = Receiving" "r_len r = length p" "take (length p) (r_buffer r) = p"
    using Cons.prems by (auto simp: received_def)
  have recv: "?r = r\<lparr>r_buffer := take (r_len r) (r_buffer r) @ bs @ drop (r_len r + length bs) (r_buffer r),
      r_len := r_len r + length bs, r_phase := Parsing\<rparr>" using bs by (simp add: reader_recv_def)
  have ok: "reader_ok ?r" using r Cons.prems(3) by (intro reader_ok_recv) (auto simp: recv_room_def BUFFER_SIZE_def)
  have short: "r_len ?r < 24" using r Cons.prems(3) by (simp add: recv)
  have "reader_packet lc ?r e = ret (?r\<lparr>r_phase := Receiving\<rparr>, [], e)"
    using short by (simp add: reader_packet_def TCP_HEADER_SIZE_def)
  then have loop: "reader_loop lc ?r e = ret (?r\<lparr>r_phase := Receiving\<rparr>, [], e)" by (intro reader_loop_done) simp_all
  have "received (p @ bs) (?r\<lparr>r_phase := Receiving\<rparr>)"
    using ok short r by (auto simp: received_def reader_ok_def recv)
  from Cons.IH [OF this] Cons.prems loop r(2) show ?case by (auto simp: recv)
qed simp

lemma short_testcase_blocks:
  assumes "splitting split" and "length m < 24"
  shows "testcase (ntyco_peer lc split) (Some m) (Some p) (Some nm) \<lparr>t_peer = (new_reader fd, e), t_inbox = []\<rparr> = deadlock"
proof -
  obtain r where r: "read_chunks lc (split m) (new_reader fd) e = ret (r, [], e)" "received m r"
    using short_message_waits [OF received_new, of "split m" lc fd e] assms by (auto simp: splitting_def)
  then have "ntyco_peer lc split m (new_reader fd, e) = ([], r, e)" by (auto simp: ntyco_peer_def received_def)
  then show ?thesis by (subst testcase_def, simp add: send_msg_def recv_msg.simps [of MAX_MSG_LENGTH])
      (simp add: recv_bytes_def MAX_MSG_LENGTH_def)
qed

lemma for_loop_fault: "body i c = Inl f \<Longrightarrow> for_loop body i (Suc n) c = Inl f"
  by simp

text \<open>
  Property C39. The test client and the server do not speak the same protocol. In each of its five
  modes the first message is a line of text shorter than a packet header; however it is delivered, the
  server waits for the rest of a header and the client for an answer, for ever.
\<close>

theorem test_client_never_answered:
  assumes "splitting split" and "0 \<le> mode" and "mode \<le> 4"
  shows "thread_worker (ntyco_peer lc split) True mode tv \<lparr>t_peer = (new_reader fd, e), t_inbox = []\<rparr> = deadlock"
proof -
  let ?c = "\<lparr>t_peer = (new_reader fd, e), t_inbox = []\<rparr>" and ?a = "ntyco_peer lc split"
  note blocks = short_testcase_blocks [OF assms(1), of _ lc _ _ fd e]
  have cases: "run_cases ?a ((m, p, nm) # cs) ?c = deadlock" if "length m < 24" for m p nm cs using blocks [OF that] by simp
  have first: "run_cases ?a array_cases ?c = deadlock" "run_cases ?a rbtree_cases ?c = deadlock" "run_cases ?a hash_cases ?c = deadlock"
    unfolding array_cases_def rbtree_cases_def hash_cases_def by (rule cases, simp add: lit_def)+
  have numbered: "set_numbered ?a cmd nm 0 ?c = deadlock" if "length cmd = 4" for cmd nm
    unfolding set_numbered_def using that by (intro blocks) (simp add: snprintf_def lit_def nat_digits.simps)
  have loop: "for_loop body 0 n ?c = deadlock" if "body 0 ?c = deadlock" "0 < n" for body n
    using that for_loop_fault [of body 0 ?c] by (cases n) auto
  have "rbtree_testcase_1w ?a tv ?c = deadlock" "array_testcase_1w ?a tv ?c = deadlock" "hash_testcase_1w ?a tv ?c = deadlock"
    "rbtree_testcase_3w ?a tv ?c = deadlock" "hash_testcase_3w ?a tv ?c = deadlock"
    by (simp_all add: rbtree_testcase_1w_def array_testcase_1w_def hash_testcase_1w_def rbtree_testcase_3w_def
        hash_testcase_3w_def loop first numbered timed_def lit_def)
  moreover have "mode = 0 \<or> mode = 1 \<or> mode = 2 \<or> mode = 3 \<or> mode = 4" using assms(2,3) by arith
  ultimately show ?thesis by (auto simp: thread_worker_def)
qed

theorem test_client_never_answered_witness:
  "thread_worker (ntyco_peer demo_libc (map (\<lambda>b. [b]))) True 2 ((0, 0), (1, 0)) \<lparr>t_peer = (new_reader 5, demo_engine), t_inbox = []\<rparr> = deadlock"
proof -
  have "splitting (map (\<lambda>b. [b]))" by (auto simp: splitting_def)
  then show ?thesis using test_client_never_answered [of "map (\<lambda>b. [b])" 2] by simp
qed

section \<open>The client and a store that speaks its protocol\<close>

text \<open>
  The text protocol as the patterns of the client have it: a command, a key, perhaps a value,
  separated by blanks; the letter of the store in front of the command is left out, because no
  mode of the client uses two stores. A key is inserted only if it is absent, as by all stores of the server.
\<close>

definition word1 :: "cstring \<Rightarrow> cstring" where
  "word1 s = takeWhile (\<lambda>b. b \<noteq> 32) s"

definition rest1 :: "cstring \<Rightarrow> cstring" where
  "rest1 s = tl (dropWhile (\<lambda>b. b \<noteq> 32) s)"

definition text_command ::
  "cstring \<Rightarrow> cstring \<Rightarrow> cstring \<Rightarrow> (cstring \<rightharpoonup> cstring) \<Rightarrow> cstring \<times> (cstring \<rightharpoonup> cstring)" where
  "text_command c k v m =
     (let cmd = (if c \<noteq> [] \<and> (hd c = 72 \<or> hd c = 82) then tl c else c)
      in if cmd = lit ''SET'' then if m k = None then (lit ''OK'', m(k \<mapsto> v)) else (lit ''EXIST'', m)
         else if cmd = lit ''GET'' then (case m k of None \<Rightarrow> lit ''NO EXIST'' | Some w \<Rightarrow> w, m)
         else if cmd = lit ''MOD'' then if m k = None then (lit ''NO EXIST'', m) else (lit ''OK'', m(k \<mapsto> v))
         else if cmd = lit ''DEL'' then if m k = None then (lit ''NO EXIST'', m) else (lit ''OK'', m(k := None))
         else if cmd = lit ''EXIST'' then (if m k = None then lit ''NO EXIST'' else lit ''EXIST'', m)
         else (lit ''ERROR'', m))"

definition text_reply :: "cstring \<Rightarrow> (cstring \<rightharpoonup> cstring) \<Rightarrow> cstring \<times> (cstring \<rightharpoonup> cstring)" where
  "text_reply msg m = text_command (word1 msg) (word1 (rest1 msg)) (rest1 (rest1 msg)) m"

definition text_peer ::
  "(byte list \<Rightarrow> byte list list) \<Rightarrow> byte list \<Rightarrow> (cstring \<rightharpoonup> cstring) \<Rightarrow> byte list list \<times> (cstring \<rightharpoonup> cstring)" where
  "text_peer split msg m = (let (t, m') = text_reply msg m in (split (t @ [13, 10]), m'))"

lemma lit_words:
  "lit ''SET'' = [83, 69, 84]"
  "lit ''GET'' = [71, 69, 84]"
  "lit ''MOD'' = [77, 79, 68]"
  "lit ''DEL'' = [68, 69, 76]"
  "lit ''EXIST'' = [69, 88, 73, 83, 84]"
  "lit ''OK'' = [79, 75]"
  "lit ''NO EXIST'' = [78, 79, 32, 69, 88, 73, 83, 84]"
  "lit ''King'' = [75, 105, 110, 103]"
  "lit ''Darren'' = [68, 97, 114, 114, 101, 110]"
  "lit ''Teacher'' = [84, 101, 97, 99, 104, 101, 114]"
  "lit ''KING'' = [75, 73, 78, 71]"
  by code_simp+

lemma words [simp]:
  "32 \<notin> set w \<Longrightarrow> word1 (w @ 32 # s) = w" "32 \<notin> set w \<Longrightarrow> word1 w = w"
  "32 \<notin> set w \<Longrightarrow> rest1 (w @ 32 # s) = s" "32 \<notin> set w \<Longrightarrow> rest1 w = []" "rest1 [] = []"
proof -
  assume "32 \<notin> set w"
  then have "takeWhile (\<lambda>b. b \<noteq> 32) (w @ s) = w @ takeWhile (\<lambda>b. b \<noteq> 32) s"
    and "dropWhile (\<lambda>b. b \<noteq> 32) (w @ s) = dropWhile (\<lambda>b. b \<noteq> 32) s" for s
    by (induction w) auto
  note w = this [of "32 # s"] this [of "[]", unfolded append_Nil2]
  show "word1 (w @ 32 # s) = w" "word1 w = w" "rest1 (w @ 32 # s) = s" "rest1 w = []"
    unfolding word1_def rest1_def w by simp_all
qed (simp add: rest1_def)

lemma text_testcase:
  assumes "splitting split" and "is_cstr (fst (text_reply msg m))" and "13 \<notin> set (fst (text_reply msg m))"
    and "length (fst (text_reply msg m)) < 1000" and "is_cstr p"
  shows "testcase (text_peer split) (Some msg) (Some p) (Some nm) \<lparr>t_peer = m, t_inbox = []\<rparr> =
    ret (p = fst (text_reply msg m) @ [13, 10], \<lparr>t_peer = snd (text_reply msg m), t_inbox = []\<rparr>)"
proof (rule testcase_line [OF _ _ _ assms(2,3) _ assms(5)])
  show "text_peer split msg m = (split (fst (text_reply msg m) @ [13, 10]), snd (text_reply msg m))"
    by (simp add: text_peer_def split: prod.splits)
qed (use assms(1,4) in \<open>auto simp: splitting_def MAX_MSG_LENGTH_def\<close>)

text \<open>The answers of a command, by the state of its key.\<close>

lemma text_reply_words:
  assumes "32 \<notin> set c" and "32 \<notin> set k"
  shows "text_reply (c @ 32 # k @ 32 # v) m = text_command c k v m" and "text_reply (c @ 32 # k) m = text_command c k [] m"
  using assms by (simp_all add: text_reply_def)

lemma text_commands:
  assumes "c \<in> {[], [72], [82]}"
  shows "text_command (c @ lit ''SET'') k v m = (if m k = None then (lit ''OK'', m(k \<mapsto> v)) else (lit ''EXIST'', m))"
    and "text_command (c @ lit ''GET'') k v m = (case m k of None \<Rightarrow> lit ''NO EXIST'' | Some w \<Rightarrow> w, m)"
    and "text_command (c @ lit ''MOD'') k v m = (if m k = None then (lit ''NO EXIST'', m) else (lit ''OK'', m(k \<mapsto> v)))"
    and "text_command (c @ lit ''DEL'') k v m = (if m k = None then (lit ''NO EXIST'', m) else (lit ''OK'', m(k := None)))"
    and "text_command (c @ lit ''EXIST'') k v m = (if m k = None then lit ''NO EXIST'' else lit ''EXIST'', m)"
    and "32 \<notin> set (c @ lit ''SET'')" "32 \<notin> set (c @ lit ''GET'')" "32 \<notin> set (c @ lit ''MOD'')" "32 \<notin> set (c @ lit ''DEL'')"
      "32 \<notin> set (c @ lit ''EXIST'')"
  using assms by (auto simp: text_command_def lit_words)

lemma text_replies:
  assumes "c \<in> {[], [72], [82]}" and "32 \<notin> set k"
  shows "text_reply ((c @ lit ''SET'') @ 32 # k @ 32 # v) m = (if m k = None then (lit ''OK'', m(k \<mapsto> v)) else (lit ''EXIST'', m))"
    and "text_reply ((c @ lit ''GET'') @ 32 # k) m = (case m k of None \<Rightarrow> lit ''NO EXIST'' | Some w \<Rightarrow> w, m)"
    and "text_reply ((c @ lit ''MOD'') @ 32 # k @ 32 # v) m = (if m k = None then (lit ''NO EXIST'', m) else (lit ''OK'', m(k \<mapsto> v)))"
    and "text_reply ((c @ lit ''DEL'') @ 32 # k) m = (if m k = None then (lit ''NO EXIST'', m) else (lit ''OK'', m(k := None)))"
    and "text_reply ((c @ lit ''EXIST'') @ 32 # k) m = (if m k = None then lit ''NO EXIST'' else lit ''EXIST'', m)"
  by (simp_all only: text_reply_words text_commands [OF assms(1)] assms(2) not_False_eq_True)

text \<open>One step of a script, for each command.\<close>

abbreviation Teacher :: cstring where
  "Teacher \<equiv> lit ''Teacher''"

abbreviation talks :: "(cstring \<rightharpoonup> cstring) \<Rightarrow> (cstring \<rightharpoonup> cstring) tester" where
  "talks m \<equiv> \<lparr>t_peer = m, t_inbox = []\<rparr>"

lemma lit_lines [simp]:
  "is_cstr (lit ''OK'')" "is_cstr (lit ''EXIST'')" "is_cstr (lit ''NO EXIST'')" "is_cstr (lit ''King'')" "is_cstr (lit ''Darren'')"
  "13 \<notin> set (lit ''OK'')" "13 \<notin> set (lit ''EXIST'')" "13 \<notin> set (lit ''NO EXIST'')" "13 \<notin> set (lit ''King'')" "13 \<notin> set (lit ''Darren'')"
  "32 \<notin> set Teacher"
  by (simp_all add: lit_words)

lemma length_lit [simp]: "length (lit s) = length s"
  by (simp add: lit_def)

lemma text_steps:
  assumes sp: "splitting split" and c: "c \<in> {[], [72], [82]}" and k: "32 \<notin> set k"
  shows "testcase (text_peer split) (Some ((c @ lit ''SET'') @ 32 # k @ 32 # v)) (Some (line ''OK'')) (Some nm) (talks m) =
      ret (m k = None, talks (if m k = None then m(k \<mapsto> v) else m))"
    and "m k = Some w \<Longrightarrow> is_cstr w \<Longrightarrow> 13 \<notin> set w \<Longrightarrow> length w < 1000 \<Longrightarrow>
      testcase (text_peer split) (Some ((c @ lit ''GET'') @ 32 # k)) (Some (w @ [13, 10])) (Some nm) (talks m) = ret (True, talks m)"
    and "m k = None \<Longrightarrow>
      testcase (text_peer split) (Some ((c @ lit ''GET'') @ 32 # k)) (Some (line ''NO EXIST'')) (Some nm) (talks m) = ret (True, talks m)"
    and "m k \<noteq> None \<Longrightarrow> testcase (text_peer split) (Some ((c @ lit ''MOD'') @ 32 # k @ 32 # v)) (Some (line ''OK'')) (Some nm) (talks m) =
      ret (True, talks (m(k \<mapsto> v)))"
    and "m k = None \<Longrightarrow> testcase (text_peer split) (Some ((c @ lit ''MOD'') @ 32 # k @ 32 # v)) (Some (line ''NO EXIST'')) (Some nm) (talks m) =
      ret (True, talks m)"
    and "m k \<noteq> None \<Longrightarrow> testcase (text_peer split) (Some ((c @ lit ''DEL'') @ 32 # k)) (Some (line ''OK'')) (Some nm) (talks m) =
      ret (True, talks (m(k := None)))"
    and "m k \<noteq> None \<Longrightarrow>
      testcase (text_peer split) (Some ((c @ lit ''EXIST'') @ 32 # k)) (Some (line ''EXIST'')) (Some nm) (talks m) = ret (True, talks m)"
    and "m k = None \<Longrightarrow>
      testcase (text_peer split) (Some ((c @ lit ''EXIST'') @ 32 # k)) (Some (line ''NO EXIST'')) (Some nm) (talks m) = ret (True, talks m)"
  using text_testcase [OF sp] text_replies [OF c k] by (auto simp del: append_assoc) (auto simp: lit_words)

text \<open>The messages of the scripts, in words.\<close>

lemma messages:
  "lit ''SET Teacher King'' = ([] @ lit ''SET'') @ 32 # Teacher @ 32 # lit ''King''"
  "lit ''GET Teacher'' = ([] @ lit ''GET'') @ 32 # Teacher"
  "lit ''MOD Teacher Darren'' = ([] @ lit ''MOD'') @ 32 # Teacher @ 32 # lit ''Darren''"
  "lit ''EXIST Teacher'' = ([] @ lit ''EXIST'') @ 32 # Teacher"
  "lit ''RSET Teacher King'' = ([82] @ lit ''SET'') @ 32 # Teacher @ 32 # lit ''King''"
  "lit ''RGET Teacher'' = ([82] @ lit ''GET'') @ 32 # Teacher"
  "lit ''RMOD Teacher Darren'' = ([82] @ lit ''MOD'') @ 32 # Teacher @ 32 # lit ''Darren''"
  "lit ''RMOD Teacher KING'' = ([82] @ lit ''MOD'') @ 32 # Teacher @ 32 # lit ''KING''"
  "lit ''REXIST Teacher'' = ([82] @ lit ''EXIST'') @ 32 # Teacher"
  "lit ''RDEL Teacher'' = ([82] @ lit ''DEL'') @ 32 # Teacher"
  "lit ''HSET Teacher King'' = ([72] @ lit ''SET'') @ 32 # Teacher @ 32 # lit ''King''"
  "lit ''HGET Teacher'' = ([72] @ lit ''GET'') @ 32 # Teacher"
  "lit ''HMOD Teacher Darren'' = ([72] @ lit ''MOD'') @ 32 # Teacher @ 32 # lit ''Darren''"
  "lit ''HMOD Teacher KING'' = ([72] @ lit ''MOD'') @ 32 # Teacher @ 32 # lit ''KING''"
  "lit ''HEXIST Teacher'' = ([72] @ lit ''EXIST'') @ 32 # Teacher"
  "lit ''HDEL Teacher'' = ([72] @ lit ''DEL'') @ 32 # Teacher"
  by code_simp+

lemma round_passes:
  assumes sp: "splitting split" and c: "c \<in> {[], [72], [82]}" and m: "m Teacher = None"
  shows "run_cases (text_peer split)
     [((c @ lit ''SET'') @ 32 # Teacher @ 32 # lit ''King'', line ''OK'', n1), ((c @ lit ''GET'') @ 32 # Teacher, line ''King'', n2),
      ((c @ lit ''MOD'') @ 32 # Teacher @ 32 # lit ''Darren'', line ''OK'', n3), ((c @ lit ''GET'') @ 32 # Teacher, line ''Darren'', n4),
      ((c @ lit ''EXIST'') @ 32 # Teacher, line ''EXIST'', n5), ((c @ lit ''DEL'') @ 32 # Teacher, line ''OK'', n6),
      ((c @ lit ''GET'') @ 32 # Teacher, line ''NO EXIST'', n7),
      ((c @ lit ''MOD'') @ 32 # Teacher @ 32 # lit ''KING'', line ''NO EXIST'', n8),
      ((c @ lit ''EXIST'') @ 32 # Teacher, line ''NO EXIST'', n9)] (talks m) = ret (True, talks m)"
  using m by (simp add: text_steps [OF sp c] fun_upd_idem del: append_assoc)

lemma script_rounds:
  assumes sp: "splitting split" and m: "m Teacher = None"
  shows "run_cases (text_peer split) rbtree_cases (talks m) = ret (True, talks m)"
    and "run_cases (text_peer split) hash_cases (talks m) = ret (True, talks m)"
    and "\<exists>m'. run_cases (text_peer split) array_cases (talks m) = ret (True, talks m') \<and> m' Teacher \<noteq> None"
  subgoal unfolding rbtree_cases_def messages by (rule round_passes) (use assms in auto)
  subgoal unfolding hash_cases_def messages by (rule round_passes) (use assms in auto)
  subgoal unfolding array_cases_def messages using m by (auto simp: text_steps [OF sp, of "[]", simplified] simp del: append_assoc)
  done

lemma array_round_fails:
  assumes sp: "splitting split" and m: "m Teacher \<noteq> None"
  shows "run_cases (text_peer split) array_cases (talks m) = ret (False, talks m)"
  unfolding array_cases_def messages using text_steps(1) [OF sp, of "[]" Teacher "lit ''King''" _ m] m by simp

lemma for_loop_inv:
  assumes "\<And>j c. i \<le> j \<Longrightarrow> j < i + n \<Longrightarrow> I j c \<Longrightarrow> \<exists>c'. body j c = ret (True, c') \<and> I (Suc j) c'" and "I i c"
  shows "\<exists>c'. for_loop body i n c = ret (True, c') \<and> I (i + n) c'"
  using assms
proof (induction n arbitrary: i c)
  case (Suc n)
  obtain c' where c': "body i c = ret (True, c')" "I (Suc i) c'" using Suc.prems(1) [of i c] Suc.prems(2) by auto
  have "\<exists>c''. for_loop body (Suc i) n c' = ret (True, c'') \<and> I (Suc i + n) c''"
    using Suc.prems(1) c'(2) by (intro Suc.IH) auto
  with c'(1) show ?case by auto
qed simp

text \<open>The numbered keys and values.\<close>

abbreviation key_no :: "nat \<Rightarrow> cstring" where
  "key_no i \<equiv> Teacher @ nat_digits i"

abbreviation val_no :: "nat \<Rightarrow> cstring" where
  "val_no i \<equiv> lit ''King'' @ nat_digits i"

lemma nat_digits_inj: "nat_digits i = nat_digits j \<longleftrightarrow> i = j"
  using digits_value_nat_digits by (metis of_nat_eq_iff)

lemma nat_digits_short: "n < 10 ^ Suc k \<Longrightarrow> length (nat_digits n) \<le> Suc k"
proof (induction k arbitrary: n)
  case (Suc k)
  show ?case
  proof (cases "n < 10")
    case False
    with Suc.IH [of "n div 10"] Suc.prems show ?thesis by (subst nat_digits.simps) (simp add: less_mult_imp_div_less)
  qed (subst nat_digits.simps, simp)
qed (subst nat_digits.simps, simp)

lemma nat_digits_chars: "is_cstr (nat_digits n)" "13 \<notin> set (nat_digits n)" "32 \<notin> set (nat_digits n)"
  using nat_digits_digits [of n] is_digit_not by (auto simp: is_cstr_def)

lemma numbered_messages:
  assumes "i < 50000"
  shows "snprintf 128 (lit ''RSET'' @ lit '' Teacher'' @ nat_digits i @ lit '' King'' @ nat_digits i) = ([82] @ lit ''SET'') @ 32 # key_no i @ 32 # val_no i"
    and "snprintf 128 (lit ''HSET'' @ lit '' Teacher'' @ nat_digits i @ lit '' King'' @ nat_digits i) = ([72] @ lit ''SET'') @ 32 # key_no i @ 32 # val_no i"
    and "snprintf 128 (lit ''RGET'' @ lit '' Teacher'' @ nat_digits i) = ([82] @ lit ''GET'') @ 32 # key_no i"
    and "snprintf 128 (lit ''HGET'' @ lit '' Teacher'' @ nat_digits i) = ([72] @ lit ''GET'') @ 32 # key_no i"
    and "snprintf 128 (lit ''King'' @ nat_digits i @ [13, 10]) = val_no i @ [13, 10]"
proof -
  have l: "length (nat_digits i) \<le> 5" using nat_digits_short [of i 4] assms by simp
  have w: "lit ''RSET'' = 82 # lit ''SET''" "lit ''HSET'' = 72 # lit ''SET''" "lit ''RGET'' = 82 # lit ''GET''" "lit ''HGET'' = 72 # lit ''GET''"
    "lit '' Teacher'' = 32 # Teacher" "lit '' King'' = 32 # lit ''King''" by code_simp+
  show "snprintf 128 (lit ''RSET'' @ lit '' Teacher'' @ nat_digits i @ lit '' King'' @ nat_digits i) = ([82] @ lit ''SET'') @ 32 # key_no i @ 32 # val_no i"
    "snprintf 128 (lit ''HSET'' @ lit '' Teacher'' @ nat_digits i @ lit '' King'' @ nat_digits i) = ([72] @ lit ''SET'') @ 32 # key_no i @ 32 # val_no i"
    "snprintf 128 (lit ''RGET'' @ lit '' Teacher'' @ nat_digits i) = ([82] @ lit ''GET'') @ 32 # key_no i"
    "snprintf 128 (lit ''HGET'' @ lit '' Teacher'' @ nat_digits i) = ([72] @ lit ''GET'') @ 32 # key_no i"
    "snprintf 128 (lit ''King'' @ nat_digits i @ [13, 10]) = val_no i @ [13, 10]"
    unfolding snprintf_def w using l by simp_all
qed

text \<open>After \<open>i\<close> insertions the numbered keys below \<open>i\<close> are present, with their values.\<close>

definition stored :: "nat \<Rightarrow> (cstring \<rightharpoonup> cstring) \<Rightarrow> bool" where
  "stored i m \<longleftrightarrow> (\<forall>j. m (key_no j) = (if j < i then Some (val_no j) else None))"

lemma numbered_passes:
  assumes sp: "splitting split" and c: "c \<in> {[82], [72]}" and m: "stored 0 m"
    and set: "\<And>i. i < 50000 \<Longrightarrow> set_op i = testcase (text_peer split) (Some ((c @ lit ''SET'') @ 32 # key_no i @ 32 # val_no i)) (Some (line ''OK'')) (Some n1)"
    and get: "\<And>i. i < 50000 \<Longrightarrow> get_op i = testcase (text_peer split) (Some ((c @ lit ''GET'') @ 32 # key_no i)) (Some (val_no i @ [13, 10])) (Some n2)"
  shows "\<exists>m'. rbind (for_loop set_op 0 50000 (talks m)) (\<lambda>(ok, c'). if ok then for_loop get_op 0 50000 c' else ret (False, c')) =
    ret (True, talks m')"
proof -
  have c': "c \<in> {[], [72], [82]}" using c by auto
  have k: "32 \<notin> set (key_no i)" for i by (simp add: nat_digits_chars)
  have "\<exists>x'. set_op j x = ret (True, x') \<and> (\<exists>m. x' = talks m \<and> stored (Suc j) m)"
    if "j < 50000" "\<exists>m. x = talks m \<and> stored j m" for j x
    using that text_steps(1) [OF sp c' k [of j], of "val_no j" n1] by (auto simp: set stored_def nat_digits_inj)
  then obtain m1 where m1: "for_loop set_op 0 50000 (talks m) = ret (True, talks m1)" "stored 50000 m1"
    using for_loop_inv [of 0 50000 "\<lambda>j x. \<exists>m. x = talks m \<and> stored j m" set_op "talks m"] m by auto
  have "get_op j (talks m1) = ret (True, talks m1)" if "j < 50000" for j
    using that m1(2) text_steps(2) [OF sp c' k [of j], of m1 "val_no j" n2] nat_digits_short [of j 4]
    by (simp add: get stored_def nat_digits_chars del: append_assoc)
  then have "for_loop get_op 0 50000 (talks m1) = ret (True, talks m1)"
    using for_loop_inv [of 0 50000 "\<lambda>j x. x = talks m1" get_op "talks m1"] by auto
  with m1(1) show ?thesis by auto
qed

lemma array_loop_fails:
  assumes sp: "splitting split" and m: "m Teacher = None"
  shows "\<exists>m'. for_loop (\<lambda>i. run_cases (text_peer split) array_cases) 0 10000 (talks m) = ret (False, talks m')"
proof -
  obtain m1 where m1: "run_cases (text_peer split) array_cases (talks m) = ret (True, talks m1)" "m1 Teacher \<noteq> None"
    using script_rounds(3) [of split m, OF assms] by blast
  have "for_loop (\<lambda>i. run_cases (text_peer split) array_cases) 0 (Suc (Suc n)) (talks m) = ret (False, talks m1)" for n
    using m1(1) array_round_fails [of split m1, OF sp m1(2)] by simp
  from this [of 9998] show ?thesis by simp
qed

lemma timed_passes:
  "timed n tv (ret (True, c)) = (if to_int32 (TIME_SUB_MS (snd tv) (fst tv)) = 0 then undef else ret (True, c))"
  by (simp add: timed_def report_qps_def Let_def)

lemma scripts_pass:
  assumes sp: "splitting split" and m: "\<forall>s. m (Teacher @ s) = None"
    and script: "script \<in> {rbtree_testcase_1w, rbtree_testcase_3w, hash_testcase_1w, hash_testcase_3w}"
  shows "\<exists>m'. script (text_peer split) tv (talks m) =
    (if to_int32 (TIME_SUB_MS (snd tv) (fst tv)) = 0 then undef else ret (True, talks m'))"
proof -
  have T: "m Teacher = None" and s0: "stored 0 m" using m spec [OF m, of "[]"] by (simp_all add: stored_def)
  note loop = for_loop_inv [of 0 10000 "\<lambda>j x. x = talks m" _ "talks m", simplified]
  have one: "for_loop (\<lambda>i. run_cases (text_peer split) rbtree_cases) 0 10000 (talks m) = ret (True, talks m)"
    "for_loop (\<lambda>i. run_cases (text_peer split) hash_cases) 0 10000 (talks m) = ret (True, talks m)"
    using script_rounds(1,2) [of split m, OF sp T] by (intro loop; simp)+
  let ?three = "\<lambda>f g. rbind (for_loop f 0 50000 (talks m)) (\<lambda>(ok, c'). if ok then for_loop g 0 50000 c' else ret (False, c'))"
  let ?set = "set_numbered (text_peer split)" and ?get = "get_numbered (text_peer split)"
  have "\<exists>m1. ?three (?set (lit ''RSET'') (lit ''RSET-Teacher'')) (?get (lit ''RGET'') (lit ''RGET-Teacher'')) = ret (True, talks m1)"
    by (rule numbered_passes [OF sp _ s0, of "[82]"]) (auto simp: fun_eq_iff set_numbered_def get_numbered_def numbered_messages)
  moreover have "\<exists>m2. ?three (?set (lit ''HSET'') (lit ''HSET-Teacher'')) (?get (lit ''HGET'') (lit ''HGET-King-Teacher'')) = ret (True, talks m2)"
    by (rule numbered_passes [OF sp _ s0, of "[72]"]) (auto simp: fun_eq_iff set_numbered_def get_numbered_def numbered_messages)
  ultimately obtain m1 m2 where three:
    "?three (?set (lit ''RSET'') (lit ''RSET-Teacher'')) (?get (lit ''RGET'') (lit ''RGET-Teacher'')) = ret (True, talks m1)"
    "?three (?set (lit ''HSET'') (lit ''HSET-Teacher'')) (?get (lit ''HGET'') (lit ''HGET-King-Teacher'')) = ret (True, talks m2)"
    by blast
  show ?thesis
    using script
    by (auto simp: rbtree_testcase_1w_def hash_testcase_1w_def rbtree_testcase_3w_def hash_testcase_3w_def one three timed_passes)
qed



text \<open>The client as a whole: it succeeds if and only if every thread ends, with zero.\<close>

lemma join_threads_value:
  "join_threads ts a = ret b \<longleftrightarrow> (\<forall>t\<in>set ts. \<exists>v. t = ret v) \<and> b = (if \<forall>t\<in>set ts. t = ret 0 then a else 0)"
proof (induction ts arbitrary: a)
  case (Cons t ts)
  then show ?case by (cases t) auto
qed auto

lemma client_main_passes: "client_main 5 ts = ret 0 \<longleftrightarrow> (\<forall>t\<in>set ts. t = ret 0)"
  by (auto simp: client_main_def join_threads_value split: if_splits)

end
