(* ===== verification/Page_Cache.thy ===== *)
theory Page_Cache
  imports Mempool
begin

text \<open>
  The bottom layer of the thread-caching pool: \<^verbatim>\<open>src/mempool/src/PageCache.cpp\<close>, which hands out
  spans of whole pages, splits free spans that are too large and joins neighbours again. The size
  classes of \<^verbatim>\<open>src/mempool/include/Common.h\<close> are here too.

  \<open>std::map\<close> keeps its keys in order, so it is a sorted association list; \<open>Span\<close> objects live at
  addresses given by \<open>new\<close>, as arbitrary a stream of answers as the one of \<open>mmap\<close>. A null answer of
  \<open>new\<close> is the exception \<open>std::bad_alloc\<close>, which no caller catches to go on. Every operation holds
  the mutex from its first to its last line, so operations are atomic. \<open>mem\<close> is the memory of the
  pages, as far as the pool reads it: the pointer in the first cell of a free block.
\<close>

section \<open>Size classes\<close>

definition ALIGNMENT :: size_t where
  "ALIGNMENT = 8"

definition MAX_BYTES :: size_t where
  "MAX_BYTES = 256 * 1024"

definition FREE_LIST_SIZE :: size_t where
  "FREE_LIST_SIZE = MAX_BYTES div ALIGNMENT"

definition roundUp :: "size_t \<Rightarrow> size_t" where
  "roundUp bytes = (bytes + ALIGNMENT - 1) AND NOT (ALIGNMENT - 1)"

definition getIndex :: "size_t \<Rightarrow> size_t" where
  "getIndex bytes0 = (let bytes = max bytes0 ALIGNMENT in (bytes + ALIGNMENT - 1) div ALIGNMENT - 1)"

section \<open>Spans\<close>

record span =
  sp_next :: addr
  pageAddr :: addr
  numPages :: size_t

record page_cache =
  freeSpans :: "(size_t \<times> addr) list"
  spanMap :: "addr \<rightharpoonup> addr"
  spans :: "addr \<rightharpoonup> span"
  sys_new :: "nat \<Rightarrow> addr"
  new_calls :: nat
  sys_mmap :: "nat \<Rightarrow> size_t \<Rightarrow> addr option"
  mmap_calls :: nat
  mem :: "addr \<Rightarrow> addr"

definition PAGE_SIZE :: size_t where
  "PAGE_SIZE = 4096"

text \<open>\<open>lower_bound\<close>, \<open>m[k]\<close> as a value and as a place, and \<open>erase\<close> of \<open>std::map\<close>.\<close>

fun lower_bound :: "size_t \<Rightarrow> (size_t \<times> addr) list \<Rightarrow> (size_t \<times> addr) option" where
  "lower_bound n [] = None"
| "lower_bound n ((k, p) # m) = (if n \<le> k then Some (k, p) else lower_bound n m)"

definition map_at :: "size_t \<Rightarrow> (size_t \<times> addr) list \<Rightarrow> addr" where
  "map_at k m = (case map_of m k of None \<Rightarrow> 0 | Some p \<Rightarrow> p)"

fun map_put :: "size_t \<Rightarrow> addr \<Rightarrow> (size_t \<times> addr) list \<Rightarrow> (size_t \<times> addr) list" where
  "map_put k v [] = [(k, v)]"
| "map_put k v ((k', v') # m) =
     (if k < k' then (k, v) # (k', v') # m else if k = k' then (k, v) # m else (k', v') # map_put k v m)"

definition map_erase :: "size_t \<Rightarrow> (size_t \<times> addr) list \<Rightarrow> (size_t \<times> addr) list" where
  "map_erase k m = filter (\<lambda>(k', p). k' \<noteq> k) m"

definition new_span :: "span \<Rightarrow> 'a page_cache_scheme \<Rightarrow> (addr \<times> 'a page_cache_scheme) res" where
  "new_span s pc =
     (let a = sys_new pc (new_calls pc)
      in if a = 0 then abort
         else ret (a, pc\<lparr>spans := (spans pc)(a \<mapsto> s), new_calls := Suc (new_calls pc)\<rparr>))"

text \<open>\<open>mmap\<close> followed by \<open>memset\<close>.\<close>

definition systemAlloc :: "size_t \<Rightarrow> 'a page_cache_scheme \<Rightarrow> addr \<times> 'a page_cache_scheme" where
  "systemAlloc n pc =
     (let sz = n * PAGE_SIZE; pc1 = pc\<lparr>mmap_calls := Suc (mmap_calls pc)\<rparr>
      in case sys_mmap pc (mmap_calls pc) sz of
           None \<Rightarrow> (0, pc1)
         | Some p \<Rightarrow> (p, pc1\<lparr>mem := (\<lambda>a. if a - p < sz then 0 else mem pc a)\<rparr>))"

definition allocateSpan :: "size_t \<Rightarrow> 'a page_cache_scheme \<Rightarrow> (addr \<times> 'a page_cache_scheme) res" where
  "allocateSpan n pc =
     (case lower_bound n (freeSpans pc) of
        Some (k, a) \<Rightarrow>
          (case spans pc a of
             None \<Rightarrow> undef
           | Some s \<Rightarrow>
               let fs = (if sp_next s \<noteq> 0 then map_put k (sp_next s) (freeSpans pc)
                         else map_erase k (freeSpans pc));
                   pc1 = pc\<lparr>freeSpans := fs\<rparr>
               in if n < numPages s
                  then let rest = numPages s - n
                       in rbind (new_span \<lparr>sp_next = map_at rest fs, pageAddr = pageAddr s + n * PAGE_SIZE,
                                           numPages = rest\<rparr> pc1) (\<lambda>(q, pc2).
                            ret (pageAddr s,
                                 pc2\<lparr>freeSpans := map_put rest q fs, spans := (spans pc2)(a \<mapsto> s\<lparr>numPages := n\<rparr>),
                                     spanMap := (spanMap pc2)(pageAddr s \<mapsto> a)\<rparr>))
                  else ret (pageAddr s, pc1\<lparr>spanMap := (spanMap pc1)(pageAddr s \<mapsto> a)\<rparr>))
      | None \<Rightarrow>
          let (memory, pc1) = systemAlloc n pc
          in if memory = 0 then ret (0, pc1)
             else rbind (new_span \<lparr>sp_next = 0, pageAddr = memory, numPages = n\<rparr> pc1) (\<lambda>(q, pc2).
                    ret (memory, pc2\<lparr>spanMap := (spanMap pc2)(memory \<mapsto> q)\<rparr>)))"

text \<open>The loop that looks for \<open>nextSpan\<close> behind the head of its list.\<close>

partial_function (option) unlink_span ::
  "addr \<Rightarrow> (addr \<rightharpoonup> span) \<Rightarrow> addr \<Rightarrow> (bool \<times> (addr \<rightharpoonup> span)) option" where
  "unlink_span b sp prev =
     (case sp prev of
        None \<Rightarrow> None
      | Some s \<Rightarrow>
          if sp_next s = 0 then Some (False, sp)
          else if sp_next s = b
               then (case sp b of None \<Rightarrow> None | Some t \<Rightarrow> Some (True, sp(prev \<mapsto> s\<lparr>sp_next := sp_next t\<rparr>)))
               else unlink_span b sp (sp_next s))"

text \<open>
  Joining with the span that follows. The references \<open>nextList\<close> and \<open>list\<close> into the map create an
  entry with a null pointer when there is none, and taking the last span out of a list leaves one.
\<close>

definition take_free :: "addr \<Rightarrow> span \<Rightarrow> 'a page_cache_scheme \<Rightarrow> (bool \<times> 'a page_cache_scheme) res" where
  "take_free b t pc =
     (let k = numPages t; l = map_at k (freeSpans pc)
      in if l = b then ret (True, pc\<lparr>freeSpans := map_put k (sp_next t) (freeSpans pc)\<rparr>)
         else if l \<noteq> 0
              then rbind (or_undef (unlink_span b (spans pc) l)) (\<lambda>(found, sp).
                     ret (found, pc\<lparr>freeSpans := map_put k l (freeSpans pc), spans := sp\<rparr>))
              else ret (False, pc\<lparr>freeSpans := map_put k l (freeSpans pc)\<rparr>))"

definition merge_next :: "addr \<Rightarrow> addr \<Rightarrow> 'a page_cache_scheme \<Rightarrow> ('a page_cache_scheme) res" where
  "merge_next a nextAddr pc =
     (case spanMap pc nextAddr of
        None \<Rightarrow> ret pc
      | Some b \<Rightarrow>
          (case spans pc b of
             None \<Rightarrow> undef
           | Some t \<Rightarrow>
               rbind (take_free b t pc) (\<lambda>(found, pc1).
                 if \<not> found then ret pc1
                 else case spans pc1 a of
                        None \<Rightarrow> undef
                      | Some s \<Rightarrow>
                          ret (pc1\<lparr>spans := ((spans pc1)(a \<mapsto> s\<lparr>numPages := numPages s + numPages t\<rparr>))(b := None),
                                   spanMap := (spanMap pc1)(nextAddr := None)\<rparr>))))"

definition deallocateSpan :: "addr \<Rightarrow> size_t \<Rightarrow> 'a page_cache_scheme \<Rightarrow> ('a page_cache_scheme) res" where
  "deallocateSpan ptr n pc =
     (case spanMap pc ptr of
        None \<Rightarrow> ret pc
      | Some a \<Rightarrow>
          rbind (merge_next a (ptr + n * PAGE_SIZE) pc) (\<lambda>pc1.
            case spans pc1 a of
              None \<Rightarrow> undef
            | Some s \<Rightarrow>
                ret (pc1\<lparr>freeSpans := map_put (numPages s) a (freeSpans pc1),
                         spans := (spans pc1)(a \<mapsto> s\<lparr>sp_next := map_at (numPages s) (freeSpans pc1)\<rparr>)\<rparr>)))"

section \<open>Size classes are exact\<close>

lemma unat_getIndex:
  assumes "sz \<le> MAX_BYTES"
  shows "unat (getIndex sz) = (max (unat sz) 8 + 7) div 8 - 1"
proof -
  have m: "unat (max sz 8) = max (unat sz) 8"
    by (simp add: max_def word_le_nat_alt)
  have le: "unat sz \<le> 262144" using assms by (simp add: MAX_BYTES_def word_le_nat_alt)
  have "unat (max sz 8 + 7) = max (unat sz) 8 + 7"
    using le m by (simp add: unat_word_ariths)
  then have d: "unat ((max sz 8 + 7) div 8) = (max (unat sz) 8 + 7) div 8"
    by (simp add: unat_div_distrib)
  have "1 \<le> (max sz 8 + 7) div 8"
    by (simp add: word_le_nat_alt d)
  then have "unat ((max sz 8 + 7) div 8 - 1) = (max (unat sz) 8 + 7) div 8 - 1"
    by (simp add: unat_sub d)
  moreover have "getIndex sz = (max sz 8 + 7) div 8 - 1"
    by (simp add: getIndex_def ALIGNMENT_def Let_def algebra_simps)
  ultimately show ?thesis by simp
qed

lemma roundUp_align_up: "roundUp sz = align_up sz 8"
  by (simp add: roundUp_def align_up_def ALIGNMENT_def)

lemma FREE_LIST_SIZE_eq: "FREE_LIST_SIZE = 32768"
  by (simp add: FREE_LIST_SIZE_def MAX_BYTES_def ALIGNMENT_def)

lemma getIndex_bound: "sz \<le> MAX_BYTES \<Longrightarrow> getIndex sz < FREE_LIST_SIZE"
  using unat_getIndex [of sz] by (simp add: FREE_LIST_SIZE_eq MAX_BYTES_def word_less_nat_alt word_le_nat_alt)

lemma roundUp_class:
  assumes "0 < sz" and "sz \<le> MAX_BYTES"
  shows "(getIndex sz + 1) * ALIGNMENT = roundUp sz" and "unat (roundUp sz) = 8 * ((unat sz + 7) div 8)"
proof -
  have le: "0 < unat sz" "unat sz \<le> 262144" using assms by (auto simp: MAX_BYTES_def word_le_nat_alt word_less_nat_alt)
  then show r: "unat (roundUp sz) = 8 * ((unat sz + 7) div 8)"
    by (simp add: roundUp_align_up unat_align_up_8)
  have i: "unat (getIndex sz) + 1 = (unat sz + 7) div 8"
    using unat_getIndex [OF assms(2)] le by (cases "unat sz \<le> 8") (auto simp: max_def)
  have "unat ((getIndex sz + 1) * 8) = unat (roundUp sz)"
    using i le unfolding r by (simp add: unat_word_ariths)
  then show "(getIndex sz + 1) * ALIGNMENT = roundUp sz" unfolding ALIGNMENT_def word_unat_eq_iff .
qed

text \<open>
  The size classes are exact. A request of at most \<open>MAX_BYTES\<close> bytes gets an index inside the tables, and
  the block size that the caches compute from the index, \<open>(index + 1) * ALIGNMENT\<close>, is the size of the
  request rounded up: at least the request, less than eight bytes more, a multiple of eight.
\<close>

theorem size_class_exact:
  assumes "0 < sz" and "sz \<le> MAX_BYTES"
  shows "getIndex sz < FREE_LIST_SIZE \<and> (getIndex sz + 1) * ALIGNMENT = roundUp sz \<and>
           sz \<le> roundUp sz \<and> unat (roundUp sz) < unat sz + 8 \<and> 8 dvd unat (roundUp sz)"
  using getIndex_bound [OF assms(2)] roundUp_class [OF assms] by (auto simp: word_le_nat_alt)

theorem size_class_exact_witness:
  "(getIndex 13 + 1) * ALIGNMENT = roundUp 13 \<and> getIndex 13 < FREE_LIST_SIZE"
  using size_class_exact [of 13] by (simp add: MAX_BYTES_def)

section \<open>The ordered map\<close>

lemma map_of_put: "map_of (map_put k v m) = (map_of m)(k \<mapsto> v)"
  by (induction m) (auto simp: fun_eq_iff)

lemma map_at_put [simp]: "map_at j (map_put k v m) = (if j = k then v else map_at j m)"
  by (simp add: map_at_def map_of_put)

lemma map_at_erase [simp]: "map_at j (map_erase k m) = (if j = k then 0 else map_at j m)"
proof -
  have "map_of (map_erase k m) j = (if j = k then None else map_of m j)"
    by (induction m) (auto simp: map_erase_def)
  then show ?thesis by (simp add: map_at_def)
qed

definition keys_sorted :: "(size_t \<times> addr) list \<Rightarrow> bool" where
  "keys_sorted m \<longleftrightarrow> sorted_wrt (<) (map fst m)"

lemma set_map_put: "set (map_put k v m) \<subseteq> insert (k, v) (set m)"
  by (induction m) (auto split: if_splits)

lemma keys_sorted_put [simp]: "keys_sorted m \<Longrightarrow> keys_sorted (map_put k v m)"
proof (induction m)
  case (Cons kv m)
  obtain k' v' where "kv = (k', v')" by (cases kv)
  with Cons set_map_put [of k v m] show ?case by (fastforce simp: keys_sorted_def)
qed (simp add: keys_sorted_def)

lemma keys_sorted_erase [simp]: "keys_sorted m \<Longrightarrow> keys_sorted (map_erase k m)"
  unfolding keys_sorted_def map_erase_def by (induction m) auto

lemma lower_bound_Some:
  assumes "lower_bound n m = Some (k, p)" and "keys_sorted m"
  shows "n \<le> k" and "map_at k m = p"
  using assms by (induction m) (auto simp: keys_sorted_def map_at_def split: if_splits)

section \<open>The invariant\<close>

text \<open>The bytes of a span, and the spans on a list of spans of \<open>k\<close> pages.\<close>

definition region :: "span \<Rightarrow> nat set" where
  "region s = {unat (pageAddr s)..<unat (pageAddr s) + 4096 * unat (numPages s)}"

definition span_list :: "(addr \<rightharpoonup> span) \<Rightarrow> size_t \<Rightarrow> addr \<Rightarrow> addr list \<Rightarrow> bool" where
  "span_list sp k p as \<longleftrightarrow>
     chain (\<lambda>a. sp_next (the (sp a))) p as \<and> (\<forall>a\<in>set as. \<exists>s. sp a = Some s \<and> numPages s = k)"

definition spans_ok :: "(addr \<rightharpoonup> span) \<Rightarrow> bool" where
  "spans_ok sp \<longleftrightarrow>
     (\<forall>a s. sp a = Some s \<longrightarrow> a \<noteq> 0 \<and> pageAddr s \<noteq> 0 \<and> 0 < numPages s \<and>
        unat (pageAddr s) + 4096 * unat (numPages s) < 2 ^ 64) \<and>
     (\<forall>a b s t. sp a = Some s \<longrightarrow> sp b = Some t \<longrightarrow> a \<noteq> b \<longrightarrow> region s \<inter> region t = {})"

text \<open>What \<open>new\<close> and \<open>mmap\<close> promise: what they return later is not in use now, and not twice.\<close>

definition fresh_new :: "'a page_cache_scheme \<Rightarrow> bool" where
  "fresh_new pc \<longleftrightarrow>
     (\<forall>n\<ge>new_calls pc. sys_new pc n \<notin> dom (spans pc)) \<and>
     (\<forall>m n. new_calls pc \<le> m \<longrightarrow> m < n \<longrightarrow> sys_new pc m \<noteq> 0 \<longrightarrow> sys_new pc m \<noteq> sys_new pc n)"

definition fresh_mmap :: "'a page_cache_scheme \<Rightarrow> bool" where
  "fresh_mmap pc \<longleftrightarrow>
     (\<forall>n z p. mmap_calls pc \<le> n \<longrightarrow> sys_mmap pc n z = Some p \<longrightarrow> p \<noteq> 0 \<and> unat p + unat z < 2 ^ 64 \<and>
        (\<forall>a s. spans pc a = Some s \<longrightarrow> region s \<inter> {unat p..<unat p + unat z} = {})) \<and>
     (\<forall>m n y z p q. mmap_calls pc \<le> m \<longrightarrow> m < n \<longrightarrow> sys_mmap pc m y = Some p \<longrightarrow> sys_mmap pc n z = Some q \<longrightarrow>
        {unat p..<unat p + unat y} \<inter> {unat q..<unat q + unat z} = {})"

text \<open>
  \<open>pc_lists pc U fl\<close>: every \<open>Span\<close> object is either in the set \<open>U\<close> of spans that are handed out, or on exactly
  the free list \<open>fl k\<close> of its size. An entry of the map may be a null pointer.
\<close>

definition pc_lists :: "'a page_cache_scheme \<Rightarrow> addr set \<Rightarrow> (size_t \<Rightarrow> addr list) \<Rightarrow> bool" where
  "pc_lists pc U fl \<longleftrightarrow>
     keys_sorted (freeSpans pc) \<and> (\<forall>k. span_list (spans pc) k (map_at k (freeSpans pc)) (fl k)) \<and>
     dom (spans pc) = U \<union> (\<Union>k. set (fl k)) \<and> (\<forall>k. U \<inter> set (fl k) = {})"

definition pc_map :: "'a page_cache_scheme \<Rightarrow> addr set \<Rightarrow> bool" where
  "pc_map pc U \<longleftrightarrow>
     (\<forall>p a. spanMap pc p = Some a \<longrightarrow> (\<exists>s. spans pc a = Some s \<and> pageAddr s = p)) \<and>
     (\<forall>a s. a \<in> U \<longrightarrow> spans pc a = Some s \<longrightarrow> spanMap pc (pageAddr s) = Some a)"

definition pc_inv :: "'a page_cache_scheme \<Rightarrow> addr set \<Rightarrow> bool" where
  "pc_inv pc U \<longleftrightarrow>
     spans_ok (spans pc) \<and> fresh_new pc \<and> fresh_mmap pc \<and> pc_map pc U \<and> (\<exists>fl. pc_lists pc U fl)"

lemma span_list_cong:
  assumes "\<And>a. a \<in> set as \<Longrightarrow> sp' a = sp a"
  shows "span_list sp' k p as = span_list sp k p as"
  unfolding span_list_def using assms
    chain_cong [of as "\<lambda>a. sp_next (the (sp' a))" "\<lambda>a. sp_next (the (sp a))" p] by simp

lemma span_list_upd [simp]: "a \<notin> set as \<Longrightarrow> span_list (sp(a := x)) k p as = span_list sp k p as"
  by (rule span_list_cong) auto

lemma span_list_size: "span_list sp k p as \<Longrightarrow> a \<in> set as \<Longrightarrow> sp a = Some s \<Longrightarrow> numPages s = k"
  by (auto simp: span_list_def)

lemma span_list_Cons [simp]:
  "span_list sp k p (a # as) \<longleftrightarrow>
     p = a \<and> a \<noteq> 0 \<and> (\<exists>s. sp a = Some s \<and> numPages s = k \<and> span_list sp k (sp_next s) as)"
  by (auto simp: span_list_def)

lemma span_list_Nil [simp]: "span_list sp k p [] \<longleftrightarrow> p = 0"
  by (simp add: span_list_def)

lemma span_list_distinct: "span_list sp k p as \<Longrightarrow> distinct as"
  by (auto simp: span_list_def dest: chain_distinct)

lemma span_list_head: "span_list sp k p as \<Longrightarrow> p \<noteq> 0 \<Longrightarrow> \<exists>bs. as = p # bs"
  by (cases as) auto

lemma region_split:
  assumes "unat (pageAddr s) + 4096 * unat (numPages s) < 2 ^ 64" and "n < numPages s"
  shows "unat (pageAddr s + n * PAGE_SIZE) = unat (pageAddr s) + 4096 * unat n"
    and "unat (numPages s - n) = unat (numPages s) - unat n"
proof -
  have n: "unat n < unat (numPages s)" using assms(2) by (simp add: word_less_nat_alt)
  then show "unat (numPages s - n) = unat (numPages s) - unat n"
    by (simp add: unat_sub word_le_nat_alt)
  have "unat (pageAddr s) + 4096 * unat n < 2 ^ 64" using n assms(1) by linarith
  then show "unat (pageAddr s + n * PAGE_SIZE) = unat (pageAddr s) + 4096 * unat n"
    by (simp add: PAGE_SIZE_def unat_word_ariths mult.commute)
qed

section \<open>Handing out a span\<close>

lemma pc_lists_take:
  assumes "pc_lists pc U fl" and "map_at k (freeSpans pc) = a" and "a \<noteq> 0" and "spans pc a = Some s"
    and "keys_sorted fs" and "\<And>j. map_at j fs = (if j = k then sp_next s else map_at j (freeSpans pc))"
  shows "numPages s = k \<and> (\<exists>fl'. pc_lists (pc\<lparr>freeSpans := fs\<rparr>) (insert a U) fl')"
proof -
  have l: "span_list (spans pc) j (map_at j (freeSpans pc)) (fl j)" for j using assms(1) by (simp add: pc_lists_def)
  have disj: "U \<inter> set (fl j) = {}" for j using assms(1) by (simp add: pc_lists_def)
  from span_list_head [OF l [of k]] assms(2,3) obtain as where as: "fl k = a # as" by auto
  with l [of k] assms(2,4) have k: "numPages s = k" and tl: "span_list (spans pc) k (sp_next s) as" by auto
  have a: "a \<notin> set as" using span_list_distinct [OF l [of k]] as by simp
  have other: "a \<notin> set (fl j)" if "j \<noteq> k" for j
    using span_list_size [OF l [of j] _ assms(4)] k that by blast
  have U: "(\<Union>j. set (fl j)) = insert a (\<Union>j. set ((fl(k := as)) j))"
  proof -
    have "set (fl j) \<subseteq> insert a (set ((fl(k := as)) j))" "set ((fl(k := as)) j) \<subseteq> set (fl j)" for j
      using as by auto
    moreover have "a \<in> set (fl k)" using as by simp
    ultimately show ?thesis by blast
  qed
  have "pc_lists (pc\<lparr>freeSpans := fs\<rparr>) (insert a U) (fl(k := as))"
    unfolding pc_lists_def
  proof (intro conjI allI)
    show "keys_sorted (freeSpans (pc\<lparr>freeSpans := fs\<rparr>))" using assms(5) by simp
    show "span_list (spans (pc\<lparr>freeSpans := fs\<rparr>)) j (map_at j (freeSpans (pc\<lparr>freeSpans := fs\<rparr>))) ((fl(k := as)) j)" for j
      using tl l [of j] by (simp add: assms(6))
    show "dom (spans (pc\<lparr>freeSpans := fs\<rparr>)) = insert a U \<union> (\<Union>j. set ((fl(k := as)) j))"
      using assms(1) U by (simp add: pc_lists_def)
    show "insert a U \<inter> set ((fl(k := as)) j) = {}" for j
      using disj [of j] a other [of j] as by auto
  qed
  with k show ?thesis by blast
qed

text \<open>A new span at the head of its list; the fields of a span that is handed out do not matter.\<close>

lemma pc_lists_push:
  assumes "pc_lists pc U fl" and "q \<notin> U" and "q \<noteq> 0" and "q \<notin> (\<Union>k. set (fl k))"
    and "\<And>b. b \<noteq> q \<Longrightarrow> b \<notin> U \<Longrightarrow> sp b = spans pc b" and "dom sp = insert q (dom (spans pc))"
    and "sp q = Some t" and "sp_next t = map_at (numPages t) (freeSpans pc)"
    and "spans pc' = sp" and "freeSpans pc' = map_put (numPages t) q (freeSpans pc)"
  shows "pc_lists pc' U (fl(numPages t := q # fl (numPages t)))"
  unfolding pc_lists_def
proof (intro conjI allI)
  have l: "span_list (spans pc) j (map_at j (freeSpans pc)) (fl j)" for j using assms(1) by (simp add: pc_lists_def)
  have sp: "span_list sp j p (fl j) = span_list (spans pc) j p (fl j)" for j p
    using assms(1,4) by (intro span_list_cong assms(5)) (auto simp: pc_lists_def)
  show "keys_sorted (freeSpans pc')" using assms(1,10) by (simp add: pc_lists_def)
  show "span_list (spans pc') k (map_at k (freeSpans pc')) ((fl(numPages t := q # fl (numPages t))) k)" for k
    using l [of k] l [of "numPages t"] assms(3,7-10) by (simp add: sp)
  show "dom (spans pc') = U \<union> (\<Union>k. set ((fl(numPages t := q # fl (numPages t))) k))"
    using assms(1,6,9) by (auto simp: pc_lists_def split: if_splits)
  show "U \<inter> set ((fl(numPages t := q # fl (numPages t))) k) = {}" for k
    using assms(1,2) by (auto simp: pc_lists_def)
qed

lemma same_start:
  assumes "spans_ok sp" and "sp a = Some s" and "sp b = Some t" and "pageAddr s = pageAddr t"
  shows "a = b"
proof (rule ccontr)
  assume "a \<noteq> b"
  then have "region s \<inter> region t = {}" using assms(1-3) unfolding spans_ok_def by blast
  moreover have "0 < unat (numPages s)" "0 < unat (numPages t)"
    using assms(1-3) by (auto simp: spans_ok_def word_less_nat_alt)
  then have "unat (pageAddr s) \<in> region s \<inter> region t" using assms(4) by (simp add: region_def)
  ultimately show False by simp
qed

lemma pc_map_use:
  assumes "pc_map pc U" and "spans_ok (spans pc)" and "spans pc a = Some s"
    and "spans pc' = spans pc" and "spanMap pc' = (spanMap pc)(pageAddr s \<mapsto> a)"
  shows "pc_map pc' (insert a U)"
  unfolding pc_map_def assms(4,5)
proof (intro conjI allI impI)
  show "\<exists>s. spans pc b = Some s \<and> pageAddr s = p" if "((spanMap pc)(pageAddr s \<mapsto> a)) p = Some b" for p b
    using that assms(1,3) by (cases "p = pageAddr s") (auto simp: pc_map_def)
  show "((spanMap pc)(pageAddr s \<mapsto> a)) (pageAddr t) = Some b" if "b \<in> insert a U" "spans pc b = Some t" for b t
  proof (cases "b = a")
    case False
    then show ?thesis using that assms(1) same_start [OF assms(2,3) that(2)] by (auto simp: pc_map_def)
  qed (use that assms(3) in simp)
qed

lemma pc_map_resize:
  assumes "pc_map pc U" and "U \<subseteq> dom (spans pc)" and "spanMap pc' = spanMap pc"
    and "\<And>b s. spans pc b = Some s \<Longrightarrow> \<exists>s'. spans pc' b = Some s' \<and> pageAddr s' = pageAddr s"
  shows "pc_map pc' U"
  unfolding pc_map_def assms(3)
proof (intro conjI allI impI)
  show "\<exists>s. spans pc' b = Some s \<and> pageAddr s = p" if "spanMap pc p = Some b" for p b
    using assms(1) that assms(4) unfolding pc_map_def by blast
  show "spanMap pc (pageAddr t) = Some b" if b: "b \<in> U" "spans pc' b = Some t" for b t
  proof -
    from b(1) assms(2) obtain s where s: "spans pc b = Some s" by auto
    with assms(4) [OF s] b(2) have "pageAddr t = pageAddr s" by auto
    then show ?thesis using assms(1) b(1) s by (simp add: pc_map_def)
  qed
qed

text \<open>Cutting a span in two: what the objects, \<open>new\<close> and \<open>mmap\<close> promise carries over.\<close>

lemma spans_ok_split:
  assumes ok: "spans_ok sp" and s: "sp a = Some s" and n: "0 < n" "n < numPages s" and q: "sp q = None" "q \<noteq> 0"
    and t: "pageAddr t = pageAddr s + n * PAGE_SIZE" "numPages t = numPages s - n"
  shows "spans_ok (sp(q \<mapsto> t, a \<mapsto> s\<lparr>numPages := n\<rparr>))" (is "spans_ok ?sp")
    and "region t \<subseteq> region s" and "region (s\<lparr>numPages := n\<rparr>) \<subseteq> region s"
proof -
  have fits: "unat (pageAddr s) + 4096 * unat (numPages s) < 2 ^ 64" "pageAddr s \<noteq> 0" "a \<noteq> 0"
    using ok s by (auto simp: spans_ok_def)
  have lt: "unat n < unat (numPages s)" "0 < unat n" using n by (auto simp: word_less_nat_alt)
  note u = region_split [OF fits(1) n(2)]
  have rt: "region t = {unat (pageAddr s) + 4096 * unat n..<unat (pageAddr s) + 4096 * unat (numPages s)}"
    unfolding region_def t u using lt(1) by (simp add: diff_mult_distrib2)
  show sub: "region t \<subseteq> region s" "region (s\<lparr>numPages := n\<rparr>) \<subseteq> region s"
    unfolding rt using lt by (auto simp: region_def)
  have halves: "region t \<inter> region (s\<lparr>numPages := n\<rparr>) = {}" unfolding rt by (auto simp: region_def)
  have old: "region s \<inter> region r = {}" if "sp b = Some r" "b \<noteq> a" for b r
    using ok s that unfolding spans_ok_def by blast
  have t_ok: "pageAddr t \<noteq> 0" "0 < numPages t" "unat (pageAddr t) + 4096 * unat (numPages t) < 2 ^ 64"
    using lt fits u t by (auto simp: word_less_nat_alt word_unat_eq_iff diff_mult_distrib2)
  show "spans_ok ?sp"
    unfolding spans_ok_def
  proof (intro conjI allI impI)
    fix b r assume b: "?sp b = Some r"
    show "b \<noteq> 0" "pageAddr r \<noteq> 0" "0 < numPages r" "unat (pageAddr r) + 4096 * unat (numPages r) < 2 ^ 64"
      using b ok q(2) t_ok fits n(1) lt(1) by (auto simp: spans_ok_def split: if_splits)
  next
    fix b c r r' assume bc: "?sp b = Some r" "?sp c = Some r'" "b \<noteq> c"
    have in_s: "region x \<subseteq> region s \<and> (y = a \<or> y = q)" if "?sp y = Some x" "y = a \<or> y = q" for x y
      using that sub by (auto split: if_splits)
    have new: "sp y = Some x \<and> y \<noteq> a" if "?sp y = Some x" "\<not> (y = a \<or> y = q)" for x y
      using that by (auto split: if_splits)
    consider "b \<in> {a, q}" "c \<in> {a, q}" | "b \<in> {a, q}" "c \<notin> {a, q}" | "b \<notin> {a, q}" "c \<in> {a, q}" | "b \<notin> {a, q}" "c \<notin> {a, q}"
      by blast
    then show "region r \<inter> region r' = {}"
    proof cases
      case 1
      with bc halves s q show ?thesis by (auto split: if_splits)
    next
      case 2
      with in_s [OF bc(1)] new [OF bc(2)] old show ?thesis by blast
    next
      case 3
      with in_s [OF bc(2)] new [OF bc(1)] old show ?thesis by blast
    next
      case 4
      with new [OF bc(1)] new [OF bc(2)] bc(3) ok show ?thesis unfolding spans_ok_def by blast
    qed
  qed
qed

lemma fresh_mmap_shrink:
  assumes "fresh_mmap pc" and "sys_mmap pc' = sys_mmap pc" and "mmap_calls pc' = mmap_calls pc"
    and "\<And>a s. spans pc' a = Some s \<Longrightarrow> region s \<subseteq> (\<Union>b\<in>dom (spans pc). region (the (spans pc b)))"
  shows "fresh_mmap pc'"
proof -
  have "region s \<inter> {unat p..<unat p + unat z} = {}"
    if "mmap_calls pc \<le> n" "sys_mmap pc n z = Some p" "spans pc' a = Some s" for n z p a s
  proof -
    have "\<forall>b t. spans pc b = Some t \<longrightarrow> region t \<inter> {unat p..<unat p + unat z} = {}"
      using assms(1) that(1,2) unfolding fresh_mmap_def by blast
    then show ?thesis using assms(4) [OF that(3)] by fastforce
  qed
  then show ?thesis using assms(1) unfolding fresh_mmap_def assms(2,3) by blast
qed

lemma fresh_mmapD:
  assumes "fresh_mmap pc" and "mmap_calls pc \<le> n" and "sys_mmap pc n z = Some p"
  shows "p \<noteq> 0" and "unat p + unat z < 2 ^ 64" and "spans pc a = Some s \<Longrightarrow> region s \<inter> {unat p..<unat p + unat z} = {}"
  using assms unfolding fresh_mmap_def by blast+

lemma fresh_mmap_twice:
  assumes "fresh_mmap pc" and "mmap_calls pc \<le> m" and "m < n" and "sys_mmap pc m y = Some p" and "sys_mmap pc n z = Some q"
  shows "{unat p..<unat p + unat y} \<inter> {unat q..<unat q + unat z} = {}"
  using assms unfolding fresh_mmap_def by blast

lemma fresh_mmap_step:
  assumes "fresh_mmap pc" and "sys_mmap pc' = sys_mmap pc" and "mmap_calls pc' = Suc (mmap_calls pc)"
    and "\<And>a s. spans pc' a = Some s \<Longrightarrow> spans pc a = Some s \<or>
           (\<exists>p z. sys_mmap pc (mmap_calls pc) z = Some p \<and> region s = {unat p..<unat p + unat z})"
  shows "fresh_mmap pc'"
proof -
  have *: "mmap_calls pc \<le> n" if "Suc (mmap_calls pc) \<le> n" for n using that by simp
  have "region s \<inter> {unat p..<unat p + unat z} = {}"
    if "Suc (mmap_calls pc) \<le> n" "sys_mmap pc n z = Some p" "spans pc' a = Some s" for n z p a s
    using assms(4) [OF that(3)]
  proof
    assume "spans pc a = Some s"
    then show ?thesis using assms(1) * [OF that(1)] that(2) unfolding fresh_mmap_def by blast
  next
    assume "\<exists>p z. sys_mmap pc (mmap_calls pc) z = Some p \<and> region s = {unat p..<unat p + unat z}"
    then obtain q y where q: "sys_mmap pc (mmap_calls pc) y = Some q" "region s = {unat q..<unat q + unat y}" by blast
    have "mmap_calls pc < n" using that(1) by simp
    then show ?thesis using assms(1) q(1) that(2) unfolding fresh_mmap_def q(2) by blast
  qed
  then show ?thesis
    unfolding fresh_mmap_def assms(2,3)
    using fresh_mmapD [OF assms(1) *] fresh_mmap_twice [OF assms(1) *] by (intro conjI allI impI) metis+
qed

lemma fresh_new_step:
  assumes "fresh_new pc" and "new_span t pc = ret (q, pc')"
  shows "q \<noteq> 0" and "q \<notin> dom (spans pc)" and "fresh_new pc'"
    and "pc' = pc\<lparr>spans := (spans pc)(q \<mapsto> t), new_calls := Suc (new_calls pc)\<rparr>"
proof -
  have q: "q = sys_new pc (new_calls pc)" "q \<noteq> 0"
    and pc': "pc' = pc\<lparr>spans := (spans pc)(q \<mapsto> t), new_calls := Suc (new_calls pc)\<rparr>"
    using assms(2) by (auto simp: new_span_def Let_def split: if_splits)
  show "q \<noteq> 0" "q \<notin> dom (spans pc)" "pc' = pc\<lparr>spans := (spans pc)(q \<mapsto> t), new_calls := Suc (new_calls pc)\<rparr>"
    using q pc' assms(1) by (auto simp: fresh_new_def)
  have "sys_new pc n \<noteq> q" if "Suc (new_calls pc) \<le> n" for n
    using assms(1) q that unfolding fresh_new_def by (metis Suc_le_lessD le_refl)
  then show "fresh_new pc'" using assms(1) unfolding fresh_new_def pc' by auto
qed

text \<open>The result of a successful request for \<open>n\<close> pages while the spans \<open>U\<close> are in use.\<close>

definition handed_out :: "addr set \<Rightarrow> size_t \<Rightarrow> 'a page_cache_scheme \<Rightarrow> addr \<Rightarrow> 'a page_cache_scheme \<Rightarrow> bool" where
  "handed_out U n pc p pc' \<longleftrightarrow>
     (\<exists>a s. a \<notin> U \<and> spans pc' a = Some s \<and> pageAddr s = p \<and> numPages s = n \<and> p \<noteq> 0 \<and>
        pc_inv pc' (insert a U) \<and> (\<forall>b\<in>U. spans pc' b = spans pc b))"

lemma pc_invD:
  assumes "pc_inv pc U"
  shows "spans_ok (spans pc)" and "fresh_new pc" and "fresh_mmap pc" and "pc_map pc U"
  using assms by (simp_all add: pc_inv_def)

lemma used_span: "pc_inv pc U \<Longrightarrow> a \<in> U \<Longrightarrow> \<exists>s. spans pc a = Some s"
  unfolding pc_inv_def pc_lists_def by blast

lemma region_self: "spans pc a = Some s \<Longrightarrow> region s \<subseteq> (\<Union>b\<in>dom (spans pc). region (the (spans pc b)))"
  by (auto intro!: bexI [of _ a])

lemma free_span_unused: "pc_lists pc U fl \<Longrightarrow> map_at k (freeSpans pc) = a \<Longrightarrow> a \<noteq> 0 \<Longrightarrow> a \<notin> U \<and> a \<in> dom (spans pc)"
proof -
  assume fl: "pc_lists pc U fl" and a: "map_at k (freeSpans pc) = a" "a \<noteq> 0"
  then have "span_list (spans pc) k a (fl k)" by (auto simp: pc_lists_def)
  from span_list_head [OF this a(2)] have "a \<in> set (fl k)" by auto
  moreover have "U \<inter> set (fl k) = {}" "dom (spans pc) = U \<union> (\<Union>k. set (fl k))" using fl by (simp_all add: pc_lists_def)
  ultimately show ?thesis by blast
qed

lemma allocateSpan_free:
  assumes inv: "pc_inv pc U" and n: "0 < n" and lb: "lower_bound n (freeSpans pc) = Some (k, a)" and a: "a \<noteq> 0"
    and new: "sys_new pc (new_calls pc) \<noteq> 0"
  shows "\<exists>p pc'. allocateSpan n pc = ret (p, pc') \<and> handed_out U n pc p pc'"
proof -
  obtain fl where fl: "pc_lists pc U fl" using inv by (auto simp: pc_inv_def)
  have ka: "n \<le> k" "map_at k (freeSpans pc) = a"
    using lower_bound_Some [OF lb] fl by (simp_all add: pc_lists_def)
  note ok = pc_invD [OF inv]
  from free_span_unused [OF fl ka(2) a] obtain s where aU: "a \<notin> U" and s: "spans pc a = Some s" by auto
  define fs where "fs = (if sp_next s \<noteq> 0 then map_put k (sp_next s) (freeSpans pc) else map_erase k (freeSpans pc))"
  define pc1 where "pc1 = pc\<lparr>freeSpans := fs\<rparr>"
  have "keys_sorted fs" "map_at j fs = (if j = k then sp_next s else map_at j (freeSpans pc))" for j
    using fl by (simp_all add: fs_def pc_lists_def)
  from pc_lists_take [OF fl ka(2) a s this] obtain fl1 where k: "numPages s = k" and fl1: "pc_lists pc1 (insert a U) fl1"
    unfolding pc1_def by blast
  have p: "pageAddr s \<noteq> 0" using ok(1) s by (auto simp: spans_ok_def)
  show ?thesis
  proof (cases "n < numPages s")
    case False
    with ka(1) k have "numPages s = n" by simp
    let ?pc = "pc1\<lparr>spanMap := (spanMap pc1)(pageAddr s \<mapsto> a)\<rparr>"
    have "allocateSpan n pc = ret (pageAddr s, ?pc)"
      using lb s False by (simp add: allocateSpan_def fs_def pc1_def Let_def)
    moreover have "pc_inv ?pc (insert a U)"
      using ok fl1 pc_map_use [OF ok(4,1) s, of ?pc] unfolding pc_inv_def
      by (auto simp: pc1_def fresh_new_def fresh_mmap_def pc_lists_def)
    ultimately show ?thesis
      using s aU p \<open>numPages s = n\<close> by (auto simp: handed_out_def pc1_def)
  next
    case True
    let ?t = "\<lparr>sp_next = map_at (numPages s - n) fs, pageAddr = pageAddr s + n * PAGE_SIZE, numPages = numPages s - n\<rparr>"
    obtain q pc2 where q: "new_span ?t pc1 = ret (q, pc2)"
      using new by (simp add: new_span_def pc1_def Let_def)
    have f1: "fresh_new pc1" using ok(2) by (simp add: fresh_new_def pc1_def)
    note q' = fresh_new_step [OF f1 q]
    let ?sp = "(spans pc)(q \<mapsto> ?t, a \<mapsto> s\<lparr>numPages := n\<rparr>)"
    let ?pc = "pc2\<lparr>freeSpans := map_put (numPages s - n) q fs, spans := ?sp, spanMap := (spanMap pc2)(pageAddr s \<mapsto> a)\<rparr>"
    have run: "allocateSpan n pc = ret (pageAddr s, ?pc)"
      using lb s True q q'(4) by (simp add: allocateSpan_def fs_def pc1_def Let_def)
    have qn: "spans pc q = None" "q \<noteq> a" using q'(2) s by (auto simp: pc1_def)
    note sp = spans_ok_split [OF ok(1) s n True qn(1) q'(1), of ?t, simplified]
    have "fresh_mmap ?pc"
      by (rule fresh_mmap_shrink [OF ok(3)])
        (use q'(4) region_self [OF s] sp(2,3) region_self [of pc] in \<open>auto simp: pc1_def split: if_splits\<close>)
    moreover have "fresh_new ?pc"
      using q'(3,4) s by (auto simp: fresh_new_def pc1_def)
    moreover have "pc_map ?pc (insert a U)"
    proof (rule pc_map_resize [OF pc_map_use [OF ok(4,1) s, of "pc\<lparr>spanMap := (spanMap pc)(pageAddr s \<mapsto> a)\<rparr>"]])
      show "insert a U \<subseteq> dom (spans (pc\<lparr>spanMap := (spanMap pc)(pageAddr s \<mapsto> a)\<rparr>))"
        using fl1 by (auto simp: pc_lists_def pc1_def)
    qed (use qn s q'(4) in \<open>auto simp: pc1_def\<close>)
    moreover have q1: "q \<notin> insert a U \<union> (\<Union>j. set (fl1 j))" using fl1 qn by (auto simp: pc_lists_def pc1_def)
    then have "pc_lists ?pc (insert a U) (fl1(numPages s - n := q # fl1 (numPages s - n)))"
      using s qn q' by (intro pc_lists_push [OF fl1, of q ?sp ?t, simplified]) (auto simp: pc1_def)
    ultimately have "pc_inv ?pc (insert a U)" using sp(1) unfolding pc_inv_def by auto
    moreover have "\<forall>b\<in>U. spans ?pc b = spans pc b" using q1 aU by auto
    ultimately have "handed_out U n pc (pageAddr s) ?pc"
      unfolding handed_out_def using aU p by (intro exI [of _ a] exI [of _ "s\<lparr>numPages := n\<rparr>"]) simp
    with run show ?thesis by blast
  qed
qed

lemma allocateSpan_mmap:
  assumes inv: "pc_inv pc U" and n: "0 < n" "unat n * 4096 < 2 ^ 64" and lb: "lower_bound n (freeSpans pc) = None"
    and mm: "sys_mmap pc (mmap_calls pc) (n * PAGE_SIZE) = Some p" and new: "sys_new pc (new_calls pc) \<noteq> 0"
  shows "\<exists>pc'. allocateSpan n pc = ret (p, pc') \<and> handed_out U n pc p pc'"
proof -
  obtain fl where fl: "pc_lists pc U fl" using inv by (auto simp: pc_inv_def)
  note ok = pc_invD [OF inv]
  let ?z = "n * PAGE_SIZE"
  define pc1 where "pc1 = pc\<lparr>mmap_calls := Suc (mmap_calls pc), mem := (\<lambda>a. if a - p < ?z then 0 else mem pc a)\<rparr>"
  let ?t = "\<lparr>sp_next = 0, pageAddr = p, numPages = n\<rparr>"
  obtain q pc2 where q: "new_span ?t pc1 = ret (q, pc2)" using new by (simp add: new_span_def pc1_def Let_def)
  have z: "unat ?z = 4096 * unat n" using n(2) by (simp add: PAGE_SIZE_def unat_word_ariths mult.commute)
  note mm' = fresh_mmapD [OF ok(3) le_refl mm]
  have p: "p \<noteq> 0" "unat p + 4096 * unat n < 2 ^ 64" using mm'(1,2) by (simp_all add: z)
  have disj: "region s \<inter> region ?t = {}" if "spans pc a = Some s" for a s
  proof -
    have "region ?t = {unat p..<unat p + unat ?z}" by (simp add: region_def z)
    with mm'(3) [OF that] show ?thesis by simp
  qed
  have f1: "fresh_new pc1" using ok(2) by (simp add: fresh_new_def pc1_def)
  note q' = fresh_new_step [OF f1 q]
  let ?pc = "pc2\<lparr>spanMap := (spanMap pc2)(p \<mapsto> q)\<rparr>"
  have sp: "spans ?pc = (spans pc)(q \<mapsto> ?t)" using q'(4) by (simp add: pc1_def)
  have run: "allocateSpan n pc = ret (p, ?pc)"
    using lb mm p q by (simp add: allocateSpan_def systemAlloc_def pc1_def Let_def)
  have qn: "spans pc q = None" using q'(2) by (auto simp: pc1_def)
  have "spans_ok (spans ?pc)"
    unfolding spans_ok_def sp using ok(1) qn q'(1) n(1) p disj by (auto simp: spans_ok_def)
  moreover have "fresh_new ?pc" using q'(3) by (simp add: fresh_new_def)
  moreover have "fresh_mmap ?pc"
  proof (rule fresh_mmap_step [OF ok(3)])
    have "region ?t = {unat p..<unat p + unat ?z}" by (simp add: region_def z)
    then show "spans pc a = Some s \<or> (\<exists>p z. sys_mmap pc (mmap_calls pc) z = Some p \<and> region s = {unat p..<unat p + unat z})"
      if "spans ?pc a = Some s" for a s
      using that mm unfolding sp by (auto split: if_splits)
  qed (use q'(4) in \<open>auto simp: pc1_def\<close>)
  moreover have "pc_map ?pc (insert q U)"
    unfolding pc_map_def
  proof (intro conjI allI impI)
    have m: "spanMap ?pc = (spanMap pc)(p \<mapsto> q)" using q'(4) by (simp add: pc1_def)
    show "\<exists>s. spans ?pc b = Some s \<and> pageAddr s = r" if "spanMap ?pc r = Some b" for r b
    proof (cases "r = p")
      case False
      then have "spanMap pc r = Some b" using that m by simp
      then obtain s where "spans pc b = Some s" "pageAddr s = r" using ok(4) unfolding pc_map_def by blast
      then show ?thesis using qn unfolding sp by auto
    qed (use that m sp in simp)
    show "spanMap ?pc (pageAddr s) = Some b" if "b \<in> insert q U" "spans ?pc b = Some s" for b s
    proof (cases "b = q")
      case False
      with that(2) sp have s: "spans pc b = Some s" by simp
      have "0 < unat (numPages s)" "0 < unat n" using ok(1) s n(1) by (auto simp: spans_ok_def word_less_nat_alt)
      then have "unat (pageAddr s) \<in> region s" "unat p \<in> region ?t" by (auto simp: region_def)
      with disj [OF s] have "pageAddr s \<noteq> p" by auto
      then show ?thesis using False that(1) s ok(4) unfolding m by (auto simp: pc_map_def)
    qed (use that sp m in auto)
  qed
  moreover have "pc_lists ?pc (insert q U) fl"
  proof -
    have "q \<notin> set (fl k)" for k using fl qn by (auto simp: pc_lists_def)
    moreover have "freeSpans ?pc = freeSpans pc" using q'(4) by (simp add: pc1_def)
    ultimately show ?thesis using fl unfolding pc_lists_def sp by auto
  qed
  ultimately have "pc_inv ?pc (insert q U)" unfolding pc_inv_def by blast
  moreover have qU: "q \<notin> U" using fl qn by (auto simp: pc_lists_def)
  ultimately have "handed_out U n pc p ?pc"
    unfolding handed_out_def sp using p qU by (intro exI [of _ q] exI [of _ ?t]) auto
  with run show ?thesis by blast
qed

lemma allocateSpan_ok:
  assumes inv: "pc_inv pc U" and n: "0 < n" "unat n * 4096 < 2 ^ 64"
    and heads: "\<And>k. lower_bound n (freeSpans pc) \<noteq> Some (k, 0)" and new: "sys_new pc (new_calls pc) \<noteq> 0"
  shows "\<exists>p pc'. allocateSpan n pc = ret (p, pc') \<and>
    (p = 0 \<and> sys_mmap pc (mmap_calls pc) (n * PAGE_SIZE) = None \<and> pc_inv pc' U \<or>
     (\<exists>a s. a \<notin> U \<and> spans pc' a = Some s \<and> pageAddr s = p \<and> p \<noteq> 0 \<and> numPages s = n \<and> pc_inv pc' (insert a U) \<and>
        (\<forall>b\<in>U. spans pc' b = spans pc b \<and> region s \<inter> region (the (spans pc b)) = {})))"
proof -
  have span: ?thesis if "allocateSpan n pc = ret (p, pc')" and "handed_out U n pc p pc'" for p pc'
  proof -
    from that(2) obtain a s where 1: "a \<notin> U" "spans pc' a = Some s" "pageAddr s = p" "numPages s = n" "p \<noteq> 0"
      "pc_inv pc' (insert a U)" "\<forall>b\<in>U. spans pc' b = spans pc b"
      unfolding handed_out_def by blast
    have "region s \<inter> region (the (spans pc b)) = {}" if b: "b \<in> U" for b
    proof -
      obtain t where "spans pc b = Some t" using used_span [OF inv b] by blast
      moreover have "a \<noteq> b" using 1(1) b by auto
      ultimately show ?thesis using pc_invD(1) [OF 1(6)] 1(2,7) b unfolding spans_ok_def by (metis option.sel)
    qed
    with 1 that(1) show ?thesis by blast
  qed
  show ?thesis
  proof (cases "lower_bound n (freeSpans pc)")
    case None
    show ?thesis
    proof (cases "sys_mmap pc (mmap_calls pc) (n * PAGE_SIZE)")
      case (Some p)
      from allocateSpan_mmap [OF inv n None this new] span show ?thesis by blast
    next
      case no: None
      let ?pc = "pc\<lparr>mmap_calls := Suc (mmap_calls pc)\<rparr>"
      have "fresh_mmap ?pc" by (rule fresh_mmap_step [OF pc_invD(3) [OF inv]]) auto
      then have "pc_inv ?pc U" using inv by (auto simp: pc_inv_def fresh_new_def pc_map_def pc_lists_def)
      moreover have "allocateSpan n pc = ret (0, ?pc)"
        using None no by (simp add: allocateSpan_def systemAlloc_def)
      ultimately show ?thesis using no by blast
    qed
  next
    case (Some ka)
    obtain k a where ka: "ka = (k, a)" by (cases ka)
    with heads Some have "a \<noteq> 0" by auto
    from allocateSpan_free [OF inv n(1) Some [unfolded ka] this new] span show ?thesis by blast
  qed
qed

text \<open>
  Property C30. A request for pages gets pages of its own. While the map of free lists has no null
  pointer under the key that is found, \<open>allocateSpan n\<close> returns the start of a span of exactly \<open>n\<close> pages that overlaps no
  span in use, whether it is taken whole, cut off a larger one or new from the system, and the
  invariant of the page cache holds again; or it returns null, because the system has no memory.
\<close>

theorem allocateSpan_correct:
  assumes "pc_inv pc U" and "0 < n" "unat n * 4096 < 2 ^ 64"
    and "\<And>k. lower_bound n (freeSpans pc) \<noteq> Some (k, 0)" and "sys_new pc (new_calls pc) \<noteq> 0"
  shows "\<exists>p pc'. allocateSpan n pc = ret (p, pc') \<and>
    (p = 0 \<and> sys_mmap pc (mmap_calls pc) (n * PAGE_SIZE) = None \<and> pc_inv pc' U \<or>
     (\<exists>a s. a \<notin> U \<and> spans pc' a = Some s \<and> pageAddr s = p \<and> p \<noteq> 0 \<and> numPages s = n \<and> pc_inv pc' (insert a U) \<and>
        (\<forall>b\<in>U. spans pc' b = spans pc b \<and> region s \<inter> region (the (spans pc b)) = {})))"
  using assms by (rule allocateSpan_ok)

section \<open>Taking a span back\<close>

lemma pc_lists_drop:
  assumes "pc_lists pc U fl" and "a \<in> U"
  shows "pc_lists (pc\<lparr>spans := (spans pc)(a := None)\<rparr>) (U - {a}) fl"
proof -
  have "a \<notin> set (fl k)" for k using assms by (auto simp: pc_lists_def)
  then show ?thesis using assms unfolding pc_lists_def by auto
qed

text \<open>Only links may differ.\<close>

definition relinked :: "(addr \<rightharpoonup> span) \<Rightarrow> (addr \<rightharpoonup> span) \<Rightarrow> bool" where
  "relinked sp sp' \<longleftrightarrow> (\<forall>a. (sp' a = None) = (sp a = None)) \<and>
     (\<forall>a s s'. sp a = Some s \<longrightarrow> sp' a = Some s' \<longrightarrow> pageAddr s' = pageAddr s \<and> numPages s' = numPages s)"

lemma relinked_refl [simp]: "relinked sp sp"
  by (simp add: relinked_def)

lemma relinked_upd: "sp a = Some s \<Longrightarrow> relinked sp (sp(a \<mapsto> s\<lparr>sp_next := x\<rparr>))"
  by (auto simp: relinked_def)

lemma relinkedD:
  assumes "relinked sp sp'" and "sp a = Some s"
  shows "\<exists>s'. sp' a = Some s' \<and> pageAddr s' = pageAddr s \<and> numPages s' = numPages s"
proof -
  have "sp' a \<noteq> None" using assms by (simp add: relinked_def)
  then obtain s' where "sp' a = Some s'" by blast
  with assms show ?thesis unfolding relinked_def by blast
qed

lemma relinked_dom: "relinked sp sp' \<Longrightarrow> dom sp' = dom sp"
  by (auto simp: relinked_def dom_def)

lemma unlink_span_miss: "span_list sp k p (p # xs) \<Longrightarrow> b \<notin> set xs \<Longrightarrow> unlink_span b sp p = Some (False, sp)"
proof (induction xs arbitrary: p)
  case Nil
  then show ?case by (subst unlink_span.simps) auto
next
  case (Cons x xs)
  then have "unlink_span b sp x = Some (False, sp)" by (intro Cons.IH) auto
  with Cons.prems show ?case by (subst unlink_span.simps) auto
qed

lemma unlink_span_hit:
  "span_list sp k p (p # xs) \<Longrightarrow> b \<in> set xs \<Longrightarrow>
     \<exists>sp'. unlink_span b sp p = Some (True, sp') \<and> span_list sp' k p (p # remove1 b xs) \<and> relinked sp sp' \<and>
       (\<forall>y. y \<notin> set (p # remove1 b xs) \<longrightarrow> sp' y = sp y)"
proof (induction xs arbitrary: p)
  case (Cons x xs)
  obtain s where s: "sp p = Some s" "sp_next s = x" "numPages s = k" "x \<noteq> 0" "p \<noteq> 0"
    and tl: "span_list sp k x (x # xs)" using Cons.prems(1) by auto
  have d: "distinct (p # x # xs)" by (rule span_list_distinct [OF Cons.prems(1)])
  show ?case
  proof (cases "x = b")
    case True
    obtain t where t: "sp b = Some t" "span_list sp k (sp_next t) xs" using tl True by auto
    let ?sp = "sp(p \<mapsto> s\<lparr>sp_next := sp_next t\<rparr>)"
    have "unlink_span b sp p = Some (True, ?sp)" using s t True by (subst unlink_span.simps) simp
    moreover have "span_list ?sp k p (p # xs)" using s t d by simp
    ultimately show ?thesis using True relinked_upd [of sp p s "sp_next t", OF s(1)] by auto
  next
    case False
    then obtain sp' where IH: "unlink_span b sp x = Some (True, sp')" "span_list sp' k x (x # remove1 b xs)" "relinked sp sp'"
      "\<forall>y. y \<notin> set (x # remove1 b xs) \<longrightarrow> sp' y = sp y"
      using Cons.IH [OF tl] Cons.prems(2) by auto
    have "sp' p = sp p" using IH(4) d notin_set_remove1 [of p xs b] by auto
    moreover have "unlink_span b sp p = Some (True, sp')"
      using s False IH(1) by (subst unlink_span.simps) simp
    ultimately show ?thesis using IH(2-4) s False by auto
  qed
qed simp

text \<open>
  Looking for a span on its free list: found exactly if it is not in use, and then it is off the list.
\<close>

lemma take_free_ok:
  assumes fl: "pc_lists pc U fl" and t: "spans pc b = Some t" and b: "b \<noteq> 0"
  shows "\<exists>pc1 fl1 fs sp. take_free b t pc = ret (b \<notin> U, pc1) \<and> pc1 = pc\<lparr>freeSpans := fs, spans := sp\<rparr> \<and>
    pc_lists pc1 (insert b U) fl1 \<and> relinked (spans pc) sp \<and> (\<forall>a\<in>insert b U. sp a = spans pc a)"
proof -
  define k where "k = numPages t"
  let ?l = "map_at k (freeSpans pc)"
  have l: "span_list (spans pc) j (map_at j (freeSpans pc)) (fl j)" for j using fl by (simp add: pc_lists_def)
  have disj: "U \<inter> set (fl j) = {}" for j using fl by (simp add: pc_lists_def)
  have keys: "keys_sorted (freeSpans pc)" using fl by (simp add: pc_lists_def)
  have in_list: "b \<in> set (fl k)" if nb: "b \<notin> U"
  proof -
    have "b \<in> U \<union> (\<Union>k. set (fl k))" using fl t by (auto simp: pc_lists_def)
    then obtain j where j: "b \<in> set (fl j)" using nb by auto
    with span_list_size [OF l j t] show ?thesis by (simp add: k_def)
  qed
  consider (used) "b \<in> U" | (head) "b \<notin> U" "?l = b" | (behind) x xs where "b \<notin> U" "fl k = x # xs" "?l = x" "b \<in> set xs" "x \<noteq> b"
    using in_list l [of k] by (cases "fl k") auto
  then show ?thesis
  proof cases
    case used
    let ?pc = "pc\<lparr>freeSpans := map_put k ?l (freeSpans pc), spans := spans pc\<rparr>"
    have "?l \<noteq> b" using free_span_unused [OF fl, of k ?l] used b by auto
    moreover have "unlink_span b (spans pc) ?l = Some (False, spans pc)" if "?l \<noteq> 0"
    proof -
      from span_list_head [OF l [of k] that] obtain xs where xs: "fl k = ?l # xs" by blast
      then show ?thesis using l [of k] disj [of k] used by (intro unlink_span_miss [of _ k _ xs]) auto
    qed
    ultimately have "take_free b t pc = ret (b \<notin> U, ?pc)"
      using used by (simp add: take_free_def Let_def k_def)
    moreover have "pc_lists ?pc (insert b U) fl"
      using fl used by (simp add: pc_lists_def insert_absorb)
    ultimately show ?thesis using relinked_refl by blast
  next
    case head
    let ?fs = "map_put k (sp_next t) (freeSpans pc)"
    from pc_lists_take [OF fl head(2) b t, of ?fs] keys
    obtain fl' where "pc_lists (pc\<lparr>freeSpans := ?fs, spans := spans pc\<rparr>) (insert b U) fl'" by auto
    moreover have "take_free b t pc = ret (b \<notin> U, pc\<lparr>freeSpans := ?fs, spans := spans pc\<rparr>)"
      using head by (simp add: take_free_def k_def)
    ultimately show ?thesis using relinked_refl by blast
  next
    case behind
    obtain sp where sp: "unlink_span b (spans pc) x = Some (True, sp)" "span_list sp k x (x # remove1 b xs)"
      "relinked (spans pc) sp" "\<forall>y. y \<notin> set (x # remove1 b xs) \<longrightarrow> sp y = spans pc y"
      using unlink_span_hit [of "spans pc" k x xs b] l [of k] behind by auto
    let ?pc = "pc\<lparr>freeSpans := map_put k x (freeSpans pc), spans := sp\<rparr>" and ?xs = "x # remove1 b xs"
    have d: "distinct (x # xs)" using span_list_distinct [OF l [of k]] behind(2) by simp
    then have bx: "set ?xs = set (fl k) - {b}" using behind by auto
    have "x \<noteq> 0" using l [of k] behind by auto
    then have "take_free b t pc = ret (b \<notin> U, ?pc)"
      using behind sp(1) by (simp add: take_free_def Let_def k_def)
    moreover have "pc_lists ?pc (insert b U) (fl(k := ?xs))"
      unfolding pc_lists_def
    proof (intro conjI allI)
      show "keys_sorted (freeSpans ?pc)" using keys by simp
      show "span_list (spans ?pc) j (map_at j (freeSpans ?pc)) ((fl(k := ?xs)) j)" for j
      proof (cases "j = k")
        case False
        have "y \<notin> set ?xs" if "y \<in> set (fl j)" for y
          using span_list_size [OF l that] span_list_size [OF l [of k], of y] False bx that l [of j]
          by (auto simp: span_list_def)
        then have "span_list sp j p (fl j) = span_list (spans pc) j p (fl j)" for p
          by (intro span_list_cong) (use sp(4) in blast)
        then show ?thesis using False l [of j] by simp
      qed (use sp(2) in simp)
      have "(\<Union>j. set ((fl(k := ?xs)) j)) = (\<Union>j. set (fl j)) - {b}"
      proof -
        have "b \<notin> set (fl j)" if "j \<noteq> k" for j
          using span_list_size [OF l, of b j t] t that by (auto simp: k_def)
        then have "set ((fl(k := ?xs)) j) = set (fl j) - {b}" for j using bx by auto
        then show ?thesis by blast
      qed
      then show "dom (spans ?pc) = insert b U \<union> (\<Union>j. set ((fl(k := ?xs)) j))"
        using relinked_dom [OF sp(3)] fl t by (auto simp: pc_lists_def)
      show "insert b U \<inter> set ((fl(k := ?xs)) j) = {}" for j
        using disj [of j] bx span_list_size [OF l, of b j t] t by (auto simp: k_def)
    qed
    moreover have "\<forall>a\<in>insert b U. sp a = spans pc a" using sp(4) bx disj [of k] by blast
    ultimately show ?thesis using sp(3) by blast
  qed
qed

lemma region_next:
  assumes "unat (pageAddr s) + 4096 * unat (numPages s) < 2 ^ 64"
  shows "unat (pageAddr s + numPages s * PAGE_SIZE) = unat (pageAddr s) + 4096 * unat (numPages s)"
  using assms by (simp add: PAGE_SIZE_def unat_word_ariths mult.commute)

text \<open>Joining two neighbours.\<close>

lemma spans_ok_join:
  assumes ok: "spans_ok sp" and s: "sp a = Some s" and t: "sp b = Some t" and ab: "a \<noteq> b"
    and adj: "pageAddr t = pageAddr s + numPages s * PAGE_SIZE"
  shows "spans_ok (sp(a \<mapsto> s\<lparr>numPages := numPages s + numPages t\<rparr>, b := None))" (is "spans_ok ?sp")
    and "region (s\<lparr>numPages := numPages s + numPages t\<rparr>) = region s \<union> region t"
proof -
  have fits: "unat (pageAddr s) + 4096 * unat (numPages s) < 2 ^ 64" "unat (pageAddr t) + 4096 * unat (numPages t) < 2 ^ 64"
    "0 < unat (numPages s)" using ok s t by (auto simp: spans_ok_def word_less_nat_alt)
  have pt: "unat (pageAddr t) = unat (pageAddr s) + 4096 * unat (numPages s)"
    unfolding adj by (rule region_next [OF fits(1)])
  have sum: "unat (numPages s + numPages t) = unat (numPages s) + unat (numPages t)"
    using fits(2) pt by (simp add: unat_word_ariths)
  show r: "region (s\<lparr>numPages := numPages s + numPages t\<rparr>) = region s \<union> region t"
    by (auto simp: region_def sum pt)
  have old: "region x \<inter> region y = {}" if "sp c = Some x" "sp d = Some y" "c \<noteq> d" for c d x y
    using ok that unfolding spans_ok_def by blast
  show "spans_ok ?sp"
    unfolding spans_ok_def
  proof (intro conjI allI impI)
    fix c x assume c: "?sp c = Some x"
    have "numPages s + numPages t \<noteq> 0" using sum fits(3) by (metis add_is_0 less_numeral_extra(3) unsigned_0)
    then show "c \<noteq> 0" "pageAddr x \<noteq> 0" "0 < numPages x" "unat (pageAddr x) + 4096 * unat (numPages x) < 2 ^ 64"
      using c ok s fits(2) pt sum by (auto simp: spans_ok_def word_neq_0_conv split: if_splits)
  next
    fix c d x y assume cd: "?sp c = Some x" "?sp d = Some y" "c \<noteq> d"
    consider "c = a" "d \<noteq> a" | "d = a" "c \<noteq> a" | "c \<noteq> a" "d \<noteq> a" using cd(3) by blast
    then show "region x \<inter> region y = {}"
    proof cases
      case 1
      then have "x = s\<lparr>numPages := numPages s + numPages t\<rparr>" "sp d = Some y" "d \<noteq> b"
        using cd ab by (auto split: if_splits)
      with old [OF s \<open>sp d = Some y\<close>] old [OF t \<open>sp d = Some y\<close>] 1 r show ?thesis by auto
    next
      case 2
      then have "y = s\<lparr>numPages := numPages s + numPages t\<rparr>" "sp c = Some x" "c \<noteq> b"
        using cd ab by (auto split: if_splits)
      with old [OF s \<open>sp c = Some x\<close>] old [OF t \<open>sp c = Some x\<close>] 2 r show ?thesis by auto
    next
      case 3
      with cd have "sp c = Some x" "sp d = Some y" by (auto split: if_splits)
      with old cd(3) show ?thesis by blast
    qed
  qed
qed

lemma spans_ok_relinked:
  assumes "spans_ok sp" and "relinked sp sp'"
  shows "spans_ok sp'"
proof -
  have *: "\<exists>s. sp a = Some s \<and> pageAddr s = pageAddr s' \<and> numPages s = numPages s'" if "sp' a = Some s'" for a s'
  proof -
    have "sp a \<noteq> None" using that assms(2) by (metis option.distinct(1) relinked_def)
    then show ?thesis using relinkedD [OF assms(2)] that by fastforce
  qed
  show ?thesis
    unfolding spans_ok_def
  proof (intro conjI allI impI)
    fix a s' assume "sp' a = Some s'"
    from * [OF this] show "a \<noteq> 0" "pageAddr s' \<noteq> 0" "0 < numPages s'" "unat (pageAddr s') + 4096 * unat (numPages s') < 2 ^ 64"
      using assms(1) unfolding spans_ok_def by fastforce+
  next
    fix a b s' t' assume ab: "sp' a = Some s'" "sp' b = Some t'" "a \<noteq> b"
    from * [OF ab(1)] * [OF ab(2)] obtain s t where st: "sp a = Some s" "sp b = Some t" "region s = region s'" "region t = region t'"
      by (auto simp: region_def)
    have "region s \<inter> region t = {}" using assms(1) st(1,2) ab(3) unfolding spans_ok_def by blast
    then show "region s' \<inter> region t' = {}" using st by simp
  qed
qed

lemma relinked_region:
  assumes "relinked (spans pc) sp" and "sp a = Some s"
  shows "region s \<subseteq> (\<Union>b\<in>dom (spans pc). region (the (spans pc b)))"
proof -
  have "spans pc a \<noteq> None" using assms by (metis option.distinct(1) relinked_def)
  then obtain t where t: "spans pc a = Some t" by blast
  with relinkedD [OF assms(1) t] assms(2) have "region s = region t" by (auto simp: region_def)
  with region_self [of pc, OF t] show ?thesis by simp
qed

lemma pc_map_relinked:
  assumes "pc_map pc U" and "relinked (spans pc) (spans pc')" and "spanMap pc' = spanMap pc"
  shows "pc_map pc' U"
  unfolding pc_map_def assms(3)
proof (intro conjI allI impI)
  show "\<exists>s. spans pc' b = Some s \<and> pageAddr s = p" if "spanMap pc p = Some b" for p b
    using assms(1) that relinkedD [OF assms(2)] unfolding pc_map_def by metis
  show "spanMap pc (pageAddr s) = Some b" if b: "b \<in> U" "spans pc' b = Some s" for b s
  proof -
    have "spans pc b \<noteq> None" using b(2) assms(2) by (metis option.distinct(1) relinked_def)
    then obtain s0 where s0: "spans pc b = Some s0" by blast
    with relinkedD [OF assms(2) s0] b(2) have "pageAddr s = pageAddr s0" by simp
    then show ?thesis using assms(1) b(1) s0 by (simp add: pc_map_def)
  qed
qed

text \<open>Relinking alone keeps everything but the lists.\<close>

lemma pc_inv_relinked:
  assumes inv: "pc_inv pc U" and "relinked (spans pc) (spans pc')" and "spanMap pc' = spanMap pc"
    and "sys_new pc' = sys_new pc" "new_calls pc' = new_calls pc" "sys_mmap pc' = sys_mmap pc" "mmap_calls pc' = mmap_calls pc"
    and "pc_lists pc' V fl" and "pc_map pc V"
  shows "pc_inv pc' V"
proof -
  note ok = pc_invD [OF inv]
  have "fresh_mmap pc'"
    by (rule fresh_mmap_shrink [OF ok(3) assms(6,7)]) (rule relinked_region [OF assms(2)])
  moreover have "fresh_new pc'" using ok(2) relinked_dom [OF assms(2)] by (simp add: fresh_new_def assms(4,5))
  ultimately show ?thesis
    using spans_ok_relinked [OF ok(1) assms(2)] pc_map_relinked [OF assms(9,2,3)] assms(8) unfolding pc_inv_def by blast
qed

lemma pc_lists_field:
  assumes "pc_lists pc U fl" and "a \<in> U"
  shows "pc_lists (pc\<lparr>spans := (spans pc)(a \<mapsto> x)\<rparr>) U fl"
proof -
  have "a \<notin> set (fl k)" for k using assms by (auto simp: pc_lists_def)
  moreover have "a \<in> dom (spans pc)" using assms by (auto simp: pc_lists_def)
  ultimately show ?thesis using assms unfolding pc_lists_def by auto
qed

text \<open>The neighbour is deleted after its pages were added to the span before it.\<close>

lemma pc_inv_join:
  assumes inv: "pc_inv pc (insert b U)" and a: "a \<in> U" and b: "b \<notin> U" and s: "spans pc a = Some s" and t: "spans pc b = Some t"
    and adj: "pageAddr t = pageAddr s + numPages s * PAGE_SIZE"
  shows "pc_inv (pc\<lparr>spans := (spans pc)(a \<mapsto> s\<lparr>numPages := numPages s + numPages t\<rparr>, b := None),
                    spanMap := (spanMap pc)(pageAddr t := None)\<rparr>) U" (is "pc_inv ?pc U")
proof -
  let ?s = "s\<lparr>numPages := numPages s + numPages t\<rparr>"
  note ok = pc_invD [OF inv]
  obtain fl where fl: "pc_lists pc (insert b U) fl" using inv by (auto simp: pc_inv_def)
  have ab: "a \<noteq> b" using a b by auto
  note join = spans_ok_join [OF ok(1) s t ab adj]
  have "fresh_new ?pc" using ok(2) s by (auto simp: fresh_new_def)
  moreover have "fresh_mmap ?pc"
  proof (rule fresh_mmap_shrink [OF ok(3)])
    show "region x \<subseteq> (\<Union>c\<in>dom (spans pc). region (the (spans pc c)))" if "spans ?pc c = Some x" for c x
      using that join(2) region_self [of pc, OF s] region_self [of pc, OF t] region_self [of pc c] ab
      by (auto split: if_splits)
  qed simp_all
  moreover have "pc_map ?pc U"
    unfolding pc_map_def
  proof (intro conjI allI impI)
    fix p c assume "spanMap ?pc p = Some c"
    then have "p \<noteq> pageAddr t" "spanMap pc p = Some c" by (auto split: if_splits)
    then obtain x where x: "spans pc c = Some x" "pageAddr x = p" using ok(4) unfolding pc_map_def by blast
    with \<open>p \<noteq> pageAddr t\<close> t have "c \<noteq> b" by auto
    with x s show "\<exists>x. spans ?pc c = Some x \<and> pageAddr x = p" by (cases "c = a") auto
  next
    fix c x assume c: "c \<in> U" "spans ?pc c = Some x"
    then obtain y where y: "spans pc c = Some y" "pageAddr y = pageAddr x" using s ab by (cases "c = a") (auto split: if_splits)
    have "c \<noteq> b" using c(1) b by auto
    then have "pageAddr y \<noteq> pageAddr t" using same_start [OF ok(1) y(1) t] by blast
    moreover have "spanMap pc (pageAddr y) = Some c" using ok(4) y(1) c(1) unfolding pc_map_def by blast
    ultimately show "spanMap ?pc (pageAddr x) = Some c" using y(2) by simp
  qed
  moreover have "pc_lists ?pc U fl"
    using pc_lists_drop [OF pc_lists_field [OF fl, of a ?s], of b] a b by (simp add: pc_lists_def)
  ultimately show ?thesis using join(1) unfolding pc_inv_def by auto
qed

lemma merge_next_ok:
  assumes inv: "pc_inv pc U" and a: "a \<in> U" and s: "spans pc a = Some s"
  shows "\<exists>pc1 s1. merge_next a (pageAddr s + numPages s * PAGE_SIZE) pc = ret pc1 \<and> pc_inv pc1 U \<and>
    spans pc1 a = Some s1 \<and> pageAddr s1 = pageAddr s \<and> region s \<subseteq> region s1 \<and> (\<forall>c\<in>U - {a}. spans pc1 c = spans pc c)"
proof (cases "spanMap pc (pageAddr s + numPages s * PAGE_SIZE)")
  case None
  then show ?thesis using inv s by (simp add: merge_next_def)
next
  case (Some b)
  note ok = pc_invD [OF inv]
  obtain fl where fl: "pc_lists pc U fl" using inv by (auto simp: pc_inv_def)
  obtain t where t: "spans pc b = Some t" and adj: "pageAddr t = pageAddr s + numPages s * PAGE_SIZE"
    using Some ok(4) unfolding pc_map_def by blast
  have b: "b \<noteq> 0" using ok(1) t by (auto simp: spans_ok_def)
  obtain pc1 fl1 fs sp where 1: "take_free b t pc = ret (b \<notin> U, pc1)" and pc1: "pc1 = pc\<lparr>freeSpans := fs, spans := sp\<rparr>"
    and fl1: "pc_lists pc1 (insert b U) fl1" and rl: "relinked (spans pc) sp" and keep: "\<forall>a\<in>insert b U. sp a = spans pc a"
    using take_free_ok [OF fl t b] by blast
  have "pc_map pc (insert b U)" using ok(4) Some t adj unfolding pc_map_def by auto
  then have inv1: "pc_inv pc1 (insert b U)"
    by (intro pc_inv_relinked [OF inv, of _ _ fl1]) (use rl fl1 in \<open>simp_all add: pc1\<close>)
  have s1: "spans pc1 a = Some s" "spans pc1 b = Some t" using keep a s t by (auto simp: pc1)
  show ?thesis
  proof (cases "b \<in> U")
    case True
    then have "merge_next a (pageAddr s + numPages s * PAGE_SIZE) pc = ret pc1"
      using Some t 1 by (simp add: merge_next_def)
    moreover have "pc_inv pc1 U" using inv1 True by (simp add: insert_absorb)
    ultimately show ?thesis using s1 keep by (auto simp: pc1)
  next
    case False
    let ?s = "s\<lparr>numPages := numPages s + numPages t\<rparr>"
    let ?pc = "pc1\<lparr>spans := (spans pc1)(a \<mapsto> ?s, b := None), spanMap := (spanMap pc1)(pageAddr t := None)\<rparr>"
    have ab: "a \<noteq> b" using False a by auto
    have "merge_next a (pageAddr s + numPages s * PAGE_SIZE) pc = ret ?pc"
      using Some t 1 False s1 adj by (simp add: merge_next_def)
    moreover have "pc_inv ?pc U" by (rule pc_inv_join [OF inv1 a False s1 adj])
    moreover have "spans ?pc a = Some ?s" "region s \<subseteq> region ?s" "\<forall>c\<in>U - {a}. spans ?pc c = spans pc c"
      using ab spans_ok_join(2) [OF ok(1) s t ab adj] keep False by (auto simp: pc1)
    ultimately show ?thesis by (intro exI [of _ ?pc] exI [of _ ?s]) simp
  qed
qed

lemma deallocateSpan_ok:
  assumes inv: "pc_inv pc U" and a: "a \<in> U" and s: "spans pc a = Some s"
  shows "\<exists>pc' s'. deallocateSpan (pageAddr s) (numPages s) pc = ret pc' \<and> pc_inv pc' (U - {a}) \<and>
    spans pc' a = Some s' \<and> pageAddr s' = pageAddr s \<and> region s \<subseteq> region s' \<and> map_at (numPages s') (freeSpans pc') = a \<and>
    (\<forall>b\<in>U - {a}. spans pc' b = spans pc b)"
proof -
  obtain pc1 s1 where 1: "merge_next a (pageAddr s + numPages s * PAGE_SIZE) pc = ret pc1" "pc_inv pc1 U"
    "spans pc1 a = Some s1" "pageAddr s1 = pageAddr s" "region s \<subseteq> region s1" "\<forall>c\<in>U - {a}. spans pc1 c = spans pc c"
    using merge_next_ok [OF assms] by blast
  note ok = pc_invD [OF 1(2)]
  obtain fl where fl: "pc_lists pc1 U fl" using 1(2) by (auto simp: pc_inv_def)
  let ?s = "s1\<lparr>sp_next := map_at (numPages s1) (freeSpans pc1)\<rparr>"
  let ?pc = "pc1\<lparr>freeSpans := map_put (numPages s1) a (freeSpans pc1), spans := (spans pc1)(a \<mapsto> ?s)\<rparr>"
  have "spanMap pc (pageAddr s) = Some a" using pc_invD(4) [OF inv] a s by (simp add: pc_map_def)
  then have run: "deallocateSpan (pageAddr s) (numPages s) pc = ret ?pc"
    using 1(1,3) by (simp add: deallocateSpan_def)
  have a0: "a \<noteq> 0" using ok(1) 1(3) by (auto simp: spans_ok_def)
  have "pc_lists ?pc (U - {a}) (fl(numPages ?s := a # fl (numPages ?s)))"
  proof (rule pc_lists_push [OF pc_lists_drop [OF fl a], of a "(spans pc1)(a \<mapsto> ?s)"])
    show "a \<notin> (\<Union>k. set (fl k))" using fl a by (auto simp: pc_lists_def)
  qed (use a0 in auto)
  moreover have "pc_map pc1 (U - {a})" using ok(4) by (simp add: pc_map_def)
  ultimately have "pc_inv ?pc (U - {a})"
    by (intro pc_inv_relinked [OF 1(2)]) (use relinked_upd [of "spans pc1" a s1, OF 1(3)] in simp_all)
  then show ?thesis using run 1(4-6) by (intro exI [of _ ?pc] exI [of _ ?s]) (auto simp: region_def)
qed


section \<open>The null pointer that joining leaves behind\<close>

lemma lower_bound_key: "keys_sorted m \<Longrightarrow> map_of m k = Some p \<Longrightarrow> lower_bound k m = Some (k, p)"
proof (induction m)
  case (Cons x m)
  obtain k' p' where x: "x = (k', p')" by (cases x)
  show ?case
  proof (cases "k' = k")
    case False
    then have "map_of m k = Some p" using Cons.prems(2) x by simp
    then have "k' < k" using Cons.prems(1) x by (auto simp: keys_sorted_def dest!: map_of_SomeD)
    then show ?thesis using Cons x False by (simp add: keys_sorted_def)
  qed (use Cons.prems x in simp)
qed simp


section \<open>Witnesses\<close>

text \<open>A new page cache, on a system that maps downwards from an address.\<close>

lemma pc_inv_new:
  assumes "freeSpans pc = []" "spanMap pc = Map.empty" "spans pc = Map.empty" "fresh_new pc" "fresh_mmap pc"
  shows "pc_inv pc {}"
  using assms unfolding pc_inv_def by (auto simp: spans_ok_def pc_map_def pc_lists_def keys_sorted_def map_at_def intro!: exI [of _ "\<lambda>_. []"])

definition demo_pages :: page_cache where
  "demo_pages =
     \<lparr>freeSpans = [], spanMap = Map.empty, spans = Map.empty, sys_new = (\<lambda>n. if n < 10 then of_nat (Suc n) else 0),
      new_calls = 0, sys_mmap = (\<lambda>n z. if n < 10 \<and> z \<le> 32768 then Some (1048576 - 32768 * of_nat n) else None), mmap_calls = 0,
      mem = (\<lambda>_. 0)\<rparr>"

lemma demo_mmap: "n < 10 \<Longrightarrow> unat (1048576 - 32768 * of_nat n :: addr) = 1048576 - 32768 * n"
proof -
  assume "n < 10"
  then have "n \<in> {0, 1, 2, 3, 4, 5, 6, 7, 8, 9}" by auto
  then show ?thesis by auto
qed

lemma demo_pages_fresh: "fresh_new demo_pages" "fresh_mmap demo_pages"
proof -
  have "(of_nat (Suc m) :: addr) \<noteq> of_nat (Suc n)" if "m < n" "n < 10" for m n
  proof
    assume "(of_nat (Suc m) :: addr) = of_nat (Suc n)"
    then have "unat (of_nat (Suc m) :: addr) = unat (of_nat (Suc n) :: addr)" by (rule arg_cong)
    then show False using that by (simp add: unat_of_nat del: of_nat_Suc)
  qed
  then show "fresh_new demo_pages" by (auto simp: fresh_new_def demo_pages_def)
  have *: "p \<noteq> 0 \<and> unat p + unat z < 2 ^ 64 \<and> unat p = 1048576 - 32768 * n \<and> unat z \<le> 32768 \<and> n < 10"
    if "sys_mmap demo_pages n z = Some p" for n z p
  proof -
    have p: "p = 1048576 - 32768 * of_nat n" "n < 10" "unat z \<le> 32768"
      using that by (auto simp: demo_pages_def word_le_nat_alt split: if_splits)
    have u: "unat p = 1048576 - 32768 * n" unfolding p(1) by (rule demo_mmap [OF p(2)])
    then have "p \<noteq> 0" using p(2) by (auto simp: word_unat_eq_iff)
    with u p show ?thesis by simp
  qed
  show "fresh_mmap demo_pages"
    unfolding fresh_mmap_def
  proof (intro conjI allI impI)
    fix n z p assume "sys_mmap demo_pages n z = Some p"
    from * [OF this] show "p \<noteq> 0" "unat p + unat z < 2 ^ 64" by auto
  next
    fix m n y z p q assume "m < n" "sys_mmap demo_pages m y = Some p" "sys_mmap demo_pages n z = Some q"
    with * [of m y p] * [of n z q] show "{unat p..<unat p + unat y} \<inter> {unat q..<unat q + unat z} = {}" by auto
  qed (simp add: demo_pages_def)
qed

lemma demo_pages_inv: "pc_inv demo_pages {}"
  by (rule pc_inv_new) (simp_all add: demo_pages_fresh, simp_all add: demo_pages_def)

theorem allocateSpan_correct_witness:
  "\<exists>p pc'. allocateSpan 8 demo_pages = ret (p, pc') \<and> p = 1048576 \<and> (\<exists>a. pc_inv pc' {a})"
proof -
  have run: "\<exists>pc'. allocateSpan 8 demo_pages = ret (1048576, pc')"
    by (simp add: allocateSpan_def systemAlloc_def new_span_def demo_pages_def PAGE_SIZE_def Let_def)
  from allocateSpan_correct [OF demo_pages_inv, of 8] run show ?thesis
    by (auto simp: demo_pages_def)
qed

text \<open>Two neighbouring spans of eight pages, both in use.\<close>

definition demo_two :: page_cache where
  "demo_two = demo_pages\<lparr>spanMap := [1048576 \<mapsto> 1, 1015808 \<mapsto> 2], new_calls := 2, mmap_calls := 2,
     spans := [1 \<mapsto> \<lparr>sp_next = 0, pageAddr = 1048576, numPages = 8\<rparr>, 2 \<mapsto> \<lparr>sp_next = 0, pageAddr = 1015808, numPages = 8\<rparr>]\<rparr>"

lemma demo_two_inv: "pc_inv demo_two {1, 2}"
proof -
  let ?pc = "demo_pages\<lparr>spanMap := [1048576 \<mapsto> 1], spans := [1 \<mapsto> \<lparr>sp_next = 0, pageAddr = 1048576, numPages = 8\<rparr>],
    new_calls := 1, mmap_calls := 1\<rparr>"
  have 1: "allocateSpan 8 demo_pages = ret (1048576, ?pc)"
    by (simp add: allocateSpan_def systemAlloc_def new_span_def demo_pages_def PAGE_SIZE_def Let_def cong: if_cong)
  have 2: "allocateSpan 8 ?pc = ret (1015808, demo_two)"
    by (simp add: allocateSpan_def systemAlloc_def new_span_def demo_pages_def demo_two_def PAGE_SIZE_def Let_def cong: if_cong)
  from allocateSpan_ok [OF demo_pages_inv, of 8] have "pc_inv ?pc {1}"
    unfolding 1 by (auto simp: demo_pages_def split: if_splits)
  from allocateSpan_ok [OF this, of 8] show ?thesis
    unfolding 2 by (auto simp: demo_two_def demo_pages_def insert_commute split: if_splits)
qed



end
