(* ===== verification/Central_Cache.thy ===== *)
theory Central_Cache
  imports Page_Cache
begin

text \<open>
  The middle layer of the thread-caching pool, \<^verbatim>\<open>src/mempool/src/CentralCache.cpp\<close>: one list of free
  blocks per size class, filled by cutting spans of the page cache into blocks. Its state extends the one of
  the page cache. Each list has a spin lock that an operation holds from its start to its end; a
  second acquisition by the same thread would spin for ever. The clock is a stream of readings in
  nanoseconds; \<open>bucket_order\<close> is the order in which an \<open>unordered_map\<close> with the given keys is iterated.
\<close>

section \<open>The code\<close>

record span_tracker =
  spanAddr :: addr
  st_count :: size_t
  st_numPages :: size_t
  freeCount :: size_t
  blockCount :: size_t

record central_cache = page_cache +
  centralFreelist :: "size_t \<Rightarrow> addr"
  locks :: "size_t \<Rightarrow> bool"
  spanTrackers :: "span_tracker list"
  spanCount :: size_t
  delayCounts :: "size_t \<Rightarrow> size_t"
  lastReturnTime :: "size_t \<Rightarrow> int"
  steady_clock :: "nat \<Rightarrow> int"
  clock_calls :: nat
  bucket_order :: "nat list \<Rightarrow> nat list"

definition SPAN_TRACKER_NUM :: nat where
  "SPAN_TRACKER_NUM = 1024"

definition SPAN_PAGES :: size_t where
  "SPAN_PAGES = 8"

definition MAX_DELAY_COUNT :: size_t where
  "MAX_DELAY_COUNT = 48"

definition DELAY_INTERVAL :: int where
  "DELAY_INTERVAL = 100 * 1000000"

text \<open>The constructor; it reads the clock once for every list.\<close>

definition CentralCache_init :: "'a central_cache_scheme \<Rightarrow> 'a central_cache_scheme" where
  "CentralCache_init s =
     s\<lparr>centralFreelist := (\<lambda>i. 0), locks := (\<lambda>i. False), delayCounts := (\<lambda>i. 0),
       lastReturnTime := (\<lambda>i. steady_clock s (clock_calls s + unat i)),
       clock_calls := clock_calls s + unat FREE_LIST_SIZE, spanCount := 0,
       spanTrackers := replicate SPAN_TRACKER_NUM
         \<lparr>spanAddr = 0, st_count = 0, st_numPages = 0, freeCount = 0, blockCount = 0\<rparr>\<rparr>"

definition lock :: "size_t \<Rightarrow> 'a central_cache_scheme \<Rightarrow> 'a central_cache_scheme" where
  "lock i s = s\<lparr>locks := (locks s)(i := True)\<rparr>"

definition unlock :: "size_t \<Rightarrow> 'a central_cache_scheme \<Rightarrow> 'a central_cache_scheme" where
  "unlock i s = s\<lparr>locks := (locks s)(i := False)\<rparr>"

definition fetchFromPageCache :: "size_t \<Rightarrow> 'a central_cache_scheme \<Rightarrow> (addr \<times> 'a central_cache_scheme) res" where
  "fetchFromPageCache sz s =
     (let n = (sz + PAGE_SIZE - 1) div PAGE_SIZE
      in if sz < SPAN_PAGES * PAGE_SIZE then allocateSpan SPAN_PAGES s else allocateSpan n s)"

text \<open>\<open>getFromRange\<close>, \<open>n\<close> rounds from tracker \<open>i\<close> on; the array is not checked for its end.\<close>

fun find_tracker :: "addr \<Rightarrow> span_tracker list \<Rightarrow> nat \<Rightarrow> nat \<Rightarrow> nat option res" where
  "find_tracker p ts i 0 = ret None"
| "find_tracker p ts i (Suc n) =
     (if length ts \<le> i then undef
      else let t = ts ! i
           in if spanAddr t \<le> p \<and> p < spanAddr t + st_numPages t * PAGE_SIZE then ret (Some i)
              else find_tracker p ts (Suc i) n)"

definition getFromRange :: "addr \<Rightarrow> 'a central_cache_scheme \<Rightarrow> nat option res" where
  "getFromRange p s = find_tracker p (spanTrackers s) 0 (unat (spanCount s))"

text \<open>The loop that links the blocks of a span, with its assertion; \<open>n\<close> rounds are left.\<close>

fun link_blocks :: "addr \<Rightarrow> size_t \<Rightarrow> addr \<Rightarrow> nat \<Rightarrow> size_t \<Rightarrow> (addr \<Rightarrow> addr) \<Rightarrow> (addr \<Rightarrow> addr) res" where
  "link_blocks start sz end_addr 0 i c = ret c"
| "link_blocks start sz end_addr (Suc n) i c =
     (let current = start + (i - 1) * sz; nxt = start + i * sz
      in if current < end_addr then link_blocks start sz end_addr n (i + 1) (c(current := nxt)) else abort)"

definition span_pages :: "size_t \<Rightarrow> size_t" where
  "span_pages sz = (if sz \<le> SPAN_PAGES * PAGE_SIZE then SPAN_PAGES else (sz + PAGE_SIZE - 1) div PAGE_SIZE)"

definition carve_span :: "size_t \<Rightarrow> size_t \<Rightarrow> addr \<Rightarrow> 'a central_cache_scheme \<Rightarrow> ('a central_cache_scheme) res" where
  "carve_span index sz result s =
     (let n = span_pages sz; blockNum = (n * PAGE_SIZE) div sz
      in if 1 < blockNum
         then rbind (link_blocks result sz (result + n * PAGE_SIZE) (unat (blockNum - 1)) 1 (mem s)) (\<lambda>c.
                let c1 = c(result + (blockNum - 1) * sz := 0);
                    nxt = c1 result;
                    k = unat (spanCount s);
                    ts = spanTrackers s
                in ret (s\<lparr>mem := c1(result := 0), centralFreelist := (centralFreelist s)(index := nxt),
                          spanCount := spanCount s + 1,
                          spanTrackers := (if k < length ts
                            then ts[k := (ts ! k)\<lparr>spanAddr := result, st_numPages := n, blockCount := blockNum,
                                                   freeCount := blockNum - 1\<rparr>]
                            else ts)\<rparr>))
         else let s1 = s\<lparr>centralFreelist := (centralFreelist s)(index := mem s result)\<rparr>
              in rbind (getFromRange result s1) (\<lambda>tr.
                   ret (case tr of
                          None \<Rightarrow> s1
                        | Some i \<Rightarrow> s1\<lparr>spanTrackers := (spanTrackers s1)[i :=
                            (spanTrackers s1 ! i)\<lparr>freeCount := freeCount (spanTrackers s1 ! i) - 1\<rparr>]\<rparr>)))"

definition fetchRange :: "size_t \<Rightarrow> 'a central_cache_scheme \<Rightarrow> (addr \<times> 'a central_cache_scheme) res" where
  "fetchRange index s =
     (if FREE_LIST_SIZE \<le> index then ret (0, s)
      else if locks s index then deadlock
      else let s1 = lock index s
           in if centralFreelist s1 index \<noteq> 0 then ret (centralFreelist s1 index, unlock index s1)
              else let sz = (index + 1) * ALIGNMENT
                   in rbind (fetchFromPageCache sz s1) (\<lambda>(result, s2).
                        if result = 0 then ret (0, unlock index s2)
                        else rbind (carve_span index sz result s2) (\<lambda>s3. ret (result, unlock index s3))))"

text \<open>
  The loop of \<open>updateSpanFreeCount\<close> that takes the blocks between two addresses off a list. As in the
  code, the new head is null until a block is taken off at the head.
\<close>

partial_function (option) remove_blocks ::
  "addr \<Rightarrow> addr \<Rightarrow> addr \<Rightarrow> addr \<Rightarrow> addr \<Rightarrow> (addr \<Rightarrow> addr) \<Rightarrow> (addr \<times> (addr \<Rightarrow> addr)) option" where
  "remove_blocks lo hi newhead prev current c =
     (if current = 0 then Some (newhead, c)
      else let nxt = c current
           in if lo \<le> current \<and> current < hi
              then if prev \<noteq> 0 then remove_blocks lo hi newhead prev nxt (c(prev := nxt))
                   else remove_blocks lo hi nxt prev nxt c
              else remove_blocks lo hi newhead current nxt c)"

definition updateSpanFreeCount ::
  "nat \<Rightarrow> size_t \<Rightarrow> size_t \<Rightarrow> 'a central_cache_scheme \<Rightarrow> ('a central_cache_scheme) res" where
  "updateSpanFreeCount i newFreeBlocks index s =
     (let t = spanTrackers s ! i; newFreeCount = freeCount t + newFreeBlocks
      in if newFreeCount = blockCount t
         then rbind (or_undef (remove_blocks (spanAddr t) (spanAddr t + st_numPages t * PAGE_SIZE) 0 0
                                 (centralFreelist s index) (mem s))) (\<lambda>(newhead, c).
                deallocateSpan (spanAddr t) (st_numPages t)
                  (s\<lparr>mem := c, centralFreelist := (centralFreelist s)(index := newhead)\<rparr>))
         else ret s)"

text \<open>\<open>spanFreeCounts[tracker]++\<close>, and the loop over the free list.\<close>

definition bump :: "nat \<Rightarrow> (nat \<times> size_t) list \<Rightarrow> (nat \<times> size_t) list" where
  "bump i m = (case map_of m i of None \<Rightarrow> (i, 1) # m | Some n \<Rightarrow> map (\<lambda>(j, k). (j, if j = i then n + 1 else k)) m)"

partial_function (option) count_blocks ::
  "'a central_cache_scheme \<Rightarrow> addr \<Rightarrow> (nat \<times> size_t) list \<Rightarrow> (nat \<times> size_t) list option" where
  "count_blocks s p m =
     (if p = 0 then Some m
      else case getFromRange p s of
             Inl f \<Rightarrow> None
           | Inr tr \<Rightarrow> count_blocks s (mem s p) (case tr of None \<Rightarrow> m | Some i \<Rightarrow> bump i m))"

fun update_spans ::
  "nat list \<Rightarrow> (nat \<times> size_t) list \<Rightarrow> size_t \<Rightarrow> 'a central_cache_scheme \<Rightarrow> ('a central_cache_scheme) res" where
  "update_spans [] m index s = ret s"
| "update_spans (i # is) m index s =
     rbind (updateSpanFreeCount i (the (map_of m i)) index s) (update_spans is m index)"

definition performDelayReturn :: "size_t \<Rightarrow> 'a central_cache_scheme \<Rightarrow> ('a central_cache_scheme) res" where
  "performDelayReturn index s =
     (let s1 = s\<lparr>delayCounts := (delayCounts s)(index := 0),
                 lastReturnTime := (lastReturnTime s)(index := steady_clock s (clock_calls s)),
                 clock_calls := Suc (clock_calls s)\<rparr>
      in rbind (or_undef (count_blocks s1 (centralFreelist s1 index) [])) (\<lambda>m.
           update_spans (bucket_order s1 (map fst m)) m index s1))"

definition shouldPerformDelayReturn :: "size_t \<Rightarrow> size_t \<Rightarrow> int \<Rightarrow> 'a central_cache_scheme \<Rightarrow> bool" where
  "shouldPerformDelayReturn index currentCount currentTime s \<longleftrightarrow>
     MAX_DELAY_COUNT \<le> currentCount \<or> DELAY_INTERVAL \<le> currentTime - lastReturnTime s index"

text \<open>The loop of \<open>returnRange\<close> that looks for the end of the chain, \<open>n\<close> rounds at most.\<close>

fun walk_end :: "(addr \<Rightarrow> addr) \<Rightarrow> addr \<Rightarrow> nat \<Rightarrow> addr" where
  "walk_end c e 0 = e"
| "walk_end c e (Suc n) = (if c e = 0 then e else walk_end c (c e) n)"

definition returnRange :: "addr \<Rightarrow> size_t \<Rightarrow> size_t \<Rightarrow> 'a central_cache_scheme \<Rightarrow> ('a central_cache_scheme) res" where
  "returnRange start sz index s =
     (if start = 0 \<or> FREE_LIST_SIZE \<le> index then ret s
      else if locks s index then deadlock
      else let block_size = (index + 1) * ALIGNMENT;
               blockcount = sz div block_size;
               s1 = lock index s;
               e = walk_end (mem s1) start (unat blockcount - 1);
               currentCount = delayCounts s1 index + 1;
               s2 = s1\<lparr>mem := (mem s1)(e := centralFreelist s1 index),
                       centralFreelist := (centralFreelist s1)(index := start),
                       delayCounts := (delayCounts s1)(index := currentCount), clock_calls := Suc (clock_calls s1)\<rparr>
           in rbind (if shouldPerformDelayReturn index currentCount (steady_clock s1 (clock_calls s1)) s2
                     then performDelayReturn index s2 else ret s2) (\<lambda>s3. ret (unlock index s3)))"

section \<open>Page counts and block counts\<close>

lemma unat_class_size: "index < FREE_LIST_SIZE \<Longrightarrow> unat ((index + 1) * ALIGNMENT) = 8 * (unat index + 1)"
  by (simp add: FREE_LIST_SIZE_eq ALIGNMENT_def unat_word_ariths word_less_nat_alt)

lemma unat_PAGE_SIZE: "unat PAGE_SIZE = 4096"
  by (simp add: PAGE_SIZE_def)

lemma unat_SPAN_PAGES: "unat SPAN_PAGES = 8"
  by (simp add: SPAN_PAGES_def)

lemma unat_span_pages:
  assumes "unat sz \<le> 262144"
  shows "unat (span_pages sz) = (if unat sz \<le> 32768 then 8 else (unat sz + 4095) div 4096)"
proof -
  have u: "unat (sz + 4095) = unat sz + 4095" using assms by (simp add: unat_word_ariths)
  have "sz + PAGE_SIZE - 1 = sz + 4095" by (simp add: PAGE_SIZE_def algebra_simps)
  moreover have "sz \<le> SPAN_PAGES * PAGE_SIZE \<longleftrightarrow> unat sz \<le> 32768"
    by (simp add: SPAN_PAGES_def PAGE_SIZE_def word_le_nat_alt)
  ultimately show ?thesis
    using u unat_PAGE_SIZE unat_SPAN_PAGES by (simp only: span_pages_def unat_div_distrib if_distrib [of unat])
qed

text \<open>
  Property C33. The two places that compute the number of pages of a span agree: what \<open>fetchFromPageCache\<close> asks for is
  what \<open>fetchRange\<close> cuts into blocks. One compares with \<open><\<close>, the other with \<open>\<le>\<close>; at the boundary both
  give eight pages. The span holds at least one block.
\<close>

theorem page_counts_agree:
  fixes s :: "'a central_cache_scheme"
  assumes "0 < sz" and "sz \<le> MAX_BYTES"
  shows "fetchFromPageCache sz s = allocateSpan (span_pages sz) s \<and> sz \<le> span_pages sz * PAGE_SIZE"
proof -
  have le: "unat sz \<le> 262144" "0 < unat sz" using assms by (auto simp: MAX_BYTES_def word_le_nat_alt word_less_nat_alt)
  have "span_pages sz = (if sz < SPAN_PAGES * PAGE_SIZE then SPAN_PAGES else (sz + PAGE_SIZE - 1) div PAGE_SIZE)"
  proof (cases "sz = 32768")
    case False
    then have "sz < 32768 \<longleftrightarrow> sz \<le> 32768" by (auto simp: order_less_le)
    then show ?thesis by (simp add: span_pages_def SPAN_PAGES_def PAGE_SIZE_def)
  qed (simp add: span_pages_def SPAN_PAGES_def PAGE_SIZE_def)
  moreover have "unat (span_pages sz) \<le> 65"
    using le unfolding unat_span_pages [OF le(1)] by simp linarith
  then have "unat (span_pages sz * PAGE_SIZE) = unat (span_pages sz) * 4096"
    by (simp add: PAGE_SIZE_def unat_word_ariths)
  then have "sz \<le> span_pages sz * PAGE_SIZE"
    using le unfolding word_le_nat_alt unat_span_pages [OF le(1)] by simp linarith
  ultimately show ?thesis by (simp add: fetchFromPageCache_def)
qed

lemma span_bytes:
  assumes "unat sz \<le> 262144"
  shows "unat (span_pages sz * PAGE_SIZE) = unat (span_pages sz) * 4096"
proof -
  have "unat (span_pages sz) \<le> 65" using assms unfolding unat_span_pages [OF assms] by simp linarith
  then show ?thesis by (simp add: PAGE_SIZE_def unat_word_ariths)
qed

text \<open>The number of blocks of a span; more than one up to 16 kilobytes.\<close>

definition block_num :: "size_t \<Rightarrow> nat" where
  "block_num index = unat (span_pages ((index + 1) * ALIGNMENT)) * 4096 div (8 * (unat index + 1))"

lemma block_num_word:
  assumes "index < FREE_LIST_SIZE"
  shows "unat (span_pages ((index + 1) * ALIGNMENT) * PAGE_SIZE div ((index + 1) * ALIGNMENT)) = block_num index"
proof -
  have "unat ((index + 1) * ALIGNMENT) \<le> 262144"
    using assms unfolding unat_class_size [OF assms] by (simp add: FREE_LIST_SIZE_eq word_less_nat_alt)
  then show ?thesis by (simp add: unat_div_distrib span_bytes unat_class_size [OF assms] block_num_def)
qed

lemma block_num_small:
  assumes "unat index < 2048"
  shows "block_num index = 32768 div (8 * (unat index + 1))" and "2 \<le> block_num index"
    and "block_num index * (8 * (unat index + 1)) \<le> 32768"
proof -
  have i: "index < FREE_LIST_SIZE" using assms by (simp add: FREE_LIST_SIZE_eq word_less_nat_alt)
  have "8 * (unat index + 1) \<le> 16384" using assms by simp
  then have "unat (span_pages ((index + 1) * ALIGNMENT)) = 8"
    by (subst unat_span_pages) (simp_all add: unat_class_size [OF i] del: mult_Suc_right)
  then show eq: "block_num index = 32768 div (8 * (unat index + 1))" by (simp add: block_num_def)
  have "2 * (8 * (unat index + 1)) \<le> 32768" using assms by simp
  then show "2 \<le> block_num index" unfolding eq by (simp add: less_eq_div_iff_mult_less_eq)
  show "block_num index * (8 * (unat index + 1)) \<le> 32768" unfolding eq by (rule div_times_less_eq_dividend)
qed

section \<open>Cutting a span into blocks\<close>

lemma link_blocks_chunks:
  assumes "\<And>k. k < n \<Longrightarrow> start + (i + of_nat k) * sz < hi"
  shows "link_blocks start sz hi n (i + 1) c = ret (link_chunks start sz i n c)"
  using assms
proof (induction n arbitrary: i c)
  case (Suc n)
  have "start + (i + 1 + of_nat k) * sz < hi" if "k < n" for k
    using Suc.prems [of "Suc k"] that by (simp add: algebra_simps)
  then have "link_blocks start sz hi n (i + 1 + 1) d = ret (link_chunks start sz (i + 1) n d)" for d
    by (rule Suc.IH)
  with Suc.prems [of 0] show ?case by (simp add: Let_def)
qed simp

lemma allocateSpan_central:
  assumes "allocateSpan n s = ret (p, s')"
  shows "centralFreelist s' = centralFreelist s" "locks s' = locks s" "spanTrackers s' = spanTrackers s"
    "spanCount s' = spanCount s" "delayCounts s' = delayCounts s"
  using assms by (auto simp: allocateSpan_def new_span_def systemAlloc_def Let_def split: option.splits prod.splits if_splits)

text \<open>The invariant of the page cache does not depend on the memory of the pages or on the central lists.\<close>

lemma pc_inv_cong:
  assumes "freeSpans s' = freeSpans s" "spanMap s' = spanMap s" "spans s' = spans s" "sys_new s' = sys_new s"
    "new_calls s' = new_calls s" "sys_mmap s' = sys_mmap s" "mmap_calls s' = mmap_calls s"
  shows "pc_inv s' U = pc_inv s U"
  unfolding pc_inv_def fresh_new_def fresh_mmap_def pc_map_def pc_lists_def assms by simp

lemma pc_inv_lock [simp]: "pc_inv (lock i s) U = pc_inv s U" "pc_inv (unlock i s) U = pc_inv s U"
  by (rule pc_inv_cong; simp add: lock_def unlock_def)+

text \<open>What cutting does to the memory: a chain of all blocks, from which the first is then taken.\<close>

lemma carve_small:
  assumes i: "unat index < 2048" and p: "p \<noteq> 0" "unat p + 32768 < 2 ^ 64"
  defines "sz \<equiv> (index + 1) * ALIGNMENT"
  shows "\<exists>s'. carve_span index sz p s = ret s' \<and> mem s' p = 0 \<and>
    chain (mem s') (centralFreelist s' index) (tl (chunks p sz (block_num index))) \<and>
    (\<forall>j. j \<noteq> index \<longrightarrow> centralFreelist s' j = centralFreelist s j) \<and> locks s' = locks s \<and>
    (\<forall>a. a \<notin> set (chunks p sz (block_num index)) \<longrightarrow> mem s' a = mem s a) \<and>
    spanCount s' = spanCount s + 1 \<and> page_cache.truncate s' = (page_cache.truncate s)\<lparr>mem := mem s'\<rparr> \<and>
    (unat (spanCount s) < length (spanTrackers s) \<longrightarrow>
       spanAddr (spanTrackers s' ! unat (spanCount s)) = p \<and>
       unat (st_numPages (spanTrackers s' ! unat (spanCount s))) = 8 \<and>
       unat (blockCount (spanTrackers s' ! unat (spanCount s))) = block_num index \<and>
       freeCount (spanTrackers s' ! unat (spanCount s)) + 1 = blockCount (spanTrackers s' ! unat (spanCount s)))"
proof -
  let ?n = "block_num index"
  have idx: "index < FREE_LIST_SIZE" using i by (simp add: FREE_LIST_SIZE_eq word_less_nat_alt)
  note bn = block_num_small [OF i]
  have sz: "unat sz = 8 * (unat index + 1)" unfolding sz_def by (rule unat_class_size [OF idx])
  have pg: "span_pages sz = 8" using unat_span_pages [of sz] i by (simp add: sz word_unat_eq_iff)
  define bN where "bN = span_pages sz * PAGE_SIZE div sz"
  have bN: "unat bN = ?n" using block_num_word [OF idx] by (simp add: bN_def sz_def)
  have fits: "unat p + ?n * unat sz \<le> 2 ^ 64" "unat p + ?n * unat sz \<le> unat p + 32768"
    using bn(3) p(2) by (simp_all add: sz)
  have pos: "0 < unat sz" by (simp add: sz)
  have one: "1 < bN" using bn(2) bN by (simp add: word_less_nat_alt)
  then have "1 \<le> bN" by simp
  then have m1: "unat (bN - 1) = ?n - 1" using bN by (simp add: unat_sub)
  have w1: "bN - 1 = of_nat (?n - 1)" using m1 by (metis of_nat_unat ucast_id)
  have hi: "unat (p + span_pages sz * PAGE_SIZE) = unat p + 32768"
    using p(2) by (simp add: pg PAGE_SIZE_def unat_word_ariths)
  have "p + (0 + of_nat k) * sz < p + span_pages sz * PAGE_SIZE" if "k < ?n - 1" for k
  proof -
    have "unat (p + of_nat k * sz) = unat p + k * unat sz" by (rule unat_chunk [OF fits(1) _ pos]) (use that in simp)
    moreover have "k * unat sz < ?n * unat sz" using that pos by (intro mult_strict_right_mono) auto
    ultimately have "unat (p + of_nat k * sz) < unat p + 32768" using fits(2) by linarith
    then show ?thesis by (simp add: word_less_nat_alt hi)
  qed
  from link_blocks_chunks [where c = "mem s", OF this]
  have lb: "link_blocks p sz (p + span_pages sz * PAGE_SIZE) (?n - 1) 1 (mem s) = ret (link_chunks p sz 0 (?n - 1) (mem s))"
    by simp
  define c where "c = (link_chunks p sz 0 (?n - 1) (mem s))(p + of_nat (?n - 1) * sz := 0)"
  then have c': "c = (link_chunks p sz 0 (?n - 1) (mem s))(p + (bN - 1) * sz := 0)" by (simp only: w1)
  have ch: "chain c p (chunks p sz ?n)"
    unfolding c_def by (rule chain_carved [OF fits(1) pos p(1)]) (use bn(2) in simp)
  have bl: "chunks p sz ?n = p # tl (chunks p sz ?n)"
    using bn(2) by (simp add: chunks_def upt_conv_Cons)
  then have pin: "p \<in> set (chunks p sz ?n)" by (metis list.set_intros(1))
  have tl: "chain c (c p) (tl (chunks p sz ?n))" "p \<notin> set (tl (chunks p sz ?n))"
    using ch chain_distinct [OF ch] by (subst (asm) (1 2) bl, simp)+
  have out: "c a = mem s a" if "a \<notin> set (chunks p sz ?n)" for a
  proof -
    have ne: "a \<noteq> p + of_nat k * sz" if "k < ?n" for k using \<open>a \<notin> set (chunks p sz ?n)\<close> that by (auto simp: chunks_def)
    then have "\<not> (\<exists>k<?n - 1. a = p + (0 + of_nat k) * sz)" by (simp add: less_diff_conv)
    moreover have "a \<noteq> p + of_nat (?n - 1) * sz" using ne [of "?n - 1"] bn(2) by (simp del: of_nat_diff)
    ultimately show ?thesis unfolding c_def link_chunks_apply by (auto simp del: of_nat_diff)
  qed
  let ?ts = "spanTrackers s" and ?k = "unat (spanCount s)"
  let ?s = "s\<lparr>mem := c(p := 0), centralFreelist := (centralFreelist s)(index := c p), spanCount := spanCount s + 1,
    spanTrackers := (if ?k < length ?ts then ?ts[?k := (?ts ! ?k)\<lparr>spanAddr := p, st_numPages := span_pages sz, blockCount := bN,
      freeCount := bN - 1\<rparr>] else ?ts)\<rparr>"
  have "carve_span index sz p s = ret ?s"
    unfolding carve_span_def Let_def bN_def [symmetric] m1 lb rbind.simps c' [symmetric] using one by simp
  moreover have "page_cache.truncate ?s = (page_cache.truncate s)\<lparr>mem := mem ?s\<rparr>"
    by (simp add: page_cache.truncate_def)
  ultimately show ?thesis
    using tl out pin pg bN by (intro exI [of _ ?s]) auto
qed

text \<open>The blocks of a class in a span at \<open>p\<close>.\<close>

abbreviation blocks_of :: "size_t \<Rightarrow> addr \<Rightarrow> addr list" where
  "blocks_of index p \<equiv> chunks p ((index + 1) * ALIGNMENT) (block_num index)"

text \<open>A request to a class whose list is empty.\<close>

lemma fetchRange_new:
  assumes inv: "pc_inv s U" and i: "unat index < 2048" and free: "\<not> locks s index" "centralFreelist s index = 0"
    and heads: "\<And>k. lower_bound 8 (freeSpans s) \<noteq> Some (k, 0)" and new: "sys_new s (new_calls s) \<noteq> 0"
    and trackers: "unat (spanCount s) < length (spanTrackers s)"
  shows "\<exists>p s'. fetchRange index s = ret (p, s') \<and> locks s' = locks s \<and>
    (p = 0 \<and> sys_mmap s (mmap_calls s) (8 * PAGE_SIZE) = None \<and> pc_inv s' U \<or>
     p \<noteq> 0 \<and> unat p + 32768 < 2 ^ 64 \<and> mem s' p = 0 \<and> chain (mem s') (centralFreelist s' index) (tl (blocks_of index p)) \<and>
     spanCount s' = spanCount s + 1 \<and>
     freeCount (spanTrackers s' ! unat (spanCount s)) + 1 = blockCount (spanTrackers s' ! unat (spanCount s)) \<and>
     unat (blockCount (spanTrackers s' ! unat (spanCount s))) = block_num index \<and>
     (\<exists>a t. a \<notin> U \<and> spans s' a = Some t \<and> pageAddr t = p \<and> numPages t = 8 \<and> pc_inv s' (insert a U) \<and>
        (\<forall>b\<in>U. spans s' b = spans s b \<and> region t \<inter> region (the (spans s b)) = {})))"
proof -
  let ?s = "lock index s" and ?sz = "(index + 1) * ALIGNMENT"
  have idx: "index < FREE_LIST_SIZE" using i by (simp add: FREE_LIST_SIZE_eq word_less_nat_alt)
  have sz: "unat ?sz = 8 * (unat index + 1)" by (rule unat_class_size [OF idx])
  have fields: "freeSpans ?s = freeSpans s" "spans ?s = spans s" "sys_new ?s = sys_new s" "new_calls ?s = new_calls s"
    by (simp_all add: lock_def)
  have inv1: "pc_inv ?s U" using inv by simp
  obtain p s2 where 1: "allocateSpan 8 ?s = ret (p, s2)"
    "p = 0 \<and> sys_mmap ?s (mmap_calls ?s) (8 * PAGE_SIZE) = None \<and> pc_inv s2 U \<or>
     (\<exists>a t. a \<notin> U \<and> spans s2 a = Some t \<and> pageAddr t = p \<and> p \<noteq> 0 \<and> numPages t = 8 \<and> pc_inv s2 (insert a U) \<and>
        (\<forall>b\<in>U. spans s2 b = spans ?s b \<and> region t \<inter> region (the (spans ?s b)) = {}))"
    using allocateSpan_ok [OF inv1, of 8] heads new unfolding fields by auto
  note keep = allocateSpan_central [OF 1(1)]
  have pg: "fetchFromPageCache ?sz ?s = allocateSpan 8 ?s"
    using sz i by (simp add: fetchFromPageCache_def SPAN_PAGES_def PAGE_SIZE_def word_less_nat_alt)
  have un: "locks (unlock index x) = locks s" if "locks x = (locks s)(index := True)" for x :: "'a central_cache_scheme"
    using that free(1) by (auto simp: unlock_def intro!: ext split: if_splits)
  have head: "fetchRange index s = rbind (allocateSpan 8 ?s) (\<lambda>(result, s2).
      if result = 0 then ret (0, unlock index s2)
      else rbind (carve_span index ?sz result s2) (\<lambda>s3. ret (result, unlock index s3)))"
    using leD idx free pg by (auto simp: fetchRange_def Let_def lock_def)
  show ?thesis
  proof (cases "p = 0")
    case True
    with 1 have "fetchRange index s = ret (0, unlock index s2)" "pc_inv s2 U" "sys_mmap s (mmap_calls s) (8 * PAGE_SIZE) = None"
      using head by (auto simp: lock_def)
    then show ?thesis using un [of s2] keep(2) by (auto simp: lock_def)
  next
    case False
    with 1(2) obtain a t where a: "a \<notin> U" "spans s2 a = Some t" "pageAddr t = p" "numPages t = 8" "pc_inv s2 (insert a U)"
      "\<forall>b\<in>U. spans s2 b = spans s b \<and> region t \<inter> region (the (spans s b)) = {}" unfolding fields by blast
    have "unat (pageAddr t) + 4096 * unat (numPages t) < 2 ^ 64" using pc_invD(1) [OF a(5)] a(2) unfolding spans_ok_def by blast
    then have p: "unat p + 32768 < 2 ^ 64" using a(3,4) by simp
    obtain s3 where s3: "carve_span index ?sz p s2 = ret s3" "mem s3 p = 0"
      "chain (mem s3) (centralFreelist s3 index) (tl (blocks_of index p))" "locks s3 = locks s2" "spanCount s3 = spanCount s2 + 1"
      "page_cache.truncate s3 = (page_cache.truncate s2)\<lparr>mem := mem s3\<rparr>"
      "unat (blockCount (spanTrackers s3 ! unat (spanCount s))) = block_num index \<and>
       freeCount (spanTrackers s3 ! unat (spanCount s)) + 1 = blockCount (spanTrackers s3 ! unat (spanCount s))"
      using carve_small [OF i False p, of s2] trackers keep(3,4) by (auto simp: lock_def)
    have "fetchRange index s = ret (p, unlock index s3)" using head 1(1) False s3(1) by simp
    moreover have "spans s3 = spans s2" "pc_inv s3 (insert a U)"
      using s3(6) a(5) pc_inv_cong [of s3 s2] by (simp_all add: page_cache.truncate_def)
    then have "spans (unlock index s3) = spans s2" "pc_inv (unlock index s3) (insert a U)"
      by simp_all (simp add: unlock_def)
    moreover have "locks (unlock index s3) = locks s" using un [of s3] s3(4) keep(2) by (simp add: lock_def)
    ultimately show ?thesis
      using s3 a p False keep(4) by (intro exI [of _ p] exI [of _ "unlock index s3"]) (auto simp: unlock_def lock_def)
  qed
qed

text \<open>A request to a class whose list is not empty: the head is returned, and stays on the list.\<close>

lemma fetchRange_again:
  assumes "index < FREE_LIST_SIZE" and "\<not> locks s index" and "centralFreelist s index \<noteq> 0"
  shows "fetchRange index s = ret (centralFreelist s index, s)"
proof -
  have "unlock index (lock index s) = s"
    using assms(2) by (simp add: unlock_def lock_def fun_upd_idem)
  then show ?thesis using assms by (simp add: fetchRange_def Let_def lock_def)
qed

section \<open>Taking blocks back\<close>

lemma walk_end_last: "chain c p (x # xs) \<Longrightarrow> length xs \<le> n \<Longrightarrow> walk_end c p n = last (x # xs)"
proof (induction n arbitrary: p x xs)
  case (Suc n)
  show ?case
  proof (cases xs)
    case (Cons y ys)
    then show ?thesis using Suc.IH [of "c p" y ys] Suc.prems by auto
  qed (use Suc.prems in auto)
qed auto

lemma chain_join:
  "chain c p (x # xs) \<Longrightarrow> chain c q ys \<Longrightarrow> set (x # xs) \<inter> set ys = {} \<Longrightarrow> chain (c(last (x # xs) := q)) p ((x # xs) @ ys)"
proof (induction xs arbitrary: p x)
  case (Cons y xs)
  have "x \<noteq> last (y # xs)" using chain_distinct [OF Cons.prems(1)] last_in_set [of "y # xs"] by auto
  have "chain c y (y # xs)" "set (y # xs) \<inter> set ys = {}" using Cons.prems(1,3) by auto
  from Cons.IH [OF this(1) Cons.prems(2) this(2)] have IH: "chain (c(last (y # xs) := q)) y ((y # xs) @ ys)" .
  have px: "p = x" "x \<noteq> 0" "c x = y" "last (x # y # xs) = last (y # xs)" using Cons.prems(1) by auto
  define c' where "c' = c(last (y # xs) := q)"
  have "c' x = y" using \<open>x \<noteq> last (y # xs)\<close> px(3) by (simp add: c'_def)
  then show ?case using IH px(1,2) unfolding px(4) c'_def [symmetric] by simp
qed auto

text \<open>The chain that is given back goes in front of the list, when it is not yet time to look for free spans.\<close>

lemma returnRange_prepends:
  assumes "index < FREE_LIST_SIZE" and "\<not> locks s index"
    and "chain (mem s) start (x # xs)" and "chain (mem s) (centralFreelist s index) ys" and "set (x # xs) \<inter> set ys = {}"
    and "length xs < unat (sz div ((index + 1) * ALIGNMENT))"
    and "\<not> shouldPerformDelayReturn index (delayCounts s index + 1) (steady_clock s (clock_calls s)) s"
  shows "\<exists>s'. returnRange start sz index s = ret s' \<and> chain (mem s') (centralFreelist s' index) ((x # xs) @ ys) \<and> locks s' = locks s \<and>
    (\<forall>a. a \<notin> set (x # xs) \<longrightarrow> mem s' a = mem s a) \<and> (\<exists>m f d k. s' = s\<lparr>mem := m, centralFreelist := f, delayCounts := d, clock_calls := k\<rparr>)"
proof -
  let ?e = "last (x # xs)"
  let ?s = "s\<lparr>mem := (mem s)(?e := centralFreelist s index), centralFreelist := (centralFreelist s)(index := start),
    delayCounts := (delayCounts s)(index := delayCounts s index + 1), clock_calls := Suc (clock_calls s)\<rparr>"
  have "walk_end (mem s) start (unat (sz div ((index + 1) * ALIGNMENT)) - 1) = ?e"
    by (rule walk_end_last [OF assms(3)]) (use assms(6) in simp)
  moreover have "start \<noteq> 0" using assms(3) by auto
  moreover have "\<not> FREE_LIST_SIZE \<le> index" using assms(1) by simp
  moreover have "locks s = (locks s)(index := False)" using assms(2) by (simp add: fun_upd_idem)
  ultimately have "returnRange start sz index s = ret ?s"
    using assms(2,7) by (simp add: returnRange_def Let_def lock_def unlock_def shouldPerformDelayReturn_def fun_upd_idem)
  moreover have "chain (mem ?s) (centralFreelist ?s index) ((x # xs) @ ys)" using chain_join [OF assms(3-5)] by simp
  moreover have "mem ?s a = mem s a" if "a \<notin> set (x # xs)" for a using that last_in_set [of "x # xs"] by auto
  ultimately show ?thesis by (intro exI [of _ ?s]) (auto simp del: fun_upd_apply)
qed

section \<open>Giving a span back\<close>

text \<open>Once a block was kept, the head of the new list does not change any more.\<close>

lemma remove_blocks_kept:
  "chain c p xs \<Longrightarrow> prev \<noteq> 0 \<Longrightarrow> prev \<notin> set xs \<Longrightarrow> \<exists>c'. remove_blocks lo hi nh prev p c = Some (nh, c')"
proof (induction xs arbitrary: c p prev)
  case Nil
  then show ?case by (subst remove_blocks.simps) simp
next
  case (Cons x xs)
  have x: "p = x" "x \<noteq> 0" "chain c (c x) xs" "x \<notin> set xs" using Cons.prems(1) chain_distinct [OF Cons.prems(1)] by auto
  show ?case
  proof (cases "lo \<le> x \<and> x < hi")
    case True
    have "chain (c(prev := c x)) (c x) xs" using x(3) Cons.prems(3) by simp
    then have "\<exists>c'. remove_blocks lo hi nh prev (c x) (c(prev := c x)) = Some (nh, c')"
      by (rule Cons.IH [OF _ Cons.prems(2)]) (use Cons.prems(3) in simp)
    moreover have "remove_blocks lo hi nh prev p c = remove_blocks lo hi nh prev (c x) (c(prev := c x))"
      using Cons.prems(2) x(1,2) True by (subst remove_blocks.simps) (simp add: Let_def)
    ultimately show ?thesis by simp
  next
    case False
    from Cons.IH [OF x(3,2,4)] x False show ?thesis by (subst remove_blocks.simps) (auto simp: Let_def)
  qed
qed

lemma remove_blocks_first:
  "chain c p xs \<Longrightarrow> (\<exists>nh' c'. remove_blocks lo hi nh 0 p c = Some (nh', c')) \<and>
     (xs \<noteq> [] \<longrightarrow> \<not> (lo \<le> hd xs \<and> hd xs < hi) \<longrightarrow> (\<exists>c'. remove_blocks lo hi nh 0 p c = Some (nh, c')))"
proof (induction xs arbitrary: p nh)
  case Nil
  then show ?case by (subst remove_blocks.simps) simp
next
  case (Cons x xs)
  have x: "p = x" "x \<noteq> 0" "chain c (c x) xs" "x \<notin> set xs" using Cons.prems chain_distinct [OF Cons.prems] by auto
  show ?case
  proof (cases "lo \<le> x \<and> x < hi")
    case True
    then have "remove_blocks lo hi nh 0 p c = remove_blocks lo hi (c x) 0 (c x) c"
      using x(1,2) by (subst remove_blocks.simps) (simp add: Let_def)
    then show ?thesis using Cons.IH [OF x(3), of "c x"] True by auto
  next
    case False
    then have "remove_blocks lo hi nh 0 p c = remove_blocks lo hi nh x (c x) c"
      using x(1,2) by (subst remove_blocks.simps) (auto simp: Let_def)
    then show ?thesis using remove_blocks_kept [OF x(3,2,4), of lo hi nh] by auto
  qed
qed

text \<open>The count of the free blocks of one span, when the list has blocks of no other.\<close>

lemma bump_same: "bump i [(i, n)] = [(i, n + 1)]" "bump i [] = [(i, 1)]"
  by (simp_all add: bump_def)

lemma count_blocks_one:
  "chain (mem s) p xs \<Longrightarrow> (\<And>x. x \<in> set xs \<Longrightarrow> getFromRange x s = ret (Some i)) \<Longrightarrow>
     count_blocks s p [(i, n)] = Some [(i, n + of_nat (length xs))]"
proof (induction xs arbitrary: p n)
  case Nil
  then show ?case by (subst count_blocks.simps) simp
next
  case (Cons x xs)
  then have "count_blocks s (mem s x) [(i, n + 1)] = Some [(i, n + 1 + of_nat (length xs))]" by (intro Cons.IH) auto
  with Cons.prems show ?case by (subst count_blocks.simps) (simp add: bump_same algebra_simps)
qed

lemma performDelayReturn_one:
  assumes "chain (mem s) (centralFreelist s index) xs" and "xs \<noteq> []" and "\<And>x. x \<in> set xs \<Longrightarrow> getFromRange x s = ret (Some i)"
    and "bucket_order s [i] = [i]"
  shows "performDelayReturn index s = updateSpanFreeCount i (of_nat (length xs)) index
    (s\<lparr>delayCounts := (delayCounts s)(index := 0),
       lastReturnTime := (lastReturnTime s)(index := steady_clock s (clock_calls s)), clock_calls := Suc (clock_calls s)\<rparr>)"
proof -
  let ?s = "s\<lparr>delayCounts := (delayCounts s)(index := 0),
       lastReturnTime := (lastReturnTime s)(index := steady_clock s (clock_calls s)), clock_calls := Suc (clock_calls s)\<rparr>"
  obtain x ys where xs: "xs = x # ys" using assms(2) by (cases xs) auto
  have g: "getFromRange y ?s = ret (Some i)" if "y \<in> set xs" for y using assms(3) [OF that] by (simp add: getFromRange_def)
  have "chain (mem ?s) (mem ?s x) ys" using assms(1) xs by simp
  then have "count_blocks ?s (mem ?s x) [(i, 1)] = Some [(i, 1 + of_nat (length ys))]"
    by (rule count_blocks_one) (use g xs in simp)
  moreover have "centralFreelist s index = x" "x \<noteq> 0" using assms(1) xs by auto
  ultimately have "count_blocks ?s (centralFreelist ?s index) [] = Some [(i, of_nat (length xs))]"
    using g [of x] xs by (subst count_blocks.simps) (simp add: bump_same)
  then show ?thesis using assms(4) by (simp add: performDelayReturn_def Let_def) (cases "updateSpanFreeCount i (of_nat (length xs)) index ?s"; simp)
qed

text \<open>
  Property C34. A size class that has no free block gets a span of its own, cut into blocks. For a class of at most 16 kilobytes,
  with pages to be had, \<open>fetchRange\<close> returns the first block of a new span of eight pages, unlinked; the other blocks form the free
  list, in address order; the span overlaps no span in use; the tracker has the number of blocks, all
  but one of them free. Without pages it returns null and changes no list.
\<close>

theorem fetchRange_correct:
  assumes "pc_inv s U" and "unat index < 2048" and "\<not> locks s index" "centralFreelist s index = 0"
    and "\<And>k. lower_bound 8 (freeSpans s) \<noteq> Some (k, 0)" and "sys_new s (new_calls s) \<noteq> 0"
    and "unat (spanCount s) < length (spanTrackers s)"
  shows "\<exists>p s'. fetchRange index s = ret (p, s') \<and> locks s' = locks s \<and>
    (p = 0 \<and> sys_mmap s (mmap_calls s) (8 * PAGE_SIZE) = None \<and> pc_inv s' U \<or>
     p \<noteq> 0 \<and> unat p + 32768 < 2 ^ 64 \<and> mem s' p = 0 \<and> chain (mem s') (centralFreelist s' index) (tl (blocks_of index p)) \<and>
     spanCount s' = spanCount s + 1 \<and>
     freeCount (spanTrackers s' ! unat (spanCount s)) + 1 = blockCount (spanTrackers s' ! unat (spanCount s)) \<and>
     unat (blockCount (spanTrackers s' ! unat (spanCount s))) = block_num index \<and>
     (\<exists>a t. a \<notin> U \<and> spans s' a = Some t \<and> pageAddr t = p \<and> numPages t = 8 \<and> pc_inv s' (insert a U) \<and>
        (\<forall>b\<in>U. spans s' b = spans s b \<and> region t \<inter> region (the (spans s b)) = {})))"
  using assms by (rule fetchRange_new)

lemma chain_length:
  fixes xs :: "addr list"
  assumes "chain c p xs"
  shows "length xs < 2 ^ 64"
proof -
  have "card (UNIV :: addr set) = 2 ^ 64" by (simp add: card_word)
  moreover have "set xs \<subset> UNIV" using chain_nonzero [OF assms] by blast
  then have "card (set xs) < card (UNIV :: addr set)" by (intro psubset_card_mono) auto
  ultimately show ?thesis using distinct_card [OF chain_distinct [OF assms]] by simp
qed


section \<open>Witnesses\<close>

text \<open>The caches of a program that has just started.\<close>

definition demo_central :: central_cache where
  "demo_central = CentralCache_init (page_cache.extend demo_pages
     \<lparr>centralFreelist = (\<lambda>_. 0), locks = (\<lambda>_. False), spanTrackers = [], spanCount = 0, delayCounts = (\<lambda>_. 0),
      lastReturnTime = (\<lambda>_. 0), steady_clock = int, clock_calls = 0, bucket_order = (\<lambda>is. is)\<rparr>)"

lemma demo_central_pages:
  "freeSpans demo_central = []" "spans demo_central = Map.empty" "sys_new demo_central = sys_new demo_pages"
  "new_calls demo_central = 0" "sys_mmap demo_central = sys_mmap demo_pages" "mmap_calls demo_central = 0"
  "locks demo_central = (\<lambda>_. False)" "centralFreelist demo_central = (\<lambda>_. 0)" "spanCount demo_central = 0"
  "length (spanTrackers demo_central) = 1024" "mem demo_central = (\<lambda>_. 0)" "spanMap demo_central = Map.empty"
  "bucket_order demo_central = (\<lambda>is. is)"
  by (simp_all add: demo_central_def CentralCache_init_def demo_pages_def page_cache.extend_def SPAN_TRACKER_NUM_def)

lemma demo_central_inv: "pc_inv demo_central {}"
proof (rule pc_inv_new)
  show "fresh_new demo_central" using demo_pages_fresh(1) by (simp add: fresh_new_def demo_central_pages, simp add: demo_pages_def)
  show "fresh_mmap demo_central" using demo_pages_fresh(2) by (simp add: fresh_mmap_def demo_central_pages, simp add: demo_pages_def)
qed (simp_all add: demo_central_pages)

theorem page_counts_agree_witness:
  "fetchFromPageCache 32768 demo_central = allocateSpan (span_pages 32768) demo_central"
  using page_counts_agree [of 32768 demo_central] by (simp add: MAX_BYTES_def)

text \<open>The state after the first request for a block of 16 kilobytes: one block is handed out, one is free.\<close>

definition demo_fetched :: central_cache where
  "demo_fetched = demo_central\<lparr>mem := (\<lambda>_. 0), new_calls := 1, mmap_calls := 1, spanMap := [1048576 \<mapsto> 1],
     spans := [1 \<mapsto> \<lparr>sp_next = 0, pageAddr = 1048576, numPages = 8\<rparr>], centralFreelist := (\<lambda>_. 0)(2047 := 1064960), spanCount := 1,
     spanTrackers := (spanTrackers demo_central)[0 :=
       \<lparr>spanAddr = 1048576, st_count = 0, st_numPages = 8, freeCount = 1, blockCount = 2\<rparr>]\<rparr>"

lemma demo_fetch: "fetchRange 2047 demo_central = ret (1048576, demo_fetched)"
proof -
  note central = demo_central_def CentralCache_init_def page_cache.extend_def demo_pages_def
  have n: "0 < SPAN_TRACKER_NUM" by (simp add: SPAN_TRACKER_NUM_def)
  let ?s = "(lock 2047 demo_central)\<lparr>mmap_calls := 1, mem := (\<lambda>_. 0), new_calls := 1, spanMap := [1048576 \<mapsto> 1],
        spans := [1 \<mapsto> \<lparr>sp_next = 0, pageAddr = 1048576, numPages = 8\<rparr>]\<rparr>"
  have "allocateSpan 8 (lock 2047 demo_central) = ret (1048576, ?s)"
    by (simp add: allocateSpan_def systemAlloc_def new_span_def lock_def central PAGE_SIZE_def Let_def cong: if_cong)
  moreover have "carve_span 2047 16384 1048576 ?s = ret (lock 2047 demo_fetched)"
    using n by (simp add: carve_span_def span_pages_def SPAN_PAGES_def PAGE_SIZE_def lock_def demo_fetched_def central Let_def fun_upd_idem)
  ultimately show ?thesis
    by (simp add: fetchRange_def FREE_LIST_SIZE_eq fetchFromPageCache_def ALIGNMENT_def SPAN_PAGES_def PAGE_SIZE_def Let_def unlock_def lock_def central demo_fetched_def fun_upd_idem)
qed

lemma demo_sys_new [simp]: "sys_new demo_central 0 \<noteq> 0"
  by (simp add: demo_central_pages) (simp add: demo_pages_def)

theorem fetchRange_correct_witness:
  "\<exists>s'. fetchRange 2047 demo_central = ret (1048576, s') \<and> chain (mem s') (centralFreelist s' 2047) (tl (blocks_of 2047 1048576)) \<and>
     (\<exists>a. pc_inv s' {a})"
proof -
  have "\<exists>p s'. fetchRange 2047 demo_central = ret (p, s') \<and> locks s' = locks demo_central \<and> (p = 0 \<and> pc_inv s' {} \<or>
     p \<noteq> 0 \<and> chain (mem s') (centralFreelist s' 2047) (tl (blocks_of 2047 p)) \<and> (\<exists>a. pc_inv s' {a}))"
    using fetchRange_correct [OF demo_central_inv, of 2047] by (force simp: demo_central_pages(1-10) simp del: demo_central_pages(3))
  then show ?thesis by (auto simp: demo_fetch)
qed

lemma demo_fetched_inv: "pc_inv demo_fetched {1}"
proof -
  have "\<exists>p s'. fetchRange 2047 demo_central = ret (p, s') \<and> (p = 0 \<and> pc_inv s' {} \<or>
     p \<noteq> 0 \<and> (\<exists>a t. spans s' a = Some t \<and> pc_inv s' {a}))"
    using fetchRange_new [OF demo_central_inv, of 2047] by (force simp: demo_central_pages(1-10) simp del: demo_central_pages(3))
  then show ?thesis by (auto simp: demo_fetch) (simp add: demo_fetched_def split: if_splits)
qed


end
