(* ===== verification/Thread_Cache.thy ===== *)
theory Thread_Cache
  imports Central_Cache
begin

text \<open>
  The top layer of the thread-caching pool, \<^verbatim>\<open>src/mempool/src/ThreadCache.cpp\<close>, and the C interface
  \<open>mempool_alloc\<close> and \<open>mempool_free\<close>. Every thread has its own lists of free blocks; \<open>threads\<close> maps a thread
  to them. Requests of more than \<open>MAX_BYTES\<close> go to \<open>malloc\<close>, whose heap is \<open>pool_heap\<close>.
\<close>

section \<open>The code\<close>

record thread_cache =
  freelist :: "size_t \<Rightarrow> addr"
  freelistSize :: "size_t \<Rightarrow> size_t"

record pool_state = central_cache +
  threads :: "nat \<Rightarrow> thread_cache"
  pool_heap :: heap

definition ThreadCache_init :: thread_cache where
  "ThreadCache_init = \<lparr>freelist = (\<lambda>i. 0), freelistSize = (\<lambda>i. 0)\<rparr>"

definition set_list :: "nat \<Rightarrow> size_t \<Rightarrow> addr \<Rightarrow> pool_state \<Rightarrow> pool_state" where
  "set_list t i p s = s\<lparr>threads := (threads s)(t := (threads s t)\<lparr>freelist := (freelist (threads s t))(i := p)\<rparr>)\<rparr>"

definition set_size :: "nat \<Rightarrow> size_t \<Rightarrow> size_t \<Rightarrow> pool_state \<Rightarrow> pool_state" where
  "set_size t i n s = s\<lparr>threads := (threads s)(t := (threads s t)\<lparr>freelistSize := (freelistSize (threads s t))(i := n)\<rparr>)\<rparr>"

text \<open>The loop that counts the blocks of a chain.\<close>

partial_function (option) count_chain :: "(addr \<Rightarrow> addr) \<Rightarrow> addr \<Rightarrow> size_t \<Rightarrow> size_t option" where
  "count_chain c p n = (if p = 0 then Some n else count_chain c (c p) (n + 1))"

definition fetchFromCentralCache :: "nat \<Rightarrow> size_t \<Rightarrow> pool_state \<Rightarrow> (addr \<times> pool_state) res" where
  "fetchFromCentralCache t index s =
     rbind (fetchRange index s) (\<lambda>(start, s1).
       if start = 0 then ret (0, s1)
       else let s2 = set_list t index (mem s1 start) s1
            in rbind (or_undef (count_chain (mem s2) start 0)) (\<lambda>batchNum.
                 ret (start, set_size t index (freelistSize (threads s2 t) index + batchNum) s2)))"

definition allocate :: "nat \<Rightarrow> size_t \<Rightarrow> pool_state \<Rightarrow> (addr \<times> pool_state) res" where
  "allocate t sz0 s =
     (let sz = (if sz0 = 0 then ALIGNMENT else sz0)
      in if MAX_BYTES < sz then let (p, h) = malloc sz (pool_heap s) in ret (p, s\<lparr>pool_heap := h\<rparr>)
         else let index = getIndex sz;
                  s1 = set_size t index (freelistSize (threads s t) index - 1) s;
                  ptr = freelist (threads s1 t) index
              in if ptr \<noteq> 0 then ret (ptr, set_list t index (mem s1 ptr) s1)
                 else fetchFromCentralCache t index s1)"

definition shouldReturnToCentralCache :: "nat \<Rightarrow> size_t \<Rightarrow> pool_state \<Rightarrow> bool" where
  "shouldReturnToCentralCache t index s \<longleftrightarrow> 256 < freelistSize (threads s t) index"

text \<open>
  The loop that looks for the last block to keep; null if the list is shorter than the counter says.
  Then nothing is returned, so the corrected \<open>returnNum\<close> of the code is not used.
\<close>

fun split_walk :: "(addr \<Rightarrow> addr) \<Rightarrow> addr \<Rightarrow> nat \<Rightarrow> addr" where
  "split_walk c p 0 = p"
| "split_walk c p (Suc n) = (if c p = 0 then 0 else split_walk c (c p) n)"

definition returnToCentralCache :: "nat \<Rightarrow> addr \<Rightarrow> size_t \<Rightarrow> pool_state \<Rightarrow> pool_state res" where
  "returnToCentralCache t start sz s =
     (let index = getIndex sz;
          alignedSize = roundUp sz;
          batchNum = freelistSize (threads s t) index
      in if batchNum \<le> 1 then ret s
         else let keepNum = max (batchNum div 4) 1;
                  returnNum = batchNum - keepNum;
                  splitNode = split_walk (mem s) start (unat (keepNum - 1))
              in if splitNode = 0 then ret s
                 else let nextNode = mem s splitNode;
                          s1 = set_size t index keepNum
                                 (set_list t index start (s\<lparr>mem := (mem s)(splitNode := 0)\<rparr>))
                      in if 0 < returnNum \<and> nextNode \<noteq> 0
                         then returnRange nextNode (returnNum * alignedSize) index s1
                         else ret s1)"

definition deallocate :: "nat \<Rightarrow> addr \<Rightarrow> size_t \<Rightarrow> pool_state \<Rightarrow> pool_state res" where
  "deallocate t ptr sz s =
     (if MAX_BYTES < sz then ret (s\<lparr>pool_heap := free ptr (pool_heap s)\<rparr>)
      else if ptr = 0 then undef
      else let index = getIndex sz;
               s1 = set_list t index ptr (s\<lparr>mem := (mem s)(ptr := freelist (threads s t) index)\<rparr>);
               s2 = set_size t index (freelistSize (threads s1 t) index + 1) s1
           in if shouldReturnToCentralCache t index s2
              then returnToCentralCache t (freelist (threads s2 t) index) sz s2
              else ret s2)"

text \<open>The interface for C; \<open>t\<close> is the thread that calls.\<close>

definition mempool_alloc :: "nat \<Rightarrow> size_t \<Rightarrow> pool_state \<Rightarrow> (addr \<times> pool_state) res" where
  "mempool_alloc t sz s = allocate t sz s"

definition mempool_free :: "nat \<Rightarrow> addr \<Rightarrow> size_t \<Rightarrow> pool_state \<Rightarrow> pool_state res" where
  "mempool_free t ptr sz s = deallocate t ptr sz s"

section \<open>The lists of a thread\<close>

lemma set_list_simps [simp]:
  "freelist (threads (set_list t i p s) u) j = (if u = t \<and> j = i then p else freelist (threads s u) j)"
  "freelistSize (threads (set_list t i p s) u) = freelistSize (threads s u)"
  "freelist (threads (set_size t i n s) u) = freelist (threads s u)"
  "freelistSize (threads (set_size t i n s) u) j = (if u = t \<and> j = i then n else freelistSize (threads s u) j)"
  by (auto simp: set_list_def set_size_def)

lemma set_list_central [simp]:
  "mem (set_list t i p s) = mem s" "mem (set_size t i n s) = mem s"
  "locks (set_list t i p s) = locks s" "locks (set_size t i n s) = locks s"
  "centralFreelist (set_list t i p s) = centralFreelist s" "centralFreelist (set_size t i n s) = centralFreelist s"
  "freeSpans (set_size t i n s) = freeSpans s" "sys_new (set_size t i n s) = sys_new s" "new_calls (set_size t i n s) = new_calls s"
  "sys_mmap (set_size t i n s) = sys_mmap s" "mmap_calls (set_size t i n s) = mmap_calls s"
  "spanCount (set_size t i n s) = spanCount s" "spanTrackers (set_size t i n s) = spanTrackers s"
  by (simp_all add: set_list_def set_size_def)

lemma pc_inv_set_size [simp]: "pc_inv (set_size t i n s) U = pc_inv s U"
  by (rule pc_inv_cong) (simp_all add: set_size_def)

lemma count_chain_length: "chain c p xs \<Longrightarrow> count_chain c p n = Some (n + of_nat (length xs))"
proof (induction xs arbitrary: p n)
  case Nil
  then show ?case by (subst count_chain.simps) simp
next
  case (Cons x xs)
  then show ?case by (subst count_chain.simps) (simp add: algebra_simps)
qed

text \<open>
  A block that a thread frees is the next one it gets. As long as the thread has less than 256 free blocks
  of the class, \<open>mempool_free\<close> keeps the block in the thread, and \<open>mempool_alloc\<close> for a size of the same class returns it and
  leaves the lists of all threads, the central lists and the memory of all other blocks as they were.
\<close>

theorem mempool_free_alloc:
  assumes sz: "0 < sz" "sz \<le> MAX_BYTES" "0 < sz'" "sz' \<le> MAX_BYTES" "getIndex sz' = getIndex sz"
    and p: "p \<noteq> 0" and room: "freelistSize (threads s t) (getIndex sz) < 256"
  shows "\<exists>s1 s2. mempool_free t p sz s = ret s1 \<and> mempool_alloc t sz' s1 = ret (p, s2) \<and>
    s2 = s\<lparr>mem := (mem s)(p := freelist (threads s t) (getIndex sz))\<rparr>"
proof -
  let ?i = "getIndex sz" and ?tc = "threads s t"
  let ?s1 = "s\<lparr>mem := (mem s)(p := freelist ?tc ?i), threads := (threads s)(t := ?tc\<lparr>freelist := (freelist ?tc)(?i := p),
    freelistSize := (freelistSize ?tc)(?i := freelistSize ?tc ?i + 1)\<rparr>)\<rparr>"
  have "unat (freelistSize ?tc ?i) < 256" using room by (simp add: word_less_nat_alt)
  then have "unat (freelistSize ?tc ?i + 1) \<le> 256" by (simp add: unat_word_ariths)
  then have "\<not> 256 < freelistSize ?tc ?i + 1" by (simp add: word_less_nat_alt)
  then have "mempool_free t p sz s = ret ?s1"
    using sz(2) p by (auto simp: mempool_free_def deallocate_def shouldReturnToCentralCache_def Let_def set_list_def set_size_def dest: leD)
  moreover have "mempool_alloc t sz' ?s1 = ret (p, s\<lparr>mem := (mem s)(p := freelist ?tc ?i)\<rparr>)"
    using sz p by (auto simp: mempool_alloc_def allocate_def Let_def set_list_def set_size_def fun_upd_idem dest: leD)
  ultimately show ?thesis by blast
qed

section \<open>Giving blocks back to the central lists\<close>

lemma split_walk_nth: "chain c p xs \<Longrightarrow> n < length xs \<Longrightarrow> split_walk c p n = xs ! n"
proof (induction n arbitrary: p xs)
  case 0
  then show ?case by (cases xs) auto
next
  case (Suc n)
  then obtain x y ys where "xs = x # y # ys" by (cases xs rule: list.exhaust; cases "tl xs") auto
  with Suc show ?case by auto
qed

text \<open>Cutting a chain after its element \<open>n\<close>.\<close>

lemma chain_cut:
  "chain c p xs \<Longrightarrow> n < length xs \<Longrightarrow>
     chain (c(xs ! n := 0)) p (take (Suc n) xs) \<and> chain (c(xs ! n := 0)) (c (xs ! n)) (drop (Suc n) xs)"
proof (induction n arbitrary: p xs)
  case 0
  then obtain x ys where xs: "xs = x # ys" by (cases xs) auto
  have "chain c (c x) ys" "x \<notin> set ys" "p = x" "x \<noteq> 0" using 0(1) chain_distinct [OF 0(1)] xs by auto
  then show ?case by (simp add: xs del: fun_upd_apply) simp
next
  case (Suc n)
  then obtain x ys where xs: "xs = x # ys" by (cases xs) auto
  have d: "distinct (x # ys)" using chain_distinct [OF Suc.prems(1)] xs by simp
  have n: "n < length ys" using Suc.prems(2) xs by simp
  then have "x \<noteq> ys ! n" using d by auto
  with Suc.IH [of "c x" ys] Suc.prems(1) xs n show ?case by auto
qed

text \<open>
  Property C36. When a thread has more than 256 free blocks of a class, it keeps 64 of them, the ones freed last, and gives the
  others to the central list, in order and in front of what is there. No block is lost or duplicated, and
  the counter of the thread is right.
\<close>

theorem mempool_free_rebalances:
  assumes sz: "0 < sz" "sz \<le> MAX_BYTES" and i: "i = getIndex sz"
    and xs: "chain (mem s) (freelist (threads s t) i) xs" "length xs = 256" "freelistSize (threads s t) i = 256"
    and ys: "chain (mem s) (centralFreelist s i) ys" and p: "p \<noteq> 0" "p \<notin> set xs"
    and disj: "set (p # xs) \<inter> set ys = {}" and lk: "\<not> locks s i"
    and delay: "\<not> shouldPerformDelayReturn i (delayCounts s i + 1) (steady_clock s (clock_calls s)) s"
  shows "\<exists>s'. mempool_free t p sz s = ret s' \<and> freelistSize (threads s' t) i = 64 \<and>
    chain (mem s') (freelist (threads s' t) i) (take 64 (p # xs)) \<and> chain (mem s') (centralFreelist s' i) (drop 64 (p # xs) @ ys)"
proof -
  define c where "c = (mem s)(p := freelist (threads s t) i)"
  define s2 where "s2 = set_size t i 257 (set_list t i p (s\<lparr>mem := c\<rparr>))"
  have ch: "chain c p (p # xs)" using xs(1) p by (simp add: c_def)
  define q where "q = (p # xs) ! 63"
  define x where "x = drop 64 (p # xs) ! 0"
  define zs where "zs = drop 65 (p # xs)"
  have dr: "drop 64 (p # xs) = x # zs"
    using xs(2) by (simp add: x_def zs_def Cons_nth_drop_Suc [symmetric] del: drop_Suc_Cons nth_Cons')
  have lz: "length zs = 192" using xs(2) by (simp add: zs_def)
  have cut: "chain (c(q := 0)) p (take 64 (p # xs))" "chain (c(q := 0)) (c q) (x # zs)"
    using chain_cut [OF ch, of 63] xs(2) dr by (auto simp: q_def)
  have sp: "split_walk c p 63 = q" unfolding q_def by (rule split_walk_nth [OF ch]) (use xs(2) in simp)
  have "q = take 64 (p # xs) ! 63" unfolding q_def by (rule nth_take [symmetric]) simp
  moreover have "63 < length (take 64 (p # xs))" using xs(2) by simp
  ultimately have "q \<in> set (take 64 (p # xs))" by (metis nth_mem)
  then have q: "q \<in> set (p # xs)" "q \<noteq> 0" using chain_nonzero [OF cut(1)] by (auto dest: in_set_takeD)
  define s3 where "s3 = set_size t i 64 (set_list t i p (s2\<lparr>mem := c(q := 0)\<rparr>))"
  have cx: "c q = x" using cut(2) by simp
  have idx: "i < FREE_LIST_SIZE" unfolding i by (rule getIndex_bound [OF sz(2)])
  have "chain (mem s3) x (x # zs)" using cut(2) cx by (simp add: s3_def)
  moreover have "chain (mem s3) (centralFreelist s3 i) ys"
  proof -
    have "p \<notin> set ys" "q \<notin> set ys" using disj q(1) by auto
    then show ?thesis using ys by (simp add: s3_def s2_def c_def del: fun_upd_apply)
  qed
  moreover have "set (x # zs) \<inter> set ys = {}"
    using disj set_drop_subset [of 64 "p # xs"] unfolding dr by blast
  moreover have "length zs < unat (193 * roundUp sz div ((i + 1) * ALIGNMENT))"
  proof -
    note r = roundUp_class [OF sz]
    have le: "0 < unat (roundUp sz)" "unat (roundUp sz) \<le> 262144"
      unfolding r(2) using sz by (auto simp: MAX_BYTES_def word_le_nat_alt word_less_nat_alt)
    then have "unat (193 * roundUp sz) = 193 * unat (roundUp sz)" by (simp add: unat_word_ariths)
    then show ?thesis using le lz by (simp add: i r(1) unat_div_distrib)
  qed
  moreover have "\<not> shouldPerformDelayReturn i (delayCounts s3 i + 1) (steady_clock s3 (clock_calls s3)) s3" "\<not> locks s3 i"
    using delay lk by (simp_all add: shouldPerformDelayReturn_def s3_def s2_def set_list_def set_size_def)
  ultimately obtain s' where s': "returnRange x (193 * roundUp sz) i s3 = ret s'" "chain (mem s') (centralFreelist s' i) ((x # zs) @ ys)"
    "\<forall>a. a \<notin> set (x # zs) \<longrightarrow> mem s' a = mem s3 a" "\<exists>m f d k. s' = s3\<lparr>mem := m, centralFreelist := f, delayCounts := d, clock_calls := k\<rparr>"
    using returnRange_prepends [OF idx, of s3 x x zs ys "193 * roundUp sz"] by blast
  have "mempool_free t p sz s = returnRange x (193 * roundUp sz) i s3"
  proof -
    have "x \<noteq> 0" using cut(2) by auto
    moreover have "(257 :: size_t) div 4 = 64" "unat (63 :: size_t) = 63" by simp_all
    moreover have gt: "((257 :: size_t) \<le> 1) = False" by (simp add: word_le_nat_alt)
    ultimately have "returnToCentralCache t p sz s2 = returnRange x (193 * roundUp sz) i s3"
      using q(2) sp cx by (simp add: gt returnToCentralCache_def Let_def i [symmetric] s2_def s3_def)
    moreover have "mempool_free t p sz s = returnToCentralCache t p sz s2"
      using sz(2) p(1) xs(3) by (auto simp: mempool_free_def deallocate_def shouldReturnToCentralCache_def Let_def i [symmetric] s2_def c_def dest: leD)
    ultimately show ?thesis by simp
  qed
  moreover have th: "threads s' = threads s3" using s'(4) by auto
  moreover have "chain (mem s') p (take 64 (p # xs))"
  proof -
    have "distinct (take 64 (p # xs) @ drop 64 (p # xs))" using chain_distinct [OF ch] by simp
    then have "set (take 64 (p # xs)) \<inter> set (x # zs) = {}" unfolding dr by (simp only: distinct_append)
    then have "chain (mem s') p (take 64 (p # xs)) = chain (c(q := 0)) p (take 64 (p # xs))"
      using s'(3) by (intro chain_cong) (auto simp: s3_def)
    then show ?thesis using cut(1) by simp
  qed
  ultimately show ?thesis using s'(1,2) dr by (simp add: s3_def)
qed

section \<open>The same block again\<close>

text \<open>A client that asks for \<open>n\<close> blocks and writes \<open>w k\<close> into the first cell of the \<open>k\<close>-th block it gets.\<close>

fun alloc_many :: "nat \<Rightarrow> size_t \<Rightarrow> (nat \<Rightarrow> addr) \<Rightarrow> nat \<Rightarrow> pool_state \<Rightarrow> (addr list \<times> pool_state) res" where
  "alloc_many t sz w 0 s = ret ([], s)"
| "alloc_many t sz w (Suc n) s =
     rbind (mempool_alloc t sz s) (\<lambda>(p, s1).
       rbind (alloc_many t sz (\<lambda>k. w (Suc k)) n (s1\<lparr>mem := (mem s1)(p := w 0)\<rparr>)) (\<lambda>(ps, s2). ret (p # ps, s2)))"

lemma allocate_list:
  assumes "0 < sz" "sz \<le> MAX_BYTES" "freelist (threads s t) (getIndex sz) \<noteq> 0"
  shows "mempool_alloc t sz s = ret (freelist (threads s t) (getIndex sz),
    set_list t (getIndex sz) (mem s (freelist (threads s t) (getIndex sz))) (set_size t (getIndex sz) (freelistSize (threads s t) (getIndex sz) - 1) s))"
  using assms by (auto simp: mempool_alloc_def allocate_def Let_def dest: leD)

lemma allocate_central:
  assumes "0 < sz" "sz \<le> MAX_BYTES" "freelist (threads s t) (getIndex sz) = 0"
  shows "mempool_alloc t sz s = fetchFromCentralCache t (getIndex sz) (set_size t (getIndex sz) (freelistSize (threads s t) (getIndex sz) - 1) s)"
  using assms by (auto simp: mempool_alloc_def allocate_def Let_def dest: leD)

text \<open>A thread with an empty list gets the head of the central list and all behind it.\<close>

lemma allocate_again:
  assumes sz: "0 < sz" "sz \<le> MAX_BYTES" and i: "i = getIndex sz" and "freelist (threads s t) i = 0" and "\<not> locks s i"
    and "chain (mem s) (centralFreelist s i) (b # xs)"
  shows "\<exists>s'. mempool_alloc t sz s = ret (b, s') \<and> centralFreelist s' = centralFreelist s \<and> locks s' = locks s \<and> mem s' = mem s \<and>
    chain (mem s') (freelist (threads s' t) i) xs"
proof -
  define s1 where "s1 = set_size t i (freelistSize (threads s t) i - 1) s"
  have idx: "i < FREE_LIST_SIZE" unfolding i by (rule getIndex_bound [OF sz(2)])
  have b: "centralFreelist s1 i = b" "b \<noteq> 0" "chain (mem s1) (mem s1 b) xs" "\<not> locks s1 i" "mem s1 = mem s"
    using assms by (auto simp: s1_def)
  have "chain (mem s) b (b # xs)" using assms(6) b(1) by auto
  have "fetchRange i s1 = ret (b, s1)" using fetchRange_again [OF idx b(4)] b(1,2) by simp
  moreover have "count_chain (mem s) b 0 = Some (0 + of_nat (length (b # xs)))"
    by (rule count_chain_length) (use assms(6) in auto)
  ultimately have "mempool_alloc t sz s = ret (b, set_size t i (freelistSize (threads s1 t) i + of_nat (length (b # xs))) (set_list t i (mem s1 b) s1))"
    using allocate_central [OF sz, of s t] assms(4) b(2,5) by (simp add: i [symmetric] s1_def [symmetric] fetchFromCentralCache_def Let_def)
  then show ?thesis using b by (simp add: s1_def)
qed

text \<open>The first request of a class: a new span is cut into blocks, and the first of them returned.\<close>

lemma fetchRange_threads:
  fixes s :: pool_state
  assumes "fetchRange index s = ret (p, s')"
  shows "threads s' = threads s" and "pool_heap s' = pool_heap s"
proof -
  have al: "threads s2 = threads s1 \<and> pool_heap s2 = pool_heap s1" if "allocateSpan n s1 = ret (q, s2)" for n q and s1 s2 :: pool_state
    using that by (auto simp: allocateSpan_def new_span_def systemAlloc_def Let_def split: option.splits prod.splits if_splits)
  have ca: "threads s2 = threads s1 \<and> pool_heap s2 = pool_heap s1" if "carve_span i sz q s1 = ret s2" for i sz q and s1 s2 :: pool_state
    using that by (auto simp: carve_span_def Let_def split: option.splits if_splits)
  have "threads s' = threads s \<and> pool_heap s' = pool_heap s"
    using assms by (auto simp: fetchRange_def Let_def fetchFromPageCache_def lock_def unlock_def split: if_splits dest!: al ca)
  then show "threads s' = threads s" "pool_heap s' = pool_heap s" by simp_all
qed

lemma allocate_first:
  assumes sz: "0 < sz" "sz \<le> 16384" and i: "i = getIndex sz" and inv: "pc_inv s U"
    and empty: "freelist (threads s t) i = 0" "centralFreelist s i = 0" "\<not> locks s i"
    and heads: "\<And>k. lower_bound 8 (freeSpans s) \<noteq> Some (k, 0)" and new: "sys_new s (new_calls s) \<noteq> 0"
    and trackers: "unat (spanCount s) < length (spanTrackers s)" and mm: "sys_mmap s (mmap_calls s) (8 * PAGE_SIZE) \<noteq> None"
  shows "\<exists>p s'. mempool_alloc t sz s = ret (p, s') \<and> p \<noteq> 0 \<and> unat p + 32768 < 2 ^ 64 \<and>
    chain (mem s') (centralFreelist s' i) (tl (chunks p (roundUp sz) (block_num i))) \<and> freelist (threads s' t) i = 0 \<and>
    freelistSize (threads s' t) i = freelistSize (threads s t) i \<and> locks s' = locks s \<and> pool_heap s' = pool_heap s"
proof -
  have le: "0 < unat sz" "unat sz \<le> 16384" using sz by (auto simp: word_le_nat_alt word_less_nat_alt)
  then have max: "sz \<le> MAX_BYTES" by (simp add: MAX_BYTES_def word_le_nat_alt)
  have i2: "unat i < 2048" unfolding i unat_getIndex [OF max] using le by simp
  define s1 where "s1 = set_size t i (freelistSize (threads s t) i - 1) s"
  obtain p s2 where p: "fetchRange i s1 = ret (p, s2)" "locks s2 = locks s1" "p \<noteq> 0" "unat p + 32768 < 2 ^ 64" "mem s2 p = 0"
    "chain (mem s2) (centralFreelist s2 i) (tl (chunks p (roundUp sz) (block_num i)))"
    using fetchRange_new [of s1 U i] inv i2 empty heads new trackers mm roundUp_class(1) [OF sz(1) max]
    by (auto simp: s1_def i [symmetric])
  note keep = fetchRange_threads [OF p(1)]
  have "count_chain (mem s2) p 0 = Some (0 + of_nat (length [p]))"
    by (rule count_chain_length) (use p(3,5) in simp)
  then have "mempool_alloc t sz s = ret (p, set_size t i (freelistSize (threads s2 t) i + 1) (set_list t i 0 s2))"
    using allocate_central [OF sz(1) max, of s t] empty(1) p(1,3,5)
    by (simp add: i [symmetric] s1_def [symmetric] fetchFromCentralCache_def Let_def)
  then show ?thesis using p keep by (simp add: s1_def) (simp add: set_size_def set_list_def)
qed

lemma alloc_many_repeats:
  assumes sz: "0 < sz" "sz \<le> MAX_BYTES" and i: "i = getIndex sz" and b: "b \<noteq> 0"
  shows "\<not> locks s i \<Longrightarrow> centralFreelist s i = b \<Longrightarrow> mem s b = 0 \<Longrightarrow> chain (mem s) (freelist (threads s t) i) xs \<Longrightarrow> b \<notin> set xs \<Longrightarrow>
    \<forall>k\<ge>length xs. w k = 0 \<Longrightarrow> \<exists>s'. alloc_many t sz w (length xs + m) s = ret (xs @ replicate m b, s')"
proof (induction "length xs + m" arbitrary: xs m s w)
  case (Suc n)
  show ?case
  proof (cases xs)
    case (Cons x ys)
    have x: "freelist (threads s t) i = x" "x \<noteq> 0" "chain (mem s) (mem s x) ys" "x \<notin> set ys" "x \<noteq> b"
      using Suc.prems(4,5) chain_distinct [OF Suc.prems(4)] Cons by auto
    define s1 where "s1 = set_list t i (mem s x) (set_size t i (freelistSize (threads s t) i - 1) s)"
    have "mempool_alloc t sz s = ret (x, s1)"
      using allocate_list [OF sz, of s t] x(1,2) by (simp add: i [symmetric] s1_def)
    moreover have "\<exists>s'. alloc_many t sz (\<lambda>k. w (Suc k)) (length ys + m) (s1\<lparr>mem := (mem s1)(x := w 0)\<rparr>) = ret (ys @ replicate m b, s')"
    proof (rule Suc.hyps(1))
      show "chain (mem (s1\<lparr>mem := (mem s1)(x := w 0)\<rparr>)) (freelist (threads (s1\<lparr>mem := (mem s1)(x := w 0)\<rparr>) t) i) ys"
        using x(3,4) by (simp add: s1_def del: fun_upd_apply)
    qed (use Suc Cons x in \<open>auto simp: s1_def\<close>)
    ultimately show ?thesis using Cons by auto
  next
    case Nil
    then obtain k where m: "m = Suc k" using Suc.hyps(2) by (cases m) auto
    obtain s1 where s1: "mempool_alloc t sz s = ret (b, s1)" "centralFreelist s1 = centralFreelist s" "locks s1 = locks s" "mem s1 = mem s"
      "chain (mem s1) (freelist (threads s1 t) i) []"
      using allocate_again [OF sz i _ Suc.prems(1), of t b "[]"] Suc.prems Nil b by auto
    have "(mem s1)(b := w 0) = mem s1" using s1(4) Suc.prems(3,6) Nil by (simp add: fun_upd_idem)
    moreover have "\<exists>s'. alloc_many t sz (\<lambda>k. w (Suc k)) (length ([] :: addr list) + k) s1 = ret ([] @ replicate k b, s')"
      by (rule Suc.hyps(1)) (use Suc m Nil s1 in auto)
    ultimately show ?thesis using s1(1) m Nil by auto
  qed
qed simp

text \<open>
  Property C29. The pool hands out one block for ever. A thread of a program that has made no request of the size class so far
  asks for blocks of at most 16 kilobytes and keeps them; it writes what it wants into them, and zero into the first cell of
  the second (and of those it gets too often). It gets
  the blocks of a span, each once, in address order. But the second block was never taken off the
  central list: every further request returns that block again, though it is in use.
\<close>

theorem mempool_alloc_repeats:
  assumes sz: "0 < sz" "sz \<le> 16384" and i: "i = getIndex sz" and inv: "pc_inv s U"
    and empty: "freelist (threads s t) i = 0" "centralFreelist s i = 0" "\<not> locks s i"
    and heads: "\<And>k. lower_bound 8 (freeSpans s) \<noteq> Some (k, 0)" and new: "sys_new s (new_calls s) \<noteq> 0"
    and trackers: "unat (spanCount s) < length (spanTrackers s)" and mm: "sys_mmap s (mmap_calls s) (8 * PAGE_SIZE) \<noteq> None"
    and w: "w 1 = 0" "\<forall>k\<ge>block_num i. w k = 0"
  shows "\<exists>p s'. alloc_many t sz w (block_num i + m) s =
      ret (chunks p (roundUp sz) (block_num i) @ replicate m (p + roundUp sz), s') \<and>
    p \<noteq> 0 \<and> distinct (chunks p (roundUp sz) (block_num i)) \<and> p + roundUp sz \<in> set (chunks p (roundUp sz) (block_num i))"
proof -
  have le: "0 < unat sz" "unat sz \<le> 16384" using sz by (auto simp: word_le_nat_alt word_less_nat_alt)
  then have max: "sz \<le> MAX_BYTES" by (simp add: MAX_BYTES_def word_le_nat_alt)
  note r = roundUp_class [OF sz(1) max]
  define n where "n = block_num i"
  have n: "2 \<le> n" "n * unat (roundUp sz) \<le> 32768"
    using block_num_small [of i] unat_class_size [of i] r(1) le
    by (simp_all add: n_def i unat_getIndex [OF max] FREE_LIST_SIZE_eq word_less_nat_alt)
  obtain p s3 where p: "mempool_alloc t sz s = ret (p, s3)" "p \<noteq> 0" "unat p + 32768 < 2 ^ 64"
    "chain (mem s3) (centralFreelist s3 i) (tl (chunks p (roundUp sz) n))" "freelist (threads s3 t) i = 0" "locks s3 = locks s"
    using allocate_first [OF sz i inv empty heads new trackers mm] unfolding n_def by blast
  have fits: "unat p + n * unat (roundUp sz) \<le> 2 ^ 64" "0 < unat (roundUp sz)"
    using n(2) p(3) r(2) le by auto
  define b where "b = p + roundUp sz"
  define xs where "xs = map (\<lambda>k. p + of_nat k * roundUp sz) [2..<n]"
  have cs: "chunks p (roundUp sz) n = p # b # xs"
    using n(1) by (simp add: chunks_def upt_conv_Cons b_def numeral_2_eq_2 xs_def)
  have d: "distinct (p # b # xs)" using distinct_chunks [OF fits] by (simp add: cs)
  have len: "length xs = n - 2" by (simp add: xs_def)
  define s4 where "s4 = s3\<lparr>mem := (mem s3)(p := w 0)\<rparr>"
  have c4: "chain (mem s4) (centralFreelist s4 i) (b # xs)" "freelist (threads s4 t) i = 0" "\<not> locks s4 i"
    using p(4,5,6) cs d empty(3) by (simp_all add: s4_def del: fun_upd_apply chain.simps)
  obtain s5 where s5: "mempool_alloc t sz s4 = ret (b, s5)" "centralFreelist s5 = centralFreelist s4" "locks s5 = locks s4" "mem s5 = mem s4"
    "chain (mem s5) (freelist (threads s5 t) i) xs"
    using allocate_again [OF sz(1) max i c4(2,3,1)] by blast
  define s6 where "s6 = s5\<lparr>mem := (mem s5)(b := w 1)\<rparr>"
  have "\<exists>s'. alloc_many t sz (\<lambda>k. w (Suc (Suc k))) (length xs + m) s6 = ret (xs @ replicate m b, s')"
  proof (rule alloc_many_repeats [OF sz(1) max i])
    show "b \<noteq> 0" "centralFreelist s6 i = b" "\<not> locks s6 i" using c4 s5(2,3) by (auto simp: s6_def)
    show "chain (mem s6) (freelist (threads s6 t) i) xs" using s5(5) d by (simp add: s6_def del: fun_upd_apply)
    show "\<forall>k\<ge>length xs. w (Suc (Suc k)) = 0" using w(2) len n(1) by (auto simp: n_def)
  qed (use d w(1) in \<open>auto simp: s6_def\<close>)
  then obtain s' where "alloc_many t sz (\<lambda>k. w (Suc (Suc k))) (length xs + m) s6 = ret (xs @ replicate m b, s')" ..
  moreover have "n + m = Suc (Suc (length xs + m))" using len n(1) by simp
  ultimately have "alloc_many t sz w (n + m) s = ret (p # b # xs @ replicate m b, s')"
    using p(1) s5(1) by (simp add: s4_def [symmetric]) (simp add: s6_def)
  then show ?thesis using cs d p(2) unfolding n_def [symmetric] b_def by (intro exI [of _ p] exI [of _ s']) simp
qed

section \<open>Witnesses\<close>

definition demo_pool :: pool_state where
  "demo_pool = central_cache.extend demo_central \<lparr>threads = (\<lambda>_. ThreadCache_init), pool_heap = demo_heap\<rparr>"

lemma demo_pool_fields:
  "freeSpans demo_pool = []" "sys_new demo_pool = sys_new demo_central" "new_calls demo_pool = 0" "sys_mmap demo_pool = sys_mmap demo_central"
  "mmap_calls demo_pool = 0" "locks demo_pool = (\<lambda>_. False)" "centralFreelist demo_pool = (\<lambda>_. 0)" "spanCount demo_pool = 0"
  "spanTrackers demo_pool = spanTrackers demo_central" "threads demo_pool = (\<lambda>_. ThreadCache_init)" "mem demo_pool = (\<lambda>_. 0)"
  "spans demo_pool = spans demo_central" "spanMap demo_pool = spanMap demo_central"
  using demo_central_pages by (simp_all add: demo_pool_def central_cache.extend_def)

lemma demo_pool_inv: "pc_inv demo_pool {}"
  using demo_central_inv by (subst pc_inv_cong [of _ demo_central]) (simp_all add: demo_pool_fields demo_central_pages)

theorem mempool_free_alloc_witness:
  "\<exists>s1 s2. mempool_free 0 4096 20 demo_pool = ret s1 \<and> mempool_alloc 0 24 s1 = ret (4096, s2)"
  using mempool_free_alloc [of 20 24 4096 demo_pool 0]
  by (auto simp: MAX_BYTES_def getIndex_def ALIGNMENT_def max_def demo_pool_fields ThreadCache_init_def)

theorem mempool_alloc_repeats_witness:
  "\<exists>p s'. alloc_many 0 16384 (\<lambda>_. 0) 4 demo_pool = ret ([p, p + 16384, p + 16384, p + 16384], s')"
proof -
  have i: "getIndex 16384 = 2047" "roundUp 16384 = 16384" "block_num 2047 = 2"
    by (simp_all add: getIndex_def roundUp_def ALIGNMENT_def max_def block_num_small)
  have "sys_mmap demo_pool (mmap_calls demo_pool) (8 * PAGE_SIZE) \<noteq> None"
    by (simp add: demo_pool_fields demo_central_pages PAGE_SIZE_def) (simp add: demo_pages_def)
  moreover have "sys_new demo_pool (new_calls demo_pool) \<noteq> 0" by (simp add: demo_pool_fields)
  moreover have "unat (spanCount demo_pool) < length (spanTrackers demo_pool)"
    by (simp add: demo_pool_fields demo_central_pages)
  ultimately obtain p s' where "alloc_many 0 16384 (\<lambda>_. 0) (block_num 2047 + 2) demo_pool =
      ret (chunks p (roundUp 16384) (block_num 2047) @ replicate 2 (p + roundUp 16384), s')"
    using mempool_alloc_repeats [OF _ _ i(1) [symmetric] demo_pool_inv, of 0 "\<lambda>_. 0" 2]
    by (auto simp: demo_pool_fields(1,6,7,10) ThreadCache_init_def)
  moreover have "chunks p 16384 2 = [p, p + 16384]" by (simp add: chunks_def upt_rec)
  moreover have "replicate 2 (p + 16384) = [p + 16384, p + 16384]" "(2 :: nat) + 2 = 4" by (simp_all add: numeral_2_eq_2)
  ultimately show ?thesis unfolding i(2,3) by (simp only: append.simps) blast
qed

theorem mempool_free_rebalances_witness:
  "\<exists>s s' xs. length xs = 256 \<and> chain (mem s) (freelist (threads s 0) 0) xs \<and> mempool_free 0 8192 8 s = ret s' \<and>
     chain (mem s') (freelist (threads s' 0) 0) (take 64 (8192 # xs)) \<and> chain (mem s') (centralFreelist s' 0) (drop 64 (8192 # xs))"
proof -
  define c :: "addr \<Rightarrow> addr" where "c = (link_chunks 4096 8 0 (256 - 1) (\<lambda>_. 0))(4096 + of_nat (256 - 1) * 8 := 0)"
  let ?xs = "chunks 4096 8 256"
  have ch: "chain c 4096 ?xs" unfolding c_def by (rule chain_carved) simp_all
  let ?s = "demo_pool\<lparr>mem := c, threads := (\<lambda>_. \<lparr>freelist = (\<lambda>_. 4096), freelistSize = (\<lambda>_. 256)\<rparr>)\<rparr>"
  have len: "length ?xs = 256" by (simp add: chunks_def)
  have p: "8192 \<notin> set ?xs"
  proof
    assume "8192 \<in> set ?xs"
    then obtain k where k: "k < 256" "8192 = (4096 :: addr) + of_nat k * 8" by (auto simp: chunks_def)
    have "unat ((4096 :: addr) + of_nat k * 8) = unat (4096 :: addr) + k * unat (8 :: addr)"
      by (rule unat_chunk [of _ 256]) (use k in simp_all)
    then show False using k(1) unfolding k(2) [symmetric] by simp
  qed
  have delay: "\<not> shouldPerformDelayReturn 0 (delayCounts ?s 0 + 1) (steady_clock ?s (clock_calls ?s)) ?s"
    by (simp add: shouldPerformDelayReturn_def MAX_DELAY_COUNT_def DELAY_INTERVAL_def demo_pool_def central_cache.extend_def
        demo_central_def CentralCache_init_def page_cache.extend_def FREE_LIST_SIZE_eq word_le_nat_alt)
  have "\<exists>s'. mempool_free 0 8192 8 ?s = ret s' \<and> freelistSize (threads s' 0) 0 = 64 \<and>
    chain (mem s') (freelist (threads s' 0) 0) (take 64 (8192 # ?xs)) \<and> chain (mem s') (centralFreelist s' 0) (drop 64 (8192 # ?xs) @ [])"
    by (rule mempool_free_rebalances [OF _ _ _ _ len _ _ _ p _ _ delay])
      (use ch in \<open>simp_all add: MAX_BYTES_def getIndex_def ALIGNMENT_def demo_pool_fields\<close>)
  moreover have "chain (mem ?s) (freelist (threads ?s 0) 0) ?xs" using ch by simp
  ultimately show ?thesis using len by (metis append_Nil2)
qed

end
