(* ===== verification/Test_Pools.thy ===== *)
theory Test_Pools
  imports Thread_Cache
begin

text \<open>
  The programs that exercise the pools: the benchmark of the chunk pool (\<^verbatim>\<open>src/test.c\<close>), the benchmark of the
  thread-caching pool (\<^verbatim>\<open>src/testmem.c\<close>) and its unit test (\<^verbatim>\<open>src/mempool/tests/UnitTest.cpp\<close>). Clocks
  and output are left out. They compose the models of the pools with their callers.
\<close>

section \<open>The benchmark of the chunk pool\<close>

definition TEST_COUNT :: nat where
  "TEST_COUNT = 1000000"

definition CHUNK_SIZE :: size_t where
  "CHUNK_SIZE = 4"

definition BLOCK_COUNT :: size_t where
  "BLOCK_COUNT = 2000"

text \<open>
  The loop that fills the array \<open>ptrs\<close> from index \<open>i\<close> on, \<open>n\<close> rounds at most; it stops at a null
  pointer. An entry that was never written is \<open>None\<close>, and its value indeterminate.
\<close>

fun pool_fill :: "nat \<Rightarrow> nat \<Rightarrow> mem_pool option \<Rightarrow> heap \<Rightarrow> (nat \<rightharpoonup> addr) \<Rightarrow> mem_pool option \<times> (nat \<rightharpoonup> addr)" where
  "pool_fill i 0 mp h ptrs = (mp, ptrs)"
| "pool_fill i (Suc n) mp h ptrs =
     (let (p, mp1) = kvs_mempool_alloc mp h; ptrs1 = ptrs(i \<mapsto> p)
      in if p = 0 then (mp1, ptrs1) else pool_fill (Suc i) n mp1 h ptrs1)"

fun pool_drain :: "nat \<Rightarrow> nat \<Rightarrow> mem_pool option \<Rightarrow> heap \<Rightarrow> (nat \<rightharpoonup> addr) \<Rightarrow> (mem_pool option \<times> heap) res" where
  "pool_drain i 0 mp h ptrs = ret (mp, h)"
| "pool_drain i (Suc n) mp h ptrs =
     (case ptrs i of
        None \<Rightarrow> undef
      | Some p \<Rightarrow> let (mp1, h1) = kvs_mempool_free mp p h in pool_drain (Suc i) n mp1 h1 ptrs)"

fun sys_fill :: "nat \<Rightarrow> nat \<Rightarrow> heap \<Rightarrow> (nat \<rightharpoonup> addr) \<Rightarrow> heap \<times> (nat \<rightharpoonup> addr)" where
  "sys_fill i 0 h ptrs = (h, ptrs)"
| "sys_fill i (Suc n) h ptrs =
     (let (p, h1) = malloc CHUNK_SIZE h; ptrs1 = ptrs(i \<mapsto> p)
      in if p = 0 then (h1, ptrs1) else sys_fill (Suc i) n h1 ptrs1)"

fun sys_drain :: "nat \<Rightarrow> nat \<Rightarrow> heap \<Rightarrow> (nat \<rightharpoonup> addr) \<Rightarrow> heap res" where
  "sys_drain i 0 h ptrs = ret h"
| "sys_drain i (Suc n) h ptrs =
     (case ptrs i of None \<Rightarrow> undef | Some p \<Rightarrow> sys_drain (Suc i) n (free p h) ptrs)"

definition pool_benchmark :: "heap \<Rightarrow> (int \<times> heap) res" where
  "pool_benchmark h =
     (let (a, h1) = malloc (of_nat TEST_COUNT * sizeof_ptr) h
      in if a = 0 then ret (1, h1)
         else let (mp, h2) = kvs_mempool_create CHUNK_SIZE BLOCK_COUNT h1
              in if mp = None then ret (1, free a h2)
                 else let (mp1, ptrs) = pool_fill 0 TEST_COUNT mp h2 Map.empty
                      in rbind (pool_drain 0 TEST_COUNT mp1 h2 ptrs) (\<lambda>(mp2, h3).
                           let (h4, ptrs1) = sys_fill 0 TEST_COUNT h3 ptrs
                           in rbind (sys_drain 0 TEST_COUNT h4 ptrs1) (\<lambda>h5.
                                ret (0, free a (kvs_mempool_destory mp2 h5)))))"

text \<open>A chain of free chunks is handed out to its end; the next entry is null, and those behind it are not written.\<close>

lemma pool_fill_chain:
  assumes "initialized mp" and "chain (cell h) (free_list mp) as" and "length as < n" and "i + length as < j"
  shows "snd (pool_fill i n (Some mp) h ptrs) j = ptrs j"
  using assms
proof (induction as arbitrary: i n mp ptrs)
  case Nil
  then show ?case by (cases n) (auto simp: kvs_mempool_alloc_def)
next
  case (Cons a as)
  then obtain n' where n: "n = Suc n'" by (cases n) auto
  have a: "free_list mp = a" "a \<noteq> 0" "chain (cell h) (cell h a) as" using Cons.prems(2) by auto
  have "snd (pool_fill (Suc i) n' (Some (mp\<lparr>free_list := cell h a\<rparr>)) h (ptrs(i \<mapsto> a))) j = (ptrs(i \<mapsto> a)) j"
    using Cons.prems n a(3) by (intro Cons.IH) auto
  then show ?case using Cons.prems(1,4) n a by (simp add: kvs_mempool_alloc_def)
qed

lemma pool_drain_undefined: "ptrs j = None \<Longrightarrow> i \<le> j \<Longrightarrow> j < i + n \<Longrightarrow> pool_drain i n mp h ptrs = undef"
proof (induction n arbitrary: i mp h)
  case (Suc n)
  show ?case
  proof (cases "i = j")
    case False
    with Suc.prems have "Suc i \<le> j" "j < Suc i + n" by auto
    from Suc.IH [OF Suc.prems(1) this] show ?thesis by (auto split: option.splits prod.splits)
  qed (use Suc.prems in simp)
qed simp

text \<open>
  The benchmark asks a pool of 2000 chunks for a million and then releases a million pointers: when it
  can create the pool it uses indeterminate values.
\<close>

theorem pool_benchmark_undefined:
  assumes "malloc (of_nat TEST_COUNT * sizeof_ptr) h = (a, h1)" and "a \<noteq> 0"
    and "kvs_mempool_create CHUNK_SIZE BLOCK_COUNT h1 = (Some mp, h2)" and "unat (pool_data mp) + 16000 \<le> 2 ^ 64"
  shows "pool_benchmark h = undef"
proof -
  note D = kvs_mempool_createD [OF assms(3)]
  have cs: "chunk_size mp = 8" using D(4) by (simp add: align_up_def sizeof_ptr_def CHUNK_SIZE_def)
  have ch: "chain (cell h2) (free_list mp) (chunks (pool_data mp) 8 2000)"
    using kvs_mempool_create_chain [OF assms(3)] assms(4) by (simp add: cs BLOCK_COUNT_def)
  have "snd (pool_fill 0 TEST_COUNT (Some mp) h2 Map.empty) 2001 = None"
    using pool_fill_chain [OF D(3) ch, of TEST_COUNT 0 2001 Map.empty] by (simp add: chunks_def TEST_COUNT_def)
  then have "pool_drain 0 TEST_COUNT mp1 h2 (snd (pool_fill 0 TEST_COUNT (Some mp) h2 Map.empty)) = undef" for mp1
    using pool_drain_undefined [of _ 2001] by (simp add: TEST_COUNT_def)
  then show ?thesis using assms(1-3)
    by (cases "pool_fill 0 TEST_COUNT (Some mp) h2 Map.empty") (simp add: pool_benchmark_def)
qed

theorem pool_benchmark_undefined_witness: "pool_benchmark demo_heap = undef"
proof -
  obtain h1 where h1: "malloc (of_nat TEST_COUNT * sizeof_ptr) demo_heap = (65536, h1)" "sys_malloc h1 = sys_malloc demo_heap" "malloc_calls h1 = 1"
    by (simp add: malloc_def demo_heap_def)
  then obtain mp h2 where mp: "kvs_mempool_create CHUNK_SIZE BLOCK_COUNT h1 = (Some mp, h2)" "pool_data mp = 196608"
    by (simp add: kvs_mempool_create_def malloc_def demo_heap_def Let_def CHUNK_SIZE_def BLOCK_COUNT_def)
  show ?thesis using pool_benchmark_undefined [OF h1(1) _ mp(1)] mp(2) by simp
qed

section \<open>The benchmark of the thread-caching pool\<close>

definition testmem_N :: nat where
  "testmem_N = 1000000"

definition BLOCK_SIZE :: size_t where
  "BLOCK_SIZE = 8"

text \<open>The main thread is thread 0. The loop returns the pointers it stored, in order.\<close>

fun testmem_fill :: "nat \<Rightarrow> pool_state \<Rightarrow> (addr list \<times> pool_state) res" where
  "testmem_fill 0 s = ret ([], s)"
| "testmem_fill (Suc n) s =
     rbind (mempool_alloc 0 BLOCK_SIZE s) (\<lambda>(p, s1).
       rbind (testmem_fill n s1) (\<lambda>(ps, s2). ret (p # ps, s2)))"

fun testmem_drain :: "addr list \<Rightarrow> pool_state \<Rightarrow> pool_state res" where
  "testmem_drain [] s = ret s"
| "testmem_drain (p # ps) s = rbind (mempool_free 0 p BLOCK_SIZE s) (testmem_drain ps)"

fun malloc_fill :: "nat \<Rightarrow> heap \<Rightarrow> addr list \<times> heap" where
  "malloc_fill 0 h = ([], h)"
| "malloc_fill (Suc n) h = (let (p, h1) = malloc BLOCK_SIZE h; (ps, h2) = malloc_fill n h1 in (p # ps, h2))"

definition testmem_main :: "pool_state \<Rightarrow> (int \<times> pool_state) res" where
  "testmem_main s =
     rbind (testmem_fill testmem_N s) (\<lambda>(ptrs, s1).
       rbind (testmem_drain ptrs s1) (\<lambda>s2.
         let (ptrs', h) = malloc_fill testmem_N (pool_heap s2)
         in ret (0, s2\<lparr>pool_heap := fold free ptrs' h\<rparr>)))"

text \<open>
  What a thread gets that writes nothing into its blocks, when the central list holds \<open>b # xs\<close>: first the
  blocks of its own list, then \<open>b # xs\<close> again and again.
\<close>

lemma testmem_fill_cycles:
  assumes "i = getIndex BLOCK_SIZE"
  shows "\<not> locks s i \<Longrightarrow> chain (mem s) (centralFreelist s i) (b # xs) \<Longrightarrow> chain (mem s) (freelist (threads s 0) i) ys \<Longrightarrow>
    \<exists>ps s'. testmem_fill n s = ret (ps, s') \<and> length ps = n \<and> set ps \<subseteq> set ys \<union> set (b # xs) \<and> take (length ys) ps = take n ys"
proof (induction n arbitrary: s ys)
  case (Suc n)
  have sz: "0 < BLOCK_SIZE" "BLOCK_SIZE \<le> MAX_BYTES" by (simp_all add: BLOCK_SIZE_def MAX_BYTES_def)
  show ?case
  proof (cases ys)
    case (Cons y ys')
    define s1 where "s1 = set_list 0 i (mem s y) (set_size 0 i (freelistSize (threads s 0) i - 1) s)"
    have "mempool_alloc 0 BLOCK_SIZE s = ret (y, s1)"
      using allocate_list [OF sz, of s 0] Suc.prems(3) Cons by (simp add: assms [symmetric] s1_def)
    with Suc.IH [of s1 ys'] Suc.prems Cons show ?thesis by (auto simp: s1_def)
  next
    case Nil
    obtain s1 where s1: "mempool_alloc 0 BLOCK_SIZE s = ret (b, s1)" "centralFreelist s1 = centralFreelist s" "locks s1 = locks s"
      "mem s1 = mem s" "chain (mem s1) (freelist (threads s1 0) i) xs"
      using allocate_again [OF sz assms _ Suc.prems(1,2), of 0] Suc.prems(3) Nil by auto
    with Suc.IH [of s1 xs] Suc.prems Nil show ?thesis by auto
  qed
qed simp

lemma chunks_two: "1 < n \<Longrightarrow> \<exists>b xs. chunks d cs n = d # b # xs"
  by (simp add: chunks_def upt_conv_Cons)

text \<open>
  A million allocations of the benchmark return the 4096 blocks of one span: every block but the first
  is handed out again although nothing was released.
\<close>

theorem testmem_blocks_shared:
  assumes "pc_inv s U" and "threads s 0 = ThreadCache_init" and "centralFreelist s = (\<lambda>i. 0)" and "locks s = (\<lambda>i. False)"
    and "\<And>k. lower_bound 8 (freeSpans s) \<noteq> Some (k, 0)" and "sys_new s (new_calls s) \<noteq> 0"
    and "unat (spanCount s) < length (spanTrackers s)" and "sys_mmap s (mmap_calls s) (8 * PAGE_SIZE) \<noteq> None"
  shows "\<exists>p ps s'. testmem_fill testmem_N s = ret (p # ps, s') \<and> length ps = testmem_N - 1 \<and> p \<notin> set ps \<and>
    set ps \<subseteq> set (tl (chunks p 8 4096))"
proof -
  have i: "getIndex BLOCK_SIZE = 0" "roundUp BLOCK_SIZE = 8" by code_simp+
  have n: "block_num 0 = 4096" by (subst block_num_small) simp_all
  obtain p s1 where p: "mempool_alloc 0 BLOCK_SIZE s = ret (p, s1)" "p \<noteq> 0" "unat p + 32768 < 2 ^ 64"
    "chain (mem s1) (centralFreelist s1 0) (tl (chunks p 8 4096))" "freelist (threads s1 0) 0 = 0" "locks s1 = locks s"
    using allocate_first [of BLOCK_SIZE 0 s U 0] assms
    by (simp add: i n ThreadCache_init_def) (auto simp: BLOCK_SIZE_def)
  have d: "distinct (chunks p 8 4096)" using p(3) by (intro distinct_chunks) simp_all
  obtain b xs where bx: "chunks p 8 4096 = p # b # xs" using chunks_two [of 4096 p 8] by auto
  obtain ps s' where "testmem_fill (testmem_N - 1) s1 = ret (ps, s')" "length ps = testmem_N - 1" "set ps \<subseteq> set (b # xs)"
    using testmem_fill_cycles [of 0 s1 b xs "[]" "testmem_N - 1"] p(4,5,6) bx assms(4) i(1) by auto
  moreover have "p \<notin> set (b # xs)" using d bx by simp
  moreover have "testmem_N = Suc (testmem_N - 1)" by (simp add: testmem_N_def)
  ultimately show ?thesis using p(1) bx testmem_fill.simps(2) [of "testmem_N - 1" s] by auto
qed

section \<open>The unit test\<close>

definition testBasicAllocation :: "pool_state \<Rightarrow> pool_state res" where
  "testBasicAllocation s =
     rbind (allocate 0 8 s) (\<lambda>(ptr1, s1).
       if ptr1 = 0 then abort
       else rbind (deallocate 0 ptr1 8 s1) (\<lambda>s2.
         rbind (allocate 0 (1024 * 1024) s2) (\<lambda>(ptr3, s3).
           if ptr3 = 0 then abort else deallocate 0 ptr3 (1024 * 1024) s3)))"

text \<open>The unit test passes when the system gives it memory, for a thread that starts with empty lists.\<close>

theorem unit_test_passes:
  assumes "pc_inv s U" and "threads s 0 = ThreadCache_init" and "centralFreelist s = (\<lambda>i. 0)" and "locks s = (\<lambda>i. False)"
    and "\<And>k. lower_bound 8 (freeSpans s) \<noteq> Some (k, 0)" and "sys_new s (new_calls s) \<noteq> 0"
    and "unat (spanCount s) < length (spanTrackers s)" and "sys_mmap s (mmap_calls s) (8 * PAGE_SIZE) \<noteq> None"
    and "fst (malloc 1048576 (pool_heap s)) \<noteq> 0"
  shows "\<exists>s'. testBasicAllocation s = ret s'"
proof -
  have i: "getIndex 8 = 0" by code_simp
  obtain p s1 where p: "allocate 0 8 s = ret (p, s1)" "p \<noteq> 0" "freelistSize (threads s1 0) 0 = 0" "pool_heap s1 = pool_heap s"
    using allocate_first [of 8 0 s U 0] assms by (auto simp: i ThreadCache_init_def mempool_alloc_def)
  define s2 where "s2 = set_size 0 0 1 (set_list 0 0 p (s1\<lparr>mem := (mem s1)(p := freelist (threads s1 0) 0)\<rparr>))"
  have "deallocate 0 p 8 s1 = ret s2"
    using p(2,3) by (simp add: deallocate_def i MAX_BYTES_def shouldReturnToCentralCache_def Let_def s2_def)
  moreover have "pool_heap s2 = pool_heap s" using p(4) by (simp add: s2_def set_size_def set_list_def)
  then obtain q s3 where "allocate 0 (1024 * 1024) s2 = ret (q, s3)" "q \<noteq> 0"
    using assms(9) by (cases "malloc 1048576 (pool_heap s)") (simp add: allocate_def MAX_BYTES_def)
  ultimately show ?thesis using p(1,2) by (simp add: testBasicAllocation_def deallocate_def MAX_BYTES_def)
qed

end
